(* ===== verification/Prelude.thy ===== *)
theory Prelude
  imports Main "HOL-Library.Word" "HOL-Library.Code_Target_Nat"
begin

text \<open>
  Shared ground of the development: the machine integer types, the shape of a C operation
  that mutates a structure and may fail, big-endian byte strings, block writes into a
  buffer, and the bit lemmas the components use. A C function
  \<open>int f(S *s, ..., T *out)\<close> that returns one on success and zero on failure is a function
  \<open>('s, 't) op\<close>: it takes the structure and returns the output (\<open>None\<close> for a zero return)
  together with the structure as the call leaves it, on failure too. An out parameter of a
  call that returned zero is not part of the model: no caller may read it.
\<close>

unbundle bit_operations_syntax

named_theorems opsimps \<open>unfolding and case rules of the operation combinators\<close>
named_theorems wsimps \<open>evaluation of ground word terms\<close>

type_synonym u8 = "8 word"
type_synonym u16 = "16 word"
type_synonym u32 = "32 word"
type_synonym u64 = "64 word"
type_synonym bytes = "8 word list"

abbreviation SIZE_MOD :: nat where
  "SIZE_MOD \<equiv> 18446744073709551616" \<comment> \<open>two to the 64, the range of size_t\<close>

section \<open>Operations that mutate and may fail\<close>

type_synonym ('s, 'a) op = "'s \<Rightarrow> 'a option \<times> 's"

definition opret :: "'a \<Rightarrow> ('s, 'a) op" where
  [opsimps]: "opret v = (\<lambda>s. (Some v, s))"

definition opfail :: "('s, 'a) op" where
  [opsimps]: "opfail = (\<lambda>s. (None, s))"

definition opbind :: "('s, 'a) op \<Rightarrow> ('a \<Rightarrow> ('s, 'b) op) \<Rightarrow> ('s, 'b) op" where
  [opsimps]: "opbind m f =
     (\<lambda>s. case m s of (None, s') \<Rightarrow> (None, s') | (Some v, s') \<Rightarrow> f v s')"

definition opguard :: "bool \<Rightarrow> ('s, unit) op" where
  [opsimps]: "opguard b = (if b then opret () else opfail)"

lemma opbind_cong [fundef_cong]:
  assumes "m s = m' s'" and "s = s'" and "\<And>v t. m' s' = (Some v, t) \<Longrightarrow> f v t = f' v t"
  shows "opbind m f s = opbind m' f' s'"
  using assms by (auto simp: opbind_def split: prod.splits option.splits)

lemma opbind_Some_iff:
  "opbind m f s = (Some y, t) \<longleftrightarrow> (\<exists>v s'. m s = (Some v, s') \<and> f v s' = (Some y, t))"
  by (auto simp: opbind_def split: prod.splits option.splits)

lemma opbind_Some: "m s = (Some v, s') \<Longrightarrow> opbind m f s = f v s'"
  by (simp add: opbind_def)

lemma opbind_None: "m s = (None, s') \<Longrightarrow> opbind m f s = (None, s')"
  by (simp add: opbind_def)

lemma opret_iff: "opret v s = (Some y, t) \<longleftrightarrow> y = v \<and> t = s"
  by (auto simp: opret_def)

lemma opguard_Some_iff: "opguard b s = (Some u, t) \<longleftrightarrow> b \<and> t = s"
  by (auto simp: opguard_def opret_def opfail_def)

lemma opfail_iff: "opfail s = (Some y, t) \<longleftrightarrow> False"
  by (auto simp: opfail_def)

lemmas op_iffs = opbind_Some_iff opret_iff opguard_Some_iff opfail_iff

section \<open>Block writes and moves\<close>

definition write_at :: "nat \<Rightarrow> 'a list \<Rightarrow> 'a list \<Rightarrow> 'a list" where
  "write_at off bs xs = take off xs @ bs @ drop (off + length bs) xs"

definition move_block :: "nat \<Rightarrow> nat \<Rightarrow> nat \<Rightarrow> 'a list \<Rightarrow> 'a list" where
  "move_block dst src n xs = write_at dst (take n (drop src xs)) xs"

lemma length_write_at [simp]:
  "off + length bs \<le> length xs \<Longrightarrow> length (write_at off bs xs) = length xs"
  by (simp add: write_at_def)

lemma write_at_append:
  "off = length ys \<Longrightarrow> length bs = length zs \<Longrightarrow> write_at off bs (ys @ zs @ xs) = ys @ bs @ xs"
  by (simp add: write_at_def)

lemma take_write_at: "n \<le> off \<Longrightarrow> off \<le> length xs \<Longrightarrow> take n (write_at off bs xs) = take n xs"
  by (simp add: write_at_def min_def)

lemma append_eq_prefixE:
  assumes "xs @ ys = us @ vs" and "length xs \<le> length us"
  obtains zs where "us = xs @ zs" and "ys = zs @ vs"
  using assms by (auto simp: append_eq_append_conv2)

section \<open>Big-endian byte strings\<close>

definition be_nat :: "bytes \<Rightarrow> nat" where
  "be_nat bs = foldl (\<lambda>r b. 256 * r + unat b) 0 bs"

lemma be_nat_Nil [simp]: "be_nat [] = 0"
  by (simp add: be_nat_def)

lemma be_nat_snoc [simp]: "be_nat (bs @ [b]) = 256 * be_nat bs + unat b"
  by (simp add: be_nat_def)

lemma be_nat_append: "be_nat (xs @ ys) = be_nat xs * 256 ^ length ys + be_nat ys"
  by (induction ys rule: rev_induct) (simp_all add: algebra_simps flip: append_assoc)

lemma be_nat_single [simp]: "be_nat [b] = unat b"
  using be_nat_snoc [of "[]" b] by simp

lemma be_nat_Cons: "be_nat (b # bs) = unat b * 256 ^ length bs + be_nat bs"
  using be_nat_append [of "[b]" bs] by simp

lemma be_nat_less: "be_nat bs < 256 ^ length bs"
proof (induction bs rule: rev_induct)
  case Nil
  then show ?case by simp
next
  case (snoc b bs)
  have "unat b < 256" using unsigned_less [of b] by simp
  with snoc show ?case by simp
qed

lemma be_nat_replicate_0: "be_nat (replicate n 0 @ bs) = be_nat bs"
  by (induction n) (simp_all add: be_nat_Cons)

lemma be_nat_inj:
  assumes "length xs = length ys" and "be_nat xs = be_nat ys"
  shows "xs = ys"
  using assms
proof (induction xs ys rule: rev_induct2)
  case (4 x xs y ys)
  have lt: "unat x < 256" "unat y < 256" using unsigned_less [of x] unsigned_less [of y] by simp_all
  have eq: "256 * be_nat xs + unat x = 256 * be_nat ys + unat y" using 4(3) by simp
  have "unat x = unat y" using arg_cong [OF eq, of "\<lambda>n. n mod 256"] lt by simp
  with 4(1,2) eq show ?case by (simp add: word_unat_eq_iff)
qed simp_all

primrec be_bytes :: "nat \<Rightarrow> nat \<Rightarrow> bytes" where
  "be_bytes 0 n = []"
| "be_bytes (Suc k) n = be_bytes k (n div 256) @ [word_of_nat n]"

lemma length_be_bytes [simp]: "length (be_bytes k n) = k"
  by (induction k arbitrary: n) simp_all

lemma unat_u8_of_nat: "unat (word_of_nat n :: u8) = n mod 256"
  by (simp add: unat_of_nat)

lemma unat_of_nat_u64: "n < SIZE_MOD \<Longrightarrow> unat (word_of_nat n :: u64) = n"
  by (simp add: unat_of_nat)

lemma be_nat_be_bytes: "be_nat (be_bytes k n) = n mod 256 ^ k"
proof (induction k arbitrary: n)
  case (Suc k)
  then show ?case by (simp add: unat_u8_of_nat mod_mult2_eq)
qed simp

lemma be_bytes_be_nat: "length bs = k \<Longrightarrow> be_bytes k (be_nat bs) = bs"
  by (rule be_nat_inj) (use be_nat_less [of bs] in \<open>simp_all add: be_nat_be_bytes\<close>)

text \<open>The usual C test for overflow of a \<open>size_t\<close> sum.\<close>

lemma size_add_wraps:
  assumes "a < SIZE_MOD" and "n < SIZE_MOD"
  shows "(a + n) mod SIZE_MOD < a \<longleftrightarrow> SIZE_MOD \<le> a + n"
proof (cases "a + n < SIZE_MOD")
  case False
  then have "(a + n) mod SIZE_MOD = a + n - SIZE_MOD"
    using assms mod_less [of "a + n - SIZE_MOD" SIZE_MOD] by (simp add: le_mod_geq)
  with False assms show ?thesis by simp
qed simp

section \<open>Bits of words\<close>

lemma push_or_add:
  fixes a b :: "'a::len word"
  assumes "unat b < 2 ^ n"
  shows "push_bit n a OR b = push_bit n a + b"
proof -
  have b: "take_bit n b = b"
    using assms by (simp add: word_unat_eq_iff unsigned_take_bit_eq take_bit_nat_eq_self)
  have "push_bit n a AND take_bit n b = 0"
    by (rule bit_eqI) (auto simp: bit_simps)
  then have "push_bit n a AND b = 0" by (simp only: b)
  then show ?thesis by (rule disjunctive_add_eq_or [symmetric])
qed

lemma bit_iff_odd_unat: "bit (a :: 'a::len word) n \<longleftrightarrow> odd (unat a div 2 ^ n)"
proof -
  have "bit a n \<longleftrightarrow> bit (unat a) n" by (auto simp: bit_unsigned_iff dest: bit_imp_possible_bit)
  then show ?thesis by (simp only: bit_iff_odd)
qed

lemma unat_u64_less [simp]: "unat (a :: u64) < SIZE_MOD"
  using unsigned_less [of a] by simp

lemma xor_eq_0_iff: "(a :: 'a::len word) XOR b = 0 \<longleftrightarrow> a = b"
  by (auto simp: bit_eq_iff bit_simps)

lemma unat_u8_less [simp]: "unat (b :: u8) < 256"
  using unsigned_less [of b] by simp

lemma unat_ucast_u8 [simp]: "LENGTH('a) \<ge> 8 \<Longrightarrow> unat (ucast (b :: u8) :: 'a::len word) = unat b"
proof -
  assume "LENGTH('a) \<ge> 8"
  then have "(256::nat) \<le> 2 ^ LENGTH('a)" using power_increasing [of 8 "LENGTH('a)" "2::nat"] by simp
  then have "unat b < 2 ^ LENGTH('a)" using unat_u8_less [of b] by linarith
  then show ?thesis by (simp add: unsigned_ucast_eq take_bit_nat_eq_self)
qed

lemma all_u8_upt: "(\<forall>b::u8. P b) \<longleftrightarrow> list_all (\<lambda>n. P (word_of_nat n)) [0..<256]"
proof
  assume "list_all (\<lambda>n. P (word_of_nat n)) [0..<256]"
  then have all: "\<forall>n < 256. P (word_of_nat n)" by (simp add: list_all_iff)
  show "\<forall>b::u8. P b"
  proof
    fix b :: u8
    have "P (word_of_nat (unat b))" using all unat_u8_less [of b] by blast
    then show "P b" by simp
  qed
qed (simp add: list_all_iff)

lemma unat_low_bits:
  fixes c :: "'a::len word"
  shows "unat (c AND 0x7) = unat c mod 8" and "unat (c AND 0xf) = unat c mod 16"
    and "unat (c AND 0x1f) = unat c mod 32" and "unat (c AND 0x3f) = unat c mod 64"
proof -
  have m: "unat (c AND mask n) = unat c mod 2 ^ n" for n
    by (simp only: take_bit_eq_mask [symmetric] unsigned_take_bit_eq) (simp add: take_bit_eq_mod)
  show "unat (c AND 0x7) = unat c mod 8" "unat (c AND 0xf) = unat c mod 16"
    "unat (c AND 0x1f) = unat c mod 32" "unat (c AND 0x3f) = unat c mod 64"
    using m [of 3] m [of 4] m [of 5] m [of 6] by (simp_all add: mask_eq_exp_minus_1)
qed

lemma div_mod_digit: "r < k \<Longrightarrow> (x::nat) = q * k + r \<longleftrightarrow> x div k = q \<and> x mod k = r"
  by (metis add.commute add.right_neutral div_less div_mult_mod_eq div_mult_self3 mod_less mod_mult_self3 not_less_zero)

lemma unat_push_or:
  fixes v w :: "'a::len word"
  assumes "unat w < 2 ^ k" and "unat v * 2 ^ k + unat w < 2 ^ LENGTH('a)"
  shows "unat (push_bit k v OR w) = unat v * 2 ^ k + unat w"
proof -
  have "unat (push_bit k v) = unat v * 2 ^ k"
    using assms(2) by (simp add: unsigned_push_bit_eq push_bit_eq_mult [of k "unat v"] take_bit_nat_eq_self)
  then have "unat (push_bit k v + w) = (unat v * 2 ^ k + unat w) mod 2 ^ LENGTH('a)"
    using unat_word_ariths(1) [of "push_bit k v" w] by simp
  also have "\<dots> = unat v * 2 ^ k + unat w" using assms(2) by (rule mod_less)
  finally show ?thesis by (simp only: push_or_add [OF assms(1)])
qed

lemma unat_shift_right: "unat (drop_bit n (u :: 'a::len word)) = unat u div 2 ^ n"
  using unsigned_less [of u, where 'a = nat]
  by (simp only: unsigned_drop_bit_eq) (simp add: drop_bit_eq_div take_bit_nat_eq_self)

lemma ucast_u8_of_unat: "(ucast (u :: u32) :: u8) = word_of_nat (unat u)"
  by (simp add: word_unat_eq_iff unat_of_nat unsigned_ucast_eq take_bit_eq_mod)

lemma digit_less: "(x::nat) < m \<Longrightarrow> d < k \<Longrightarrow> x * k + d < m * k"
  using mult_le_mono1 [of "Suc x" m k] by simp

lemma be_bytes_upt: "be_bytes k n = map (\<lambda>i. word_of_nat (n div 256 ^ (k - 1 - i))) [0..<k]"
proof (induction k arbitrary: n)
  case (Suc k)
  have "map (\<lambda>i. word_of_nat (n div 256 div 256 ^ (k - 1 - i)) :: u8) [0..<k] =
      map (\<lambda>i. word_of_nat (n div 256 ^ (k - i))) [0..<k]"
  proof (rule map_cong [OF refl])
    fix i assume "i \<in> set [0..<k]"
    then have "k - i = Suc (k - 1 - i)" by auto
    then have "(256::nat) ^ (k - i) = 256 * 256 ^ (k - 1 - i)" by simp
    then show "word_of_nat (n div 256 div 256 ^ (k - 1 - i)) = (word_of_nat (n div 256 ^ (k - i)) :: u8)"
      by (simp only: div_mult2_eq)
  qed
  with Suc show ?case by simp
qed simp

lemma ucast_drop_byte: "(ucast (drop_bit (8 * j) (v :: u64)) :: u8) = word_of_nat (unat v div 256 ^ j)"
proof -
  have "(2::nat) ^ (8 * j) = 256 ^ j" by (simp add: power_mult)
  then have "unat (drop_bit (8 * j) v) = unat v div 256 ^ j"
    by (simp add: unat_drop_bit_eq drop_bit_eq_div [of _ "unat v"] del: drop_bit_eq_div)
  moreover have "(ucast (drop_bit (8 * j) v) :: u8) = word_of_nat (unat (drop_bit (8 * j) v))" by simp
  ultimately show ?thesis by (simp only:)
qed

section \<open>Seven-bit digits\<close>

lemma mask_literals:
  "(0xe0 :: 'a::len word) = push_bit 5 (mask 3)" "(0x1f :: 'a word) = mask 5"
  "(0x7f :: 'a word) = mask 7" "(0x1fffffff :: 'a word) = mask 29"
  by (simp_all add: mask_eq_exp_minus_1 push_bit_eq_mult)

lemma u8_bits_80_7f:
  "(b::u8) AND 0x80 \<noteq> 0 \<longleftrightarrow> 128 \<le> unat b" "unat ((b::u8) AND 0x7f) = unat b mod 128"
proof -
  have "b AND 0x80 = 0 \<longleftrightarrow> \<not> bit b 7"
    using and_exp_eq_0_iff_not_bit [of b 7] by simp
  also have "\<dots> \<longleftrightarrow> unat b div 128 = 0"
  proof -
    have "unat b div 128 = (if 128 \<le> unat b then 1 else 0)"
      using unat_u8_less [of b] by (auto intro: div_nat_eqI)
    then show ?thesis by (simp add: bit_iff_odd_unat)
  qed
  finally show "b AND 0x80 \<noteq> 0 \<longleftrightarrow> 128 \<le> unat b" by (auto simp: div_eq_0_iff)
  have "b AND 0x7f = take_bit 7 b" by (simp add: take_bit_eq_mask mask_eq_exp_minus_1)
  then show "unat (b AND 0x7f) = unat b mod 128"
    by (simp add: unsigned_take_bit_eq take_bit_eq_mod [of 7 "unat b"])
qed

lemma u8_80: "(b::u8) AND 0x80 = 0 \<longleftrightarrow> unat b < 128"
  using u8_bits_80_7f(1) [of b] by auto

lemma drop_bit_7_unat: "unat (drop_bit 7 (w :: u64)) = unat w div 128"
  by (simp add: unat_drop_bit_eq drop_bit_eq_div [of 7 "unat w"] del: drop_bit_eq_div)

lemma low_7_byte: "(ucast ((w :: u64) AND 0x7f) :: u8) = word_of_nat (unat w mod 128)"
proof -
  have "w AND 0x7f = take_bit 7 w" by (simp add: take_bit_eq_mask mask_literals(3))
  then have "unat (w AND 0x7f) = unat w mod 128"
    by (simp add: unsigned_take_bit_eq take_bit_eq_mod [of 7 "unat w"])
  moreover have "(ucast (w AND 0x7f) :: u8) = word_of_nat (unat (w AND 0x7f))" by simp
  ultimately show ?thesis by metis
qed

lemma more_7_byte: "(ucast ((w :: u64) AND 0x7f) OR 0x80 :: u8) = word_of_nat (unat w mod 128 + 128)"
proof -
  have b: "unat (word_of_nat (unat w mod 128) :: u8) < 2 ^ 7" by (simp add: unat_u8_of_nat)
  have "(0x80 :: u8) = push_bit 7 1" by (simp add: push_bit_eq_mult)
  then show ?thesis
    using push_or_add [OF b, of 1] unfolding low_7_byte by (simp add: or.commute add.commute push_bit_eq_mult)
qed

end
