(* ===== verification/Mem.thy ===== *)
theory Mem
  imports Prelude
begin

text \<open>
  The branch-free comparisons of \<^verbatim>\<open>crypto/internal.h\<close> (a mask is all ones or zero) and the
  memory and string helpers of \<^verbatim>\<open>crypto/mem.c\<close>. \<open>crypto_word_t\<close> is the 64-bit word of the
  arm64 and x86-64 builds. A C string is the list of its bytes, its terminator implied at the
  end of the list (\<open>c_at\<close> reads 0 there); a byte 0 inside the list ends the string earlier, as
  it does in C. The lemmas show that the masks are the comparisons they stand for, and what
  each string routine returns and writes.
\<close>

section \<open>Constant-time masks\<close>

definition constant_time_msb_w :: "u64 \<Rightarrow> u64" where
  "constant_time_msb_w a = 0 - drop_bit (64 - 1) a"

definition constant_time_lt_w :: "u64 \<Rightarrow> u64 \<Rightarrow> u64" where
  "constant_time_lt_w a b = constant_time_msb_w (a XOR ((a XOR b) OR ((a - b) XOR a)))"

definition constant_time_lt_8 :: "u64 \<Rightarrow> u64 \<Rightarrow> u8" where
  "constant_time_lt_8 a b = ucast (constant_time_lt_w a b)"

definition constant_time_ge_w :: "u64 \<Rightarrow> u64 \<Rightarrow> u64" where
  "constant_time_ge_w a b = NOT (constant_time_lt_w a b)"

definition constant_time_ge_8 :: "u64 \<Rightarrow> u64 \<Rightarrow> u8" where
  "constant_time_ge_8 a b = ucast (constant_time_ge_w a b)"

definition constant_time_is_zero_w :: "u64 \<Rightarrow> u64" where
  "constant_time_is_zero_w a = constant_time_msb_w (NOT a AND (a - 1))"

definition constant_time_is_zero_8 :: "u64 \<Rightarrow> u8" where
  "constant_time_is_zero_8 a = ucast (constant_time_is_zero_w a)"

definition constant_time_eq_w :: "u64 \<Rightarrow> u64 \<Rightarrow> u64" where
  "constant_time_eq_w a b = constant_time_is_zero_w (a XOR b)"

definition constant_time_eq_8 :: "u64 \<Rightarrow> u64 \<Rightarrow> u8" where
  "constant_time_eq_8 a b = ucast (constant_time_eq_w a b)"

definition constant_time_select_w :: "u64 \<Rightarrow> u64 \<Rightarrow> u64 \<Rightarrow> u64" where
  "constant_time_select_w m a b = (m AND a) OR (NOT m AND b)"

definition constant_time_select_8 :: "u8 \<Rightarrow> u8 \<Rightarrow> u8 \<Rightarrow> u8" where
  "constant_time_select_8 m a b =
     ucast (constant_time_select_w (ucast m) (ucast a) (ucast b))"

section \<open>Memory and strings\<close>

definition CRYPTO_memcmp :: "bytes \<Rightarrow> bytes \<Rightarrow> nat \<Rightarrow> u8" where
  "CRYPTO_memcmp a b len = foldl (\<lambda>x i. x OR (a ! i XOR b ! i)) 0 [0..<len]"

definition OPENSSL_hash32 :: "bytes \<Rightarrow> u32" where
  "OPENSSL_hash32 ptr = foldl (\<lambda>h b. (h XOR ucast b) * 16777619) 2166136261 ptr"

definition c_at :: "bytes \<Rightarrow> nat \<Rightarrow> u8" where
  "c_at s i = (if i < length s then s ! i else 0)"

definition c_strlen :: "bytes \<Rightarrow> nat" where
  "c_strlen s = length (takeWhile (\<lambda>c. c \<noteq> 0) s)"

function strnlen_from :: "bytes \<Rightarrow> nat \<Rightarrow> nat \<Rightarrow> nat" where
  "strnlen_from s len i =
     (if i < len then (if c_at s i = 0 then i else strnlen_from s len (Suc i)) else len)"
  by pat_completeness auto
termination
  by (relation "measure (\<lambda>(s, len, i). len - i)") auto

definition OPENSSL_strnlen :: "bytes \<Rightarrow> nat \<Rightarrow> nat" where
  "OPENSSL_strnlen s len = strnlen_from s len 0"

definition OPENSSL_tolower :: "int \<Rightarrow> int" where
  "OPENSSL_tolower c = (if 65 \<le> c \<and> c \<le> 90 then c + (97 - 65) else c)"

function OPENSSL_strcasecmp_from :: "bytes \<Rightarrow> bytes \<Rightarrow> nat \<Rightarrow> int" where
  "OPENSSL_strcasecmp_from a b i =
     (let aa = OPENSSL_tolower (sint (c_at a i)); bb = OPENSSL_tolower (sint (c_at b i)) in
      if aa < bb then - 1 else if aa > bb then 1 else if aa = 0 then 0
      else OPENSSL_strcasecmp_from a b (Suc i))"
  by pat_completeness auto
termination
  by (relation "measure (\<lambda>(a, b, i). Suc (length a) - i)")
    (auto simp: OPENSSL_tolower_def c_at_def split: if_splits)

definition OPENSSL_strcasecmp :: "bytes \<Rightarrow> bytes \<Rightarrow> int" where
  "OPENSSL_strcasecmp a b = OPENSSL_strcasecmp_from a b 0"

function strncasecmp_from :: "bytes \<Rightarrow> bytes \<Rightarrow> nat \<Rightarrow> nat \<Rightarrow> int" where
  "strncasecmp_from a b n i =
     (if i < n then
        let aa = OPENSSL_tolower (sint (c_at a i)); bb = OPENSSL_tolower (sint (c_at b i)) in
        if aa < bb then - 1 else if aa > bb then 1 else if aa = 0 then 0
        else strncasecmp_from a b n (Suc i)
      else 0)"
  by pat_completeness auto
termination
  by (relation "measure (\<lambda>(a, b, n, i). n - i)") auto

definition OPENSSL_strncasecmp :: "bytes \<Rightarrow> bytes \<Rightarrow> nat \<Rightarrow> int" where
  "OPENSSL_strncasecmp a b n = strncasecmp_from a b n 0"

text \<open>
  An allocation returns a buffer or fails: \<open>mem n\<close> says whether a request of \<open>n\<close> bytes
  succeeds, and a copy that succeeds is the list of the bytes copied.
\<close>

definition OPENSSL_strdup :: "(nat \<Rightarrow> bool) \<Rightarrow> bytes option \<Rightarrow> bytes option" where
  "OPENSSL_strdup mem s = (case s of None \<Rightarrow> None | Some s \<Rightarrow>
     (let len = c_strlen s + 1 in
      if mem len then Some (map (c_at s) [0..<len]) else None))"

definition OPENSSL_strndup :: "(nat \<Rightarrow> bool) \<Rightarrow> bytes option \<Rightarrow> nat \<Rightarrow> bytes option" where
  "OPENSSL_strndup mem str n = (case str of None \<Rightarrow> None | Some s \<Rightarrow>
     (let len = OPENSSL_strnlen s n; alloc_size = (len + 1) mod SIZE_MOD in
      if alloc_size < len then None
      else if mem alloc_size then Some (map (c_at s) [0..<len] @ [0]) else None))"

definition OPENSSL_memdup :: "(nat \<Rightarrow> bool) \<Rightarrow> bytes \<Rightarrow> nat \<Rightarrow> bytes option" where
  "OPENSSL_memdup mem data n =
     (if n = 0 then None else if mem n then Some (take n data) else None)"

text \<open>
  \<open>OPENSSL_strlcpy\<close> walks destination and source together: the state of its loop is the
  position in both, the room left and the count. It returns the buffer and the length.
\<close>

fun strlcpy_loop :: "bytes \<Rightarrow> bytes \<Rightarrow> nat \<Rightarrow> nat \<Rightarrow> nat \<Rightarrow> bytes \<times> nat \<times> nat \<times> nat" where
  "strlcpy_loop dst src dst_size pos l =
     (if dst_size > 1 \<and> c_at src l \<noteq> 0
      then strlcpy_loop (dst[pos := c_at src l]) src (dst_size - 1) (Suc pos) (Suc l)
      else (dst, dst_size, pos, l))"

definition strlcpy_at :: "bytes \<Rightarrow> nat \<Rightarrow> bytes \<Rightarrow> nat \<Rightarrow> bytes \<times> nat" where
  "strlcpy_at dst pos src dst_size =
     (case strlcpy_loop dst src dst_size pos 0 of (dst', room, pos', l) \<Rightarrow>
        (if room \<noteq> 0 then dst'[pos' := 0] else dst', l + c_strlen (drop l src)))"

definition OPENSSL_strlcpy :: "bytes \<Rightarrow> bytes \<Rightarrow> nat \<Rightarrow> bytes \<times> nat" where
  "OPENSSL_strlcpy dst src dst_size = strlcpy_at dst 0 src dst_size"

fun strlcat_skip :: "bytes \<Rightarrow> nat \<Rightarrow> nat \<Rightarrow> nat \<times> nat" where
  "strlcat_skip dst dst_size l =
     (if dst_size > 0 \<and> c_at dst l \<noteq> 0 then strlcat_skip dst (dst_size - 1) (Suc l)
      else (dst_size, l))"

definition OPENSSL_strlcat :: "bytes \<Rightarrow> bytes \<Rightarrow> nat \<Rightarrow> bytes \<times> nat" where
  "OPENSSL_strlcat dst src dst_size =
     (case strlcat_skip dst dst_size 0 of (room, l) \<Rightarrow>
        (case strlcpy_at dst l src room of (dst', n) \<Rightarrow> (dst', l + n)))"

declare strnlen_from.simps [simp del] OPENSSL_strcasecmp_from.simps [simp del]
  strncasecmp_from.simps [simp del] strlcpy_loop.simps [simp del] strlcat_skip.simps [simp del]

lemma c_at_nth: "i < length s \<Longrightarrow> c_at s i = s ! i"
  by (simp add: c_at_def)

lemma c_at_end: "length s \<le> i \<Longrightarrow> c_at s i = 0"
  by (simp add: c_at_def)

lemma c_strlen_le: "c_strlen s \<le> length s"
  by (simp add: c_strlen_def length_takeWhile_le)

lemma c_at_strlen: "c_at s (c_strlen s) = 0"
  using nth_length_takeWhile [of "\<lambda>c. c \<noteq> 0" s] by (auto simp: c_at_def c_strlen_def)

lemma c_at_before_strlen: "i < c_strlen s \<Longrightarrow> c_at s i \<noteq> 0"
proof -
  assume i: "i < c_strlen s"
  then have "takeWhile (\<lambda>c. c \<noteq> 0) s ! i \<in> set (takeWhile (\<lambda>c. c \<noteq> 0) s)"
    by (simp add: c_strlen_def)
  then have "s ! i \<noteq> 0" using i
    by (auto simp: c_strlen_def takeWhile_nth dest: set_takeWhileD)
  with i show ?thesis
    using c_strlen_le [of s] by (simp add: c_at_def)
qed

lemma c_strlen_unique: "c_at s n = 0 \<Longrightarrow> (\<And>i. i < n \<Longrightarrow> c_at s i \<noteq> 0) \<Longrightarrow> c_strlen s = n"
  using c_at_strlen c_at_before_strlen by (metis linorder_neqE_nat)

section \<open>String and memory routines\<close>

lemma strnlen_from_eq:
  "i \<le> len \<Longrightarrow> i \<le> c_strlen s \<Longrightarrow> strnlen_from s len i = min len (c_strlen s)"
proof (induction s len i rule: strnlen_from.induct)
  case (1 s len i)
  show ?case
  proof (cases "i < len \<and> c_at s i \<noteq> 0")
    case True
    with 1(3) have "i < c_strlen s" using c_at_strlen [of s] by (cases "i = c_strlen s") auto
    with True 1 show ?thesis by (simp add: strnlen_from.simps [of s len i])
  next
    case False
    have "c_at s i = 0 \<Longrightarrow> c_strlen s \<le> i" using c_at_before_strlen [of i s] by fastforce
    with False 1(2,3) show ?thesis by (auto simp: strnlen_from.simps [of s len i] min_def)
  qed
qed

lemma OPENSSL_strnlen_eq: "OPENSSL_strnlen s len = min len (c_strlen s)"
  by (simp add: OPENSSL_strnlen_def strnlen_from_eq)

lemma foldl_or_eq_0:
  "foldl (\<lambda>x i. x OR f i) (z :: u8) is = 0 \<longleftrightarrow> z = 0 \<and> (\<forall>i \<in> set is. f i = 0)"
  by (induction "is" arbitrary: z) (auto simp: or_eq_0_iff)

lemma CRYPTO_memcmp_eq_0:
  assumes "n \<le> length a" and "n \<le> length b"
  shows "CRYPTO_memcmp a b n = 0 \<longleftrightarrow> take n a = take n b"
proof -
  have "CRYPTO_memcmp a b n = 0 \<longleftrightarrow> (\<forall>i < n. a ! i = b ! i)"
    by (auto simp: CRYPTO_memcmp_def foldl_or_eq_0 xor_eq_0_iff)
  also have "\<dots> \<longleftrightarrow> take n a = take n b"
    using assms by (auto simp: list_eq_iff_nth_eq)
  finally show ?thesis .
qed

lemma c_strlen_drop: "l \<le> c_strlen s \<Longrightarrow> c_strlen (drop l s) = c_strlen s - l"
proof (rule c_strlen_unique)
  assume l: "l \<le> c_strlen s"
  have at: "c_at (drop l s) i = c_at s (l + i)" for i
    by (auto simp: c_at_def)
  show "c_at (drop l s) (c_strlen s - l) = 0" using l by (simp add: at c_at_strlen)
  show "c_at (drop l s) i \<noteq> 0" if "i < c_strlen s - l" for i
    using that by (simp add: at c_at_before_strlen)
qed

lemma c_at_zero_strlen: "i \<le> c_strlen s \<Longrightarrow> c_at s i = 0 \<longleftrightarrow> i = c_strlen s"
  using c_at_before_strlen [of i s] c_at_strlen [of s] by (cases "i = c_strlen s") auto

lemma write_at_Cons:
  "pos < length xs \<Longrightarrow> write_at (Suc pos) bs (xs[pos := b]) = write_at pos (b # bs) xs"
  by (simp add: write_at_def take_Suc_conv_app_nth)

lemma strlcpy_loop_eq:
  assumes "l \<le> c_strlen src" and "pos + room \<le> length dst" and "k = min (room - 1) (c_strlen src - l)"
  shows "strlcpy_loop dst src room pos l =
    (write_at pos (map (c_at src) [l..<l + k]) dst, room - k, pos + k, l + k)"
  using assms
proof (induction dst src room pos l arbitrary: k rule: strlcpy_loop.induct)
  case (1 dst src room pos l)
  show ?case
  proof (cases "room > 1 \<and> c_at src l \<noteq> 0")
    case True
    with 1(2) have l: "l < c_strlen src" using c_at_zero_strlen [of l src] by auto
    define k' where "k' = min (room - 1 - 1) (c_strlen src - Suc l)"
    have k': "k = Suc k'" using True l 1(4) unfolding k'_def by arith
    have "strlcpy_loop (dst[pos := c_at src l]) src (room - 1) (Suc pos) (Suc l) =
      (write_at (Suc pos) (map (c_at src) [Suc l..<Suc l + k']) (dst[pos := c_at src l]),
       room - 1 - k', Suc pos + k', Suc l + k')"
      using True l 1(3) by (intro 1(1)) (auto simp: k'_def)
    then show ?thesis using True 1(3) k'
      by (simp add: strlcpy_loop.simps [of dst] write_at_Cons upt_conv_Cons del: upt_Suc)
  next
    case False
    then have "k = 0" using 1(2,4) c_at_zero_strlen [of l src] by auto
    then show ?thesis using False by (auto simp: strlcpy_loop.simps [of dst] write_at_def)
  qed
qed

lemma strlcpy_at_eq:
  assumes "pos + room \<le> length dst"
  shows "strlcpy_at dst pos src room =
    (if room = 0 then dst
     else write_at pos (map (c_at src) [0..<min (room - 1) (c_strlen src)] @ [0]) dst,
     c_strlen src)"
proof -
  define k where "k = min (room - 1) (c_strlen src)"
  have loop: "strlcpy_loop dst src room pos 0 =
      (write_at pos (map (c_at src) [0..<k]) dst, room - k, pos + k, k)"
    using strlcpy_loop_eq [of 0 src pos room dst k] assms by (simp add: k_def)
  have "(write_at pos (map (c_at src) [0..<k]) dst)[pos + k := 0] =
      write_at pos (map (c_at src) [0..<k] @ [0]) dst" if "room \<noteq> 0"
  proof -
    have "pos + k < length dst" using that assms by (auto simp: k_def)
    then show ?thesis
      by (simp add: write_at_def list_update_append Cons_nth_drop_Suc [symmetric])
  qed
  moreover have "k < room \<longleftrightarrow> room \<noteq> 0" by (auto simp: k_def)
  moreover have "k + c_strlen (drop k src) = c_strlen src"
    by (simp add: c_strlen_drop k_def)
  moreover have "room = 0 \<Longrightarrow> write_at pos (map (c_at src) [0..<k]) dst = dst"
    by (simp add: k_def write_at_def)
  ultimately show ?thesis
    unfolding strlcpy_at_def loop k_def [symmetric] by simp
qed

lemma strlcat_skip_eq:
  "l \<le> c_strlen dst \<Longrightarrow> strlcat_skip dst room l =
     (room - min room (c_strlen dst - l), l + min room (c_strlen dst - l))"
proof (induction dst room l rule: strlcat_skip.induct)
  case (1 dst room l)
  show ?case
  proof (cases "room > 0 \<and> c_at dst l \<noteq> 0")
    case True
    with 1(2) have "l < c_strlen dst" using c_at_zero_strlen [of l dst] by auto
    from True 1(1) \<open>l < c_strlen dst\<close> have "strlcat_skip dst (room - 1) (Suc l) =
       (room - 1 - min (room - 1) (c_strlen dst - Suc l), Suc l + min (room - 1) (c_strlen dst - Suc l))"
      by simp
    moreover have "min room (c_strlen dst - l) = Suc (min (room - 1) (c_strlen dst - Suc l))"
      using True \<open>l < c_strlen dst\<close> by arith
    ultimately show ?thesis
      using True by (simp add: strlcat_skip.simps [of dst room l])
  next
    case False
    then have "min room (c_strlen dst - l) = 0"
      using 1(2) c_at_zero_strlen [of l dst] by auto
    with False show ?thesis by (auto simp: strlcat_skip.simps [of dst room l])
  qed
qed

text \<open>
  Case-insensitive comparison: the two strings agree up to their terminators exactly when
  their lower-cased characters do, and swapping the arguments swaps the sign.
\<close>

definition lower_string :: "bytes \<Rightarrow> int list" where
  "lower_string s = map (\<lambda>c. OPENSSL_tolower (sint c)) (takeWhile (\<lambda>c. c \<noteq> 0) s)"

lemma OPENSSL_strcasecmp_from_swap:
  "OPENSSL_strcasecmp_from b a i = - OPENSSL_strcasecmp_from a b i"
proof (induction a b i rule: OPENSSL_strcasecmp_from.induct)
  case (1 a b i)
  show ?case
    using 1 by (simp add: OPENSSL_strcasecmp_from.simps [of a b i]
        OPENSSL_strcasecmp_from.simps [of b a i] Let_def)
qed

lemma lower_0_iff: "OPENSSL_tolower (sint (c :: u8)) = 0 \<longleftrightarrow> c = 0"
  by (auto simp: OPENSSL_tolower_def signed_eq_0_iff)

lemma lower_0 [simp]: "OPENSSL_tolower 0 = 0"
  by (simp add: OPENSSL_tolower_def)

lemma lower_0_iff': "0 = OPENSSL_tolower (sint (c :: u8)) \<longleftrightarrow> c = 0"
  using lower_0_iff [of c] by auto

lemma lower_string_Cons:
  "lower_string (c # s) = (if c = 0 then [] else OPENSSL_tolower (sint c) # lower_string s)"
  by (simp add: lower_string_def)

lemma strcasecmp_from_eq_0:
  "OPENSSL_strcasecmp_from a b i = 0 \<longleftrightarrow> lower_string (drop i a) = lower_string (drop i b)"
proof (induction a b i rule: OPENSSL_strcasecmp_from.induct)
  case (1 a b i)
  have split: "lower_string (drop i s) = (if c_at s i = 0 then []
      else OPENSSL_tolower (sint (c_at s i)) # lower_string (drop (Suc i) s))" for s
  proof (cases "i < length s")
    case True
    then have "drop i s = s ! i # drop (Suc i) s" by (rule Cons_nth_drop_Suc [symmetric])
    with True show ?thesis by (simp add: c_at_def lower_string_Cons del: drop_Suc)
  qed (simp add: c_at_def lower_string_def)
  let ?aa = "OPENSSL_tolower (sint (c_at a i))" and ?bb = "OPENSSL_tolower (sint (c_at b i))"
  show ?case
  proof (cases "?aa = ?bb \<and> ?aa \<noteq> 0")
    case True
    then have "OPENSSL_strcasecmp_from a b (Suc i) = 0 \<longleftrightarrow>
        lower_string (drop (Suc i) a) = lower_string (drop (Suc i) b)"
      by (intro 1) auto
    moreover have "c_at a i \<noteq> 0" "c_at b i \<noteq> 0" using True by (simp_all flip: lower_0_iff)
    ultimately show ?thesis
      using True by (simp add: OPENSSL_strcasecmp_from.simps [of a b i] split [of a] split [of b])
  next
    case False
    then have "OPENSSL_strcasecmp_from a b i = 0 \<longleftrightarrow> c_at a i = 0 \<and> c_at b i = 0"
      by (subst OPENSSL_strcasecmp_from.simps) (auto simp: Let_def lower_0_iff lower_0_iff')
    also have "\<dots> \<longleftrightarrow> lower_string (drop i a) = lower_string (drop i b)"
      using False by (auto simp: split [of a] split [of b] simp flip: lower_0_iff)
    finally show ?thesis .
  qed
qed

lemma OPENSSL_strcasecmp_eq_0:
  "OPENSSL_strcasecmp a b = 0 \<longleftrightarrow> lower_string a = lower_string b"
  by (simp add: OPENSSL_strcasecmp_def strcasecmp_from_eq_0)

section \<open>The masks are the comparisons\<close>

lemma bit_63_iff: "bit (a :: u64) 63 \<longleftrightarrow> 2 ^ 63 \<le> unat a"
proof -
  have "bit a 63 \<longleftrightarrow> bit (unat a) 63"
    by (simp add: bit_unsigned_iff)
  also have "\<dots> \<longleftrightarrow> odd (unat a div 2 ^ 63)"
    by (simp only: bit_iff_odd)
  finally have bit: "bit a 63 \<longleftrightarrow> odd (unat a div 2 ^ 63)" .
  have "unat a < 2 * 2 ^ 63" using unat_u64_less [of a] by simp
  then have "unat a div 2 ^ 63 = (if 2 ^ 63 \<le> unat a then 1 else 0)"
    by (auto intro: div_nat_eqI)
  with bit show ?thesis by simp
qed

lemma constant_time_msb_w_eq: "constant_time_msb_w a = (if bit a 63 then - 1 else 0)"
proof -
  have "unat a < 2 * 2 ^ 63" using unat_u64_less [of a] by simp
  then have "unat (drop_bit 63 a) = (if bit a 63 then 1 else 0)"
    by (auto simp: unat_drop_bit_eq drop_bit_eq_div [of _ "unat a"] bit_63_iff simp del: drop_bit_eq_div
        intro: div_nat_eqI)
  then have "drop_bit 63 a = (if bit a 63 then 1 else 0)"
    by (auto simp: word_unat_eq_iff)
  then show ?thesis by (simp add: constant_time_msb_w_def)
qed

lemma constant_time_lt_w_eq: "constant_time_lt_w a b = (if a < b then - 1 else 0)"
proof -
  have bits: "bit (a XOR ((a XOR b) OR ((a - b) XOR a))) 63 \<longleftrightarrow>
      (if bit a 63 = bit b 63 then bit (a - b) 63 else bit b 63)"
    by (auto simp: bit_xor_iff bit_or_iff)
  have ab: "unat (a - b) = (if unat b \<le> unat a then unat a - unat b else unat a + SIZE_MOD - unat b)"
    by (simp add: unat_sub_if')
  have top: "bit x 63 \<longleftrightarrow> 9223372036854775808 \<le> unat x" for x :: u64
    by (simp add: bit_63_iff)
  have "(if bit a 63 = bit b 63 then bit (a - b) 63 else bit b 63) \<longleftrightarrow> unat a < unat b"
    unfolding top ab using unat_u64_less [of a] unat_u64_less [of b]
    by (cases "unat b \<le> unat a"; simp; linarith)
  with bits show ?thesis
    by (simp add: constant_time_lt_w_def constant_time_msb_w_eq word_less_nat_alt)
qed

lemma constant_time_is_zero_w_eq: "constant_time_is_zero_w a = (if a = 0 then - 1 else 0)"
proof -
  have "unat (a - 1) = (if a = 0 then 2 ^ 64 - 1 else unat a - 1)"
    by (simp add: unat_sub_if' word_unat_eq_iff)
  then have "\<not> bit a 63 \<and> bit (a - 1) 63 \<longleftrightarrow> a = 0"
    by (auto simp: bit_63_iff split: if_splits)
  then have "bit (NOT a AND (a - 1)) 63 \<longleftrightarrow> a = 0"
    by (simp add: bit_and_iff bit_not_iff)
  then show ?thesis by (simp add: constant_time_is_zero_w_def constant_time_msb_w_eq)
qed

lemma constant_time_eq_w_eq: "constant_time_eq_w a b = (if a = b then - 1 else 0)"
  by (simp add: constant_time_eq_w_def constant_time_is_zero_w_eq xor_eq_0_iff)

lemma constant_time_ge_w_eq: "constant_time_ge_w a b = (if b \<le> a then - 1 else 0)"
  by (auto simp: constant_time_ge_w_def constant_time_lt_w_eq)

lemma ucast_u8_all_ones: "(ucast (- 1 :: u64) :: u8) = - 1"
  by (rule bit_eqI) (simp add: bit_simps)

lemma constant_time_8_eqs:
  "constant_time_lt_8 a b = (if a < b then - 1 else 0)"
  "constant_time_ge_8 a b = (if b \<le> a then - 1 else 0)"
  "constant_time_is_zero_8 a = (if a = 0 then - 1 else 0)"
  "constant_time_eq_8 a b = (if a = b then - 1 else 0)"
  by (simp_all add: constant_time_lt_8_def constant_time_ge_8_def constant_time_is_zero_8_def
      constant_time_eq_8_def constant_time_lt_w_eq constant_time_ge_w_eq
      constant_time_is_zero_w_eq constant_time_eq_w_eq ucast_u8_all_ones)

lemma constant_time_select_w_eq:
  "constant_time_select_w (- 1) a b = a" "constant_time_select_w 0 a b = b"
  by (simp_all add: constant_time_select_w_def)

lemma constant_time_select_8_alt: "constant_time_select_8 m a b = (m AND a) OR (NOT m AND b)"
  unfolding constant_time_select_8_def constant_time_select_w_def
  by (rule bit_eqI) (auto simp: bit_simps)

lemma constant_time_select_8_eq:
  "constant_time_select_8 (- 1) a b = a" "constant_time_select_8 0 a b = b"
  by (simp_all add: constant_time_select_8_alt)

lemmas constant_time_eqs = constant_time_lt_w_eq constant_time_ge_w_eq
  constant_time_is_zero_w_eq constant_time_eq_w_eq constant_time_8_eqs
  constant_time_select_w_eq constant_time_select_8_eq

section \<open>Properties\<close>

text \<open>The branch-free masks are the comparisons they replace: all ones when the comparison
  of the unsigned words holds and zero otherwise, on the word and on the byte versions, and
  selecting with such a mask is a conditional.\<close>

theorem constant_time_masks:
  "constant_time_lt_w a b = (if a < b then - 1 else 0) \<and>
   constant_time_ge_w a b = (if b \<le> a then - 1 else 0) \<and>
   constant_time_is_zero_w a = (if a = 0 then - 1 else 0) \<and>
   constant_time_eq_w a b = (if a = b then - 1 else 0) \<and>
   constant_time_select_w (constant_time_lt_w a b) x y = (if a < b then x else y) \<and>
   constant_time_select_8 (constant_time_eq_8 a b) u v = (if a = b then u else v)"
  by (simp add: constant_time_eqs)

text \<open>\<open>OPENSSL_strlcat\<close> writes only inside the destination: the string there becomes the
  old one followed by as much of the source as fits before a terminator, the bytes after that
  are untouched, and the result is the length the full string would have had (the size itself
  when the destination held no terminator).\<close>

theorem OPENSSL_strlcat_writes:
  assumes "dst_size \<le> length dst"
  shows "OPENSSL_strlcat dst src dst_size =
    (if dst_size \<le> c_strlen dst then (dst, dst_size + c_strlen src)
     else (write_at (c_strlen dst)
             (map (c_at src) [0..<min (dst_size - c_strlen dst - 1) (c_strlen src)] @ [0]) dst,
           c_strlen dst + c_strlen src))"
proof -
  have skip: "strlcat_skip dst dst_size 0 =
      (dst_size - min dst_size (c_strlen dst), min dst_size (c_strlen dst))"
    using strlcat_skip_eq [of 0 dst dst_size] by simp
  have "min dst_size (c_strlen dst) + (dst_size - min dst_size (c_strlen dst)) \<le> length dst"
    using assms by simp
  from strlcpy_at_eq [OF this, of src] show ?thesis
    unfolding OPENSSL_strlcat_def skip prod.case by (simp add: min_def not_le)
qed

lemma OPENSSL_strlcat_writes_witness:
  "OPENSSL_strlcat [97, 0, 1, 1] [98, 99, 100] 4 = ([97, 98, 99, 0], 4)"
proof -
  have s: "c_strlen [97, 0, 1, 1] = 1" "c_strlen [98, 99, 100] = 3" by code_simp+
  have c: "min (4 - 1 - 1) 3 = (2 :: nat)" "[0..<2] = [0, 1 :: nat]" by code_simp+
  show ?thesis
    using OPENSSL_strlcat_writes [of 4 "[97, 0, 1, 1]" "[98, 99, 100]"]
    by (simp add: s c c_at_def write_at_def)
qed

end
