(* ===== verification/Cbs.thy ===== *)
theory Cbs
  imports Mem
begin

text \<open>
  The byte-string reader of \<^verbatim>\<open>crypto/bytestring/cbs.c\<close>. A \<open>CBS\<close> is a pointer and a length;
  the model keeps the bytes it can still read, so \<open>CBS_len\<close> is the length of the list and
  reading from the front drops them. Every reader is an operation on that state and says what
  the state is after a failed call too (some readers consume the length prefix or a wrong
  element before they fail). The specification functions \<open>b128\<close>, \<open>der_tag\<close> and
  \<open>der_length\<close> state the encodings the readers accept: each is proved to be accepted, and
  nothing else is.
\<close>

type_synonym CBS = bytes

section \<open>Readers of fixed size\<close>

definition CBS_init :: "bytes \<Rightarrow> nat \<Rightarrow> CBS" where
  "CBS_init data len = take len data"

definition cbs_get :: "nat \<Rightarrow> (CBS, bytes) op" where
  "cbs_get n cbs = (if length cbs < n then (None, cbs) else (Some (take n cbs), drop n cbs))"

definition CBS_skip :: "nat \<Rightarrow> (CBS, unit) op" where
  "CBS_skip len = opbind (cbs_get len) (\<lambda>_. opret ())"

definition CBS_data :: "CBS \<Rightarrow> bytes" where
  "CBS_data cbs = cbs"

definition CBS_len :: "CBS \<Rightarrow> nat" where
  "CBS_len cbs = length cbs"

definition CBS_stow :: "(nat \<Rightarrow> bool) \<Rightarrow> CBS \<Rightarrow> bool \<times> bytes option \<times> nat" where
  "CBS_stow mem cbs =
     (if length cbs = 0 then (True, None, 0)
      else case OPENSSL_memdup mem cbs (length cbs) of
        None \<Rightarrow> (False, None, 0)
      | Some p \<Rightarrow> (True, Some p, length cbs))"

definition CBS_strdup :: "(nat \<Rightarrow> bool) \<Rightarrow> CBS \<Rightarrow> bytes option" where
  "CBS_strdup mem cbs = OPENSSL_strndup mem (Some cbs) (length cbs)"

definition CBS_contains_zero_byte :: "CBS \<Rightarrow> bool" where
  "CBS_contains_zero_byte cbs = (0 \<in> set cbs)"

definition CBS_mem_equal :: "CBS \<Rightarrow> bytes \<Rightarrow> nat \<Rightarrow> bool" where
  "CBS_mem_equal cbs data len =
     (if len \<noteq> length cbs then False else CRYPTO_memcmp cbs data len = 0)"

definition be_word :: "bytes \<Rightarrow> u64" where
  "be_word data = foldl (\<lambda>result b. push_bit 8 result OR ucast b) 0 data"

definition cbs_get_u :: "nat \<Rightarrow> (CBS, u64) op" where
  "cbs_get_u len = opbind (cbs_get len) (\<lambda>data. opret (be_word data))"

definition CBS_get_u8 :: "(CBS, u8) op" where
  "CBS_get_u8 = opbind (cbs_get 1) (\<lambda>v. opret (hd v))"

definition CBS_get_u16 :: "(CBS, u16) op" where
  "CBS_get_u16 = opbind (cbs_get_u 2) (\<lambda>v. opret (ucast v))"

definition CRYPTO_bswap2 :: "u16 \<Rightarrow> u16" where
  "CRYPTO_bswap2 x = drop_bit 8 x OR push_bit 8 x"

definition CRYPTO_bswap4 :: "u32 \<Rightarrow> u32" where
  "CRYPTO_bswap4 x =
     (let x = (drop_bit 16 x) OR (push_bit 16 x);
          x = (drop_bit 8 (x AND 0xff00ff00)) OR (push_bit 8 (x AND 0x00ff00ff)) in x)"

definition CRYPTO_bswap8 :: "u64 \<Rightarrow> u64" where
  "CRYPTO_bswap8 x =
     ucast (CRYPTO_bswap4 (ucast (drop_bit 32 x))) OR push_bit 32 (ucast (CRYPTO_bswap4 (ucast x)))"

definition CBS_get_u16le :: "(CBS, u16) op" where
  "CBS_get_u16le = opbind CBS_get_u16 (\<lambda>v. opret (CRYPTO_bswap2 v))"

definition CBS_get_u24 :: "(CBS, u32) op" where
  "CBS_get_u24 = opbind (cbs_get_u 3) (\<lambda>v. opret (ucast v))"

definition CBS_get_u32 :: "(CBS, u32) op" where
  "CBS_get_u32 = opbind (cbs_get_u 4) (\<lambda>v. opret (ucast v))"

definition CBS_get_u32le :: "(CBS, u32) op" where
  "CBS_get_u32le = opbind CBS_get_u32 (\<lambda>v. opret (CRYPTO_bswap4 v))"

definition CBS_get_u64 :: "(CBS, u64) op" where
  "CBS_get_u64 = cbs_get_u 8"

definition CBS_get_u64le :: "(CBS, u64) op" where
  "CBS_get_u64le = opbind (cbs_get_u 8) (\<lambda>v. opret (CRYPTO_bswap8 v))"

definition CBS_get_last_u8 :: "(CBS, u8) op" where
  "CBS_get_last_u8 cbs =
     (if length cbs = 0 then (None, cbs)
      else (Some (cbs ! (length cbs - 1)), take (length cbs - 1) cbs))"

definition CBS_get_bytes :: "nat \<Rightarrow> (CBS, CBS) op" where
  "CBS_get_bytes len = opbind (cbs_get len) (\<lambda>v. opret (CBS_init v len))"

definition CBS_copy_bytes :: "nat \<Rightarrow> (CBS, bytes) op" where
  "CBS_copy_bytes len = opbind (cbs_get len) (\<lambda>v. opret (take len v))"

definition cbs_get_length_prefixed :: "nat \<Rightarrow> (CBS, CBS) op" where
  "cbs_get_length_prefixed len_len =
     opbind (cbs_get_u len_len) (\<lambda>len. CBS_get_bytes (unat len))"

definition CBS_get_u8_length_prefixed :: "(CBS, CBS) op" where
  "CBS_get_u8_length_prefixed = cbs_get_length_prefixed 1"

definition CBS_get_u16_length_prefixed :: "(CBS, CBS) op" where
  "CBS_get_u16_length_prefixed = cbs_get_length_prefixed 2"

definition CBS_get_u24_length_prefixed :: "(CBS, CBS) op" where
  "CBS_get_u24_length_prefixed = cbs_get_length_prefixed 3"

lemma cbs_get_iff:
  "cbs_get n cbs = (Some v, rest) \<longleftrightarrow> cbs = v @ rest \<and> length v = n"
  by (auto simp: cbs_get_def)

lemma cbs_get_append [simp]: "length v = n \<Longrightarrow> cbs_get n (v @ rest) = (Some v, rest)"
  by (simp add: cbs_get_iff)

lemma cbs_get_None: "fst (cbs_get n cbs) = None \<longleftrightarrow> length cbs < n"
  by (simp add: cbs_get_def)

lemma CBS_get_u8_simps [simp]:
  "CBS_get_u8 [] = (None, [])" "CBS_get_u8 (b # cbs) = (Some b, cbs)"
  by (simp_all add: CBS_get_u8_def cbs_get_def opsimps)

lemma CBS_get_u8_iff: "CBS_get_u8 cbs = (Some b, rest) \<longleftrightarrow> cbs = b # rest"
  by (cases cbs) auto

lemma CBS_get_u8_shorter [termination_simp]:
  "(Some b, rest) = CBS_get_u8 cbs \<Longrightarrow> length rest < length cbs"
  by (cases cbs) auto

lemma CBS_get_bytes_iff: "CBS_get_bytes n cbs = (Some v, rest) \<longleftrightarrow> cbs = v @ rest \<and> length v = n"
  by (auto simp: CBS_get_bytes_def CBS_init_def op_iffs cbs_get_iff)

lemma CBS_get_bytes_None: "CBS_get_bytes n cbs = (None, rest) \<longleftrightarrow> length cbs < n \<and> rest = cbs"
  by (auto simp: CBS_get_bytes_def cbs_get_def opsimps)

lemma CBS_skip_iff: "CBS_skip n cbs = (Some u, rest) \<longleftrightarrow> n \<le> length cbs \<and> rest = drop n cbs"
  by (auto simp: CBS_skip_def cbs_get_def opsimps)

lemma CBS_skip_eq: "CBS_skip n cbs = (if n \<le> length cbs then (Some (), drop n cbs) else (None, cbs))"
  by (simp add: CBS_skip_def cbs_get_def opsimps not_less)

lemma unat_push8_or:
  fixes a :: u64
  shows "unat (push_bit 8 a OR ucast (b :: u8)) = (unat a * 256 + unat b) mod SIZE_MOD"
proof -
  have "push_bit 8 a OR ucast b = push_bit 8 a + (ucast b :: u64)"
    by (rule push_or_add) (use unat_u8_less [of b] in simp)
  then show ?thesis
    by (simp add: unat_word_ariths push_bit_eq_mult mod_simps mult.commute)
qed

lemma unat_be_word: "unat (be_word bs) = be_nat bs mod SIZE_MOD"
proof (induction bs rule: rev_induct)
  case (snoc b bs)
  have "be_word (bs @ [b]) = push_bit 8 (be_word bs) OR ucast b"
    by (simp add: be_word_def)
  then have "unat (be_word (bs @ [b])) = (be_nat bs mod SIZE_MOD * 256 + unat b) mod SIZE_MOD"
    using snoc by (simp only: unat_push8_or)
  also have "\<dots> = (be_nat bs * 256 + unat b) mod SIZE_MOD"
    by (intro mod_add_cong mod_mult_cong) simp_all
  finally show ?case by (simp only: be_nat_snoc mult.commute)
qed (simp add: be_word_def)

lemma unat_be_word_short: "length bs \<le> 8 \<Longrightarrow> unat (be_word bs) = be_nat bs"
proof -
  assume "length bs \<le> 8"
  then have "(256::nat) ^ length bs \<le> 256 ^ 8" by (intro power_increasing) auto
  then have "be_nat bs < SIZE_MOD" using be_nat_less [of bs] by simp
  then show ?thesis by (simp add: unat_be_word)
qed

lemma cbs_get_u_iff:
  "cbs_get_u n cbs = (Some w, rest) \<longleftrightarrow> (\<exists>v. cbs = v @ rest \<and> length v = n \<and> w = be_word v)"
  by (auto simp: cbs_get_u_def op_iffs cbs_get_iff)

lemma cbs_get_length_prefixed_iff:
  assumes "len_len \<le> 8"
  shows "cbs_get_length_prefixed len_len cbs = (Some out, rest) \<longleftrightarrow>
    (\<exists>p. length p = len_len \<and> be_nat p = length out \<and> cbs = p @ out @ rest)"
  using assms
  by (auto simp: cbs_get_length_prefixed_def op_iffs cbs_get_u_iff CBS_get_bytes_iff
      unat_be_word_short)

section \<open>Base-128 integers and tags\<close>

fun parse_base128_loop :: "u64 \<Rightarrow> (CBS, u64) op" where
  "parse_base128_loop v cbs = (case CBS_get_u8 cbs of
     (None, cbs) \<Rightarrow> (None, cbs)
   | (Some b, cbs) \<Rightarrow>
       if drop_bit (64 - 7) v \<noteq> 0 then (None, cbs)
       else if v = 0 \<and> b = 0x80 then (None, cbs)
       else let v = push_bit 7 v OR ucast (b AND 0x7f) in
         if b AND 0x80 \<noteq> 0 then parse_base128_loop v cbs else (Some v, cbs))"

definition parse_base128_integer :: "(CBS, u64) op" where
  "parse_base128_integer = parse_base128_loop 0"

definition CBS_ASN1_TAG_SHIFT :: nat where
  "CBS_ASN1_TAG_SHIFT = 24"

definition CBS_ASN1_CONSTRUCTED :: u32 where
  "CBS_ASN1_CONSTRUCTED = push_bit CBS_ASN1_TAG_SHIFT 0x20"

definition CBS_ASN1_TAG_NUMBER_MASK :: u32 where
  "CBS_ASN1_TAG_NUMBER_MASK = push_bit (5 + CBS_ASN1_TAG_SHIFT) 1 - 1"

definition parse_asn1_tag :: "(CBS, u32) op" where
  "parse_asn1_tag = opbind CBS_get_u8 (\<lambda>tag_byte.
     let tag = push_bit CBS_ASN1_TAG_SHIFT (ucast tag_byte AND 0xe0);
         tag_number = ucast (tag_byte AND 0x1f) :: u32 in
     if tag_number = 0x1f then
       opbind parse_base128_integer (\<lambda>v.
         if v > ucast CBS_ASN1_TAG_NUMBER_MASK \<or> v < 0x1f then opfail
         else opret (tag OR ucast v))
     else opret (tag OR tag_number))"

declare parse_base128_loop.simps [simp del]

text \<open>
  The specification of base 128: the digits of a number, most significant first, in as few
  bytes as possible, each but the last with its top bit set.
\<close>

fun b128_hi :: "nat \<Rightarrow> bytes" where
  "b128_hi n = (if n < 128 then [word_of_nat (n + 128)]
                else b128_hi (n div 128) @ [word_of_nat (n mod 128 + 128)])"

definition b128 :: "nat \<Rightarrow> bytes" where
  "b128 n = (if n < 128 then [word_of_nat n] else b128_hi (n div 128) @ [word_of_nat (n mod 128)])"

declare b128_hi.simps [simp del]

lemma drop_bit_57_0: "drop_bit 57 (v::u64) = 0 \<longleftrightarrow> unat v < 2 ^ 57"
  by (simp add: word_unat_eq_iff unat_drop_bit_eq drop_bit_eq_div [of 57 "unat v"] div_eq_0_iff
      del: drop_bit_eq_div)

lemma unat_push7_or:
  assumes "unat (v::u64) < 2 ^ 57"
  shows "unat (push_bit 7 v OR ucast ((b::u8) AND 0x7f)) = unat v * 128 + unat b mod 128"
proof -
  have "push_bit 7 v OR ucast (b AND 0x7f) = push_bit 7 v + (ucast (b AND 0x7f) :: u64)"
    by (rule push_or_add) (simp add: u8_bits_80_7f)
  then show ?thesis using assms
    by (simp add: unat_word_ariths push_bit_eq_mult u8_bits_80_7f mult.commute)
qed

lemma parse_base128_loop_Cons:
  "parse_base128_loop v (b # cbs) =
     (if 2 ^ 57 \<le> unat v \<or> v = 0 \<and> b = 0x80 then (None, cbs)
      else if 128 \<le> unat b then parse_base128_loop (word_of_nat (unat v * 128 + unat b mod 128)) cbs
      else (Some (word_of_nat (unat v * 128 + unat b mod 128)), cbs))"
proof -
  have "push_bit 7 v OR ucast (b AND 0x7f) = word_of_nat (unat v * 128 + unat b mod 128)"
    if "unat v < 2 ^ 57"
    using arg_cong [OF unat_push7_or [OF that, of b], of "word_of_nat :: nat \<Rightarrow> u64"] by simp
  moreover have "drop_bit (64 - 7) v \<noteq> 0 \<longleftrightarrow> 2 ^ 57 \<le> unat v"
    using drop_bit_57_0 [of v] by auto
  ultimately show ?thesis
    by (simp add: parse_base128_loop.simps [of v "b # cbs"] Let_def u8_bits_80_7f(1))
qed

lemma parse_base128_loop_Nil: "parse_base128_loop v [] = (None, [])"
  by (simp add: parse_base128_loop.simps [of v "[]"])

lemma parse_b128_hi:
  "0 < n \<Longrightarrow> n < 2 ^ 57 \<Longrightarrow>
    parse_base128_loop 0 (b128_hi n @ t) = parse_base128_loop (word_of_nat n) t"
proof (induction n arbitrary: t rule: b128_hi.induct)
  case (1 n)
  show ?case
  proof (cases "n < 128")
    case True
    then have "(word_of_nat (n + 128) :: u8) \<noteq> 0x80"
      using \<open>0 < n\<close> by (simp add: word_unat_eq_iff unat_u8_of_nat del: of_nat_add)
    with True show ?thesis
      by (simp add: b128_hi.simps [of n] parse_base128_loop_Cons unat_u8_of_nat
          del: of_nat_add)
  next
    case False
    have lt: "n div 128 < 2 ^ 57" using 1(3) by simp
    have "unat (word_of_nat (n div 128) :: u64) = n div 128"
      using 1(3) by (simp add: unat_of_nat)
    moreover have "parse_base128_loop 0 (b128_hi (n div 128) @ word_of_nat (n mod 128 + 128) # t) =
        parse_base128_loop (word_of_nat (n div 128)) (word_of_nat (n mod 128 + 128) # t)"
      using False lt by (intro 1(1)) (auto simp: div_greater_zero_iff)
    moreover have "n mod 128 + 128 < 256" using mod_less_divisor [of 128 n] by linarith
    moreover have "(word_of_nat (n div 128) :: u64) \<noteq> 0"
      using False calculation(1) by (auto simp: word_unat_eq_iff div_eq_0_iff)
    ultimately show ?thesis
      using False lt by (simp add: b128_hi.simps [of n] parse_base128_loop_Cons unat_u8_of_nat
          mult.commute del: of_nat_add)
  qed
qed

lemma parse_b128:
  assumes "n < 2 ^ 64"
  shows "parse_base128_integer (b128 n @ rest) = (Some (word_of_nat n), rest)"
proof (cases "n < 128")
  case True
  then have "(word_of_nat n :: u8) \<noteq> 0x80" by (simp add: word_unat_eq_iff unat_u8_of_nat)
  with True show ?thesis
    by (simp add: parse_base128_integer_def b128_def parse_base128_loop_Cons unat_u8_of_nat)
next
  case False
  have lt: "n div 128 < 2 ^ 57" using assms by (simp add: less_mult_imp_div_less)
  have u: "unat (word_of_nat (n div 128) :: u64) = n div 128"
    using lt by (simp add: unat_of_nat)
  have "0 < n div 128" using False by (simp add: div_greater_zero_iff)
  then have "(word_of_nat (n div 128) :: u64) \<noteq> 0" using u by (auto simp: word_unat_eq_iff)
  moreover have "n mod 128 mod 256 = n mod 128" "\<not> 128 \<le> n mod 128"
    by (simp_all add: not_le mod_less_divisor less_trans [of _ 128])
  ultimately show ?thesis
    using False lt u parse_b128_hi [OF \<open>0 < n div 128\<close> lt]
    by (simp add: parse_base128_integer_def b128_def parse_base128_loop_Cons unat_u8_of_nat
        mult.commute)
qed

lemma b128_hi_snoc:
  "0 < n \<Longrightarrow> b128_hi (n * 128 + unat b mod 128) = b128_hi n @ [word_of_nat (unat b mod 128 + 128)]"
  by (simp add: b128_hi.simps [of "n * 128 + unat b mod 128"])

lemma parse_base128_loop_canonical:
  "parse_base128_loop v cbs = (Some w, rest) \<Longrightarrow>
    \<exists>pre. cbs = pre @ rest \<and> (if v = 0 then pre else b128_hi (unat v) @ pre) = b128 (unat w)"
proof (induction cbs arbitrary: v)
  case Nil
  then show ?case by (simp add: parse_base128_loop_Nil)
next
  case (Cons b cbs')
  let ?n = "unat v * 128 + unat b mod 128"
  from Cons.prems have v: "unat v < 2 ^ 57" and nz: "\<not> (v = 0 \<and> b = 0x80)"
    by (auto simp: parse_base128_loop_Cons not_le split: if_splits)
  have un: "unat (word_of_nat ?n :: u64) = ?n"
    using v mod_less_divisor [of 128 "unat b"] by (intro unat_of_nat_u64) simp
  show ?case
  proof (cases "128 \<le> unat b")
    case True
    have "unat b - 128 < 128" using True unat_u8_less [of b] by linarith
    then have hi: "unat b mod 128 + 128 = unat b" using True by (simp add: le_mod_geq)
    have rec: "parse_base128_loop (word_of_nat ?n) cbs' = (Some w, rest)"
      using Cons.prems True v nz by (simp add: parse_base128_loop_Cons split: if_splits)
    have "?n \<noteq> 0"
    proof
      assume "?n = 0"
      then have "v = 0" "unat b = 128" using hi by (auto simp: word_unat_eq_iff)
      with nz show False by (simp add: word_unat_eq_iff)
    qed
    then have "(word_of_nat ?n :: u64) \<noteq> 0" using un by (auto simp: word_unat_eq_iff)
    then obtain pre where pre: "cbs' = pre @ rest" "b128_hi ?n @ pre = b128 (unat w)"
      using Cons.IH [OF rec] un by (auto simp del: of_nat_add)
    show ?thesis
    proof (intro exI [of _ "b # pre"] conjI)
      show "b # cbs' = (b # pre) @ rest" using pre by simp
      show "(if v = 0 then b # pre else b128_hi (unat v) @ b # pre) = b128 (unat w)"
        using pre(2) hi b128_hi_snoc [of "unat v" b]
        by (auto simp: b128_hi.simps [of "unat b mod 128"] word_unat_eq_iff [of v 0])
    qed
  next
    case False
    then have w: "w = word_of_nat ?n" "rest = cbs'"
      using Cons.prems v nz by (auto simp: parse_base128_loop_Cons split: if_splits)
    have "(if v = 0 then [b] else b128_hi (unat v) @ [b]) = b128 (unat w)"
    proof (cases "v = 0")
      case True
      then show ?thesis using False by (simp add: b128_def w(1))
    next
      case v0: False
      then have "\<not> ?n < 128" by (simp add: word_unat_eq_iff)
      then show ?thesis using False v0 un
        by (simp add: b128_def w(1) del: of_nat_add of_nat_mult)
    qed
    with w show ?thesis by (intro exI [of _ "[b]"]) auto
  qed
qed

lemma parse_base128_integer_iff:
  "parse_base128_integer cbs = (Some w, rest) \<longleftrightarrow> cbs = b128 (unat w) @ rest"
proof
  assume "parse_base128_integer cbs = (Some w, rest)"
  from parse_base128_loop_canonical [OF this [unfolded parse_base128_integer_def]]
  show "cbs = b128 (unat w) @ rest" by auto
next
  assume "cbs = b128 (unat w) @ rest"
  then show "parse_base128_integer cbs = (Some w, rest)"
    using parse_b128 [of "unat w" rest] unat_u64_less [of w] by simp
qed

text \<open>
  The specification of an identifier: class and constructed bits on top, the tag number in the
  low five bits when it is less than 31, else all ones and the number in base 128.
\<close>

definition tag_bits :: "u32 \<Rightarrow> u8" where
  "tag_bits tag = ucast (drop_bit 24 tag) AND 0xe0"

definition tag_number_of :: "u32 \<Rightarrow> nat" where
  "tag_number_of tag = unat tag mod 2 ^ 29"

definition der_tag :: "u32 \<Rightarrow> bytes" where
  "der_tag tag = (if tag_number_of tag < 31 then [tag_bits tag OR word_of_nat (tag_number_of tag)]
                  else (tag_bits tag OR 0x1f) # b128 (tag_number_of tag))"

lemma tag_join:
  fixes n :: u32
  assumes "n = take_bit 29 n"
  shows "tag_bits (push_bit 24 (ucast (b::u8) AND 0xe0) OR n) = b AND 0xe0"
    and "take_bit 29 (push_bit 24 (ucast (b::u8) AND 0xe0) OR n) = n"
proof -
  have n: "bit n i \<Longrightarrow> i < 29" for i
    using assms by (metis bit_take_bit_iff)
  show "tag_bits (push_bit 24 (ucast b AND 0xe0) OR n) = b AND 0xe0"
    unfolding tag_bits_def mask_literals by (rule bit_eqI) (auto simp: bit_simps dest: n)
  show "take_bit 29 (push_bit 24 (ucast b AND 0xe0) OR n) = n"
    unfolding mask_literals by (rule bit_eqI) (auto simp: bit_simps dest: n)
qed

lemma tag_rejoin:
  "push_bit 24 (ucast (tag_bits tag) AND 0xe0) OR take_bit 29 tag = tag"
  unfolding tag_bits_def mask_literals
  by (rule bit_eqI) (auto simp: bit_simps)

lemma unat_take_bit_29: "unat (take_bit 29 (tag::u32)) = tag_number_of tag"
  by (simp add: tag_number_of_def unsigned_take_bit_eq take_bit_eq_mod [of 29 "unat tag"])

lemma take_bit_29_small: "unat (n::u32) < 2 ^ 29 \<Longrightarrow> take_bit 29 n = n"
  by (simp add: word_unat_eq_iff unat_take_bit_29 tag_number_of_def)

lemma CBS_ASN1_TAG_NUMBER_MASK_eq: "CBS_ASN1_TAG_NUMBER_MASK = mask 29"
  by (simp add: CBS_ASN1_TAG_NUMBER_MASK_def CBS_ASN1_TAG_SHIFT_def mask_eq_exp_minus_1)

lemma u8_low_high:
  fixes b x :: u8
  assumes "x = take_bit 5 x"
  shows "((b AND 0xe0) OR x) AND 0xe0 = b AND 0xe0" "((b AND 0xe0) OR x) AND 0x1f = x"
    "(b AND 0xe0) OR (b AND 0x1f) = b"
proof -
  have x: "bit x i \<Longrightarrow> i < 5" for i using assms by (metis bit_take_bit_iff)
  show "((b AND 0xe0) OR x) AND 0xe0 = b AND 0xe0" "((b AND 0xe0) OR x) AND 0x1f = x"
    "(b AND 0xe0) OR (b AND 0x1f) = b"
    unfolding mask_literals by (rule bit_eqI; auto simp: bit_simps dest: x)+
qed

lemma ucast_and_e0: "(ucast (b::u8) AND 0xe0 :: u32) = ucast (b AND 0xe0)"
  unfolding mask_literals by (rule bit_eqI) (auto simp: bit_simps)

lemma parse_asn1_tag_Cons:
  "parse_asn1_tag (b # cbs) =
    (if b AND 0x1f = 0x1f then
       (case parse_base128_integer cbs of
          (None, cbs') \<Rightarrow> (None, cbs')
        | (Some v, cbs') \<Rightarrow>
            if unat v < 2 ^ 29 \<and> 31 \<le> unat v
            then (Some (push_bit 24 (ucast b AND 0xe0) OR ucast v), cbs') else (None, cbs'))
     else (Some (push_bit 24 (ucast b AND 0xe0) OR ucast (b AND 0x1f)), cbs))"
proof -
  have eq: "(ucast (b AND 0x1f) :: u32) = 0x1f \<longleftrightarrow> b AND 0x1f = 0x1f"
    by (simp add: word_unat_eq_iff)
  have range: "(v > ucast CBS_ASN1_TAG_NUMBER_MASK \<or> v < 0x1f) \<longleftrightarrow>
      \<not> (unat v < 2 ^ 29 \<and> 31 \<le> unat v)" for v :: u64
    by (auto simp: CBS_ASN1_TAG_NUMBER_MASK_eq mask_eq_exp_minus_1 word_less_nat_alt)
  show ?thesis
    unfolding parse_asn1_tag_def opsimps CBS_get_u8_simps Let_def CBS_ASN1_TAG_SHIFT_def
      prod.case option.case eq range
    by (auto split: option.splits prod.splits)
qed

lemma parse_der_tag: "parse_asn1_tag (der_tag tag @ rest) = (Some tag, rest)"
proof -
  have and_e0: "tag_bits tag AND 0xe0 = tag_bits tag"
    by (simp add: tag_bits_def and.assoc)
  have hi: "(ucast b AND 0xe0 :: u32) = ucast (tag_bits tag) AND 0xe0"
    if "b AND 0xe0 = tag_bits tag" for b
    by (simp only: ucast_and_e0 that and_e0)
  show ?thesis
  proof (cases "tag_number_of tag < 31")
    case True
    define x where "x = (word_of_nat (tag_number_of tag) :: u8)"
    have ux: "unat x = tag_number_of tag" using True by (simp add: x_def unat_u8_of_nat)
    then have x5: "x = take_bit 5 x" using True
      by (simp add: word_unat_eq_iff unsigned_take_bit_eq take_bit_nat_eq_self)
    define b where "b = tag_bits tag OR x"
    have byte: "b AND 0x1f = x" "b AND 0xe0 = tag_bits tag"
      using u8_low_high [OF x5, of "tag_bits tag"] by (simp_all only: and_e0 b_def)
    have "(ucast x :: u32) = take_bit 29 tag"
      by (simp add: word_unat_eq_iff ux unat_take_bit_29)
    moreover have "x \<noteq> 0x1f" using True ux by (auto simp: word_unat_eq_iff)
    ultimately have "parse_asn1_tag (b # rest) = (Some tag, rest)"
      by (simp only: parse_asn1_tag_Cons byte hi [OF byte(2)] tag_rejoin if_False)
    with True show ?thesis by (simp add: der_tag_def b_def x_def)
  next
    case False
    define v where "v = (word_of_nat (tag_number_of tag) :: u64)"
    have lt: "tag_number_of tag < 2 ^ 29" by (simp add: tag_number_of_def)
    then have uv: "unat v = tag_number_of tag" by (simp add: v_def unat_of_nat_u64)
    define b where "b = tag_bits tag OR 0x1f"
    have byte: "b AND 0x1f = 0x1f" "b AND 0xe0 = tag_bits tag"
      using u8_low_high [of "0x1f" "tag_bits tag"] by (simp_all only: and_e0 b_def) simp_all
    have num: "(ucast v :: u32) = take_bit 29 tag"
      using lt by (simp add: word_unat_eq_iff unat_take_bit_29 unsigned_ucast_eq uv
          take_bit_nat_eq_self)
    have "parse_base128_integer (b128 (tag_number_of tag) @ rest) = (Some v, rest)"
      using lt by (simp add: v_def parse_b128)
    then have "parse_asn1_tag (b # b128 (tag_number_of tag) @ rest) =
        (Some (push_bit 24 (ucast b AND 0xe0) OR ucast v), rest)"
      using lt False uv by (simp add: parse_asn1_tag_Cons byte(1))
    then have "parse_asn1_tag (b # b128 (tag_number_of tag) @ rest) = (Some tag, rest)"
      by (simp only: hi [OF byte(2)] num tag_rejoin)
    with False show ?thesis by (simp add: der_tag_def b_def)
  qed
qed

lemma parse_asn1_tag_canonical:
  assumes "parse_asn1_tag cbs = (Some tag, rest)"
  shows "cbs = der_tag tag @ rest"
proof (cases cbs)
  case Nil
  with assms show ?thesis by (simp add: parse_asn1_tag_def opsimps)
next
  case (Cons b cbs')
  have join: "(b AND 0xe0) OR (b AND 0x1f) = b"
    using u8_low_high(3) [of 0 b] by simp
  show ?thesis
  proof (cases "b AND 0x1f = 0x1f")
    case True
    then obtain v where v: "parse_base128_integer cbs' = (Some v, rest)"
      and range: "unat v < 2 ^ 29" "31 \<le> unat v"
      and tag: "tag = push_bit 24 (ucast b AND 0xe0) OR ucast v"
      using assms Cons by (auto simp: parse_asn1_tag_Cons split: prod.splits option.splits if_splits)
    have uv: "unat (ucast v :: u32) = unat v"
      using range by (simp add: unsigned_ucast_eq take_bit_nat_eq_self)
    have j: "tag_bits tag = b AND 0xe0" "take_bit 29 tag = ucast v"
      using tag_join [of "ucast v" b] take_bit_29_small [of "ucast v"] range uv tag by simp_all
    then have "tag_number_of tag = unat v" using uv by (simp flip: unat_take_bit_29)
    then show ?thesis
      using Cons v range join True j by (simp add: der_tag_def parse_base128_integer_iff)
  next
    case False
    then have tag: "tag = push_bit 24 (ucast b AND 0xe0) OR ucast (b AND 0x1f)" and "rest = cbs'"
      using assms Cons by (auto simp: parse_asn1_tag_Cons)
    have b5: "b AND 0x1f = take_bit 5 b" by (simp add: take_bit_eq_mask mask_literals(2))
    then have ub: "unat (b AND 0x1f) < 32"
      by (simp add: unsigned_take_bit_eq take_bit_eq_mod [of 5 "unat b"])
    moreover have "unat (b AND 0x1f) \<noteq> 31" using False by (simp add: word_unat_eq_iff)
    ultimately have lt: "unat (b AND 0x1f) < 31" by simp
    have j: "tag_bits tag = b AND 0xe0" "take_bit 29 tag = ucast (b AND 0x1f)"
      using tag_join [of "ucast (b AND 0x1f)" b] take_bit_29_small [of "ucast (b AND 0x1f)"] ub tag
      by simp_all
    then have "tag_number_of tag = unat (b AND 0x1f)" by (simp flip: unat_take_bit_29)
    then show ?thesis using Cons \<open>rest = cbs'\<close> lt j join by (simp add: der_tag_def)
  qed
qed

lemma parse_asn1_tag_iff: "parse_asn1_tag cbs = (Some tag, rest) \<longleftrightarrow> cbs = der_tag tag @ rest"
  using parse_asn1_tag_canonical parse_der_tag by blast

section \<open>Elements\<close>

definition cbs_get_any_asn1_element :: "bool \<Rightarrow> (CBS, CBS \<times> u32 \<times> nat) op" where
  "cbs_get_any_asn1_element ber_ok cbs =
    (case parse_asn1_tag cbs of (None, _) \<Rightarrow> (None, cbs) | (Some tag, header) \<Rightarrow>
     case CBS_get_u8 header of (None, _) \<Rightarrow> (None, cbs) | (Some length_byte, header) \<Rightarrow>
     let header_len = length cbs - length header;
         get = (\<lambda>len hl. opbind (CBS_get_bytes len) (\<lambda>out. opret (out, tag, hl)) cbs) in
     if length_byte AND 0x80 = 0 then get (unat length_byte + header_len) header_len
     else let num_bytes = unat (length_byte AND 0x7f) in
       if ber_ok \<and> tag AND CBS_ASN1_CONSTRUCTED \<noteq> 0 \<and> num_bytes = 0
       then get header_len header_len
       else if num_bytes = 0 \<or> num_bytes > 4 then (None, cbs)
       else case cbs_get_u num_bytes header of (None, _) \<Rightarrow> (None, cbs) | (Some len64, header) \<Rightarrow>
         if len64 < 128 then (None, cbs)
         else if drop_bit ((num_bytes - 1) * 8) len64 = 0 then (None, cbs)
         else let len = unat len64 in
           if (len + header_len + num_bytes) mod SIZE_MOD < len then (None, cbs)
           else get (len + header_len + num_bytes) (header_len + num_bytes))"

definition CBS_get_any_asn1_element :: "(CBS, CBS \<times> u32 \<times> nat) op" where
  "CBS_get_any_asn1_element = cbs_get_any_asn1_element False"

definition CBS_get_any_ber_asn1_element :: "(CBS, CBS \<times> u32 \<times> nat) op" where
  "CBS_get_any_ber_asn1_element = cbs_get_any_asn1_element True"

definition CBS_get_any_asn1 :: "(CBS, CBS \<times> u32) op" where
  "CBS_get_any_asn1 = opbind CBS_get_any_asn1_element (\<lambda>(out, tag, header_len).
     case CBS_skip header_len out of
       (None, _) \<Rightarrow> opfail
     | (Some _, out) \<Rightarrow> opret (out, tag))"

definition cbs_get_asn1 :: "u32 \<Rightarrow> bool \<Rightarrow> (CBS, CBS) op" where
  "cbs_get_asn1 tag_value skip_header =
     opbind CBS_get_any_asn1_element (\<lambda>(out, tag, header_len).
       if tag \<noteq> tag_value then opfail
       else if skip_header then
         (case CBS_skip header_len out of (None, _) \<Rightarrow> opfail | (Some _, out) \<Rightarrow> opret out)
       else opret out)"

definition CBS_get_asn1 :: "u32 \<Rightarrow> (CBS, CBS) op" where
  "CBS_get_asn1 tag_value = cbs_get_asn1 tag_value True"

definition CBS_get_asn1_element :: "u32 \<Rightarrow> (CBS, CBS) op" where
  "CBS_get_asn1_element tag_value = cbs_get_asn1 tag_value False"

definition CBS_peek_asn1_tag :: "CBS \<Rightarrow> u32 \<Rightarrow> bool" where
  "CBS_peek_asn1_tag cbs tag_value =
     (if CBS_len cbs < 1 then False else fst (parse_asn1_tag cbs) = Some tag_value)"

text \<open>
  The specification of a definite length: one byte below 128, else the number of length bytes
  and the length in as few bytes as it needs, four at most.
\<close>

definition der_length :: "nat \<Rightarrow> bytes" where
  "der_length n = (if n < 128 then [word_of_nat n]
     else if n < 256 then 0x81 # be_bytes 1 n
     else if n < 256 ^ 2 then 0x82 # be_bytes 2 n
     else if n < 256 ^ 3 then 0x83 # be_bytes 3 n
     else 0x84 # be_bytes 4 n)"

definition der_header :: "u32 \<Rightarrow> nat \<Rightarrow> bytes" where
  "der_header tag n = der_tag tag @ der_length n"

lemma length_b128_hi: "n < 128 ^ k \<Longrightarrow> 0 < k \<Longrightarrow> length (b128_hi n) \<le> k"
proof (induction n arbitrary: k rule: b128_hi.induct)
  case (1 n)
  show ?case
  proof (cases "n < 128")
    case False
    then obtain j where k: "k = Suc j" "0 < j" using 1(2,3) by (cases k; cases "k - 1") auto
    then have "length (b128_hi (n div 128)) \<le> j"
      using False 1(2) by (intro 1(1)) (auto simp: less_mult_imp_div_less mult.commute)
    with False k show ?thesis by (simp add: b128_hi.simps [of n])
  qed (use 1 in \<open>simp add: b128_hi.simps [of n]\<close>)
qed

lemma length_der_tag: "1 \<le> length (der_tag tag)" "length (der_tag tag) \<le> 6"
proof -
  have "tag_number_of tag div 128 < 128 ^ 4" by (simp add: tag_number_of_def less_mult_imp_div_less)
  from length_b128_hi [OF this] show "1 \<le> length (der_tag tag)" "length (der_tag tag) \<le> 6"
    by (simp_all add: der_tag_def b128_def)
qed

lemma der_length_iff:
  assumes "n < 2 ^ 32"
  shows "der_length n = lb # bs \<longleftrightarrow>
    unat lb < 128 \<and> bs = [] \<and> n = unat lb \<or>
    length bs \<in> {1..4} \<and> unat lb = 128 + length bs \<and> be_nat bs = n \<and> 128 \<le> n \<and> 256 ^ (length bs - 1) \<le> n"
    (is "?l \<longleftrightarrow> ?r")
proof
  assume ?l
  then show ?r using assms
    by (auto simp: der_length_def be_nat_be_bytes unat_u8_of_nat simp del: be_bytes.simps split: if_splits)
next
  assume r: ?r
  have lb: "lb = word_of_nat m" if "unat lb = m" for m using that by auto
  from r show ?l
  proof
    assume "unat lb < 128 \<and> bs = [] \<and> n = unat lb"
    then show ?thesis by (simp add: der_length_def)
  next
    assume a: "length bs \<in> {1..4} \<and> unat lb = 128 + length bs \<and> be_nat bs = n \<and> 128 \<le> n
      \<and> 256 ^ (length bs - 1) \<le> n"
    then have n: "n < 256 ^ length bs" and bs: "be_bytes (length bs) n = bs"
      using be_nat_less [of bs] be_bytes_be_nat [of bs] by auto
    from a consider "length bs = 1" | "length bs = 2" | "length bs = 3" | "length bs = 4" by force
    then show ?thesis
      using a n bs lb [of "128 + length bs"]
      by cases (auto simp: der_length_def simp del: be_bytes.simps)
  qed
qed

lemma drop_bytes_eq_0: "drop_bit (k * 8) (w::u64) = 0 \<longleftrightarrow> unat w < 256 ^ k"
proof -
  have "(2::nat) ^ (k * 8) = 256 ^ k" by (simp add: power_mult mult.commute [of k])
  then show ?thesis
    by (simp add: word_unat_eq_iff unat_drop_bit_eq drop_bit_eq_div [of _ "unat w"] div_eq_0_iff
        del: drop_bit_eq_div)
qed

lemma get_element_iff:
  "opbind (CBS_get_bytes len) (\<lambda>o'. opret (o', tag, hl)) cbs = (Some (out, tag', hl'), rest) \<longleftrightarrow>
     tag' = tag \<and> hl' = hl \<and> cbs = out @ rest \<and> length out = len"
  by (auto simp: op_iffs CBS_get_bytes_iff)

lemma der_tag_append_inj: "der_tag t @ x = der_tag t' @ y \<Longrightarrow> t = t' \<and> x = y"
  using parse_der_tag [of t x] parse_der_tag [of t' y] by (metis option.inject prod.inject)

lemma element_None:
  assumes "\<nexists>tag lb header. cbs = der_tag tag @ lb # header"
  shows "cbs_get_any_asn1_element ber_ok cbs = (None, cbs)"
proof (cases "parse_asn1_tag cbs")
  case (Pair t header)
  then show ?thesis
  proof (cases t)
    case (Some tag)
    with Pair assms have "header = []"
      by (cases header) (auto simp: parse_asn1_tag_iff)
    with Some Pair show ?thesis by (simp add: cbs_get_any_asn1_element_def)
  qed (simp add: cbs_get_any_asn1_element_def)
qed

lemma element_unfold:
  fixes tag lb header
  defines "cbs \<equiv> der_tag tag @ lb # header" and "hl \<equiv> length (der_tag tag) + 1"
    and "k \<equiv> unat lb - 128"
  shows "cbs_get_any_asn1_element ber_ok cbs =
    (let get = (\<lambda>len hl. opbind (CBS_get_bytes len) (\<lambda>out. opret (out, tag, hl)) cbs) in
     if unat lb < 128 then get (unat lb + hl) hl
     else if ber_ok \<and> tag AND CBS_ASN1_CONSTRUCTED \<noteq> 0 \<and> k = 0 then get hl hl
     else if k = 0 \<or> k > 4 \<or> length header < k then (None, cbs)
     else let n = be_nat (take k header) in
       if n < 128 \<or> n < 256 ^ (k - 1) then (None, cbs) else get (n + hl + k) (hl + k))"
proof -
  have low: "lb AND 0x80 = 0 \<longleftrightarrow> unat lb < 128" using u8_bits_80_7f(1) [of lb] by auto
  have k: "unat (lb AND 0x7f) = k" if "\<not> unat lb < 128"
  proof -
    have "unat lb - 128 < 128" using that unat_u8_less [of lb] by linarith
    then show ?thesis using that by (simp add: k_def u8_bits_80_7f(2) le_mod_geq)
  qed
  have hl: "length cbs - length header = hl" by (simp add: cbs_def hl_def)
  have start: "parse_asn1_tag cbs = (Some tag, lb # header)"
    by (simp add: cbs_def parse_asn1_tag_iff)
  have word: "unat (be_word (take k header)) = be_nat (take k header)" if "k \<le> 4"
    by (rule unat_be_word_short) (use that in simp)
  have small: "be_nat (take k header) + hl + k < SIZE_MOD" if "k \<le> 4"
  proof -
    have "(256::nat) ^ length (take k header) \<le> 256 ^ 4" by (rule power_increasing) (use that in auto)
    then show ?thesis
      using be_nat_less [of "take k header"] that length_der_tag(2) [of tag] by (simp add: hl_def)
  qed
  have test: "be_word (take k header) < 128 \<longleftrightarrow> be_nat (take k header) < 128" if "k \<le> 4"
    using word [OF that] by (simp add: word_less_nat_alt)
  show ?thesis
    unfolding cbs_get_any_asn1_element_def start prod.case option.case CBS_get_u8_simps hl Let_def low
    by (auto simp: k cbs_get_u_def cbs_get_def opsimps word small test drop_bytes_eq_0 not_less)
qed

lemma CBS_get_any_asn1_element_iff:
  "CBS_get_any_asn1_element cbs = (Some (out, tag, hl), rest) \<longleftrightarrow>
    (\<exists>body. length body < 2 ^ 32 \<and> cbs = out @ rest \<and> out = der_header tag (length body) @ body \<and>
       hl = length (der_header tag (length body)))"
  (is "?l \<longleftrightarrow> ?r")
proof (cases "\<exists>tag lb header. cbs = der_tag tag @ lb # header")
  case False
  have "der_length n \<noteq> []" for n by (simp add: der_length_def)
  then have "\<not> ?r" using False
    by (auto simp: der_header_def neq_Nil_conv) (metis append_Cons append_assoc)
  with False show ?thesis by (simp add: CBS_get_any_asn1_element_def element_None)
next
  case True
  then obtain tag' lb header where cbs: "cbs = der_tag tag' @ lb # header" by blast
  let ?k = "unat lb - 128" and ?h = "length (der_tag tag') + 1"
  let ?n = "be_nat (take ?k header)"
  have l: "?l \<longleftrightarrow> tag = tag' \<and> cbs = out @ rest \<and>
      (if unat lb < 128 then hl = ?h \<and> length out = unat lb + ?h
       else ?k \<in> {1..4} \<and> ?k \<le> length header \<and> 128 \<le> ?n \<and> 256 ^ (?k - 1) \<le> ?n \<and>
         hl = ?h + ?k \<and> length out = ?n + ?h + ?k)"
    unfolding CBS_get_any_asn1_element_def cbs element_unfold Let_def get_element_iff
    by (auto simp: get_element_iff simp del: length_greater_0_conv)
  show ?thesis
  proof
    assume a: ?l
    show ?r
    proof (cases "unat lb < 128")
      case True
      have "(der_tag tag' @ [lb]) @ header = out @ rest" "length (der_tag tag' @ [lb]) \<le> length out"
        using a True unfolding l by (simp_all add: cbs)
      then obtain body where "out = (der_tag tag' @ [lb]) @ body" "header = body @ rest"
        by (rule append_eq_prefixE)
      moreover have "length body = unat lb" using a True calculation(1) unfolding l by simp
      moreover have "der_length (unat lb) = [lb]" using True by (simp add: der_length_def)
      ultimately show ?thesis
        using a True unfolding l by (intro exI [of _ body]) (simp add: der_header_def)
    next
      case False
      have "(der_tag tag' @ lb # take ?k header) @ drop ?k header = out @ rest"
        "length (der_tag tag' @ lb # take ?k header) \<le> length out"
        using a False unfolding l by (simp_all add: cbs)
      then obtain body where out: "out = (der_tag tag' @ lb # take ?k header) @ body"
        by (rule append_eq_prefixE)
      have "length (take ?k header) = ?k" "length out = ?n + ?h + ?k"
        using a False unfolding l by auto
      then have len: "length body = ?n" using arg_cong [OF out, of length] by simp
      have "(256::nat) ^ ?k \<le> 256 ^ 4" using a False unfolding l by (intro power_increasing) auto
      then have n: "?n < 2 ^ 32" using be_nat_less [of "take ?k header"] a False unfolding l by simp
      have "der_length ?n = lb # take ?k header"
        using a False unfolding l der_length_iff [OF n] by auto
      then show ?thesis
        using a False out len n unfolding l by (intro exI [of _ body]) (auto simp: der_header_def)
    qed
  next
    assume ?r
    then obtain body where body: "length body < 2 ^ 32" "cbs = out @ rest"
      "out = der_header tag (length body) @ body" "hl = length (der_header tag (length body))"
      by blast
    then have eq: "der_tag tag @ der_length (length body) @ body @ rest = der_tag tag' @ lb # header"
      using cbs by (simp add: der_header_def)
    from der_tag_append_inj [OF this] have tag: "tag = tag'"
      and h: "der_length (length body) @ body @ rest = lb # header" by auto
    moreover have "der_length (length body) \<noteq> []" by (simp add: der_length_def)
    ultimately obtain bs where bs: "der_length (length body) = lb # bs" "header = bs @ body @ rest"
      by (cases "der_length (length body)") auto
    note out = body(2-4) [unfolded der_header_def bs(1)]
      and len = bs(1) [unfolded der_length_iff [OF body(1)]]
    show ?l unfolding l using out len bs(2) tag by auto
  qed
qed

lemma get_element_ok:
  "length body < 2 ^ 32 \<Longrightarrow>
    CBS_get_any_asn1_element (der_header tag (length body) @ body @ rest) =
      (Some (der_header tag (length body) @ body, tag, length (der_header tag (length body))), rest)"
  unfolding CBS_get_any_asn1_element_iff by (intro exI [of _ body]) simp

lemma CBS_get_any_asn1_iff:
  "CBS_get_any_asn1 cbs = (Some (body, tag), rest) \<longleftrightarrow>
     length body < 2 ^ 32 \<and> cbs = der_header tag (length body) @ body @ rest"
proof
  assume "CBS_get_any_asn1 cbs = (Some (body, tag), rest)"
  then show "length body < 2 ^ 32 \<and> cbs = der_header tag (length body) @ body @ rest"
    by (auto simp: CBS_get_any_asn1_def op_iffs CBS_get_any_asn1_element_iff CBS_skip_eq)
qed (auto simp: CBS_get_any_asn1_def opsimps get_element_ok CBS_skip_eq)

lemma CBS_get_asn1_iff:
  "CBS_get_asn1 tag cbs = (Some body, rest) \<longleftrightarrow>
     length body < 2 ^ 32 \<and> cbs = der_header tag (length body) @ body @ rest"
proof
  assume "CBS_get_asn1 tag cbs = (Some body, rest)"
  then show "length body < 2 ^ 32 \<and> cbs = der_header tag (length body) @ body @ rest"
    by (auto simp: CBS_get_asn1_def cbs_get_asn1_def op_iffs CBS_get_any_asn1_element_iff
        CBS_skip_eq split: if_splits)
qed (auto simp: CBS_get_asn1_def cbs_get_asn1_def opsimps get_element_ok CBS_skip_eq)

lemma CBS_get_asn1_element_iff:
  "CBS_get_asn1_element tag cbs = (Some out, rest) \<longleftrightarrow>
     (\<exists>body. length body < 2 ^ 32 \<and> out = der_header tag (length body) @ body \<and> cbs = out @ rest)"
  by (auto simp: CBS_get_asn1_element_def cbs_get_asn1_def op_iffs CBS_get_any_asn1_element_iff
      split: prod.splits option.splits if_splits)

lemma CBS_peek_asn1_tag_iff:
  "CBS_peek_asn1_tag cbs tag \<longleftrightarrow> (\<exists>rest. cbs = der_tag tag @ rest)"
proof -
  have "fst (parse_asn1_tag cbs) = Some tag \<longleftrightarrow> (\<exists>rest. parse_asn1_tag cbs = (Some tag, rest))"
    by (cases "parse_asn1_tag cbs") auto
  then show ?thesis
    using length_der_tag(1) [of tag]
    by (cases cbs) (auto simp: CBS_peek_asn1_tag_def CBS_len_def parse_asn1_tag_iff)
qed

lemma cbs_get_any_asn1_element_shorter:
  "cbs_get_any_asn1_element ber_ok cbs = (Some r, rest) \<Longrightarrow> length rest + 2 \<le> length cbs"
proof -
  assume a: "cbs_get_any_asn1_element ber_ok cbs = (Some r, rest)"
  show ?thesis
  proof (cases "\<exists>tag lb header. cbs = der_tag tag @ lb # header")
    case True
    then obtain tag lb header where cbs: "cbs = der_tag tag @ lb # header" by blast
    show ?thesis
      using a length_der_tag(1) [of tag] unfolding cbs element_unfold
      by (cases r) (auto simp: Let_def get_element_iff cbs dest!: arg_cong [of _ _ length] split: if_splits; arith)
  qed (use a in \<open>simp add: element_None\<close>)
qed

section \<open>Byte swaps\<close>

lemma all_below_32: "(\<forall>n<32::nat. P n) \<longleftrightarrow> list_all P [0,1,2,3,4,5,6,7,8,9,10,11,12,13,14,15,16,17,18,19,20,21,22,23,24,25,26,27,28,29,30,31]"
proof -
  have "[0..<32] = [0,1,2,3,4,5,6,7,8,9,10,11,12,13,14,15,16,17,18,19,20,21,22,23,24,25,26,27,28,29,30,31]"
    by code_simp
  from this [symmetric] show ?thesis by (simp only: list_all_iff set_upt) auto
qed

lemma not_bit_u32: "32 \<le> n \<Longrightarrow> bit (x :: u32) n = False"
  by (auto dest: bit_imp_possible_bit)

lemma bit_bswap4: "n < 32 \<Longrightarrow> bit (CRYPTO_bswap4 x) n \<longleftrightarrow> bit x (24 - 8 * (n div 8) + n mod 8)"
proof -
  have "\<forall>n<32. bit (CRYPTO_bswap4 x) n \<longleftrightarrow> bit x (24 - 8 * (n div 8) + n mod 8)"
    unfolding all_below_32 CRYPTO_bswap4_def Let_def
    by (simp add: bit_simps not_bit_u32) (simp add: eval_nat_numeral)
  then show "n < 32 \<Longrightarrow> ?thesis" by blast
qed

lemma bswap2_bswap2: "CRYPTO_bswap2 (CRYPTO_bswap2 a) = a"
proof (rule bit_eqI)
  fix n assume "possible_bit TYPE(16 word) n"
  then show "bit (CRYPTO_bswap2 (CRYPTO_bswap2 a)) n \<longleftrightarrow> bit a n"
    unfolding CRYPTO_bswap2_def by (cases "n < 8") (auto simp: bit_simps dest: bit_imp_possible_bit)
qed

lemma bswap4_bswap4: "CRYPTO_bswap4 (CRYPTO_bswap4 a) = a"
proof (rule bit_eqI)
  fix n assume "possible_bit TYPE(32 word) n"
  then have "n < 32" by simp
  moreover have "\<forall>n<32. bit (CRYPTO_bswap4 (CRYPTO_bswap4 a)) n \<longleftrightarrow> bit a n"
    unfolding all_below_32 by (simp add: bit_bswap4) (simp add: eval_nat_numeral)
  ultimately show "bit (CRYPTO_bswap4 (CRYPTO_bswap4 a)) n \<longleftrightarrow> bit a n" by blast
qed

lemma bswap8_bswap8: "CRYPTO_bswap8 (CRYPTO_bswap8 a) = a"
proof -
  let ?l = "CRYPTO_bswap4 (ucast (drop_bit 32 a))" and ?h = "CRYPTO_bswap4 (ucast a)"
  have "(ucast (ucast ?l OR push_bit 32 (ucast ?h) :: u64) :: u32) = ?l"
    by (rule bit_eqI) (auto simp: bit_simps)
  moreover have "(ucast (drop_bit 32 (ucast ?l OR push_bit 32 (ucast ?h) :: u64)) :: u32) = ?h"
    by (rule bit_eqI) (auto simp: bit_simps dest: bit_imp_possible_bit)
  moreover have "(ucast (ucast a :: u32) OR push_bit 32 (ucast (ucast (drop_bit 32 a) :: u32)) :: u64) = a"
    by (rule bit_eqI) (auto simp: bit_simps)
  ultimately show ?thesis unfolding CRYPTO_bswap8_def by (simp only: bswap4_bswap4)
qed

section \<open>Properties\<close>


text \<open>Tags and their encodings correspond one to one: the tag parser returns a tag exactly on
  the inputs that start with its one identifier encoding (low form below 31, else the minimal
  base-128 number).\<close>

theorem parse_asn1_tag_canonical_form:
  "parse_asn1_tag cbs = (Some tag, rest) \<longleftrightarrow> cbs = der_tag tag @ rest"
  by (rule parse_asn1_tag_iff)

end
