(* ===== verification/CbsAsn1.thy ===== *)
theory CbsAsn1
  imports Cbs
begin

text \<open>
  The typed DER readers of \<^verbatim>\<open>crypto/bytestring/cbs.c\<close>: integers, booleans, optional
  elements and bit strings. \<open>minimal_int\<close> and \<open>int_value\<close> say which byte strings are
  two's complement numbers in as few bytes as possible and which number they are; the
  integer readers accept exactly those that fit their result type.
\<close>

definition CBS_ASN1_BOOLEAN :: u32 where "CBS_ASN1_BOOLEAN = 0x1"
definition CBS_ASN1_INTEGER :: u32 where "CBS_ASN1_INTEGER = 0x2"
definition CBS_ASN1_OCTETSTRING :: u32 where "CBS_ASN1_OCTETSTRING = 0x4"

section \<open>Integers\<close>

fun asn1_uint64_loop :: "u64 \<Rightarrow> bytes \<Rightarrow> u64 option" where
  "asn1_uint64_loop out [] = Some out"
| "asn1_uint64_loop out (b # data) =
     (if drop_bit 56 out \<noteq> 0 then None
      else asn1_uint64_loop (push_bit 8 out OR ucast b) data)"

definition CBS_get_asn1_uint64 :: "(CBS, u64) op" where
  "CBS_get_asn1_uint64 = opbind (CBS_get_asn1 CBS_ASN1_INTEGER) (\<lambda>bytes.
     let data = CBS_data bytes; len = CBS_len bytes in
     if len = 0 then opfail
     else if data ! 0 AND 0x80 \<noteq> 0 then opfail
     else if data ! 0 = 0 \<and> len > 1 \<and> data ! 1 AND 0x80 = 0 then opfail
     else case asn1_uint64_loop 0 data of None \<Rightarrow> opfail | Some out \<Rightarrow> opret out)"

text \<open>The 64-bit integer that a little-endian host reads from eight bytes.\<close>

definition union_i64 :: "bytes \<Rightarrow> u64" where
  "union_i64 bs = foldr (\<lambda>b r. push_bit 8 r OR ucast b) bs 0"

definition CBS_get_asn1_int64 :: "(CBS, u64) op" where
  "CBS_get_asn1_int64 = opbind (CBS_get_asn1 CBS_ASN1_INTEGER) (\<lambda>bytes.
     let data = CBS_data bytes; len = CBS_len bytes in
     if len = 0 \<or> len > 8 then opfail
     else if len > 1 \<and> data ! 0 = 0 \<and> data ! 1 AND 0x80 = 0 then opfail
     else if len > 1 \<and> data ! 0 = 0xff \<and> data ! 1 AND 0x80 \<noteq> 0 then opfail
     else let is_negative = data ! 0 AND 0x80 \<noteq> 0;
              fill = replicate 8 (if is_negative then 0xff else 0);
              u = foldl (\<lambda>u i. u[i := data ! (len - i - 1)]) fill [0..<len] in
       opret (union_i64 u))"

definition CBS_get_asn1_bool :: "(CBS, bool) op" where
  "CBS_get_asn1_bool = opbind (CBS_get_asn1 CBS_ASN1_BOOLEAN) (\<lambda>bytes.
     if CBS_len bytes \<noteq> 1 then opfail
     else let value = CBS_data bytes ! 0 in
       if value \<noteq> 0 \<and> value \<noteq> 0xff then opfail else opret (value \<noteq> 0))"

section \<open>Optional elements\<close>

definition CBS_get_optional_asn1 :: "u32 \<Rightarrow> (CBS, CBS option) op" where
  "CBS_get_optional_asn1 tag cbs =
     (if CBS_peek_asn1_tag cbs tag
      then opbind (CBS_get_asn1 tag) (\<lambda>out. opret (Some out)) cbs
      else opret None cbs)"

definition CBS_get_optional_asn1_octet_string :: "u32 \<Rightarrow> (CBS, CBS \<times> bool) op" where
  "CBS_get_optional_asn1_octet_string tag = opbind (CBS_get_optional_asn1 tag) (\<lambda>child.
     case child of
       Some child \<Rightarrow>
         (case CBS_get_asn1 CBS_ASN1_OCTETSTRING child of
            (None, _) \<Rightarrow> opfail
          | (Some out, child) \<Rightarrow> if CBS_len child \<noteq> 0 then opfail else opret (out, True))
     | None \<Rightarrow> opret (CBS_init [] 0, False))"

definition CBS_get_optional_asn1_uint64 :: "u32 \<Rightarrow> u64 \<Rightarrow> (CBS, u64) op" where
  "CBS_get_optional_asn1_uint64 tag default_value = opbind (CBS_get_optional_asn1 tag) (\<lambda>child.
     case child of
       Some child \<Rightarrow>
         (case CBS_get_asn1_uint64 child of
            (None, _) \<Rightarrow> opfail
          | (Some out, child) \<Rightarrow> if CBS_len child \<noteq> 0 then opfail else opret out)
     | None \<Rightarrow> opret default_value)"

definition CBS_get_optional_asn1_bool :: "u32 \<Rightarrow> bool \<Rightarrow> (CBS, bool) op" where
  "CBS_get_optional_asn1_bool tag default_value = opbind (CBS_get_optional_asn1 tag) (\<lambda>child.
     case child of
       Some child \<Rightarrow>
         (case CBS_get_asn1 CBS_ASN1_BOOLEAN child of
            (None, _) \<Rightarrow> opfail
          | (Some child2, child) \<Rightarrow>
              if CBS_len child2 \<noteq> 1 \<or> CBS_len child \<noteq> 0 then opfail
              else let boolean = CBS_data child2 ! 0 in
                if boolean = 0 then opret False
                else if boolean = 0xff then opret True else opfail)
     | None \<Rightarrow> opret default_value)"

section \<open>Bit strings\<close>

definition CBS_is_valid_asn1_bitstring :: "CBS \<Rightarrow> bool" where
  "CBS_is_valid_asn1_bitstring cbs =
    (case CBS_get_u8 cbs of
       (None, _) \<Rightarrow> False
     | (Some num_unused_bits, bits) \<Rightarrow>
         if num_unused_bits > 7 then False
         else if num_unused_bits = 0 then True
         else case CBS_get_last_u8 bits of
           (None, _) \<Rightarrow> False
         | (Some last_byte, _) \<Rightarrow> last_byte AND (push_bit (unat num_unused_bits) 1 - 1) = 0)"

definition CBS_asn1_bitstring_has_bit :: "CBS \<Rightarrow> nat \<Rightarrow> bool" where
  "CBS_asn1_bitstring_has_bit cbs n =
    (if \<not> CBS_is_valid_asn1_bitstring cbs then False
     else let byte_num = n div 8 + 1; bit_num = 7 - n mod 8 in
       byte_num < CBS_len cbs \<and> CBS_data cbs ! byte_num AND push_bit bit_num 1 \<noteq> 0)"

section \<open>Which integers are accepted\<close>

definition minimal_int :: "bytes \<Rightarrow> bool" where
  "minimal_int data \<longleftrightarrow> data \<noteq> [] \<and>
     (length data > 1 \<longrightarrow> \<not> (data ! 0 = 0 \<and> unat (data ! 1) < 128) \<and>
                         \<not> (data ! 0 = 0xff \<and> 128 \<le> unat (data ! 1)))"

definition int_value :: "bytes \<Rightarrow> int" where
  "int_value data =
     int (be_nat data) - (if 128 \<le> unat (data ! 0) then 256 ^ length data else 0)"

lemma drop_bit_56_0: "drop_bit 56 (v::u64) \<noteq> 0 \<longleftrightarrow> 2 ^ 56 \<le> unat v"
  using drop_bytes_eq_0 [of 7 v] by auto

lemma asn1_uint64_loop_eq:
  "asn1_uint64_loop v data =
     (if unat v * 256 ^ length data + be_nat data < SIZE_MOD
      then Some (word_of_nat (unat v * 256 ^ length data + be_nat data)) else None)"
proof (induction data arbitrary: v)
  case (Cons b data)
  show ?case
  proof (cases "2 ^ 56 \<le> unat v")
    case True
    have "SIZE_MOD \<le> 2 ^ 56 * 256 ^ length (b # data)" by (simp add: power_add)
    also have "\<dots> \<le> unat v * 256 ^ length (b # data)" using True by simp
    finally show ?thesis using True by (simp add: drop_bit_56_0)
  next
    case False
    let ?v = "push_bit 8 v OR ucast b"
    have "unat v < 72057594037927936" using False by simp
    moreover have "unat b < 256" by (rule unat_u8_less)
    ultimately have "unat v * 256 + unat b < SIZE_MOD" by linarith
    then have v: "unat ?v = unat v * 256 + unat b" by (simp add: unat_push8_or)
    have "unat ?v * 256 ^ length data + be_nat data = unat v * 256 ^ length (b # data) + be_nat (b # data)"
      unfolding v be_nat_Cons by (simp add: algebra_simps)
    then show ?thesis using False Cons.IH [of ?v] by (simp add: drop_bit_56_0)
  qed
qed simp

lemma be_nat_less_int: "int (be_nat data) < 256 ^ length data"
  using be_nat_less [of data] by (metis of_nat_less_iff of_nat_numeral of_nat_power)

lemma int_value_nonneg:
  "int_value data = int n \<longleftrightarrow> unat (data ! 0) < 128 \<and> be_nat data = n"
proof (cases "128 \<le> unat (data ! 0)")
  case True
  have "int_value data < 0"
    unfolding int_value_def if_P [OF True] using be_nat_less_int [of data] by linarith
  then have "int_value data \<noteq> int n" by linarith
  with True show ?thesis by auto
qed (simp add: int_value_def)

lemma minimal_nonneg_length:
  assumes "minimal_int data" and "unat (data ! 0) < 128" and "be_nat data < 2 ^ 64"
  shows "length data \<le> 9"
proof (rule ccontr)
  assume "\<not> length data \<le> 9"
  then obtain a b more where data: "data = a # b # more" and more: "8 \<le> length more"
    by (cases data; cases "tl data") auto
  have p: "(256::nat) ^ 8 \<le> 256 ^ length more" using more by (intro power_increasing) auto
  have "a \<noteq> 0 \<or> 128 \<le> unat b" using assms(1) by (auto simp: minimal_int_def data)
  then have "128 \<le> unat a * 256 + unat b"
  proof
    assume "a \<noteq> 0"
    then have "1 \<le> unat a" by (simp add: word_unat_eq_iff)
    then show ?thesis by simp
  qed simp
  then have "128 * 256 ^ 8 \<le> (unat a * 256 + unat b) * 256 ^ length more"
    using p by (intro mult_le_mono) auto
  also have "\<dots> \<le> be_nat data" by (simp add: data be_nat_Cons algebra_simps)
  finally show False using assms(3) by simp
qed

lemma CBS_get_asn1_uint64_iff:
  "CBS_get_asn1_uint64 cbs = (Some w, rest) \<longleftrightarrow>
    (\<exists>body. minimal_int body \<and> int_value body = int (unat w) \<and>
       cbs = der_header CBS_ASN1_INTEGER (length body) @ body @ rest)"
  (is "?l \<longleftrightarrow> ?r")
proof -
  have "?l \<longleftrightarrow> (\<exists>body. CBS_get_asn1 CBS_ASN1_INTEGER cbs = (Some body, rest) \<and>
      minimal_int body \<and> unat (body ! 0) < 128 \<and> be_nat body < SIZE_MOD \<and> w = word_of_nat (be_nat body))"
    by (auto simp: CBS_get_asn1_uint64_def op_iffs CBS_data_def CBS_len_def minimal_int_def
        asn1_uint64_loop_eq u8_80 Let_def split: if_splits)
  also have "\<dots> \<longleftrightarrow> ?r"
  proof
    assume "\<exists>body. CBS_get_asn1 CBS_ASN1_INTEGER cbs = (Some body, rest) \<and> minimal_int body \<and>
      unat (body ! 0) < 128 \<and> be_nat body < SIZE_MOD \<and> w = word_of_nat (be_nat body)"
    then obtain body where body: "cbs = der_header CBS_ASN1_INTEGER (length body) @ body @ rest"
      "minimal_int body" "unat (body ! 0) < 128" "unat w = be_nat body"
      by (auto simp: CBS_get_asn1_iff unat_of_nat_u64)
    then show ?r by (intro exI [of _ body]) (auto simp: int_value_nonneg minimal_int_def)
  next
    assume ?r
    then obtain body where body: "minimal_int body" "int_value body = int (unat w)"
      "cbs = der_header CBS_ASN1_INTEGER (length body) @ body @ rest" by blast
    have "body \<noteq> []" using body(1) by (simp add: minimal_int_def)
    then have b: "unat (body ! 0) < 128" "be_nat body = unat w"
      using body(2) int_value_nonneg by blast+
    then have "length body \<le> 9"
      using body(1) unat_u64_less [of w] by (intro minimal_nonneg_length) auto
    with body b show "\<exists>body. CBS_get_asn1 CBS_ASN1_INTEGER cbs = (Some body, rest) \<and> minimal_int body \<and>
      unat (body ! 0) < 128 \<and> be_nat body < SIZE_MOD \<and> w = word_of_nat (be_nat body)"
      by (intro exI [of _ body]) (auto simp: CBS_get_asn1_iff)
  qed
  finally show ?thesis .
qed

lemma int64_bytes:
  assumes "length data \<le> 8"
  shows "foldl (\<lambda>u i. u[i := data ! (length data - i - 1)]) (replicate 8 f) [0..<length data] =
    rev data @ replicate (8 - length data) f"
proof -
  have "foldl (\<lambda>u i. u[i := data ! (length data - i - 1)]) (replicate 8 f) [0..<n] =
      take n (rev data) @ replicate (8 - n) f" if "n \<le> length data" for n
    using that
  proof (induction n)
    case (Suc n)
    have "take (Suc n) (rev data) = take n (rev data) @ [rev data ! n]"
      using Suc.prems by (simp add: take_Suc_conv_app_nth)
    moreover have "replicate (8 - n) f = f # replicate (8 - Suc n) f"
      using Suc.prems assms by (metis Suc_diff_Suc less_le_trans less_eq_Suc_le replicate_Suc)
    ultimately show ?case
      using Suc by (simp add: list_update_append rev_nth)
  qed simp
  then show ?thesis by simp
qed

lemma union_i64_rev: "union_i64 (rev bs) = be_word bs"
  by (simp add: union_i64_def be_word_def foldr_conv_foldl)

lemma sint_u64: "sint (w::u64) = (if unat w < 2 ^ 63 then int (unat w) else int (unat w) - 2 ^ 64)"
proof -
  have "bit (uint w) 63 \<longleftrightarrow> 2 ^ 63 \<le> unat w"
    using bit_63_iff [of w] by (simp add: bit_unsigned_iff)
  then show ?thesis
    using unsigned_less [of w, where 'a = int]
    by (simp add: sint_uint signed_take_bit_eq_take_bit_minus take_bit_int_eq_self)
qed

lemma be_nat_255: "be_nat (0xff # bs) = 255 * 256 ^ length bs + be_nat bs"
  by (simp add: be_nat_Cons)

lemma be_nat_replicate_255:
  "be_nat (replicate n 0xff @ bs) + 256 ^ length bs = 256 ^ (n + length bs) + be_nat bs"
proof (induction n)
  case (Suc n)
  then show ?case unfolding replicate_Suc append_Cons be_nat_255 by simp
qed simp

lemma sint_sign_extended:
  assumes "data \<noteq> []" and "length data \<le> 8"
  shows "sint (be_word (replicate (8 - length data) (if 128 \<le> unat (data ! 0) then 0xff else 0) @ data)) =
    int_value data"
proof -
  let ?f = "if 128 \<le> unat (data ! 0) then 0xff else 0 :: u8" and ?k = "8 - length data"
  have u: "unat (be_word (replicate ?k ?f @ data)) = be_nat (replicate ?k ?f @ data)"
    by (rule unat_be_word_short) (use assms in simp)
  obtain b more where data: "data = b # more" using assms(1) by (cases data) auto
  define p where "p = (256::nat) ^ length data"
  have p: "p \<le> 2 ^ 64"
    using power_increasing [OF assms(2), of "256::nat"] by (simp add: p_def)
  have val: "be_nat data = unat b * 256 ^ length more + be_nat more" "p = 256 * 256 ^ length more"
    by (simp_all add: data be_nat_Cons p_def)
  have less: "be_nat data < p" "be_nat more < 256 ^ length more"
    using be_nat_less unfolding p_def by blast+
  show ?thesis
  proof (cases "128 \<le> unat b")
    case True
    have "(256::nat) ^ (?k + length data) = 2 ^ 64" using assms(2) by simp
    then have e: "be_nat (replicate ?k 0xff @ data) + p = 2 ^ 64 + be_nat data"
      using be_nat_replicate_255 [of ?k data] by (simp add: p_def)
    have "128 * 256 ^ length more \<le> be_nat data" using True by (simp add: val trans_le_add1)
    then have "2 * be_nat data \<ge> p" using val(2) by simp
    then have "2 ^ 63 \<le> be_nat (replicate ?k 0xff @ data)" using e p by simp
    then have "sint (be_word (replicate ?k 0xff @ data)) = int (be_nat (replicate ?k 0xff @ data)) - 2 ^ 64"
      using True u by (simp add: sint_u64 data)
    moreover have "int (be_nat (replicate ?k 0xff @ data)) + int p = 2 ^ 64 + int (be_nat data)"
      using arg_cong [OF e, of int] by simp
    moreover have "int_value data = int (be_nat data) - int p"
      using True by (simp add: int_value_def data p_def)
    moreover have "?f = 0xff" using True by (simp add: data)
    ultimately show ?thesis by (simp only:)
  next
    case False
    have "be_nat data < 128 * 256 ^ length more"
    proof -
      have "unat b + 1 \<le> 128" using False by simp
      then have "(unat b + 1) * 256 ^ length more \<le> 128 * 256 ^ length more" by (rule mult_le_mono1)
      then have "unat b * 256 ^ length more + 256 ^ length more \<le> 128 * 256 ^ length more"
        by (simp add: algebra_simps)
      with less(2) show ?thesis unfolding val(1) by linarith
    qed
    then have "be_nat data < 2 ^ 63" using val(2) p by simp
    then show ?thesis
      using False u by (simp add: sint_u64 data int_value_def be_nat_replicate_0)
  qed
qed

definition int64_of_bytes :: "bytes \<Rightarrow> u64" where
  "int64_of_bytes data = union_i64 (foldl (\<lambda>u i. u[i := data ! (length data - i - 1)])
     (replicate 8 (if data ! 0 AND 0x80 \<noteq> 0 then 0xff else 0)) [0..<length data])"

lemma sint_int64_of_bytes:
  assumes "data \<noteq> []" and "length data \<le> 8"
  shows "sint (int64_of_bytes data) = int_value data"
proof -
  let ?f = "if data ! 0 AND 0x80 \<noteq> 0 then 0xff else 0 :: u8"
  have "int64_of_bytes data = be_word (replicate (8 - length data) ?f @ data)"
    unfolding int64_of_bytes_def int64_bytes [OF assms(2)]
    using union_i64_rev [of "replicate (8 - length data) ?f @ data"] by simp
  moreover have "sint (be_word (replicate (8 - length data) ?f @ data)) = int_value data"
    using sint_sign_extended [OF assms] by (simp only: u8_bits_80_7f(1))
  ultimately show ?thesis by simp
qed

lemma CBS_get_asn1_int64_alt:
  "CBS_get_asn1_int64 = opbind (CBS_get_asn1 CBS_ASN1_INTEGER) (\<lambda>data.
     if minimal_int data \<and> length data \<le> 8 then opret (int64_of_bytes data) else opfail)"
proof -
  have body: "(let data = CBS_data bytes; len = CBS_len bytes in
     if len = 0 \<or> len > 8 then opfail
     else if len > 1 \<and> data ! 0 = 0 \<and> data ! 1 AND 0x80 = 0 then opfail
     else if len > 1 \<and> data ! 0 = 0xff \<and> data ! 1 AND 0x80 \<noteq> 0 then opfail
     else let is_negative = data ! 0 AND 0x80 \<noteq> 0;
              fill = replicate 8 (if is_negative then 0xff else 0);
              u = foldl (\<lambda>u i. u[i := data ! (len - i - 1)]) fill [0..<len] in
       opret (union_i64 u)) =
    (if minimal_int bytes \<and> length bytes \<le> 8 then opret (int64_of_bytes bytes) else opfail)" for bytes
    unfolding CBS_data_def CBS_len_def Let_def int64_of_bytes_def [symmetric]
    by (auto simp: minimal_int_def u8_80)
  show ?thesis unfolding CBS_get_asn1_int64_def by (simp only: body)
qed

lemma CBS_get_asn1_int64_iff:
  "CBS_get_asn1_int64 cbs = (Some w, rest) \<longleftrightarrow>
    (\<exists>body. minimal_int body \<and> length body \<le> 8 \<and> int_value body = sint w \<and>
       cbs = der_header CBS_ASN1_INTEGER (length body) @ body @ rest)"
proof -
  have "int64_of_bytes body = w \<longleftrightarrow> int_value body = sint w"
    if "minimal_int body" "length body \<le> 8" for body
    using sint_int64_of_bytes [of body] that by (auto simp: minimal_int_def intro: signed_word_eqI)
  then show ?thesis
    unfolding CBS_get_asn1_int64_alt
    by (auto simp: op_iffs CBS_get_asn1_iff split: if_splits)
qed

section \<open>Booleans, optional elements, bit strings\<close>

lemma CBS_get_asn1_bool_iff:
  "CBS_get_asn1_bool cbs = (Some b, rest) \<longleftrightarrow>
    cbs = der_header CBS_ASN1_BOOLEAN 1 @ (if b then 0xff else 0) # rest"
proof -
  have "CBS_get_asn1_bool cbs = (Some b, rest) \<longleftrightarrow>
      (\<exists>body. CBS_get_asn1 CBS_ASN1_BOOLEAN cbs = (Some body, rest) \<and> body = [if b then 0xff else 0])"
    unfolding CBS_get_asn1_bool_def CBS_len_def CBS_data_def Let_def
    by (auto simp: op_iffs length_Suc_conv split: if_splits)
  then show ?thesis by (simp add: CBS_get_asn1_iff)
qed

text \<open>
  An optional element is read exactly when its tag is next; otherwise nothing is consumed. A
  tag that is there with a malformed element is an error, never taken for an absent one.
\<close>

lemma CBS_get_optional_asn1_cases:
  "CBS_get_optional_asn1 tag cbs = (Some r, rest) \<longleftrightarrow>
    (case r of
       Some body \<Rightarrow> length body < 2 ^ 32 \<and> cbs = der_header tag (length body) @ body @ rest
     | None \<Rightarrow> rest = cbs \<and> (\<nexists>more. cbs = der_tag tag @ more))"
  by (cases r) (auto simp: CBS_get_optional_asn1_def CBS_peek_asn1_tag_iff op_iffs CBS_get_asn1_iff
      der_header_def)

lemma whole_child_iff:
  "(case m child of (None, _) \<Rightarrow> opfail
     | (Some out, child) \<Rightarrow> if CBS_len child \<noteq> 0 then opfail else opret (f out)) s = (Some w, t) \<longleftrightarrow>
    (\<exists>out. m child = (Some out, []) \<and> w = f out \<and> t = s)"
  by (auto simp: op_iffs CBS_len_def split: prod.splits option.splits)

lemma CBS_get_optional_asn1_uint64_iff:
  "CBS_get_optional_asn1_uint64 tag d cbs = (Some w, rest) \<longleftrightarrow>
    (\<exists>child. length child < 2 ^ 32 \<and> cbs = der_header tag (length child) @ child @ rest \<and>
       CBS_get_asn1_uint64 child = (Some w, [])) \<or>
    (\<nexists>more. cbs = der_tag tag @ more) \<and> rest = cbs \<and> w = d"
proof -
  have "CBS_get_optional_asn1_uint64 tag d cbs = (Some w, rest) \<longleftrightarrow>
      (\<exists>child. CBS_get_optional_asn1 tag cbs = (Some (Some child), rest) \<and>
         CBS_get_asn1_uint64 child = (Some w, [])) \<or>
      CBS_get_optional_asn1 tag cbs = (Some None, rest) \<and> w = d"
    unfolding CBS_get_optional_asn1_uint64_def opbind_Some_iff
    by (auto simp: whole_child_iff [where f = "\<lambda>x. x"] op_iffs split: option.splits)
  then show ?thesis by (simp add: CBS_get_optional_asn1_cases conj_ac)
qed

lemma CBS_get_last_u8_eq:
  "CBS_get_last_u8 cbs = (if cbs = [] then (None, []) else (Some (last cbs), butlast cbs))"
  by (cases cbs rule: rev_cases) (simp_all add: CBS_get_last_u8_def nth_append)

lemma CBS_is_valid_asn1_bitstring_iff:
  "CBS_is_valid_asn1_bitstring cbs \<longleftrightarrow>
    (\<exists>u bits. cbs = u # bits \<and> unat u \<le> 7 \<and>
      (u \<noteq> 0 \<longrightarrow> bits \<noteq> [] \<and> take_bit (unat u) (last bits) = 0))"
proof (cases cbs)
  case (Cons u bits)
  have m: "x AND (push_bit n (1::u8) - 1) = take_bit n x" for n x
    by (simp only: push_bit_of_1 mask_eq_exp_minus_1 [symmetric] take_bit_eq_mask)
  have c: "u > 7 \<longleftrightarrow> \<not> unat u \<le> 7" by (simp add: word_less_nat_alt not_le)
  show ?thesis
    unfolding CBS_is_valid_asn1_bitstring_def Cons CBS_get_u8_simps prod.case option.case
      CBS_get_last_u8_eq m c
    by auto
qed (simp add: CBS_is_valid_asn1_bitstring_def)

text \<open>Bit \<open>n\<close> of a valid bit string is bit \<open>7 - n mod 8\<close> of its byte \<open>n div 8\<close>, and no unused bit is set.\<close>

lemma CBS_asn1_bitstring_has_bit_iff:
  assumes "CBS_is_valid_asn1_bitstring (u # bits)"
  shows "CBS_asn1_bitstring_has_bit (u # bits) n \<longleftrightarrow>
    n div 8 < length bits \<and> bit (bits ! (n div 8)) (7 - n mod 8)"
  using assms and_exp_eq_0_iff_not_bit [of "bits ! (n div 8)" "7 - n mod 8"]
  by (auto simp: CBS_asn1_bitstring_has_bit_def CBS_len_def CBS_data_def Let_def push_bit_eq_mult)

lemma CBS_asn1_bitstring_bit_bound:
  assumes "CBS_asn1_bitstring_has_bit (u # bits) n"
  shows "n < 8 * length bits - unat u"
proof -
  have valid: "CBS_is_valid_asn1_bitstring (u # bits)"
    using assms by (simp add: CBS_asn1_bitstring_has_bit_def split: if_splits)
  have b: "n div 8 < length bits" "bit (bits ! (n div 8)) (7 - n mod 8)"
    using assms unfolding CBS_asn1_bitstring_has_bit_iff [OF valid] by auto
  show ?thesis
  proof (cases "u = 0 \<or> n div 8 \<noteq> length bits - 1")
    case True
    then have "unat u = 0 \<or> Suc (n div 8) < length bits" using b(1) by auto
    moreover have "unat u \<le> 7" using valid by (simp add: CBS_is_valid_asn1_bitstring_iff)
    moreover have "n = 8 * (n div 8) + n mod 8" "n mod 8 < 8" by simp_all
    ultimately show ?thesis using b(1) by linarith
  next
    case False
    then have "bits ! (n div 8) = last bits" using b(1) by (cases bits) (auto simp: last_conv_nth)
    moreover have "take_bit (unat u) (last bits) = 0"
      using valid False by (simp add: CBS_is_valid_asn1_bitstring_iff)
    ultimately have "\<not> 7 - n mod 8 < unat u"
      using b(2) by (metis bit_0_eq bit_take_bit_iff bot_apply bot_bool_def)
    moreover have "n = 8 * (n div 8) + n mod 8" "n mod 8 < 8" by simp_all
    ultimately show ?thesis using False b(1) by linarith
  qed
qed

section \<open>Properties\<close>

text \<open>C6: The INTEGER readers accept exactly the INTEGER elements whose body is the minimal
  two's complement form of a number in range: \<open>CBS_get_asn1_uint64\<close> the numbers that fit 64
  unsigned bits, \<open>CBS_get_asn1_int64\<close> those of at most eight bytes, and the word they return is
  that number, read unsigned or signed.\<close>

theorem CBS_get_asn1_integers_exact:
  "(CBS_get_asn1_uint64 cbs = (Some w, rest) \<longleftrightarrow>
     (\<exists>body. minimal_int body \<and> int_value body = int (unat w) \<and>
        cbs = der_header CBS_ASN1_INTEGER (length body) @ body @ rest)) \<and>
   (CBS_get_asn1_int64 cbs = (Some w, rest) \<longleftrightarrow>
     (\<exists>body. minimal_int body \<and> length body \<le> 8 \<and> int_value body = sint w \<and>
        cbs = der_header CBS_ASN1_INTEGER (length body) @ body @ rest))"
  by (intro conjI CBS_get_asn1_uint64_iff CBS_get_asn1_int64_iff)

text \<open>A valid BIT STRING has bit \<open>n\<close> exactly when bit \<open>n\<close> (most significant first) of its
  bytes is set, and then \<open>n\<close> is below the number of bits it declares: an unused bit is never
  reported.\<close>

theorem CBS_asn1_bitstring_bits:
  "CBS_asn1_bitstring_has_bit (u # bits) n \<longleftrightarrow>
    CBS_is_valid_asn1_bitstring (u # bits) \<and> n < 8 * length bits - unat u \<and>
    bit (bits ! (n div 8)) (7 - n mod 8)"
proof -
  have "n < 8 * length bits - unat u \<Longrightarrow> n div 8 < length bits" by simp
  then show ?thesis
    using CBS_asn1_bitstring_has_bit_iff [of u bits n] CBS_asn1_bitstring_bit_bound [of u bits n]
    by (auto simp: CBS_asn1_bitstring_has_bit_def)
qed

text \<open>An optional integer is taken when its tag is next, and then it must be the only
  content of its wrapper; when the tag is not next the default is returned and nothing is
  consumed. A present but malformed element is an error, never the default.\<close>

theorem CBS_get_optional_asn1_uint64_exact:
  "CBS_get_optional_asn1_uint64 tag d cbs = (Some w, rest) \<longleftrightarrow>
    (\<exists>child. length child < 2 ^ 32 \<and> cbs = der_header tag (length child) @ child @ rest \<and>
       CBS_get_asn1_uint64 child = (Some w, [])) \<or>
    (\<nexists>more. cbs = der_tag tag @ more) \<and> rest = cbs \<and> w = d"
  by (rule CBS_get_optional_asn1_uint64_iff)

end
