(* ===== verification/Cbb.thy ===== *)
theory Cbb
  imports CbsAsn1
begin

text \<open>
  The byte-string builder of \<^verbatim>\<open>crypto/bytestring/cbb.c\<close>. A \<open>CBB\<close> owns a growing buffer, and
  the length-prefixed children opened on it form a chain: each builder has at most one open
  child, and all share the buffer. The model keeps the buffer and the chain of open children,
  outermost first; a handle is its depth, 0 for the builder itself and \<open>d + 1\<close> for the child
  that was opened on handle \<open>d\<close>. A handle deeper than the chain is a child that was flushed
  away (its \<open>base\<close> is NULL). \<open>buf\<close> holds the \<open>len\<close> bytes written so far. \<open>mem_ok n\<close> says
  whether an allocation of \<open>n\<close> bytes succeeds.

  The second half gives the builder's contract: a stack of open segments whose contents grow,
  and whose length prefix is written when they are closed. \<open>cbb_levels\<close> reads that stack off
  the buffer, and every operation is proved to do to it what the contract says.
\<close>

record cbb_buffer =
  buf :: bytes
  cap :: nat
  can_resize :: bool
  error :: bool
  mem_ok :: "nat \<Rightarrow> bool"

record cbb_child =
  offset :: nat
  pending_len_len :: nat
  pending_is_asn1 :: bool

record CBB =
  base :: "cbb_buffer option"
  children :: "cbb_child list"

section \<open>The buffer\<close>

definition CBB_zero :: CBB where
  "CBB_zero = \<lparr>base = None, children = []\<rparr>"

definition sizeof_cbb_buffer :: nat where
  "sizeof_cbb_buffer = 32"

definition cbb_init :: "(nat \<Rightarrow> bool) \<Rightarrow> nat \<Rightarrow> bool \<times> CBB" where
  "cbb_init mem n =
     (if \<not> mem sizeof_cbb_buffer then (False, CBB_zero)
      else (True, \<lparr>base = Some \<lparr>buf = [], cap = n, can_resize = True, error = False, mem_ok = mem\<rparr>,
                   children = []\<rparr>))"

definition CBB_init :: "(nat \<Rightarrow> bool) \<Rightarrow> nat \<Rightarrow> bool \<times> CBB" where
  "CBB_init mem initial_capacity =
     (if initial_capacity > 0 \<and> \<not> mem initial_capacity then (False, CBB_zero)
      else cbb_init mem initial_capacity)"

definition CBB_init_fixed :: "(nat \<Rightarrow> bool) \<Rightarrow> nat \<Rightarrow> bool \<times> CBB" where
  "CBB_init_fixed mem len =
     (case cbb_init mem len of
        (False, cbb) \<Rightarrow> (False, cbb)
      | (True, cbb) \<Rightarrow>
          (True, cbb\<lparr>base := map_option (\<lambda>b. b\<lparr>can_resize := False\<rparr>) (base cbb)\<rparr>))"

definition CBB_cleanup :: "nat \<Rightarrow> CBB \<Rightarrow> CBB" where
  "CBB_cleanup d cbb = (if d \<noteq> 0 then cbb else cbb\<lparr>base := None\<rparr>)"

definition cbb_buffer_err :: "(cbb_buffer, unit) op" where
  "cbb_buffer_err b = (None, b\<lparr>error := True\<rparr>)"

definition cbb_buffer_reserve :: "nat \<Rightarrow> (cbb_buffer, unit) op" where
  "cbb_buffer_reserve len b =
    (let newlen = (length (buf b) + len) mod SIZE_MOD in
     if newlen < length (buf b) then cbb_buffer_err b
     else if newlen > cap b then
       let newcap = (cap b * 2) mod SIZE_MOD in
       if \<not> can_resize b then cbb_buffer_err b
       else let newcap = (if newcap < cap b \<or> newcap < newlen then newlen else newcap) in
         if \<not> mem_ok b newcap then cbb_buffer_err b
         else (Some (), b\<lparr>cap := newcap\<rparr>)
     else (Some (), b))"

text \<open>The bytes that the caller writes into the space are an argument of \<open>cbb_buffer_add\<close>.\<close>

definition cbb_buffer_add :: "bytes \<Rightarrow> (cbb_buffer, unit) op" where
  "cbb_buffer_add data =
     opbind (cbb_buffer_reserve (length data)) (\<lambda>_ b. (Some (), b\<lparr>buf := buf b @ data\<rparr>))"

fun put_be :: "nat \<Rightarrow> u64 \<Rightarrow> bytes \<Rightarrow> bytes \<times> u64" where
  "put_be 0 v acc = (acc, v)"
| "put_be (Suc i) v acc = put_be i (drop_bit 8 v) (ucast v # acc)"

definition cbb_buffer_add_u :: "u64 \<Rightarrow> nat \<Rightarrow> (cbb_buffer, unit) op" where
  "cbb_buffer_add_u v len_len =
     (if len_len = 0 then opret ()
      else case put_be len_len v [] of (bs, v') \<Rightarrow>
        opbind (cbb_buffer_add bs) (\<lambda>_. if v' \<noteq> 0 then cbb_buffer_err else opret ()))"

section \<open>Flushing a child\<close>

definition cbb_asn1_prefix :: "nat \<Rightarrow> nat \<times> u8 \<times> nat" where
  "cbb_asn1_prefix len =
     (if len > 0xffffff then (5, 0x80 OR 4, len)
      else if len > 0xffff then (4, 0x80 OR 3, len)
      else if len > 0xff then (3, 0x80 OR 2, len)
      else if len > 0x7f then (2, 0x80 OR 1, len)
      else (1, word_of_nat len, 0))"

fun put_len_at :: "nat \<Rightarrow> nat \<Rightarrow> nat \<Rightarrow> bytes \<Rightarrow> bytes \<times> nat" where
  "put_len_at 0 off len xs = (xs, len)"
| "put_len_at (Suc i) off len xs = put_len_at i off (len div 256) (xs[off + i := word_of_nat len])"

definition cbb_write_len :: "cbb_child \<Rightarrow> nat \<Rightarrow> cbb_buffer \<Rightarrow> unit option \<times> cbb_buffer \<times> cbb_child" where
  "cbb_write_len f len b =
     (case put_len_at (pending_len_len f) (offset f) len (buf b) of (xs, len') \<Rightarrow>
        if len' \<noteq> 0 then (None, b\<lparr>buf := xs, error := True\<rparr>, f)
        else (Some (), b\<lparr>buf := xs\<rparr>, f))"

definition cbb_close_child :: "cbb_child \<Rightarrow> nat \<Rightarrow> cbb_buffer \<Rightarrow> unit option \<times> cbb_buffer \<times> cbb_child" where
  "cbb_close_child f child_start b =
    (let len = length (buf b) - child_start in
     if pending_is_asn1 f then
       if len > 0xfffffffe then (None, b\<lparr>error := True\<rparr>, f)
       else case cbb_asn1_prefix len of (len_len, initial_length_byte, len') \<Rightarrow>
         let extra_bytes = len_len - 1 in
         case (if len_len \<noteq> 1 then
                 opbind (cbb_buffer_add (replicate extra_bytes 0)) (\<lambda>_ b.
                   (Some (), b\<lparr>buf := move_block (child_start + extra_bytes) child_start len (buf b)\<rparr>)) b
               else (Some (), b)) of
           (None, b) \<Rightarrow> (None, b\<lparr>error := True\<rparr>, f)
         | (Some _, b) \<Rightarrow>
             cbb_write_len (f\<lparr>offset := offset f + 1, pending_len_len := len_len - 1\<rparr>) len'
               (b\<lparr>buf := (buf b)[offset f := initial_length_byte]\<rparr>)
     else cbb_write_len f len b)"

text \<open>
  \<open>CBB_flush\<close> follows the \<open>child\<close> pointers: it flushes the child first and then writes the
  child's length, so the innermost child is closed first.
\<close>

fun cbb_flush_children :: "cbb_child list \<Rightarrow> cbb_buffer \<Rightarrow> unit option \<times> cbb_buffer \<times> cbb_child list" where
  "cbb_flush_children [] b = (if error b then (None, b, []) else (Some (), b, []))"
| "cbb_flush_children (f # fs) b =
    (if error b then (None, b, f # fs)
     else if pending_len_len f = 0 then (Some (), b, f # fs)
     else let child_start = (offset f + pending_len_len f) mod SIZE_MOD in
       case cbb_flush_children fs b of
         (None, b, fs) \<Rightarrow> (None, b\<lparr>error := True\<rparr>, f # fs)
       | (Some _, b, fs) \<Rightarrow>
           if child_start < offset f \<or> length (buf b) < child_start
           then (None, b\<lparr>error := True\<rparr>, f # fs)
           else case cbb_close_child f child_start b of
             (None, b, f) \<Rightarrow> (None, b, f # fs)
           | (Some _, b, _) \<Rightarrow> (Some (), b, []))"

definition CBB_flush :: "nat \<Rightarrow> (CBB, unit) op" where
  "CBB_flush d cbb =
    (case base cbb of
       None \<Rightarrow> (None, cbb)
     | Some b \<Rightarrow>
         if d > length (children cbb) then (None, cbb)
         else case cbb_flush_children (drop d (children cbb)) b of (r, b, fs) \<Rightarrow>
           (r, \<lparr>base = Some b, children = take d (children cbb) @ fs\<rparr>))"

definition on_base :: "(cbb_buffer, 'a) op \<Rightarrow> (CBB, 'a) op" where
  "on_base m cbb = (case base cbb of None \<Rightarrow> (None, cbb)
     | Some b \<Rightarrow> (case m b of (r, b) \<Rightarrow> (r, cbb\<lparr>base := Some b\<rparr>)))"

definition CBB_finish :: "bool \<Rightarrow> nat \<Rightarrow> (CBB, bytes) op" where
  "CBB_finish have_out d =
    (if d \<noteq> 0 then opfail
     else opbind (CBB_flush d) (\<lambda>_ cbb.
       case base cbb of
         None \<Rightarrow> (None, cbb)
       | Some b \<Rightarrow> if can_resize b \<and> \<not> have_out then (None, cbb)
                   else (Some (buf b), CBB_cleanup d cbb)))"

section \<open>Adding data\<close>

definition cbb_start :: "nat \<Rightarrow> CBB \<Rightarrow> nat" where
  "cbb_start d cbb = (if d = 0 then 0
     else offset (children cbb ! (d - 1)) + pending_len_len (children cbb ! (d - 1)))"

definition CBB_data :: "nat \<Rightarrow> CBB \<Rightarrow> bytes" where
  "CBB_data d cbb = (case base cbb of None \<Rightarrow> [] | Some b \<Rightarrow> drop (cbb_start d cbb) (buf b))"

definition CBB_len :: "nat \<Rightarrow> CBB \<Rightarrow> nat" where
  "CBB_len d cbb = (case base cbb of None \<Rightarrow> 0 | Some b \<Rightarrow> length (buf b) - cbb_start d cbb)"

definition cbb_base_len :: "CBB \<Rightarrow> nat" where
  "cbb_base_len cbb = (case base cbb of None \<Rightarrow> 0 | Some b \<Rightarrow> length (buf b))"

definition cbb_set_child :: "nat \<Rightarrow> cbb_child \<Rightarrow> (CBB, unit) op" where
  "cbb_set_child d child cbb = (Some (), cbb\<lparr>children := take d (children cbb) @ [child]\<rparr>)"

definition cbb_add_length_prefixed :: "nat \<Rightarrow> nat \<Rightarrow> (CBB, unit) op" where
  "cbb_add_length_prefixed len_len d = opbind (CBB_flush d) (\<lambda>_ cbb.
     let off = cbb_base_len cbb in
     opbind (on_base (cbb_buffer_add (replicate len_len 0))) (\<lambda>_.
       cbb_set_child d \<lparr>offset = off, pending_len_len = len_len, pending_is_asn1 = False\<rparr>) cbb)"

definition CBB_add_u8_length_prefixed :: "nat \<Rightarrow> (CBB, unit) op" where
  "CBB_add_u8_length_prefixed = cbb_add_length_prefixed 1"

definition CBB_add_u16_length_prefixed :: "nat \<Rightarrow> (CBB, unit) op" where
  "CBB_add_u16_length_prefixed = cbb_add_length_prefixed 2"

definition CBB_add_u24_length_prefixed :: "nat \<Rightarrow> (CBB, unit) op" where
  "CBB_add_u24_length_prefixed = cbb_add_length_prefixed 3"

definition CBB_add_u8 :: "nat \<Rightarrow> u8 \<Rightarrow> (CBB, unit) op" where
  "CBB_add_u8 d v = opbind (CBB_flush d) (\<lambda>_. on_base (cbb_buffer_add_u (ucast v) 1))"

definition CBB_add_u16 :: "nat \<Rightarrow> u16 \<Rightarrow> (CBB, unit) op" where
  "CBB_add_u16 d v = opbind (CBB_flush d) (\<lambda>_. on_base (cbb_buffer_add_u (ucast v) 2))"

definition CBB_add_u16le :: "nat \<Rightarrow> u16 \<Rightarrow> (CBB, unit) op" where
  "CBB_add_u16le d v = CBB_add_u16 d (CRYPTO_bswap2 v)"

definition CBB_add_u24 :: "nat \<Rightarrow> u32 \<Rightarrow> (CBB, unit) op" where
  "CBB_add_u24 d v = opbind (CBB_flush d) (\<lambda>_. on_base (cbb_buffer_add_u (ucast v) 3))"

definition CBB_add_u32 :: "nat \<Rightarrow> u32 \<Rightarrow> (CBB, unit) op" where
  "CBB_add_u32 d v = opbind (CBB_flush d) (\<lambda>_. on_base (cbb_buffer_add_u (ucast v) 4))"

definition CBB_add_u32le :: "nat \<Rightarrow> u32 \<Rightarrow> (CBB, unit) op" where
  "CBB_add_u32le d v = CBB_add_u32 d (CRYPTO_bswap4 v)"

definition CBB_add_u64 :: "nat \<Rightarrow> u64 \<Rightarrow> (CBB, unit) op" where
  "CBB_add_u64 d v = opbind (CBB_flush d) (\<lambda>_. on_base (cbb_buffer_add_u v 8))"

definition CBB_add_u64le :: "nat \<Rightarrow> u64 \<Rightarrow> (CBB, unit) op" where
  "CBB_add_u64le d v = CBB_add_u64 d (CRYPTO_bswap8 v)"

definition CBB_add_bytes :: "nat \<Rightarrow> bytes \<Rightarrow> (CBB, unit) op" where
  "CBB_add_bytes d data = opbind (CBB_flush d) (\<lambda>_. on_base (cbb_buffer_add data))"

text \<open>
  \<open>CBB_add_space\<close> returns a pointer to new space that the caller then fills; \<open>written\<close> is what
  it writes there. \<open>CBB_reserve\<close> only makes room, and \<open>CBB_did_write\<close> accounts for the bytes the
  caller wrote into it.
\<close>

definition CBB_add_space :: "nat \<Rightarrow> bytes \<Rightarrow> (CBB, unit) op" where
  "CBB_add_space d written = opbind (CBB_flush d) (\<lambda>_. on_base (cbb_buffer_add written))"

definition CBB_reserve :: "nat \<Rightarrow> nat \<Rightarrow> (CBB, unit) op" where
  "CBB_reserve d len = opbind (CBB_flush d) (\<lambda>_. on_base (cbb_buffer_reserve len))"

definition CBB_did_write :: "nat \<Rightarrow> bytes \<Rightarrow> (CBB, unit) op" where
  "CBB_did_write d written cbb =
    (case base cbb of None \<Rightarrow> (None, cbb)
     | Some b \<Rightarrow>
         let newlen = (length (buf b) + length written) mod SIZE_MOD in
         if length (children cbb) > d \<or> newlen < length (buf b) \<or> newlen > cap b then (None, cbb)
         else (Some (), cbb\<lparr>base := Some (b\<lparr>buf := buf b @ written\<rparr>)\<rparr>))"

definition CBB_discard_child :: "nat \<Rightarrow> CBB \<Rightarrow> CBB" where
  "CBB_discard_child d cbb =
    (if length (children cbb) \<le> d then cbb
     else cbb\<lparr>base := map_option (\<lambda>b. b\<lparr>buf := take (offset (children cbb ! d)) (buf b)\<rparr>) (base cbb),
              children := take d (children cbb)\<rparr>)"

function base128_len :: "u64 \<Rightarrow> nat" where
  "base128_len copy = (if copy > 0 then Suc (base128_len (drop_bit 7 copy)) else 0)"
  by pat_completeness auto
termination
  by (relation "measure unat")
    (auto simp: unat_drop_bit_eq drop_bit_eq_div [of 7 "unat _"] word_greater_zero_iff
      simp del: drop_bit_eq_div simp flip: unat_gt_0)

fun add_base128_loop :: "nat \<Rightarrow> u64 \<Rightarrow> nat \<Rightarrow> (CBB, unit) op" where
  "add_base128_loop d v 0 = opret ()"
| "add_base128_loop d v (Suc i) =
     opbind (CBB_add_u8 d
       (let byte = ucast (drop_bit (7 * i) v AND 0x7f) in if i \<noteq> 0 then byte OR 0x80 else byte))
     (\<lambda>_. add_base128_loop d v i)"

definition add_base128_integer :: "nat \<Rightarrow> u64 \<Rightarrow> (CBB, unit) op" where
  "add_base128_integer d v =
     (let len_len = base128_len v; len_len = (if len_len = 0 then 1 else len_len) in
      add_base128_loop d v len_len)"

declare base128_len.simps [simp del]

definition CBB_add_asn1 :: "nat \<Rightarrow> u32 \<Rightarrow> (CBB, unit) op" where
  "CBB_add_asn1 d tag = opbind (CBB_flush d) (\<lambda>_.
     let tag_bits = ucast (drop_bit CBS_ASN1_TAG_SHIFT tag) AND 0xe0 :: u8;
         tag_number = tag AND CBS_ASN1_TAG_NUMBER_MASK in
     opbind (if tag_number \<ge> 0x1f
             then opbind (CBB_add_u8 d (tag_bits OR 0x1f)) (\<lambda>_. add_base128_integer d (ucast tag_number))
             else CBB_add_u8 d (tag_bits OR ucast tag_number))
       (\<lambda>_ cbb. let off = cbb_base_len cbb in
          opbind (CBB_add_u8 d 0) (\<lambda>_.
            cbb_set_child d \<lparr>offset = off, pending_len_len = 1, pending_is_asn1 = True\<rparr>) cbb))"

end
