(* ===== verification/Sink.thy ===== *)
theory Sink
  imports Prelude
begin

text \<open>
  The interface of a growing byte output, as its clients (the DER integer and string writers,
  the UTF encoders, the protocol buffer encoder) see it: \<open>put\<close> appends the bytes to the
  content and leaves the frame (the other open segments, the limits) alone. A \<open>roomy_sink\<close>
  also says when \<open>put\<close> succeeds. The lemmas are about sequences of such calls, which is what
  the encoders are.
\<close>

primrec op_seq :: "('s, unit) op list \<Rightarrow> ('s, unit) op" where
  "op_seq [] = opret ()"
| "op_seq (m # ms) = opbind m (\<lambda>_. op_seq ms)"

lemma opbind_opret [simp]: "opbind m opret = m"
  by (rule ext) (auto simp: opbind_def opret_def split: prod.splits option.splits)

lemma opbind_None_iff:
  "opbind m f s = (None, t) \<longleftrightarrow> m s = (None, t) \<or> (\<exists>v s'. m s = (Some v, s') \<and> f v s' = (None, t))"
  by (auto simp: opbind_def split: prod.splits option.splits)

lemma opbind_assoc: "opbind (opbind m f) g = opbind m (\<lambda>x. opbind (f x) g)"
  by (rule ext) (auto simp: opbind_def split: prod.splits option.splits)

lemma opbind_opret_left [simp]: "opbind (opret x) f = f x"
  by (simp add: opbind_def opret_def)

lemma op_seq_append: "op_seq (ms @ ns) = opbind (op_seq ms) (\<lambda>_. op_seq ns)"
  by (induction ms) (simp_all add: opbind_assoc)

text \<open>An operation keeps a property of the state, whether it succeeds or not.\<close>

definition keeps :: "('s \<Rightarrow> bool) \<Rightarrow> ('s, 'a) op \<Rightarrow> bool" where
  "keeps P m \<longleftrightarrow> (\<forall>s. P s \<longrightarrow> P (snd (m s)))"

lemma keepsD: "keeps P m \<Longrightarrow> P s \<Longrightarrow> P (snd (m s))"
  by (simp add: keeps_def)

lemma keeps_opbind: "keeps P m \<Longrightarrow> (\<And>v. keeps P (g v)) \<Longrightarrow> keeps P (opbind m g)"
  unfolding keeps_def opbind_def by (simp split: prod.splits option.splits) (metis snd_conv)

lemma keeps_opbind_state:
  "keeps P m \<Longrightarrow> (\<And>s v. keeps P (g s v)) \<Longrightarrow> keeps P (\<lambda>s. opbind m (g s) s)"
  unfolding keeps_def opbind_def by (simp split: prod.splits option.splits) (metis snd_conv)

lemma keeps_opret: "keeps P (opret v)" and keeps_opfail: "keeps P opfail"
  by (simp_all add: keeps_def opret_def opfail_def)

lemma keeps_op_seq: "(\<And>m. m \<in> set ms \<Longrightarrow> keeps P m) \<Longrightarrow> keeps P (op_seq ms)"
  by (induction ms) (simp_all add: keeps_opret keeps_opbind)

locale byte_sink =
  fixes put :: "bytes \<Rightarrow> ('s, unit) op"
    and ok :: "'s \<Rightarrow> bool"
    and content :: "'s \<Rightarrow> bytes"
    and frame :: "'s \<Rightarrow> 'f"
  assumes put_Some: "ok s \<Longrightarrow> length xs < SIZE_MOD \<Longrightarrow> put xs s = (Some u, t) \<Longrightarrow>
    ok t \<and> content t = content s @ xs \<and> frame t = frame s"
begin

lemma put_seq_Some:
  "ok s \<Longrightarrow> list_all (\<lambda>xs. length xs < SIZE_MOD) xss \<Longrightarrow> op_seq (map put xss) s = (Some u, t) \<Longrightarrow>
    ok t \<and> content t = content s @ concat xss \<and> frame t = frame s"
proof (induction xss arbitrary: s)
  case (Cons xs xss)
  then obtain v s1 where "put xs s = (Some v, s1)" "op_seq (map put xss) s1 = (Some u, t)"
    by (auto simp: opbind_Some_iff)
  with Cons put_Some [of s xs v s1] show ?case by auto
qed (auto simp: opret_def)

lemma put_bytes_Some:
  "ok s \<Longrightarrow> op_seq (map (\<lambda>b. put [b]) bs) s = (Some u, t) \<Longrightarrow>
    ok t \<and> content t = content s @ bs \<and> frame t = frame s"
  using put_seq_Some [of s "map (\<lambda>b. [b]) bs" u t] by (simp add: comp_def list_all_iff concat_map_singleton)

end

locale roomy_sink = byte_sink +
  fixes accepts :: "'s \<Rightarrow> nat \<Rightarrow> bool"
  assumes put_accepts: "ok s \<Longrightarrow> accepts s (length xs + n) \<Longrightarrow> \<exists>t. put xs s = (Some (), t) \<and> accepts t n"
    and accepts_bound: "accepts s n \<Longrightarrow> n < SIZE_MOD"
begin

lemma put_seq_accepts:
  "ok s \<Longrightarrow> accepts s (length (concat xss) + n) \<Longrightarrow>
    \<exists>t. op_seq (map put xss) s = (Some (), t) \<and> accepts t n"
proof (induction xss arbitrary: s)
  case Nil
  then show ?case by (simp add: opret_def)
next
  case (Cons xs xss)
  then have a: "accepts s (length xs + (length (concat xss) + n))" by (simp add: add.assoc)
  from put_accepts [OF Cons.prems(1) this] obtain s1
    where s1: "put xs s = (Some (), s1)" "accepts s1 (length (concat xss) + n)" by blast
  have "length xs < SIZE_MOD" using accepts_bound [OF a] by simp
  then have "ok s1" using put_Some [OF Cons.prems(1) _ s1(1)] by simp
  from Cons.IH [OF this s1(2)] s1(1) show ?case by (simp add: opbind_Some)
qed

lemma put_bytes_accepts:
  "ok s \<Longrightarrow> accepts s (length bs + n) \<Longrightarrow>
    \<exists>t. op_seq (map (\<lambda>b. put [b]) bs) s = (Some (), t) \<and> accepts t n"
  using put_seq_accepts [of s "map (\<lambda>b. [b]) bs" n] by (simp add: comp_def concat_map_singleton)

end

end
