(* ===== verification/CbbContract.thy ===== *)
theory CbbContract
  imports Cbb Sink
begin

text \<open>
  The contract of the byte-string builder and the proof that \<^verbatim>\<open>cbb.c\<close> keeps it. An open
  builder is a stack of segments, outermost first: the bytes each one has so far and the kind
  of length prefix it will get when it is closed. \<open>cbb_levels\<close> reads the stack off the buffer
  and the chain of children; \<open>flat\<close> is what closing a stack of segments yields. The lemmas
  say that flushing closes every segment below a handle, that adding bytes appends to the
  handle's segment, that opening a child pushes an empty one, that nothing else changes, and
  that a failed operation marks the builder so that every later one fails.
\<close>

section \<open>The contract\<close>

datatype prefix = Len nat | Asn1

fun prefix_bytes :: "prefix \<Rightarrow> nat \<Rightarrow> bytes" where
  "prefix_bytes (Len k) n = be_bytes k n"
| "prefix_bytes Asn1 n = der_length n"

fun prefix_fits :: "prefix \<Rightarrow> nat \<Rightarrow> bool" where
  "prefix_fits (Len k) n \<longleftrightarrow> n < 256 ^ k"
| "prefix_fits Asn1 n \<longleftrightarrow> n \<le> 0xfffffffe"

type_synonym levels = "(prefix \<times> bytes) list"

fun flat :: "levels \<Rightarrow> bytes" where
  "flat [] = []"
| "flat ((p, c) # ls) = prefix_bytes p (length (c @ flat ls)) @ c @ flat ls"

fun all_fit :: "levels \<Rightarrow> bool" where
  "all_fit [] \<longleftrightarrow> True"
| "all_fit ((p, c) # ls) \<longleftrightarrow> all_fit ls \<and> prefix_fits p (length (c @ flat ls))"

definition level_content :: "nat \<Rightarrow> levels \<Rightarrow> bytes" where
  "level_content d ls = snd (ls ! d) @ flat (drop (Suc d) ls)"

definition level_append :: "nat \<Rightarrow> bytes \<Rightarrow> levels \<Rightarrow> levels" where
  "level_append d data ls = take d ls @ [(fst (ls ! d), level_content d ls @ data)]"

section \<open>Reading the stack off the builder\<close>

definition kind :: "cbb_child \<Rightarrow> prefix" where
  "kind f = (if pending_is_asn1 f then Asn1 else Len (pending_len_len f))"

fun levels_from :: "prefix \<Rightarrow> nat \<Rightarrow> cbb_child list \<Rightarrow> bytes \<Rightarrow> levels" where
  "levels_from p s [] xs = [(p, drop s xs)]"
| "levels_from p s (f # fs) xs =
     (p, take (offset f - s) (drop s xs)) # levels_from (kind f) (offset f + pending_len_len f) fs xs"

fun chain_ok :: "nat \<Rightarrow> cbb_child list \<Rightarrow> nat \<Rightarrow> bool" where
  "chain_ok s [] n \<longleftrightarrow> s \<le> n"
| "chain_ok s (f # fs) n \<longleftrightarrow>
     s \<le> offset f \<and> 1 \<le> pending_len_len f \<and> (pending_is_asn1 f \<longrightarrow> pending_len_len f = 1) \<and>
     chain_ok (offset f + pending_len_len f) fs n"

definition buffer_ok :: "cbb_buffer \<Rightarrow> bool" where
  "buffer_ok b \<longleftrightarrow> \<not> error b \<and> length (buf b) \<le> cap b \<and> cap b < SIZE_MOD"

definition cbb_ok :: "CBB \<Rightarrow> bool" where
  "cbb_ok cbb \<longleftrightarrow> (case base cbb of None \<Rightarrow> False
     | Some b \<Rightarrow> buffer_ok b \<and> chain_ok 0 (children cbb) (length (buf b)))"

definition cbb_levels :: "CBB \<Rightarrow> levels" where
  "cbb_levels cbb = (case base cbb of None \<Rightarrow> [] | Some b \<Rightarrow> levels_from (Len 0) 0 (children cbb) (buf b))"

text \<open>
  \<open>room b n\<close>: the buffer can hold \<open>n\<close> bytes in all, because it has them or because it may
  grow and allocation succeeds. \<open>same_policy\<close> relates a buffer to a later state of it.
\<close>

definition room :: "cbb_buffer \<Rightarrow> nat \<Rightarrow> bool" where
  "room b n \<longleftrightarrow> n < SIZE_MOD \<and> (n \<le> cap b \<or> can_resize b \<and> (\<forall>m. mem_ok b m))"

definition same_policy :: "cbb_buffer \<Rightarrow> cbb_buffer \<Rightarrow> bool" where
  "same_policy b b' \<longleftrightarrow> can_resize b' = can_resize b \<and> mem_ok b' = mem_ok b \<and> cap b \<le> cap b' \<and>
     (\<not> can_resize b \<longrightarrow> cap b' = cap b)"

lemma same_policy_refl [simp]: "same_policy b b"
  by (simp add: same_policy_def)

lemma same_policy_trans: "same_policy b c \<Longrightarrow> same_policy c d \<Longrightarrow> same_policy b d"
  by (auto simp: same_policy_def)

lemma same_policy_room: "same_policy b b' \<Longrightarrow> room b n \<Longrightarrow> room b' n"
  by (auto simp: same_policy_def room_def)

lemma room_le: "room b n \<Longrightarrow> m \<le> n \<Longrightarrow> room b m"
  by (auto simp: room_def)

section \<open>The buffer\<close>

lemma cbb_buffer_reserve_Some:
  assumes "cbb_buffer_reserve n b = (Some u, b')" and "buffer_ok b" and "n < SIZE_MOD"
  shows "buf b' = buf b \<and> buffer_ok b' \<and> same_policy b b' \<and> length (buf b) + n \<le> cap b'"
proof -
  have "length (buf b) + n < SIZE_MOD"
    using assms size_add_wraps [of "length (buf b)" n]
    by (auto simp: cbb_buffer_reserve_def cbb_buffer_err_def buffer_ok_def Let_def split: if_splits)
  then show ?thesis
    using assms
    by (auto simp: cbb_buffer_reserve_def cbb_buffer_err_def buffer_ok_def same_policy_def Let_def
        split: if_splits)
qed

lemma cbb_buffer_reserve_room:
  assumes "room b (length (buf b) + n)"
  shows "\<exists>b'. cbb_buffer_reserve n b = (Some (), b')"
  using assms by (auto simp: cbb_buffer_reserve_def room_def Let_def)

lemma cbb_buffer_reserve_None:
  "cbb_buffer_reserve n b = (None, b') \<Longrightarrow> error b'"
  by (auto simp: cbb_buffer_reserve_def cbb_buffer_err_def Let_def split: if_splits)

lemma cbb_buffer_add_Some:
  assumes "cbb_buffer_add data b = (Some u, b')" and "buffer_ok b" and "length data < SIZE_MOD"
  shows "buf b' = buf b @ data \<and> buffer_ok b' \<and> same_policy b b'"
proof -
  obtain b1 where r: "cbb_buffer_reserve (length data) b = (Some (), b1)"
    and b': "b' = b1\<lparr>buf := buf b1 @ data\<rparr>"
    using assms(1) by (auto simp: cbb_buffer_add_def opbind_Some_iff)
  show ?thesis
    using cbb_buffer_reserve_Some [OF r assms(2,3)] by (simp add: b' buffer_ok_def same_policy_def)
qed

lemma cbb_buffer_add_room:
  assumes "room b (length (buf b) + length data)"
  shows "\<exists>b'. cbb_buffer_add data b = (Some (), b')"
  using cbb_buffer_reserve_room [OF assms] by (auto simp: cbb_buffer_add_def opbind_Some)

lemma cbb_buffer_add_None: "cbb_buffer_add data b = (None, b') \<Longrightarrow> error b'"
  by (auto simp: cbb_buffer_add_def opbind_def cbb_buffer_reserve_None
      split: prod.splits option.splits)

lemma put_be_eq: "put_be k v acc = (be_bytes k (unat v) @ acc, drop_bit (8 * k) v)"
proof (induction k arbitrary: v acc)
  case (Suc k)
  have "unat (drop_bit 8 v) = unat v div 256"
    by (simp add: unat_drop_bit_eq drop_bit_eq_div [of 8 "unat v"] del: drop_bit_eq_div)
  moreover have "(ucast v :: u8) = word_of_nat (unat v)" by simp
  ultimately show ?case using Suc by (simp add: add.commute)
qed simp

lemma cbb_buffer_add_u_eq:
  assumes "0 < k"
  shows "cbb_buffer_add_u v k = opbind (cbb_buffer_add (be_bytes k (unat v)))
           (\<lambda>_. if unat v < 256 ^ k then opret () else cbb_buffer_err)"
  using assms drop_bytes_eq_0 [of k v]
  by (auto simp: cbb_buffer_add_u_def put_be_eq mult.commute [of 8])

lemma put_len_at_eq:
  "off + k \<le> length xs \<Longrightarrow> put_len_at k off len xs = (write_at off (be_bytes k len) xs, len div 256 ^ k)"
proof (induction k arbitrary: len xs)
  case (Suc k)
  then have "put_len_at (Suc k) off len xs =
      (write_at off (be_bytes k (len div 256)) (xs[off + k := word_of_nat len]), len div 256 div 256 ^ k)"
    by simp
  moreover have "write_at off (be_bytes k (len div 256)) (xs[off + k := word_of_nat len]) =
      write_at off (be_bytes (Suc k) len) xs"
    using Suc.prems by (simp add: write_at_def drop_update_swap upd_conv_take_nth_drop min_def)
  ultimately show ?case by (simp add: div_mult2_eq)
qed (simp add: write_at_def)

section \<open>Closing a child\<close>

lemma cbb_write_len_eq:
  assumes "buf b = pre @ gap @ body" and "offset f = length pre" and "pending_len_len f = length gap"
  shows "cbb_write_len f n b =
    (if n < 256 ^ length gap then (Some (), b\<lparr>buf := pre @ be_bytes (length gap) n @ body\<rparr>, f)
     else (None, b\<lparr>buf := pre @ be_bytes (length gap) n @ body, error := True\<rparr>, f))"
  using assms by (simp add: cbb_write_len_def put_len_at_eq write_at_append div_eq_0_iff)

lemma cbb_asn1_prefix_eq:
  assumes "n \<le> 0xfffffffe"
  obtains k b n' where "cbb_asn1_prefix n = (k, b, n')" and "1 \<le> k" and "k \<le> 5"
    and "der_length n = b # be_bytes (k - 1) n'" and "n' < 256 ^ (k - 1)"
proof -
  have "0xffffff < n \<Longrightarrow> \<not> n < 256 ^ 3 \<and> \<not> n < 256 ^ 2 \<and> \<not> n < 256 \<and> \<not> n < 128"
    "0xffff < n \<Longrightarrow> \<not> n < 256 ^ 2 \<and> \<not> n < 256 \<and> \<not> n < 128" "0xff < n \<Longrightarrow> \<not> n < 256 \<and> \<not> n < 128"
    "n < 256 ^ 4"
    using assms by simp_all
  then show ?thesis
    using assms by (intro that [of "fst (cbb_asn1_prefix n)" "fst (snd (cbb_asn1_prefix n))"
          "snd (snd (cbb_asn1_prefix n))"])
      (auto simp: cbb_asn1_prefix_def der_length_def simp del: be_bytes.simps(2))
qed

lemma move_block_gap:
  assumes "length gap = k"
  shows "move_block (length pre + k) (length pre) (length body) (pre @ body @ gap) =
    pre @ take k (body @ gap) @ body"
  using assms by (simp add: move_block_def write_at_def min_def)

lemma cbb_close_child_Some:
  assumes b: "buf b = pre @ gap @ body" and f: "offset f = length pre" "pending_len_len f = length gap"
      "pending_is_asn1 f \<longrightarrow> length gap = 1" "gap \<noteq> []"
    and ok: "buffer_ok b"
    and r: "cbb_close_child f (offset f + length gap) b = (Some u, b', f')"
  shows "buf b' = pre @ prefix_bytes (kind f) (length body) @ body \<and> buffer_ok b' \<and> same_policy b b' \<and>
    prefix_fits (kind f) (length body)"
proof (cases "pending_is_asn1 f")
  case False
  have "length (buf b) - (offset f + length gap) = length body" using b f by simp
  then show ?thesis
    using r False ok b f by (auto simp: cbb_close_child_def cbb_write_len_eq [OF b f(1,2)] kind_def
        Let_def buffer_ok_def same_policy_def split: if_splits)
next
  case True
  then have gap: "length gap = 1" using f by simp
  let ?n = "length body"
  have n: "length (buf b) - (offset f + length gap) = ?n" using b f by simp
  have le: "?n \<le> 0xfffffffe"
    using r True by (auto simp: cbb_close_child_def n Let_def split: if_splits)
  from cbb_asn1_prefix_eq [OF le] obtain k lb n'
    where p: "cbb_asn1_prefix ?n = (k, lb, n')" "1 \<le> k" "k \<le> 5"
      and der: "der_length ?n = lb # be_bytes (k - 1) n'" "n' < 256 ^ (k - 1)"
    by metis
  let ?f = "f\<lparr>offset := offset f + 1, pending_len_len := k - 1\<rparr>"
  obtain b1 gap2 where b1: "buf b1 = (pre @ gap) @ gap2 @ body" "length gap2 = k - 1"
    and ok1: "buffer_ok b1" "same_policy b b1"
    and r1: "cbb_write_len ?f n' (b1\<lparr>buf := (buf b1)[offset f := lb]\<rparr>) = (Some u, b', f')"
  proof (cases "k = 1")
    case True
    then show ?thesis
      using r le \<open>pending_is_asn1 f\<close> ok b unfolding cbb_close_child_def n Let_def p prod.case
      by (intro that [of b "[]"]) auto
  next
    case False
    from r le \<open>pending_is_asn1 f\<close> False obtain b2 where
      b2: "cbb_buffer_add (replicate (k - 1) 0) b = (Some (), b2)" and
      w: "cbb_write_len ?f n' (b2\<lparr>buf :=
        (move_block (offset f + length gap + (k - 1)) (offset f + length gap) ?n (buf b2))[offset f := lb]\<rparr>) =
        (Some u, b', f')"
      unfolding cbb_close_child_def n Let_def p prod.case
      by (auto simp: opbind_def split: prod.splits option.splits)
    have s: "buf b2 = buf b @ replicate (k - 1) 0" "buffer_ok b2" "same_policy b b2"
      using cbb_buffer_add_Some [OF b2 ok] p(3) by simp_all
    let ?gap2 = "take (k - 1) (body @ replicate (k - 1) 0)"
    have m: "move_block (offset f + length gap + (k - 1)) (offset f + length gap) ?n (buf b2) =
        (pre @ gap) @ ?gap2 @ body"
      using move_block_gap [of "replicate (k - 1) 0" "k - 1" "pre @ gap" body] b f by (simp add: s(1))
    have "length ((pre @ gap) @ ?gap2 @ body) = length (buf b2)" by (simp add: s(1) b)
    then show ?thesis
      using s(2,3) w unfolding m
      by (intro that [of "b2\<lparr>buf := (pre @ gap) @ ?gap2 @ body\<rparr>" ?gap2])
        (auto simp: buffer_ok_def same_policy_def)
  qed
  obtain g where g: "gap = [g]" using gap by (cases gap) auto
  have "buf (b1\<lparr>buf := (buf b1)[offset f := lb]\<rparr>) = (pre @ [lb]) @ gap2 @ body"
    by (simp add: b1(1) f(1) g)
  from cbb_write_len_eq [OF this, of ?f n'] have
    "cbb_write_len ?f n' (b1\<lparr>buf := (buf b1)[offset f := lb]\<rparr>) =
      (Some (), b1\<lparr>buf := pre @ der_length ?n @ body\<rparr>, ?f)"
    using f(1) b1(2) der by simp
  then have "b' = b1\<lparr>buf := pre @ der_length ?n @ body\<rparr>" using r1 by simp
  moreover have "length (pre @ der_length ?n @ body) = length (buf b1)"
    using b1 der g by simp
  ultimately show ?thesis
    using ok1 True le by (simp add: kind_def buffer_ok_def same_policy_def)
qed

lemma cbb_close_child_room:
  assumes b: "buf b = pre @ gap @ body" and f: "offset f = length pre" "pending_len_len f = length gap"
      "pending_is_asn1 f \<longrightarrow> length gap = 1" "gap \<noteq> []"
    and fits: "prefix_fits (kind f) (length body)"
    and room: "room b (length pre + length (prefix_bytes (kind f) (length body)) + length body)"
  shows "\<exists>b' f'. cbb_close_child f (offset f + length gap) b = (Some (), b', f')"
proof (cases "pending_is_asn1 f")
  case False
  have "length (buf b) - (offset f + length gap) = length body" using b f by simp
  then show ?thesis
    using False fits f(2)
    by (auto simp: cbb_close_child_def cbb_write_len_eq [OF b f(1,2)] kind_def Let_def)
next
  case True
  then have gap: "length gap = 1" using f by simp
  let ?n = "length body"
  have n: "length (buf b) - (offset f + length gap) = ?n" using b f by simp
  have le: "?n \<le> 0xfffffffe" using fits True by (simp add: kind_def)
  from cbb_asn1_prefix_eq [OF le] obtain k lb n'
    where p: "cbb_asn1_prefix ?n = (k, lb, n')" "1 \<le> k" "k \<le> 5"
      and der: "der_length ?n = lb # be_bytes (k - 1) n'" "n' < 256 ^ (k - 1)"
    by metis
  have "room b (length (buf b) + length (replicate (k - 1) 0))"
    using room True der p(2) gap by (simp add: kind_def b ac_simps)
  from cbb_buffer_add_room [OF this] obtain b2
    where b2: "cbb_buffer_add (replicate (k - 1) 0) b = (Some (), b2)" by blast
  have w: "\<exists>b' f'. cbb_write_len g n' (c\<lparr>buf := ys\<rparr>) = (Some (), b', f')"
    if "offset g + pending_len_len g \<le> length ys" "pending_len_len g = k - 1" for g c ys
    using that der(2) by (simp add: cbb_write_len_def put_len_at_eq div_eq_0_iff)
  show ?thesis
  proof (cases "k = 1")
    case True
    then show ?thesis
      using le \<open>pending_is_asn1 f\<close> f gap 
        w [of "f\<lparr>offset := offset f + 1, pending_len_len := 0\<rparr>" "(buf b)[offset f := lb]" b]
      unfolding cbb_close_child_def n Let_def p prod.case by (simp add: b)
  next
    case False
    have "length (buf b2) = length (buf b) + (k - 1)"
      using b2 by (auto simp: cbb_buffer_add_def cbb_buffer_reserve_def cbb_buffer_err_def Let_def
          opbind_Some_iff split: if_splits)
    then show ?thesis
      using le \<open>pending_is_asn1 f\<close> f gap False b2 p(2)
        w [of "f\<lparr>offset := offset f + 1, pending_len_len := k - 1\<rparr>"]
      unfolding cbb_close_child_def n Let_def p prod.case
      by (auto simp: opbind_Some move_block_def b)
  qed
qed

lemma cbb_close_child_None: "cbb_close_child f s b = (None, b', f') \<Longrightarrow> error b'"
  by (auto simp: cbb_close_child_def cbb_write_len_def Let_def split: prod.splits option.splits if_splits)

section \<open>Flushing\<close>

lemma chain_ok_le: "chain_ok s fs n \<Longrightarrow> s \<le> n"
proof (induction fs arbitrary: s)
  case (Cons f fs)
  then have "offset f + pending_len_len f \<le> n" by simp
  with Cons.prems show ?case by simp
qed simp

lemma levels_from_eq: "\<exists>c ls. levels_from p s fs xs = (p, c) # ls"
  by (cases fs) simp_all

lemma gap_split:
  assumes "chain_ok s (f # fs) (length xs)"
  obtains pre gap where "take (offset f + pending_len_len f) xs = pre @ gap"
    and "offset f = length pre" and "pending_len_len f = length gap" and "gap \<noteq> []"
    and "pre = take s xs @ take (offset f - s) (drop s xs)" and "pending_is_asn1 f \<longrightarrow> length gap = 1"
proof -
  have le: "offset f + pending_len_len f \<le> length xs" "s \<le> offset f" "1 \<le> pending_len_len f"
    "pending_is_asn1 f \<longrightarrow> pending_len_len f = 1"
    using assms chain_ok_le by auto
  show ?thesis
    by (rule that [of "take (offset f) xs" "take (pending_len_len f) (drop (offset f) xs)"])
      (use le take_add [of s "offset f - s" xs] in \<open>auto simp: take_add\<close>)
qed

lemma cbb_flush_children_Cons:
  assumes "\<not> error b" and "pending_len_len f \<noteq> 0" and "offset f + pending_len_len f < SIZE_MOD"
  shows "cbb_flush_children (f # fs) b =
    (case cbb_flush_children fs b of
       (None, b, fs) \<Rightarrow> (None, b\<lparr>error := True\<rparr>, f # fs)
     | (Some _, b, fs) \<Rightarrow>
         if length (buf b) < offset f + pending_len_len f then (None, b\<lparr>error := True\<rparr>, f # fs)
         else case cbb_close_child f (offset f + pending_len_len f) b of
           (None, b, f) \<Rightarrow> (None, b, f # fs)
         | (Some _, b, _) \<Rightarrow> (Some (), b, []))"
proof -
  have "(offset f + pending_len_len f < offset f) = False" by simp
  then show ?thesis
    unfolding cbb_flush_children.simps Let_def mod_less [OF assms(3)] using assms(1,2)
    by (simp only: disj_ac(1) if_False simp_thms)
qed

lemma cbb_flush_children_ConsE:
  assumes "cbb_flush_children (f # fs) b = (Some u, b', fs')"
    and "\<not> error b" and "pending_len_len f \<noteq> 0" and "offset f + pending_len_len f < SIZE_MOD"
  obtains b1 fs1 f2 where "cbb_flush_children fs b = (Some (), b1, fs1)"
    and "cbb_close_child f (offset f + pending_len_len f) b1 = (Some (), b', f2)" and "fs' = []"
proof -
  obtain r b1 fs1 where 1: "cbb_flush_children fs b = (r, b1, fs1)"
    by (cases "cbb_flush_children fs b") auto
  obtain r2 b2 f2 where 2: "cbb_close_child f (offset f + pending_len_len f) b1 = (r2, b2, f2)"
    by (cases "cbb_close_child f (offset f + pending_len_len f) b1") auto
  show ?thesis
    using that [of b1 fs1 f2] assms(1) 1 2
    unfolding cbb_flush_children_Cons [OF assms(2-4)] 1 prod.case 2
    by (cases r; cases r2; simp split: if_splits)
qed

lemma cbb_flush_children_Some:
  assumes "cbb_flush_children fs b = (Some u, b', fs')" and "buffer_ok b"
    and "chain_ok s fs (length (buf b))" and "levels_from p s fs (buf b) = (p, c) # ls"
  shows "fs' = [] \<and> buf b' = take s (buf b) @ c @ flat ls \<and> buffer_ok b' \<and> same_policy b b' \<and> all_fit ls"
  using assms
proof (induction fs arbitrary: b b' fs' p s c ls u)
  case Nil
  then show ?case by (auto split: if_splits)
next
  case (Cons f fs)
  let ?e = "offset f + pending_len_len f"
  obtain pre gap where g: "take ?e (buf b) = pre @ gap" "offset f = length pre"
    "pending_len_len f = length gap" "gap \<noteq> []"
    "pre = take s (buf b) @ take (offset f - s) (drop s (buf b))" "pending_is_asn1 f \<longrightarrow> length gap = 1"
    using gap_split [OF Cons.prems(3)] .
  obtain c' ls' where l: "levels_from (kind f) ?e fs (buf b) = (kind f, c') # ls'"
    using levels_from_eq by blast
  have e: "?e \<le> length (buf b)" "chain_ok ?e fs (length (buf b))"
    using Cons.prems(3) chain_ok_le by auto
  then have m: "?e < SIZE_MOD" using Cons.prems(2) by (simp add: buffer_ok_def)
  have nz: "pending_len_len f \<noteq> 0" "\<not> error b" using g(3,4) Cons.prems(2) by (auto simp: buffer_ok_def)
  obtain b1 fs1 f2 where r1: "cbb_flush_children fs b = (Some (), b1, fs1)"
    and r2: "cbb_close_child f ?e b1 = (Some (), b', f2)" and "fs' = []"
    using cbb_flush_children_ConsE [OF Cons.prems(1) nz(2,1) m] .
  from Cons.IH [OF r1 Cons.prems(2) e(2) l]
  have IH: "buf b1 = pre @ gap @ c' @ flat ls'" "buffer_ok b1" "same_policy b b1" "all_fit ls'"
    using g(1) by simp_all
  have "buf b' = pre @ prefix_bytes (kind f) (length (c' @ flat ls')) @ c' @ flat ls'"
    "buffer_ok b'" "same_policy b1 b'" "prefix_fits (kind f) (length (c' @ flat ls'))"
    using cbb_close_child_Some [OF IH(1) g(2,3,6,4) IH(2) r2 [unfolded g(3)]] by auto
  moreover have "c = take (offset f - s) (drop s (buf b))" "ls = (kind f, c') # ls'"
    using Cons.prems(4) l by auto
  ultimately show ?case
    using IH(4) g(5) \<open>fs' = []\<close> same_policy_trans [OF IH(3)] by simp
qed

lemma cbb_flush_children_room:
  assumes "buffer_ok b" and "chain_ok s fs (length (buf b))"
    and "levels_from p s fs (buf b) = (p, c) # ls" and "all_fit ls"
    and "room b (s + length c + length (flat ls))"
  shows "\<exists>b'. cbb_flush_children fs b = (Some (), b', [])"
  using assms
proof (induction fs arbitrary: b p s c ls)
  case Nil
  then show ?case by (auto simp: buffer_ok_def)
next
  case (Cons f fs)
  let ?e = "offset f + pending_len_len f"
  obtain pre gap where g: "take ?e (buf b) = pre @ gap" "offset f = length pre"
    "pending_len_len f = length gap" "gap \<noteq> []"
    "pre = take s (buf b) @ take (offset f - s) (drop s (buf b))" "pending_is_asn1 f \<longrightarrow> length gap = 1"
    using gap_split [OF Cons.prems(2)] .
  obtain c' ls' where l: "levels_from (kind f) ?e fs (buf b) = (kind f, c') # ls'"
    using levels_from_eq by blast
  have e: "?e \<le> length (buf b)" "chain_ok ?e fs (length (buf b))"
    using Cons.prems(2) chain_ok_le by auto
  then have m: "?e < SIZE_MOD" using Cons.prems(1) by (simp add: buffer_ok_def)
  have cl: "c = take (offset f - s) (drop s (buf b))" "ls = (kind f, c') # ls'"
    using Cons.prems(3) l by auto
  have len: "s + length c = length pre"
    using g(5) cl(1) Cons.prems(2) chain_ok_le [OF Cons.prems(2)] by simp
  have fits: "all_fit ls'" "prefix_fits (kind f) (length (c' @ flat ls'))"
    using Cons.prems(4) cl(2) by auto
  have "length gap \<le> length (prefix_bytes (kind f) (length (c' @ flat ls')))"
    using g(3,6) by (auto simp: kind_def der_length_def)
  then have "?e + length c' + length (flat ls') \<le> s + length c + length (flat ls)"
    using len g(2,3) cl(2) by simp
  then have room: "room b (?e + length c' + length (flat ls'))"
    using Cons.prems(5) room_le by blast
  from Cons.IH [OF Cons.prems(1) e(2) l fits(1) room] obtain b1
    where r1: "cbb_flush_children fs b = (Some (), b1, [])" by blast
  from cbb_flush_children_Some [OF r1 Cons.prems(1) e(2) l]
  have b1: "buf b1 = pre @ gap @ c' @ flat ls'" "buffer_ok b1" "same_policy b b1"
    using g(1) by simp_all
  have "length pre + length (prefix_bytes (kind f) (length (c' @ flat ls'))) + length (c' @ flat ls') =
      s + length c + length (flat ls)"
    using len cl(2) by simp
  then have "room b1 (length pre + length (prefix_bytes (kind f) (length (c' @ flat ls'))) + length (c' @ flat ls'))"
    using same_policy_room [OF b1(3) Cons.prems(5)] by simp
  from cbb_close_child_room [OF b1(1) g(2,3,6,4) fits(2) this] g(3) obtain b2 f2
    where "cbb_close_child f ?e b1 = (Some (), b2, f2)" by auto
  moreover have nz: "pending_len_len f \<noteq> 0" "\<not> error b" "?e \<le> length (buf b1)"
    using g(2-4) b1(1) Cons.prems(1) by (auto simp: buffer_ok_def)
  ultimately show ?case unfolding cbb_flush_children_Cons [OF nz(2,1) m] r1 by simp
qed

lemma cbb_flush_children_None: "cbb_flush_children fs b = (None, b', fs') \<Longrightarrow> error b'"
  by (induction fs arbitrary: b b' fs')
    (auto simp: Let_def cbb_close_child_None split: prod.splits option.splits if_splits)

section \<open>The operations on the stack\<close>

definition level_kind :: "prefix \<Rightarrow> cbb_child list \<Rightarrow> nat \<Rightarrow> prefix" where
  "level_kind p fs d = (if d = 0 then p else kind (fs ! (d - 1)))"

definition level_start :: "nat \<Rightarrow> cbb_child list \<Rightarrow> nat \<Rightarrow> nat" where
  "level_start s fs d = (if d = 0 then s else offset (fs ! (d - 1)) + pending_len_len (fs ! (d - 1)))"

lemma level_Suc:
  "level_kind p (f # fs) (Suc d) = level_kind (kind f) fs d"
  "level_start s (f # fs) (Suc d) = level_start (offset f + pending_len_len f) fs d"
  by (cases d; simp add: level_kind_def level_start_def)+

lemma drop_levels:
  "d \<le> length fs \<Longrightarrow>
    drop d (levels_from p s fs xs) = levels_from (level_kind p fs d) (level_start s fs d) (drop d fs) xs"
proof (induction d arbitrary: p s fs)
  case (Suc d)
  then show ?case by (cases fs) (simp_all add: level_Suc)
qed (simp add: level_kind_def level_start_def)

lemma length_levels [simp]: "length (levels_from p s fs xs) = Suc (length fs)"
  by (induction fs arbitrary: p s) simp_all

lemma chain_ok_drop:
  "chain_ok s fs n \<Longrightarrow> d \<le> length fs \<Longrightarrow> chain_ok (level_start s fs d) (drop d fs) n"
proof (induction d arbitrary: s fs)
  case (Suc d)
  then show ?case by (cases fs) (simp_all add: level_Suc)
qed (simp add: level_start_def)

lemma chain_ok_take:
  "chain_ok s fs n \<Longrightarrow> d \<le> length fs \<Longrightarrow> level_start s fs d \<le> m \<Longrightarrow> chain_ok s (take d fs) m"
proof (induction d arbitrary: s fs)
  case (Suc d)
  then show ?case by (cases fs) (simp_all add: level_Suc)
qed (simp add: level_start_def)

lemma start_le_level_start: "chain_ok s fs n \<Longrightarrow> d \<le> length fs \<Longrightarrow> s \<le> level_start s fs d"
proof (induction d arbitrary: s fs)
  case (Suc d)
  then obtain f fs' where fs: "fs = f # fs'" by (cases fs) auto
  then have "offset f + pending_len_len f \<le> level_start (offset f + pending_len_len f) fs' d"
    using Suc by simp
  then show ?case using Suc.prems fs by (simp add: level_Suc)
qed (simp add: level_start_def)

lemma levels_take:
  assumes "chain_ok s fs n" and "d \<le> length fs" and "take (level_start s fs d) ys = take (level_start s fs d) xs"
  shows "levels_from p s (take d fs) ys = take d (levels_from p s fs xs) @ [(level_kind p fs d, drop (level_start s fs d) ys)]"
  using assms
proof (induction d arbitrary: p s fs)
  case 0
  then show ?case by (simp add: level_start_def level_kind_def)
next
  case (Suc d)
  then obtain f fs' where fs: "fs = f # fs'" by (cases fs) auto
  let ?e = "offset f + pending_len_len f"
  have ch: "chain_ok ?e fs' n" "d \<le> length fs'" "take (level_start ?e fs' d) ys = take (level_start ?e fs' d) xs"
    using Suc.prems by (simp_all add: fs level_Suc)
  have le: "offset f \<le> level_start ?e fs' d" using start_le_level_start [OF ch(1,2)] by simp
  have "take (offset f) ys = take (offset f) xs"
    using arg_cong [OF ch(3), of "take (offset f)"] le by (simp add: min_def)
  then have "take (offset f - s) (drop s ys) = take (offset f - s) (drop s xs)"
    by (simp flip: drop_take)
  then show ?case using Suc.IH [OF ch] by (simp add: fs level_Suc)
qed

text \<open>A builder with a good buffer; the three views of it the lemmas use.\<close>

definition same_cbb :: "CBB \<Rightarrow> CBB \<Rightarrow> bool" where
  "same_cbb cbb t \<longleftrightarrow> (case (base cbb, base t) of (Some b, Some b') \<Rightarrow> same_policy b b' | _ \<Rightarrow> False)"

definition cbb_room :: "CBB \<Rightarrow> nat \<Rightarrow> bool" where
  "cbb_room cbb n \<longleftrightarrow> (case base cbb of None \<Rightarrow> False | Some b \<Rightarrow> room b n)"

lemma cbb_okE:
  assumes "cbb_ok cbb"
  obtains b where "base cbb = Some b" and "buffer_ok b" and "chain_ok 0 (children cbb) (length (buf b))"
    and "cbb_levels cbb = levels_from (Len 0) 0 (children cbb) (buf b)" and "cbb_base_len cbb = length (buf b)"
  using assms by (auto simp: cbb_ok_def cbb_levels_def cbb_base_len_def split: option.splits)

lemma same_cbb_trans: "same_cbb a b \<Longrightarrow> same_cbb b c \<Longrightarrow> same_cbb a c"
  by (auto simp: same_cbb_def intro: same_policy_trans split: option.splits)

lemma same_cbb_room: "same_cbb cbb t \<Longrightarrow> cbb_room cbb n \<Longrightarrow> cbb_room t n"
  by (auto simp: same_cbb_def cbb_room_def intro: same_policy_room split: option.splits)

lemma cbb_room_le: "cbb_room cbb n \<Longrightarrow> m \<le> n \<Longrightarrow> cbb_room cbb m"
  by (auto simp: cbb_room_def intro: room_le split: option.splits)

lemma length_cbb_levels: "cbb_ok cbb \<Longrightarrow> length (cbb_levels cbb) = Suc (length (children cbb))"
  by (erule cbb_okE) simp

lemma level_nth:
  assumes "levels_from p s fs xs = ls" and "d \<le> length fs"
  shows "fst (ls ! d) = level_kind p fs d"
    and "levels_from (level_kind p fs d) (level_start s fs d) (drop d fs) xs =
      (level_kind p fs d, snd (ls ! d)) # drop (Suc d) ls"
proof -
  obtain c ms where c: "levels_from (level_kind p fs d) (level_start s fs d) (drop d fs) xs =
      (level_kind p fs d, c) # ms"
    using levels_from_eq by blast
  have "drop d ls = ls ! d # drop (Suc d) ls"
    using assms by (intro Cons_nth_drop_Suc [symmetric]) auto
  then show "fst (ls ! d) = level_kind p fs d"
    and "levels_from (level_kind p fs d) (level_start s fs d) (drop d fs) xs =
      (level_kind p fs d, snd (ls ! d)) # drop (Suc d) ls"
    using c drop_levels [OF assms(2), of p s xs] assms(1) by auto
qed

lemma CBB_flush_Some:
  assumes ok: "cbb_ok cbb" and d: "d \<le> length (children cbb)" and r: "CBB_flush d cbb = (Some u, t)"
  shows "cbb_ok t" and "children t = take d (children cbb)" and "same_cbb cbb t"
    and "cbb_levels t = level_append d [] (cbb_levels cbb)"
    and "cbb_base_len t = level_start 0 (children cbb) d + length (level_content d (cbb_levels cbb))"
    and "all_fit (drop (Suc d) (cbb_levels cbb))"
proof -
  obtain b where b: "base cbb = Some b" "buffer_ok b" "chain_ok 0 (children cbb) (length (buf b))"
    "cbb_levels cbb = levels_from (Len 0) 0 (children cbb) (buf b)" using cbb_okE [OF ok] by metis
  let ?fs = "children cbb" and ?ls = "cbb_levels cbb"
  let ?s = "level_start 0 ?fs d"
  obtain b' fs' where f: "cbb_flush_children (drop d ?fs) b = (Some u, b', fs')"
    and t: "t = \<lparr>base = Some b', children = take d ?fs @ fs'\<rparr>"
    using r d b(1) by (auto simp: CBB_flush_def split: prod.splits)
  have le: "?s \<le> length (buf b)" using chain_ok_le [OF chain_ok_drop [OF b(3) d]] .
  have n: "fs' = []" "buf b' = take ?s (buf b) @ level_content d ?ls" "buffer_ok b'" "same_policy b b'"
    "all_fit (drop (Suc d) ?ls)"
    using cbb_flush_children_Some [OF f b(2) chain_ok_drop [OF b(3) d] level_nth(2) [OF b(4) [symmetric] d]]
    by (simp_all add: level_content_def)
  show "cbb_ok t" using t n chain_ok_take [OF b(3) d, of "length (buf b')"] le by (simp add: cbb_ok_def)
  show "children t = take d ?fs" using t n by simp
  show "same_cbb cbb t" using t n b(1) by (simp add: same_cbb_def)
  show "all_fit (drop (Suc d) ?ls)" using n by simp
  show "cbb_base_len t = ?s + length (level_content d ?ls)" using t n le by (simp add: cbb_base_len_def)
  have "cbb_levels t = levels_from (Len 0) 0 (take d ?fs) (buf b')" using t n by (simp add: cbb_levels_def)
  also have "\<dots> = take d ?ls @ [(level_kind (Len 0) ?fs d, drop ?s (buf b'))]"
    unfolding b(4) by (rule levels_take [OF b(3) d]) (use n le in simp)
  finally show "cbb_levels t = level_append d [] ?ls"
    using n le level_nth(1) [OF b(4) [symmetric] d] by (simp add: level_append_def)
qed

lemma CBB_flush_room:
  assumes ok: "cbb_ok cbb" and d: "d \<le> length (children cbb)" and "all_fit (drop (Suc d) (cbb_levels cbb))"
    and "cbb_room cbb (level_start 0 (children cbb) d + length (level_content d (cbb_levels cbb)))"
  shows "\<exists>t. CBB_flush d cbb = (Some (), t)"
proof -
  obtain b where b: "base cbb = Some b" "buffer_ok b" "chain_ok 0 (children cbb) (length (buf b))"
    "cbb_levels cbb = levels_from (Len 0) 0 (children cbb) (buf b)" using cbb_okE [OF ok] by metis
  let ?fs = "children cbb" and ?ls = "cbb_levels cbb"
  have "room b (level_start 0 ?fs d + length (snd (?ls ! d)) + length (flat (drop (Suc d) ?ls)))"
    using assms(4) b(1) by (simp add: cbb_room_def level_content_def add.assoc)
  from cbb_flush_children_room [OF b(2) chain_ok_drop [OF b(3) d] level_nth(2) [OF b(4) [symmetric] d]
      assms(3) this]
  show ?thesis using d b(1) by (auto simp: CBB_flush_def)
qed

lemma on_base_add_Some:
  assumes ok: "cbb_ok cbb" and d: "children cbb = take d fs" "d \<le> length fs"
    and r: "on_base (cbb_buffer_add data) cbb = (Some u, t)" and sz: "length data < SIZE_MOD"
  shows "cbb_ok t" and "children t = take d fs" and "same_cbb cbb t"
    and "cbb_levels t = level_append d data (cbb_levels cbb)"
    and "cbb_base_len t = cbb_base_len cbb + length data"
proof -
  obtain b where b: "base cbb = Some b" "buffer_ok b" "chain_ok 0 (children cbb) (length (buf b))"
    "cbb_levels cbb = levels_from (Len 0) 0 (children cbb) (buf b)" using cbb_okE [OF ok] by metis
  let ?fs = "children cbb" and ?ls = "cbb_levels cbb"
  have len: "length ?fs = d" using d by simp
  let ?s = "level_start 0 ?fs d"
  obtain b' where a: "cbb_buffer_add data b = (Some u, b')" and t: "t = cbb\<lparr>base := Some b'\<rparr>"
    using r b(1) by (auto simp: on_base_def split: prod.splits)
  have n: "buf b' = buf b @ data" "buffer_ok b'" "same_policy b b'"
    using cbb_buffer_add_Some [OF a b(2) sz] by simp_all
  have le: "?s \<le> length (buf b)" using chain_ok_le [OF chain_ok_drop [OF b(3)]] len by simp
  show "cbb_ok t"
    using t n le chain_ok_take [OF b(3), of d "length (buf b')"] len by (simp add: cbb_ok_def)
  show "children t = take d fs" using t d by simp
  show "same_cbb cbb t" using t n b(1) by (simp add: same_cbb_def)
  show "cbb_base_len t = cbb_base_len cbb + length data" using t n b(1) by (simp add: cbb_base_len_def)
  have l: "levels_from (Len 0) 0 (take d ?fs) ys = take d ?ls @ [(level_kind (Len 0) ?fs d, drop ?s ys)]"
    if "take ?s ys = take ?s (buf b)" for ys
    unfolding b(4) by (rule levels_take [OF b(3)]) (use len that in simp_all)
  have "level_content d ?ls = drop ?s (buf b)" "fst (?ls ! d) = level_kind (Len 0) ?fs d"
    using level_nth [OF b(4) [symmetric], of d] len by (simp_all add: level_content_def)
  then show "cbb_levels t = level_append d data ?ls"
    using t n l [of "buf b'"] le len by (simp add: cbb_levels_def level_append_def)
qed

lemma CBB_add_bytes_Some:
  assumes ok: "cbb_ok cbb" and d: "d \<le> length (children cbb)"
    and r: "CBB_add_bytes d data cbb = (Some u, t)" and sz: "length data < SIZE_MOD"
  shows "cbb_ok t" and "children t = take d (children cbb)" and "same_cbb cbb t"
    and "cbb_levels t = level_append d data (cbb_levels cbb)"
    and "cbb_base_len t = level_start 0 (children cbb) d + length (level_content d (cbb_levels cbb)) + length data"
proof -
  obtain v s where f: "CBB_flush d cbb = (Some v, s)" and a: "on_base (cbb_buffer_add data) s = (Some u, t)"
    using r by (auto simp: CBB_add_bytes_def opbind_Some_iff)
  note fl = CBB_flush_Some [OF ok d f]
  note ad = on_base_add_Some [OF fl(1,2) d a sz]
  show "cbb_ok t" "children t = take d (children cbb)" by (fact ad)+
  show "same_cbb cbb t" using same_cbb_trans [OF fl(3) ad(3)] .
  show "cbb_base_len t = level_start 0 (children cbb) d + length (level_content d (cbb_levels cbb)) + length data"
    using ad(5) fl(5) by simp
  show "cbb_levels t = level_append d data (cbb_levels cbb)"
    unfolding ad(4) fl(4) using d length_cbb_levels [OF ok]
    by (simp add: level_append_def level_content_def nth_append)
qed

lemma CBB_add_bytes_room:
  assumes ok: "cbb_ok cbb" and d: "d \<le> length (children cbb)" and fit: "all_fit (drop (Suc d) (cbb_levels cbb))"
    and room: "cbb_room cbb (level_start 0 (children cbb) d + length (level_content d (cbb_levels cbb)) + length data)"
  shows "\<exists>t. CBB_add_bytes d data cbb = (Some (), t)"
proof -
  obtain s where f: "CBB_flush d cbb = (Some (), s)"
    using CBB_flush_room [OF ok d fit] cbb_room_le [OF room] by auto
  note fl = CBB_flush_Some [OF ok d f]
  obtain b where b: "base s = Some b" "cbb_base_len s = length (buf b)" using cbb_okE [OF fl(1)] by metis
  have "room b (length (buf b) + length data)"
    using same_cbb_room [OF fl(3) room] b fl(5) by (simp add: cbb_room_def)
  from cbb_buffer_add_room [OF this] f b(1) show ?thesis
    by (auto simp: CBB_add_bytes_def opbind_Some on_base_def)
qed

lemma level_append_frame:
  assumes "d < length ls"
  shows "take d (level_append d data ls) = take d ls" and "fst (level_append d data ls ! d) = fst (ls ! d)"
    and "level_content d (level_append d data ls) = level_content d ls @ data"
    and "drop (Suc d) (level_append d data ls) = []" and "length (level_append d data ls) = Suc d"
  using assms by (simp_all add: level_append_def level_content_def nth_append)

text \<open>
  Handle \<open>d\<close> as a byte output: its content is what it would hold if its open child were
  closed, its frame the segments around it.
\<close>

definition handle_ok :: "nat \<Rightarrow> CBB \<Rightarrow> bool" where
  "handle_ok d cbb \<longleftrightarrow> cbb_ok cbb \<and> d \<le> length (children cbb)"

definition handle_content :: "nat \<Rightarrow> CBB \<Rightarrow> bytes" where
  "handle_content d cbb = level_content d (cbb_levels cbb)"

definition policy :: "CBB \<Rightarrow> (bool \<times> (nat \<Rightarrow> bool) \<times> nat option) option" where
  "policy cbb = map_option (\<lambda>b. (can_resize b, mem_ok b, if can_resize b then None else Some (cap b))) (base cbb)"

definition handle_frame :: "nat \<Rightarrow> CBB \<Rightarrow> levels \<times> prefix \<times> (bool \<times> (nat \<Rightarrow> bool) \<times> nat option) option" where
  "handle_frame d cbb = (take d (cbb_levels cbb), fst (cbb_levels cbb ! d), policy cbb)"

lemma same_cbb_policy: "same_cbb s t \<Longrightarrow> policy t = policy s"
  by (auto simp: same_cbb_def policy_def same_policy_def split: option.splits)

definition handle_accepts :: "nat \<Rightarrow> CBB \<Rightarrow> nat \<Rightarrow> bool" where
  "handle_accepts d cbb n \<longleftrightarrow> all_fit (drop (Suc d) (cbb_levels cbb)) \<and>
     cbb_room cbb (level_start 0 (children cbb) d + length (handle_content d cbb) + n)"

lemmas handle_defs = handle_ok_def handle_content_def handle_frame_def handle_accepts_def

interpretation cbb_sink: roomy_sink "CBB_add_bytes d" "handle_ok d" "handle_content d" "handle_frame d" "handle_accepts d"
  for d
proof (unfold_locales, goal_cases)
  case (1 s xs u t)
  then have ok: "cbb_ok s" "d \<le> length (children s)" by (simp_all add: handle_ok_def)
  note a = CBB_add_bytes_Some [OF ok 1(3,2)]
  have "d < length (cbb_levels s)" using ok length_cbb_levels by simp
  then show ?case using a(1,2,4) ok(2) same_cbb_policy [OF a(3)] by (simp add: handle_defs level_append_frame)
next
  case (2 s xs n)
  then have ok: "cbb_ok s" "d \<le> length (children s)" by (simp_all add: handle_ok_def)
  have acc: "all_fit (drop (Suc d) (cbb_levels s))"
    "cbb_room s (level_start 0 (children s) d + length (level_content d (cbb_levels s)) + (length xs + n))"
    using 2(2) by (simp_all add: handle_accepts_def handle_content_def)
  obtain t where t: "CBB_add_bytes d xs s = (Some (), t)"
    using CBB_add_bytes_room [OF ok acc(1) cbb_room_le [OF acc(2)], of xs] by auto
  have "length xs < SIZE_MOD"
    using acc(2) by (auto simp: cbb_room_def room_def split: option.splits)
  note a = CBB_add_bytes_Some [OF ok t this]
  have "d < length (cbb_levels s)" using ok length_cbb_levels by simp
  then have "level_content d (cbb_levels t) = level_content d (cbb_levels s) @ xs"
    "drop (Suc d) (cbb_levels t) = []"
    using a(4) by (simp_all add: level_append_frame)
  moreover have "level_start 0 (children t) d = level_start 0 (children s) d"
    using a(2) ok(2) by (simp add: level_start_def)
  ultimately have "handle_accepts d t n"
    using same_cbb_room [OF a(3) acc(2)] by (simp add: handle_accepts_def handle_content_def add.assoc)
  with t show ?case by blast
next
  case (3 s n)
  then show ?case by (auto simp: handle_accepts_def cbb_room_def room_def split: option.splits)
qed

section \<open>Integers\<close>

lemma CBB_add_uint:
  assumes "0 < k"
  shows "opbind (CBB_flush d) (\<lambda>_. on_base (cbb_buffer_add_u v k)) =
    (if unat v < 256 ^ k then CBB_add_bytes d (be_bytes k (unat v))
     else opbind (CBB_add_bytes d (be_bytes k (unat v))) (\<lambda>_. on_base cbb_buffer_err))"
proof -
  have "on_base (opbind m (\<lambda>_. f)) = opbind (on_base m) (\<lambda>_. on_base f)" for m f :: "(cbb_buffer, unit) op"
    by (rule ext) (auto simp: on_base_def opbind_def split: option.splits prod.splits)
  then show ?thesis
    using assms by (cases "unat v < 256 ^ k") (simp_all add: cbb_buffer_add_u_eq CBB_add_bytes_def opbind_assoc)
qed

lemma CBB_add_u8_eq: "CBB_add_u8 d v = CBB_add_bytes d [v]"
  using CBB_add_uint [of 1 d "ucast v"] unat_u8_less [of v] by (simp add: CBB_add_u8_def)

lemma unat_ucast_wider: "LENGTH('a::len) \<le> LENGTH('b::len) \<Longrightarrow> unat (ucast (v :: 'a word) :: 'b word) = unat v"
proof -
  assume "LENGTH('a) \<le> LENGTH('b)"
  then have "(2::nat) ^ LENGTH('a) \<le> 2 ^ LENGTH('b)" by (intro power_increasing) auto
  then have "unat v < 2 ^ LENGTH('b)" using unsigned_less [of v, where 'a = nat] by linarith
  then show ?thesis by (simp add: unsigned_ucast_eq take_bit_nat_eq_self)
qed

lemma CBB_add_u16_eq: "CBB_add_u16 d v = CBB_add_bytes d (be_bytes 2 (unat v))"
  using CBB_add_uint [of 2 d "ucast v"] unsigned_less [of v, where 'a = nat]
  by (simp add: CBB_add_u16_def unat_ucast_wider del: be_bytes.simps)

lemma CBB_add_u24_eq:
  "CBB_add_u24 d v = (if unat v < 2 ^ 24 then CBB_add_bytes d (be_bytes 3 (unat v))
     else opbind (CBB_add_bytes d (be_bytes 3 (unat v))) (\<lambda>_. on_base cbb_buffer_err))"
  using CBB_add_uint [of 3 d "ucast v"] by (simp add: CBB_add_u24_def unat_ucast_wider del: be_bytes.simps)

lemma CBB_add_u32_eq: "CBB_add_u32 d v = CBB_add_bytes d (be_bytes 4 (unat v))"
  using CBB_add_uint [of 4 d "ucast v"] unsigned_less [of v, where 'a = nat]
  by (simp add: CBB_add_u32_def unat_ucast_wider del: be_bytes.simps)

lemma CBB_add_u64_eq: "CBB_add_u64 d v = CBB_add_bytes d (be_bytes 8 (unat v))"
  using CBB_add_uint [of 8 d v] unsigned_less [of v, where 'a = nat]
  by (simp add: CBB_add_u64_def del: be_bytes.simps)

lemmas CBB_add_int_eqs = CBB_add_u8_eq CBB_add_u16_eq CBB_add_u24_eq CBB_add_u32_eq CBB_add_u64_eq

definition base128_high :: "u64 \<Rightarrow> nat \<Rightarrow> bytes" where
  "base128_high w m = map (\<lambda>j. ucast (drop_bit (7 * j) w AND 0x7f) OR 0x80) (rev [0..<m])"

lemma rev_upt_Suc: "rev [0..<Suc m] = map Suc (rev [0..<m]) @ [0]"
  by (simp add: rev_map [symmetric] map_Suc_upt upt_conv_Cons del: upt_Suc)

lemma base128_high_Suc:
  "base128_high w (Suc m) = base128_high (drop_bit 7 w) m @ [word_of_nat (unat w mod 128 + 128)]"
proof -
  have "drop_bit (7 * Suc j) w = drop_bit (7 * j) (drop_bit 7 w)" for j by (simp add: add.commute)
  then show ?thesis
    unfolding base128_high_def rev_upt_Suc map_append map_map comp_def
    by (simp add: more_7_byte del: mult_Suc_right)
qed

lemma base128_high_eq: "w > 0 \<Longrightarrow> base128_high w (base128_len w) = b128_hi (unat w)"
proof (induction w rule: base128_len.induct)
  case (1 w)
  have len: "base128_len w = Suc (base128_len (drop_bit 7 w))"
    using 1(2) by (simp add: base128_len.simps [of w])
  show ?case
  proof (cases "drop_bit 7 w > 0")
    case True
    then have "unat w \<ge> 128"
      by (simp add: word_greater_zero_iff word_unat_eq_iff drop_bit_7_unat div_eq_0_iff)
    then show ?thesis
      using 1(1) [OF 1(2) True] unfolding len base128_high_Suc
      by (simp add: drop_bit_7_unat b128_hi.simps [of "unat w"])
  next
    case False
    then have "drop_bit 7 w = 0" by (simp add: word_greater_zero_iff)
    moreover have "unat w < 128"
      using calculation by (simp add: word_unat_eq_iff drop_bit_7_unat div_eq_0_iff)
    ultimately show ?thesis
      unfolding len base128_high_Suc
      by (simp add: base128_len.simps [of 0] base128_high_def b128_hi.simps [of "unat w"])
  qed
qed

lemma add_base128_loop_eq:
  "add_base128_loop d v (Suc m) =
    op_seq (map (\<lambda>b. CBB_add_bytes d [b]) (base128_high (drop_bit 7 v) m @ [word_of_nat (unat v mod 128)]))"
proof -
  define f where "f i = CBB_add_bytes d
      [if i \<noteq> 0 then ucast (drop_bit (7 * i) v AND 0x7f) OR 0x80 else ucast (drop_bit (7 * i) v AND 0x7f)]" for i
  have l: "add_base128_loop d v n = op_seq (map f (rev [0..<n]))" for n
    by (induction n) (simp_all add: CBB_add_u8_eq Let_def f_def)
  have "drop_bit (7 * Suc j) v = drop_bit (7 * j) (drop_bit 7 v)" for j by (simp add: add.commute)
  then have "map f (rev [0..<Suc m]) = map (\<lambda>b. CBB_add_bytes d [b])
      (base128_high (drop_bit 7 v) m @ [word_of_nat (unat v mod 128)])"
    unfolding rev_upt_Suc base128_high_def map_append map_map comp_def f_def
    by (simp add: low_7_byte del: mult_Suc_right)
  then show ?thesis by (simp only: l)
qed

lemma add_base128_integer_eq:
  "add_base128_integer d v = op_seq (map (\<lambda>b. CBB_add_bytes d [b]) (b128 (unat v)))"
proof (cases "drop_bit 7 v > 0")
  case True
  then have "unat v \<ge> 128"
    by (simp add: word_greater_zero_iff word_unat_eq_iff drop_bit_7_unat div_eq_0_iff)
  moreover from this have "v > 0" by (auto simp: word_greater_zero_iff)
  ultimately show ?thesis
    using base128_high_eq [OF True]
    by (simp add: add_base128_integer_def base128_len.simps [of v] add_base128_loop_eq b128_def drop_bit_7_unat
        del: add_base128_loop.simps op_seq.simps)
next
  case False
  then have z: "drop_bit 7 v = 0" by (simp add: word_greater_zero_iff)
  then have "unat v < 128"
    by (simp add: word_unat_eq_iff drop_bit_7_unat div_eq_0_iff)
  moreover have "base128_len v = (if v > 0 then 1 else 0)"
    using z by (simp add: base128_len.simps [of v] base128_len.simps [of 0])
  ultimately show ?thesis
    using add_base128_loop_eq [of d v 0]
    by (simp add: add_base128_integer_def b128_def base128_high_def del: add_base128_loop.simps)
qed

section \<open>Opening children\<close>

lemma levels_from_snoc:
  assumes "chain_ok s fs (length xs)" and "offset f = length xs" and "pending_len_len f = length z"
  shows "levels_from p s (fs @ [f]) (xs @ z) = levels_from p s fs xs @ [(kind f, [])]"
  using assms
proof (induction fs arbitrary: p s)
  case (Cons g fs)
  then have "offset g \<le> length xs" using chain_ok_le by fastforce
  with Cons show ?case by simp
qed simp

lemma chain_ok_snoc:
  assumes "chain_ok s fs n" and "offset f = n" and "1 \<le> pending_len_len f"
    and "pending_is_asn1 f \<longrightarrow> pending_len_len f = 1"
  shows "chain_ok s (fs @ [f]) (n + pending_len_len f)"
  using assms
proof (induction fs arbitrary: s)
  case Nil
  then show ?case by simp
next
  case (Cons g fs)
  then show ?case by simp
qed

lemma open_child_Some:
  assumes ok: "cbb_ok s" and d: "length (children s) = d"
    and f: "offset f = cbb_base_len s" "pending_len_len f = k" "1 \<le> k" "k < SIZE_MOD" "pending_is_asn1 f \<longrightarrow> k = 1"
    and r: "opbind (on_base (cbb_buffer_add (replicate k 0))) (\<lambda>_. cbb_set_child d f) s = (Some u, t)"
  shows "cbb_ok t" and "cbb_levels t = cbb_levels s @ [(kind f, [])]" and "length (children t) = Suc d"
    and "policy t = policy s" and "level_start 0 (children t) (Suc d) = cbb_base_len s + k"
    and "cbb_base_len t = cbb_base_len s + k"
proof -
  obtain b where b: "base s = Some b" "buffer_ok b" "chain_ok 0 (children s) (length (buf b))"
    "cbb_levels s = levels_from (Len 0) 0 (children s) (buf b)" "cbb_base_len s = length (buf b)"
    using cbb_okE [OF ok] by metis
  from r obtain b' where a: "cbb_buffer_add (replicate k 0) b = (Some (), b')"
    and t: "t = s\<lparr>base := Some b', children := children s @ [f]\<rparr>"
    using b(1) d by (auto simp: opbind_Some_iff on_base_def cbb_set_child_def split: prod.splits)
  have n: "buf b' = buf b @ replicate k 0" "buffer_ok b'" "same_policy b b'"
    using cbb_buffer_add_Some [OF a b(2)] f by simp_all
  show "cbb_ok t"
    using t n chain_ok_snoc [OF b(3), of f] f b(5) by (simp add: cbb_ok_def)
  show "cbb_levels t = cbb_levels s @ [(kind f, [])]"
    using levels_from_snoc [OF b(3), of f "replicate k 0"] f b(4,5) t n by (simp add: cbb_levels_def)
  show "length (children t) = Suc d" using t d by simp
  show "policy t = policy s"
    by (rule same_cbb_policy) (use t n b in \<open>simp add: same_cbb_def\<close>)
  show "level_start 0 (children t) (Suc d) = cbb_base_len s + k"
    using t d f by (simp add: level_start_def nth_append)
  show "cbb_base_len t = cbb_base_len s + k" using t n b by (simp add: cbb_base_len_def)
qed

lemma open_child_room:
  assumes ok: "cbb_ok s" and r: "cbb_room s (cbb_base_len s + k + n)"
  shows "\<exists>t. opbind (on_base (cbb_buffer_add (replicate k 0))) (\<lambda>_. cbb_set_child d f) s = (Some (), t) \<and>
    cbb_room t (cbb_base_len s + k + n)"
proof -
  obtain b where b: "base s = Some b" "buffer_ok b" "cbb_base_len s = length (buf b)"
    using cbb_okE [OF ok] by metis
  have room: "room b (length (buf b) + k + n)" using r b by (simp add: cbb_room_def)
  then have "room b (length (buf b) + length (replicate k (0 :: u8)))" using room_le by auto
  from cbb_buffer_add_room [OF this] obtain b'
    where a: "cbb_buffer_add (replicate k 0) b = (Some (), b')" by blast
  have "k < SIZE_MOD" using room by (auto simp: room_def)
  then have "same_policy b b'" using cbb_buffer_add_Some [OF a b(2)] by simp
  with room have "room b' (length (buf b) + k + n)" using same_policy_room by blast
  with a b show ?thesis by (simp add: opbind_def on_base_def cbb_set_child_def cbb_room_def)
qed

text \<open>The state after an operation closed everything below handle \<open>d\<close> and appended \<open>data\<close>.\<close>

definition closed_at :: "nat \<Rightarrow> CBB \<Rightarrow> bool" where
  "closed_at d cbb \<longleftrightarrow> cbb_ok cbb \<and> length (children cbb) = d"

lemma closed_at_handle: "closed_at d cbb \<Longrightarrow> handle_ok d cbb"
  by (simp add: closed_at_def handle_ok_def)

lemma frame_levels:
  assumes "closed_at d t" and "handle_frame d t = handle_frame d s" and "handle_content d t = handle_content d s @ data"
  shows "cbb_levels t = level_append d data (cbb_levels s)" and "policy t = policy s"
proof -
  have len: "length (cbb_levels t) = Suc d" using assms(1) length_cbb_levels by (simp add: closed_at_def)
  then have "cbb_levels t = take d (cbb_levels t) @ [cbb_levels t ! d]"
    by (metis take_Suc_conv_app_nth lessI order_refl take_all)
  moreover have "cbb_levels t ! d = (fst (cbb_levels s ! d), handle_content d s @ data)"
    using assms(2,3) len by (cases "cbb_levels t ! d") (simp add: handle_defs level_content_def)
  ultimately show "cbb_levels t = level_append d data (cbb_levels s)"
    using assms(2) by (simp add: handle_defs level_append_def)
  show "policy t = policy s" using assms(2) by (simp add: handle_frame_def)
qed

lemma CBB_flush_closed:
  assumes "handle_ok d s" and "CBB_flush d s = (Some u, t)"
  shows "closed_at d t" and "cbb_levels t = level_append d [] (cbb_levels s)" and "policy t = policy s"
  using CBB_flush_Some [OF _ _ assms(2)] assms(1) same_cbb_policy
  by (auto simp: closed_at_def handle_ok_def)

lemma CBB_add_bytes_closed:
  assumes "handle_ok d s" and "CBB_add_bytes d data s = (Some u, t)" and "length data < SIZE_MOD"
  shows "closed_at d t" and "cbb_levels t = level_append d data (cbb_levels s)" and "policy t = policy s"
  using CBB_add_bytes_Some [OF _ _ assms(2,3)] assms(1) same_cbb_policy
  by (auto simp: closed_at_def handle_ok_def)

lemma closed_level:
  assumes "closed_at d s"
  shows "level_append d [] (cbb_levels s) = cbb_levels s"
    and "level_start 0 (children s) d + length (handle_content d s) = cbb_base_len s"
proof -
  obtain b where b: "base s = Some b" "chain_ok 0 (children s) (length (buf b))"
    "cbb_levels s = levels_from (Len 0) 0 (children s) (buf b)" "cbb_base_len s = length (buf b)"
    using cbb_okE assms closed_at_def by metis
  have len: "length (children s) = d" using assms by (simp add: closed_at_def)
  have c: "handle_content d s = drop (level_start 0 (children s) d) (buf b)"
    using level_nth [OF b(3) [symmetric], of d] len by (simp add: handle_content_def level_content_def)
  have "level_start 0 (children s) d \<le> length (buf b)"
    using chain_ok_le [OF chain_ok_drop [OF b(2)]] len by simp
  then show "level_start 0 (children s) d + length (handle_content d s) = cbb_base_len s"
    using c b(4) by simp
  have l: "length (cbb_levels s) = Suc d" using b(3) len by simp
  then have "cbb_levels s = take d (cbb_levels s) @ [cbb_levels s ! d]"
    by (metis take_Suc_conv_app_nth lessI order_refl take_all)
  with l show "level_append d [] (cbb_levels s) = cbb_levels s"
    by (cases "cbb_levels s ! d") (simp add: level_append_def level_content_def)
qed

lemma cbb_add_length_prefixed_Some:
  assumes ok: "handle_ok d s" and k: "1 \<le> k" "k < SIZE_MOD"
    and r: "cbb_add_length_prefixed k d s = (Some u, t)"
  shows "closed_at (Suc d) t" and "cbb_levels t = level_append d [] (cbb_levels s) @ [(Len k, [])]"
    and "policy t = policy s"
proof -
  let ?f = "\<lambda>s. \<lparr>offset = cbb_base_len s, pending_len_len = k, pending_is_asn1 = False\<rparr>"
  obtain v s1 where f: "CBB_flush d s = (Some v, s1)"
    and o: "opbind (on_base (cbb_buffer_add (replicate k 0))) (\<lambda>_. cbb_set_child d (?f s1)) s1 = (Some u, t)"
    using r by (auto simp: cbb_add_length_prefixed_def opbind_Some_iff Let_def)
  note fl = CBB_flush_closed [OF ok f]
  have "cbb_ok s1" "length (children s1) = d" using fl(1) by (simp_all add: closed_at_def)
  note op = open_child_Some [OF this _ _ k _ o]
  show "closed_at (Suc d) t" "cbb_levels t = level_append d [] (cbb_levels s) @ [(Len k, [])]"
    "policy t = policy s"
    using op fl by (simp_all add: closed_at_def kind_def)
qed

lemma unat_tag_number: "unat (tag AND CBS_ASN1_TAG_NUMBER_MASK) = tag_number_of tag"
  using unat_take_bit_29 [of tag] by (simp add: CBS_ASN1_TAG_NUMBER_MASK_eq take_bit_eq_mask)

lemma CBB_add_asn1_eq:
  "CBB_add_asn1 d tag = opbind (CBB_flush d) (\<lambda>_.
     opbind (op_seq (map (\<lambda>b. CBB_add_bytes d [b]) (der_tag tag)))
       (\<lambda>_ cbb. opbind (CBB_add_bytes d [0]) (\<lambda>_.
          cbb_set_child d \<lparr>offset = cbb_base_len cbb, pending_len_len = 1, pending_is_asn1 = True\<rparr>) cbb))"
proof -
  let ?n = "tag AND CBS_ASN1_TAG_NUMBER_MASK"
  have c: "?n \<ge> 0x1f \<longleftrightarrow> \<not> tag_number_of tag < 31"
    using unat_tag_number [of tag] by (simp add: word_le_nat_alt not_less)
  have w: "(ucast ?n :: u8) = word_of_nat (tag_number_of tag)"
    using unat_tag_number [of tag] by (metis of_nat_unat)
  have u: "unat (ucast ?n :: u64) = tag_number_of tag"
    using unat_tag_number [of tag] by (simp add: unat_ucast_wider)
  show ?thesis
    unfolding CBB_add_asn1_def Let_def c add_base128_integer_eq u w CBB_add_u8_eq
    by (auto simp: der_tag_def tag_bits_def CBS_ASN1_TAG_SHIFT_def opbind_assoc)
qed

lemma CBB_flush_noop:
  assumes "closed_at d s"
  shows "CBB_flush d s = (Some (), s)"
  using assms by (auto simp: closed_at_def CBB_flush_def elim!: cbb_okE) (simp add: buffer_ok_def)

lemma CBB_add_bytes_closed_eq: "closed_at d s \<Longrightarrow> CBB_add_bytes d data s = on_base (cbb_buffer_add data) s"
  by (simp add: CBB_add_bytes_def opbind_Some [OF CBB_flush_noop])

lemma put_bytes_closed:
  assumes "closed_at d s" and "op_seq (map (\<lambda>b. CBB_add_bytes d [b]) bs) s = (Some u, t)"
  shows "closed_at d t"
  using assms
proof (induction bs arbitrary: s)
  case (Cons b bs)
  then obtain v s1 where b: "CBB_add_bytes d [b] s = (Some v, s1)"
    and bs: "op_seq (map (\<lambda>b. CBB_add_bytes d [b]) bs) s1 = (Some u, t)"
    by (auto simp: opbind_Some_iff)
  have "closed_at d s1" using CBB_add_bytes_closed(1) [OF closed_at_handle [OF Cons.prems(1)] b] by simp
  from Cons.IH [OF this bs] show ?case .
qed (simp add: opret_def)

lemma CBB_add_asn1_Some:
  assumes ok: "handle_ok d s" and r: "CBB_add_asn1 d tag s = (Some u, t)"
  shows "closed_at (Suc d) t" and "cbb_levels t = level_append d (der_tag tag) (cbb_levels s) @ [(Asn1, [])]"
    and "policy t = policy s"
proof -
  let ?f = "\<lambda>s. \<lparr>offset = cbb_base_len s, pending_len_len = 1, pending_is_asn1 = True\<rparr>"
  obtain v v2 s1 s2 where f: "CBB_flush d s = (Some v, s1)"
    and p: "op_seq (map (\<lambda>b. CBB_add_bytes d [b]) (der_tag tag)) s1 = (Some v2, s2)"
    and o: "opbind (CBB_add_bytes d [0]) (\<lambda>_. cbb_set_child d (?f s2)) s2 = (Some u, t)"
    using r unfolding CBB_add_asn1_eq by (auto simp: opbind_Some_iff)
  note fl = CBB_flush_closed [OF ok f]
  have c2: "closed_at d s2" using put_bytes_closed [OF fl(1) p] .
  note pb = cbb_sink.put_bytes_Some [OF closed_at_handle [OF fl(1)] p]
  have l2: "cbb_levels s2 = level_append d (der_tag tag) (cbb_levels s)" "policy s2 = policy s"
  proof -
    have len: "d < length (cbb_levels s)" using ok length_cbb_levels by (simp add: handle_ok_def)
    have "handle_content d s2 = handle_content d s @ der_tag tag" "handle_frame d s2 = handle_frame d s"
      using pb fl(2,3) len by (simp_all add: handle_content_def handle_frame_def level_append_frame)
    from frame_levels [OF c2 this(2,1)]
    show "cbb_levels s2 = level_append d (der_tag tag) (cbb_levels s)" "policy s2 = policy s" .
  qed
  have "opbind (on_base (cbb_buffer_add (replicate 1 0))) (\<lambda>_. cbb_set_child d (?f s2)) s2 = (Some u, t)"
    using o by (simp add: opbind_def CBB_add_bytes_closed_eq [OF c2])
  note op = open_child_Some [OF _ _ _ _ _ _ _ this]
  show "closed_at (Suc d) t" "cbb_levels t = level_append d (der_tag tag) (cbb_levels s) @ [(Asn1, [])]"
    "policy t = policy s"
    using op c2 l2 by (simp_all add: closed_at_def kind_def)
qed

section \<open>Failure\<close>

definition cbb_failed :: "CBB \<Rightarrow> bool" where
  "cbb_failed cbb \<longleftrightarrow> (case base cbb of None \<Rightarrow> True | Some b \<Rightarrow> error b)"

lemma CBB_flush_failed: "cbb_failed s \<Longrightarrow> CBB_flush d s = (None, s)"
proof -
  assume "cbb_failed s"
  moreover have "error b \<Longrightarrow> cbb_flush_children fs b = (None, b, fs)" for fs b by (cases fs) simp_all
  ultimately show ?thesis by (cases s) (auto simp: CBB_flush_def cbb_failed_def split: option.splits)
qed

lemma CBB_flush_None: "handle_ok d s \<Longrightarrow> CBB_flush d s = (None, t) \<Longrightarrow> cbb_failed t"
  using cbb_flush_children_None
  by (force simp: handle_ok_def cbb_ok_def CBB_flush_def cbb_failed_def split: option.splits prod.splits if_splits)

lemma flush_first:
  assumes "handle_ok d s" and "opbind (CBB_flush d) f s = (r, t)"
  shows "cbb_failed t \<or> (\<exists>s1. closed_at d s1 \<and> f () s1 = (r, t))"
  using assms CBB_flush_None CBB_flush_closed(1)
  by (auto simp: opbind_def split: prod.splits option.splits)

lemma on_base_add_None: "on_base (cbb_buffer_add data) s = (None, t) \<Longrightarrow> cbb_failed t"
  by (auto simp: on_base_def cbb_failed_def cbb_buffer_add_None split: option.splits prod.splits)

lemma CBB_add_bytes_None: "handle_ok d s \<Longrightarrow> CBB_add_bytes d data s = (None, t) \<Longrightarrow> cbb_failed t"
  using flush_first on_base_add_None by (fastforce simp: CBB_add_bytes_def)

lemma put_bytes_None:
  "closed_at d s \<Longrightarrow> op_seq (map (\<lambda>b. CBB_add_bytes d [b]) bs) s = (None, t) \<Longrightarrow> cbb_failed t"
proof (induction bs arbitrary: s)
  case (Cons b bs)
  note h = closed_at_handle [OF Cons.prems(1)]
  from Cons.prems(2) consider "CBB_add_bytes d [b] s = (None, t)"
    | u s1 where "CBB_add_bytes d [b] s = (Some u, s1)"
      "op_seq (map (\<lambda>b. CBB_add_bytes d [b]) bs) s1 = (None, t)"
    by (auto simp: opbind_None_iff)
  then show ?case
  proof cases
    case 1
    then show ?thesis by (rule CBB_add_bytes_None [OF h])
  next
    case 2
    then show ?thesis using Cons.IH CBB_add_bytes_closed(1) [OF h 2(1)] by simp
  qed
qed (simp add: opret_def)

lemma cbb_add_length_prefixed_None:
  assumes "handle_ok d s" and "cbb_add_length_prefixed k d s = (None, t)"
  shows "cbb_failed t"
  using flush_first [OF assms(1) assms(2) [unfolded cbb_add_length_prefixed_def]] on_base_add_None
  by (auto simp: Let_def cbb_set_child_def opbind_None_iff)

lemma CBB_add_asn1_None:
  assumes "handle_ok d s" and "CBB_add_asn1 d tag s = (None, t)"
  shows "cbb_failed t"
  using flush_first [OF assms(1) assms(2) [unfolded CBB_add_asn1_eq]]
proof (elim disjE exE conjE)
  fix s1
  assume s1: "closed_at d s1" and "opbind (op_seq (map (\<lambda>b. CBB_add_bytes d [b]) (der_tag tag)))
       (\<lambda>_ cbb. opbind (CBB_add_bytes d [0]) (\<lambda>_.
          cbb_set_child d \<lparr>offset = cbb_base_len cbb, pending_len_len = 1, pending_is_asn1 = True\<rparr>) cbb) s1
       = (None, t)"
  then consider "op_seq (map (\<lambda>b. CBB_add_bytes d [b]) (der_tag tag)) s1 = (None, t)"
    | s2 u where "op_seq (map (\<lambda>b. CBB_add_bytes d [b]) (der_tag tag)) s1 = (Some u, s2)"
      "CBB_add_bytes d [0] s2 = (None, t)"
    by (auto simp: opbind_None_iff cbb_set_child_def)
  then show "cbb_failed t"
    using put_bytes_None [OF s1] put_bytes_closed [OF s1] CBB_add_bytes_None closed_at_handle by cases blast+
qed

section \<open>Running a builder\<close>

text \<open>
  A use of a builder: a list of calls, whose results the caller ignores, as the code does when
  it leaves the test to \<open>CBB_finish\<close>.
\<close>

datatype cbb_cmd = Add_bytes nat bytes | Add_prefixed nat nat | Add_asn1 nat u32 | Flush nat | Discard_child nat

fun exec_cmd :: "cbb_cmd \<Rightarrow> (CBB, unit) op" where
  "exec_cmd (Add_bytes d data) = CBB_add_bytes d data"
| "exec_cmd (Add_prefixed d k) = cbb_add_length_prefixed k d"
| "exec_cmd (Add_asn1 d tag) = CBB_add_asn1 d tag"
| "exec_cmd (Flush d) = CBB_flush d"
| "exec_cmd (Discard_child d) = (\<lambda>s. (Some (), CBB_discard_child d s))"

fun spec_cmd :: "cbb_cmd \<Rightarrow> levels \<Rightarrow> levels" where
  "spec_cmd (Add_bytes d data) ls = level_append d data ls"
| "spec_cmd (Add_prefixed d k) ls = level_append d [] ls @ [(Len k, [])]"
| "spec_cmd (Add_asn1 d tag) ls = level_append d (der_tag tag) ls @ [(Asn1, [])]"
| "spec_cmd (Flush d) ls = level_append d [] ls"
| "spec_cmd (Discard_child d) ls = take (Suc d) ls"

fun cmd_handle :: "cbb_cmd \<Rightarrow> nat" where
  "cmd_handle (Add_bytes d data) = d"
| "cmd_handle (Add_prefixed d k) = d"
| "cmd_handle (Add_asn1 d tag) = d"
| "cmd_handle (Flush d) = d"
| "cmd_handle (Discard_child d) = d"

fun cmd_sized :: "cbb_cmd \<Rightarrow> bool" where
  "cmd_sized (Add_bytes d data) \<longleftrightarrow> length data < SIZE_MOD"
| "cmd_sized (Add_prefixed d k) \<longleftrightarrow> 1 \<le> k \<and> k \<le> 3"
| "cmd_sized _ \<longleftrightarrow> True"

fun run_cmds :: "cbb_cmd list \<Rightarrow> CBB \<Rightarrow> CBB" where
  "run_cmds [] s = s"
| "run_cmds (c # cs) s = run_cmds cs (snd (exec_cmd c s))"

fun spec_cmds :: "cbb_cmd list \<Rightarrow> levels \<Rightarrow> levels" where
  "spec_cmds [] ls = ls"
| "spec_cmds (c # cs) ls = spec_cmds cs (spec_cmd c ls)"

fun valid_cmds :: "cbb_cmd list \<Rightarrow> levels \<Rightarrow> bool" where
  "valid_cmds [] ls \<longleftrightarrow> True"
| "valid_cmds (c # cs) ls \<longleftrightarrow> cmd_handle c < length ls \<and> cmd_sized c \<and> valid_cmds cs (spec_cmd c ls)"

lemma CBB_discard_child_Some:
  assumes ok: "cbb_ok s"
  shows "cbb_ok (CBB_discard_child d s)"
    and "cbb_levels (CBB_discard_child d s) = take (Suc d) (cbb_levels s)"
    and "policy (CBB_discard_child d s) = policy s"
proof -
  obtain b where b: "base s = Some b" "buffer_ok b" "chain_ok 0 (children s) (length (buf b))"
    "cbb_levels s = levels_from (Len 0) 0 (children s) (buf b)" using cbb_okE [OF ok] by metis
  let ?t = "CBB_discard_child d s" and ?fs = "children s"
  show "policy ?t = policy s" by (auto simp: CBB_discard_child_def policy_def b(1) intro: ext)
  have "cbb_ok ?t \<and> cbb_levels ?t = take (Suc d) (cbb_levels s)"
  proof (cases "length ?fs \<le> d")
    case True
    then show ?thesis using ok length_cbb_levels [OF ok] by (simp add: CBB_discard_child_def)
  next
    case False
    then obtain f fs where f: "drop d ?fs = f # fs" "f = ?fs ! d"
      by (metis Cons_nth_drop_Suc not_le)
    let ?s = "level_start 0 ?fs d" and ?xs = "take (offset f) (buf b)"
    have "chain_ok ?s (f # fs) (length (buf b))" using chain_ok_drop [OF b(3), of d] False f(1) by simp
    then have le: "?s \<le> offset f" "offset f \<le> length (buf b)"
      using chain_ok_le [of "offset f + pending_len_len f" fs "length (buf b)"] by simp_all
    have l: "levels_from (Len 0) 0 (take d ?fs) ?xs = take d (cbb_levels s) @ [(level_kind (Len 0) ?fs d, drop ?s ?xs)]"
      unfolding b(4) by (rule levels_take [OF b(3)]) (use False le in \<open>simp_all add: min_def\<close>)
    have "cbb_levels s ! d = (level_kind (Len 0) ?fs d, take (offset f - ?s) (drop ?s (buf b)))"
      using level_nth [OF b(4) [symmetric], of d] False f by (cases "cbb_levels s ! d") simp
    moreover have "d < length (cbb_levels s)" using False length_cbb_levels [OF ok] by simp
    ultimately have "take (Suc d) (cbb_levels s) =
        take d (cbb_levels s) @ [(level_kind (Len 0) ?fs d, drop ?s ?xs)]"
      by (simp add: take_Suc_conv_app_nth drop_take)
    moreover have "?t = \<lparr>base = Some (b\<lparr>buf := ?xs\<rparr>), children = take d ?fs\<rparr>"
      using False b(1) f by (cases s) (simp add: CBB_discard_child_def)
    ultimately show ?thesis
      using l b(2) le False chain_ok_take [OF b(3), of d "length ?xs"]
      by (simp add: cbb_ok_def cbb_levels_def buffer_ok_def)
  qed
  then show "cbb_ok ?t" "cbb_levels ?t = take (Suc d) (cbb_levels s)" by simp_all
qed

lemma exec_cmd_refines:
  assumes "cbb_ok s" and "cmd_handle c < length (cbb_levels s)" and "cmd_sized c"
  shows "(case exec_cmd c s of
      (Some u, t) \<Rightarrow> cbb_ok t \<and> cbb_levels t = spec_cmd c (cbb_levels s) \<and> policy t = policy s
    | (None, t) \<Rightarrow> cbb_failed t)"
proof -
  have h: "handle_ok (cmd_handle c) s"
    using assms(1,2) length_cbb_levels by (simp add: handle_ok_def)
  note closed = closed_at_def
  show ?thesis
  proof (cases c)
    case (Add_bytes d data)
    then show ?thesis
      using h assms(3) CBB_add_bytes_closed [of d s data] CBB_add_bytes_None [of d s data]
      by (auto simp: closed split: prod.splits option.splits)
  next
    case (Add_prefixed d k)
    then show ?thesis
      using h assms(3) cbb_add_length_prefixed_Some [of d s k] cbb_add_length_prefixed_None [of d s k]
      by (auto simp: closed split: prod.splits option.splits)
  next
    case (Add_asn1 d tag)
    then show ?thesis
      using h assms(3) CBB_add_asn1_Some [of d s tag] CBB_add_asn1_None [of d s tag]
      by (auto simp: closed split: prod.splits option.splits)
  next
    case (Flush d)
    then show ?thesis
      using h CBB_flush_closed [of d s] CBB_flush_None [of d s]
      by (auto simp: closed split: prod.splits option.splits)
  next
    case (Discard_child d)
    then show ?thesis using CBB_discard_child_Some [OF assms(1)] by simp
  qed
qed

lemma exec_cmd_failed: "cbb_failed s \<Longrightarrow> cbb_failed (snd (exec_cmd c s))"
proof (cases c)
  case (Discard_child d)
  then show "cbb_failed s \<Longrightarrow> ?thesis"
    by (auto simp: CBB_discard_child_def cbb_failed_def split: option.splits)
qed (auto simp: CBB_add_bytes_def cbb_add_length_prefixed_def CBB_add_asn1_def opbind_None CBB_flush_failed)

lemma run_cmds_refines:
  "cbb_failed s \<or> cbb_ok s \<and> cbb_levels s = ls \<Longrightarrow> valid_cmds cs ls \<Longrightarrow>
    cbb_failed (run_cmds cs s) \<or> cbb_ok (run_cmds cs s) \<and> cbb_levels (run_cmds cs s) = spec_cmds cs ls"
proof (induction cs arbitrary: s ls)
  case (Cons c cs)
  have "cbb_failed (snd (exec_cmd c s)) \<or>
      cbb_ok (snd (exec_cmd c s)) \<and> cbb_levels (snd (exec_cmd c s)) = spec_cmd c ls"
    using Cons.prems exec_cmd_failed exec_cmd_refines [of s c]
    by (auto split: prod.splits option.splits)
  with Cons show ?case by simp
qed simp

lemma CBB_finish_Some:
  assumes "cbb_ok s \<or> cbb_failed s" and "CBB_finish have_out 0 s = (Some out, t)"
  shows "cbb_ok s" and "out = level_content 0 (cbb_levels s)" and "base t = None"
proof -
  obtain s1 where f: "CBB_flush 0 s = (Some (), s1)"
    using assms(2) by (auto simp: CBB_finish_def opbind_Some_iff)
  then show ok: "cbb_ok s" using assms(1) CBB_flush_failed [of s 0] by auto
  then have "handle_ok 0 s" by (simp add: handle_ok_def)
  note fl = CBB_flush_closed [OF this f]
  obtain b where b: "base s1 = Some b" "cbb_levels s1 = levels_from (Len 0) 0 (children s1) (buf b)"
    using fl(1) cbb_okE closed_at_def by metis
  have "out = buf b" and "base t = None"
    using assms(2) f b(1) by (auto simp: CBB_finish_def opbind_Some_iff CBB_cleanup_def split: if_splits)
  then show "base t = None" by simp
  have "level_append 0 [] (cbb_levels s) = [(Len 0, buf b)]"
    using fl b by (simp add: closed_at_def)
  with \<open>out = buf b\<close> show "out = level_content 0 (cbb_levels s)" by (simp add: level_append_def)
qed

lemma CBB_init_ok:
  assumes "CBB_init mem n = (True, s)" and "n < SIZE_MOD"
  shows "cbb_ok s" and "cbb_levels s = [(Len 0, [])]" and "policy s = Some (True, mem, None)"
  using assms by (auto simp: CBB_init_def cbb_init_def cbb_ok_def buffer_ok_def cbb_levels_def policy_def
      split: if_splits)

lemma CBB_init_fixed_ok:
  assumes "CBB_init_fixed mem n = (True, s)" and "n < SIZE_MOD"
  shows "cbb_ok s" and "cbb_levels s = [(Len 0, [])]" and "policy s = Some (False, mem, Some n)"
proof -
  have "s = \<lparr>base = Some \<lparr>buf = [], cap = n, can_resize = False, error = False, mem_ok = mem\<rparr>, children = []\<rparr>"
    using assms(1) by (auto simp: CBB_init_fixed_def cbb_init_def split: if_splits)
  then show "cbb_ok s" and "cbb_levels s = [(Len 0, [])]" and "policy s = Some (False, mem, Some n)"
    using assms(2) by (simp_all add: cbb_ok_def buffer_ok_def cbb_levels_def policy_def)
qed

section \<open>When a call succeeds\<close>

text \<open>
  \<open>phys\<close> is the number of bytes the open segments take in the buffer: their contents and the
  space kept for their prefixes (one byte for a DER length, which grows when it is closed).
\<close>

fun prefix_gap :: "prefix \<Rightarrow> nat" where
  "prefix_gap (Len k) = k"
| "prefix_gap Asn1 = 1"

definition phys :: "levels \<Rightarrow> nat" where
  "phys ls = sum_list (map (\<lambda>(p, c). prefix_gap p + length c) ls)"

lemma phys_simps [simp]: "phys [] = 0" "phys ((p, c) # ls) = prefix_gap p + length c + phys ls"
  "phys (ls @ ms) = phys ls + phys ms"
  by (simp_all add: phys_def)

lemma level_start_phys:
  assumes "chain_ok s fs (length xs)" and "d \<le> length fs"
  shows "level_start s fs d + prefix_gap p =
    s + phys (take d (levels_from p s fs xs)) + prefix_gap (level_kind p fs d)"
  using assms
proof (induction d arbitrary: p s fs)
  case 0
  then show ?case by (simp add: level_start_def level_kind_def)
next
  case (Suc d)
  then obtain f fs' where fs: "fs = f # fs'" by (cases fs) auto
  let ?e = "offset f + pending_len_len f"
  have ch: "chain_ok ?e fs' (length xs)" "d \<le> length fs'" "s \<le> offset f"
    "pending_is_asn1 f \<longrightarrow> pending_len_len f = 1"
    using Suc.prems by (simp_all add: fs)
  moreover have "offset f \<le> length xs" using chain_ok_le [OF ch(1)] by simp
  ultimately show ?case
    using Suc.IH [OF ch(1,2), of "kind f"] by (auto simp: fs level_Suc kind_def)
qed

lemma phys_level_append:
  assumes "handle_ok d s"
  shows "phys (level_append d data (cbb_levels s)) =
    level_start 0 (children s) d + length (level_content d (cbb_levels s)) + length data"
proof -
  have "cbb_ok s" using assms by (simp add: handle_ok_def)
  then obtain b :: cbb_buffer where b: "chain_ok 0 (children s) (length (buf b))"
    "cbb_levels s = levels_from (Len 0) 0 (children s) (buf b)"
    by (rule cbb_okE)
  have d: "d \<le> length (children s)" using assms by (simp add: handle_ok_def)
  show ?thesis
    using level_start_phys [OF b(1) d, of "Len 0"] level_nth(1) [OF b(2) [symmetric] d]
    by (simp add: level_append_def b(2))
qed

fun cmd_fits :: "cbb_cmd \<Rightarrow> levels \<Rightarrow> bool" where
  "cmd_fits (Discard_child d) ls \<longleftrightarrow> True"
| "cmd_fits c ls \<longleftrightarrow> all_fit (drop (Suc (cmd_handle c)) ls)"

lemma handle_acceptsI:
  assumes "handle_ok d s" and "all_fit (drop (Suc d) (cbb_levels s))"
    and "cbb_room s (phys (level_append d data (cbb_levels s)) + n)"
  shows "handle_accepts d s (length data + n)"
  using assms by (simp add: handle_accepts_def handle_content_def phys_level_append add.assoc)

lemma exec_cmd_room:
  assumes ok: "cbb_ok s" and h: "cmd_handle c < length (cbb_levels s)" and sz: "cmd_sized c"
    and fits: "cmd_fits c (cbb_levels s)" and room: "cbb_room s (phys (spec_cmd c (cbb_levels s)))"
  shows "\<exists>t. exec_cmd c s = (Some (), t)"
proof (cases c)
  case (Add_bytes d data)
  then have h: "handle_ok d s" using ok h length_cbb_levels by (simp add: handle_ok_def)
  have "handle_accepts d s (length data + 0)"
    using Add_bytes fits room by (intro handle_acceptsI [OF h]) simp_all
  from cbb_sink.put_accepts [OF h this] Add_bytes show ?thesis by auto
next
  case (Flush d)
  then have h: "d \<le> length (children s)" "handle_ok d s"
    using ok h length_cbb_levels by (simp_all add: handle_ok_def)
  have "cbb_room s (level_start 0 (children s) d + length (level_content d (cbb_levels s)))"
    using phys_level_append [OF h(2), of "[]"] room Flush by simp
  from CBB_flush_room [OF ok h(1) _ this] Flush fits show ?thesis by simp
next
  case (Add_prefixed d k)
  then have h: "d \<le> length (children s)" "handle_ok d s"
    using ok h length_cbb_levels by (simp_all add: handle_ok_def)
  have r: "cbb_room s (level_start 0 (children s) d + length (level_content d (cbb_levels s)) + k)"
    using phys_level_append [OF h(2), of "[]"] room Add_prefixed by simp
  have fit: "all_fit (drop (Suc d) (cbb_levels s))" using fits Add_prefixed by simp
  obtain s1 where f: "CBB_flush d s = (Some (), s1)"
    using CBB_flush_room [OF ok h(1) fit] cbb_room_le [OF r] by auto
  note fl = CBB_flush_Some [OF ok h(1) f]
  have "cbb_room s1 (cbb_base_len s1 + k + 0)" using same_cbb_room [OF fl(3) r] fl(5) by simp
  from open_child_room [OF fl(1) this] f Add_prefixed show ?thesis
    by (auto simp: cbb_add_length_prefixed_def opbind_Some Let_def)
next
  case (Add_asn1 d tag)
  then have h: "d \<le> length (children s)" "handle_ok d s"
    using ok h length_cbb_levels by (simp_all add: handle_ok_def)
  have r: "cbb_room s (level_start 0 (children s) d + length (level_content d (cbb_levels s)) +
      (length (der_tag tag) + 1))"
    using phys_level_append [OF h(2), of "der_tag tag"] room Add_asn1 by (simp add: add.assoc)
  have fit: "all_fit (drop (Suc d) (cbb_levels s))" using fits Add_asn1 by simp
  obtain s1 where f: "CBB_flush d s = (Some (), s1)"
    using CBB_flush_room [OF ok h(1) fit] cbb_room_le [OF r] by auto
  note fl = CBB_flush_closed [OF h(2) f] and fs = CBB_flush_Some [OF ok h(1) f]
  note h1 = closed_at_handle [OF fl(1)]
  have "cbb_room s1 (cbb_base_len s1 + (length (der_tag tag) + 1))"
    using same_cbb_room [OF fs(3) r] fs(5) by simp
  then have "handle_accepts d s1 (length (der_tag tag) + 1)"
    using closed_level [OF fl(1)] length_cbb_levels [OF fs(1)] fl(1)
    by (simp add: handle_accepts_def closed_at_def)
  from cbb_sink.put_bytes_accepts [OF h1 this] obtain s2
    where p: "op_seq (map (\<lambda>b. CBB_add_bytes d [b]) (der_tag tag)) s1 = (Some (), s2)"
      and a2: "handle_accepts d s2 (length [0 :: u8] + 0)" by auto
  note c2 = put_bytes_closed [OF fl(1) p]
  from cbb_sink.put_accepts [OF closed_at_handle [OF c2] a2] obtain s3
    where "CBB_add_bytes d [0] s2 = (Some (), s3)" by blast
  with f p have "\<exists>t. CBB_add_asn1 d tag s = (Some (), t)"
    unfolding CBB_add_asn1_eq by (simp add: opbind_Some cbb_set_child_def)
  with Add_asn1 show ?thesis by simp
qed simp

section \<open>The fixed buffer\<close>

text \<open>What holds of a builder over a caller's array of \<open>n\<close> bytes, failed calls included.\<close>

definition within_fixed :: "nat \<Rightarrow> cbb_buffer \<Rightarrow> bool" where
  "within_fixed n b \<longleftrightarrow> \<not> can_resize b \<and> cap b = n \<and> length (buf b) \<le> n"

definition cbb_within :: "nat \<Rightarrow> CBB \<Rightarrow> bool" where
  "cbb_within n s \<longleftrightarrow> (case base s of None \<Rightarrow> True | Some b \<Rightarrow> within_fixed n b)"

lemma reserve_within:
  assumes "within_fixed n b" and "k < SIZE_MOD" and "n < SIZE_MOD"
  shows "within_fixed n (snd (cbb_buffer_reserve k b)) \<and>
    (fst (cbb_buffer_reserve k b) = Some () \<longrightarrow> snd (cbb_buffer_reserve k b) = b \<and> length (buf b) + k \<le> n)"
  using assms size_add_wraps [of "length (buf b)" k]
  by (auto simp: cbb_buffer_reserve_def cbb_buffer_err_def within_fixed_def Let_def)

lemma buffer_add_within:
  assumes "within_fixed n b" and "length xs < SIZE_MOD" and "n < SIZE_MOD"
    and r: "cbb_buffer_add xs b = (r, b')"
  shows "within_fixed n b'" and "r \<noteq> None \<Longrightarrow> b' = b\<lparr>buf := buf b @ xs\<rparr> \<and> length (buf b) + length xs \<le> n"
  using r reserve_within [OF assms(1-3)] assms(1)
  by (auto simp: cbb_buffer_add_def opbind_def within_fixed_def split: prod.splits option.splits)

lemma length_put_len_at: "length (fst (put_len_at k off len xs)) = length xs"
  by (induction k arbitrary: len xs) simp_all

lemma write_len_within: "within_fixed n b \<Longrightarrow> cbb_write_len f len b = (r, b', f') \<Longrightarrow> within_fixed n b'"
  using length_put_len_at [of "pending_len_len f" "offset f" len "buf b"]
  by (auto simp: cbb_write_len_def within_fixed_def split: prod.splits if_splits)

lemma close_child_within:
  assumes "within_fixed n b" and "n < SIZE_MOD" and "s \<le> length (buf b)"
    and r: "cbb_close_child f s b = (r, b', f')"
  shows "within_fixed n b'"
proof (cases "pending_is_asn1 f \<and> length (buf b) - s \<le> 0xfffffffe")
  case False
  then show ?thesis
    using r write_len_within [OF assms(1)] assms(1)
    by (auto simp: cbb_close_child_def Let_def within_fixed_def split: if_splits)
next
  case True
  let ?len = "length (buf b) - s"
  obtain k lb len' where p: "cbb_asn1_prefix ?len = (k, lb, len')" "k \<le> 5"
    using cbb_asn1_prefix_eq [of ?len] True by metis
  let ?move = "\<lambda>b. b\<lparr>buf := move_block (s + (k - 1)) s ?len (buf b)\<rparr>"
  obtain q b1 where a: "cbb_buffer_add (replicate (k - 1) 0) b = (q, b1)"
    by (cases "cbb_buffer_add (replicate (k - 1) 0) b") auto
  note w = buffer_add_within [OF assms(1) _ assms(2) a]
  have w1: "within_fixed n b1" using w p(2) by simp
  have w2: "within_fixed n (?move b1)" if "q = Some ()"
    using w p(2) that assms(3) w1 by (simp add: within_fixed_def move_block_def)
  have upd: "within_fixed n c \<Longrightarrow> within_fixed n (c\<lparr>buf := (buf c)[i := x]\<rparr>)" for c i x
    by (simp add: within_fixed_def)
  have err: "within_fixed n c \<Longrightarrow> within_fixed n (c\<lparr>error := True\<rparr>)" for c
    by (simp add: within_fixed_def)
  show ?thesis
  proof (cases "k \<noteq> 1 \<and> q = None")
    case True
    then have "cbb_buffer_add (replicate (k - 1) 0) b = (None, b1)" using a by simp
    with True have "b' = b1\<lparr>error := True\<rparr>"
      using r \<open>pending_is_asn1 f \<and> ?len \<le> 0xfffffffe\<close>
      unfolding cbb_close_child_def Let_def p prod.case by (simp add: opbind_def)
    with err [OF w1] show ?thesis by simp
  next
    case False
    define c where "c = (if k = 1 then b else ?move b1)"
    have c: "within_fixed n c" using w2 False assms(1) by (cases q) (auto simp: c_def)
    have "cbb_write_len (f\<lparr>offset := offset f + 1, pending_len_len := k - 1\<rparr>) len'
        (c\<lparr>buf := (buf c)[offset f := lb]\<rparr>) = (r, b', f')"
      using r \<open>pending_is_asn1 f \<and> ?len \<le> 0xfffffffe\<close> False a
      unfolding cbb_close_child_def Let_def p prod.case
      by (cases q) (auto simp: c_def opbind_Some split: if_splits)
    from write_len_within [OF upd [OF c] this] show ?thesis .
  qed
qed

lemma flush_children_within:
  assumes "within_fixed n b" and "n < SIZE_MOD" and "cbb_flush_children fs b = (r, b', fs')"
  shows "within_fixed n b'"
  using assms
proof (induction fs arbitrary: b r b' fs')
  case (Cons f fs)
  have err: "within_fixed n c \<Longrightarrow> within_fixed n (c\<lparr>error := True\<rparr>)" for c
    by (simp add: within_fixed_def)
  obtain q b1 fs1 where 1: "cbb_flush_children fs b = (q, b1, fs1)" by (cases "cbb_flush_children fs b") auto
  have w: "within_fixed n b1" using Cons.IH [OF Cons.prems(1,2) 1] .
  let ?s = "(offset f + pending_len_len f) mod SIZE_MOD"
  obtain q2 b2 f2 where 2: "cbb_close_child f ?s b1 = (q2, b2, f2)" by (cases "cbb_close_child f ?s b1") auto
  show ?case
    using Cons.prems(1,3) w err [OF w] close_child_within [OF w Cons.prems(2) _ 2]
    unfolding cbb_flush_children.simps Let_def 1 prod.case 2
    by (cases q; cases q2) (auto split: if_splits)
qed (auto split: if_splits)

lemma exec_cmd_keeps:
  assumes "n < SIZE_MOD" and "cmd_sized c"
  shows "keeps (cbb_within n) (exec_cmd c)"
proof -
  have f: "keeps (cbb_within n) (CBB_flush d)" for d
    using flush_children_within [OF _ assms(1)]
    by (auto simp: keeps_def CBB_flush_def cbb_within_def split: option.splits prod.splits)
  have a: "keeps (cbb_within n) (on_base (cbb_buffer_add xs))" if "length xs < SIZE_MOD" for xs
    using buffer_add_within(1) [OF _ that assms(1)]
    by (auto simp: keeps_def on_base_def cbb_within_def split: option.splits prod.splits)
  have c: "keeps (cbb_within n) (cbb_set_child d f)" for d f
    by (simp add: keeps_def cbb_set_child_def cbb_within_def)
  have bytes: "keeps (cbb_within n) (CBB_add_bytes d xs)" if "length xs < SIZE_MOD" for d xs
    unfolding CBB_add_bytes_def by (intro keeps_opbind f a that)
  have seq: "keeps (cbb_within n) (op_seq (map (\<lambda>x. CBB_add_bytes d [x]) xs))" for d xs
    by (intro keeps_op_seq) (auto intro: bytes)
  show ?thesis
  proof (cases c)
    case (Add_bytes d data)
    then show ?thesis using bytes assms by simp
  next
    case (Add_prefixed d k)
    show ?thesis
      unfolding Add_prefixed exec_cmd.simps cbb_add_length_prefixed_def Let_def using assms Add_prefixed
      by (intro keeps_opbind keeps_opbind_state f a c) auto
  next
    case (Add_asn1 d tag)
    show ?thesis
      unfolding Add_asn1 exec_cmd.simps CBB_add_asn1_eq by (intro keeps_opbind keeps_opbind_state f seq bytes c) simp
  next
    case (Flush d)
    then show ?thesis using f by simp
  next
    case (Discard_child d)
    then show ?thesis
      by (auto simp: keeps_def CBB_discard_child_def cbb_within_def within_fixed_def split: option.splits)
  qed
qed

lemma run_cmds_within:
  "cbb_within n s \<Longrightarrow> n < SIZE_MOD \<Longrightarrow> list_all cmd_sized cs \<Longrightarrow> cbb_within n (run_cmds cs s)"
  by (induction cs arbitrary: s) (simp_all add: keepsD [OF exec_cmd_keeps])

section \<open>Properties\<close>

text \<open>C1: Whatever sequence of calls is made on a growing builder (bytes added through any open
  handle, length-prefixed and DER children opened on any of them, flushes, discarded children),
  and although the caller looks at no result but the last, when \<open>CBB_finish\<close> succeeds it returns
  exactly the bytes of the specification: every child closed innermost first, each behind the
  big-endian or minimal DER length of its final contents. The builder is then empty.\<close>

theorem CBB_finish_is_specified:
  assumes "CBB_init mem n = (True, s)" and "n < SIZE_MOD" and "valid_cmds cs [(Len 0, [])]"
    and "CBB_finish have_out 0 (run_cmds cs s) = (Some out, t)"
  shows "out = level_content 0 (spec_cmds cs [(Len 0, [])]) \<and> base t = None"
proof -
  note init = CBB_init_ok [OF assms(1,2)]
  have "cbb_failed (run_cmds cs s) \<or>
      cbb_ok (run_cmds cs s) \<and> cbb_levels (run_cmds cs s) = spec_cmds cs [(Len 0, [])]"
    by (rule run_cmds_refines) (use init assms(3) in auto)
  then show ?thesis
    using CBB_finish_Some [OF _ assms(4)] CBB_flush_failed [of "run_cmds cs s" 0] assms(4)
    by (auto simp: CBB_finish_def opbind_Some_iff)
qed

definition sample_cmds :: "cbb_cmd list" where
  "sample_cmds = [Add_asn1 0 0x20000010, Add_asn1 1 2, Add_bytes 2 [5], Add_prefixed 0 2, Add_bytes 1 [7, 8]]"

lemma CBB_finish_is_specified_witness:
  "fst (CBB_finish True 0 (run_cmds sample_cmds (snd (CBB_init (\<lambda>_. True) 4)))) =
     Some [0x30, 3, 2, 1, 5, 0, 2, 7, 8] \<and>
   [0x30, 3, 2, 1, 5, 0, 2, 7, 8] = level_content 0 (spec_cmds sample_cmds [(Len 0, [])])"
proof -
  define s where "s = snd (CBB_init (\<lambda>_. True) 4)"
  have "fst (CBB_init (\<lambda>_. True) 4)" by code_simp
  then have i: "CBB_init (\<lambda>_. True) 4 = (True, s)" by (intro prod_eqI) (simp_all add: s_def)
  have v: "valid_cmds sample_cmds [(Len 0, [])]" by code_simp
  have f: "fst (CBB_finish True 0 (run_cmds sample_cmds s)) = Some [0x30, 3, 2, 1, 5, 0, 2, 7, 8]"
    unfolding s_def by code_simp
  then have r: "CBB_finish True 0 (run_cmds sample_cmds s) =
      (Some [0x30, 3, 2, 1, 5, 0, 2, 7, 8], snd (CBB_finish True 0 (run_cmds sample_cmds s)))"
    by (intro prod_eqI) simp_all
  from CBB_finish_is_specified [OF i _ v r] f show ?thesis by (simp add: s_def)
qed

text \<open>Whether the calls of a run and the final flush fit: every child that is closed within the
  range of its length prefix, and never more than \<open>m\<close> bytes in the buffer.\<close>

fun fits_cmds :: "nat \<Rightarrow> cbb_cmd list \<Rightarrow> levels \<Rightarrow> bool" where
  "fits_cmds m [] ls \<longleftrightarrow> all_fit (drop 1 ls) \<and> phys (level_append 0 [] ls) \<le> m"
| "fits_cmds m (c # cs) ls \<longleftrightarrow> cmd_fits c ls \<and> phys (spec_cmd c ls) \<le> m \<and> fits_cmds m cs (spec_cmd c ls)"

lemma run_cmds_succeeds:
  assumes "\<And>s k. policy s = pol \<Longrightarrow> k \<le> m \<Longrightarrow> cbb_room s k"
    and "cbb_ok s" and "cbb_levels s = ls" and "policy s = pol"
    and "valid_cmds cs ls" and "fits_cmds m cs ls"
  shows "\<exists>t. CBB_flush 0 (run_cmds cs s) = (Some (), t) \<and> cbb_ok (run_cmds cs s)"
  using assms(2-)
proof (induction cs arbitrary: s ls)
  case Nil
  then have h: "handle_ok 0 s" by (simp add: handle_ok_def)
  have "cbb_room s (phys (level_append 0 [] (cbb_levels s)))" using assms(1) Nil by simp
  then have "cbb_room s (level_start 0 (children s) 0 + length (level_content 0 (cbb_levels s)))"
    using phys_level_append [OF h, of "[]"] by simp
  from CBB_flush_room [OF Nil(1) _ _ this] Nil show ?case by simp
next
  case (Cons c cs)
  have c: "cmd_handle c < length (cbb_levels s)" "cmd_sized c" "cmd_fits c (cbb_levels s)"
    "cbb_room s (phys (spec_cmd c (cbb_levels s)))"
    using Cons.prems assms(1) by simp_all
  obtain t where t: "exec_cmd c s = (Some (), t)" using exec_cmd_room [OF Cons.prems(1) c] by blast
  have "cbb_ok t" "cbb_levels t = spec_cmd c ls" "policy t = pol"
    using exec_cmd_refines [OF Cons.prems(1) c(1,2)] t Cons.prems by simp_all
  from Cons.IH [OF this] Cons.prems(4,5) t show ?case by simp
qed

text \<open>C2: No call fails without cause. On a growing builder whose allocations succeed, a run
  in which every closed child fits its length prefix and the bytes fit a \<open>size_t\<close> ends with
  \<open>CBB_finish\<close> returning the specified bytes.\<close>

theorem CBB_finish_succeeds:
  assumes "n < SIZE_MOD" and "valid_cmds cs [(Len 0, [])]" and "fits_cmds (SIZE_MOD - 1) cs [(Len 0, [])]"
  shows "\<exists>s t. CBB_init (\<lambda>_. True) n = (True, s) \<and>
    CBB_finish True 0 (run_cmds cs s) = (Some (level_content 0 (spec_cmds cs [(Len 0, [])])), t)"
proof -
  obtain s where s: "CBB_init (\<lambda>_. True) n = (True, s)" by (simp add: CBB_init_def cbb_init_def)
  note init = CBB_init_ok [OF s assms(1)]
  have room: "cbb_room s k" if "policy s = Some (True, \<lambda>_. True, None)" "k \<le> SIZE_MOD - 1" for s k
    using that by (auto simp: policy_def cbb_room_def room_def split: if_splits)
  obtain t where t: "CBB_flush 0 (run_cmds cs s) = (Some (), t)" "cbb_ok (run_cmds cs s)"
    using run_cmds_succeeds [of "Some (True, \<lambda>_. True, None)", OF room init assms(2,3)] by auto
  have h: "handle_ok 0 (run_cmds cs s)" using t by (simp add: handle_ok_def)
  obtain b where "base t = Some b"
    using CBB_flush_closed(1) [OF h t(1)] cbb_okE closed_at_def by metis
  then have f: "CBB_finish True 0 (run_cmds cs s) = (Some (buf b), CBB_cleanup 0 t)"
    using t(1) by (simp add: CBB_finish_def opbind_def)
  have "cbb_failed s \<or> cbb_ok s \<and> cbb_levels s = [(Len 0, [])]" using init by simp
  from run_cmds_refines [OF this assms(2)] t(2)
  have "cbb_levels (run_cmds cs s) = spec_cmds cs [(Len 0, [])]"
    using CBB_flush_failed [of "run_cmds cs s" 0] t(1) by auto
  with CBB_finish_Some(2) [OF _ f] t(2) s f show ?thesis by auto
qed

lemma CBB_finish_succeeds_witness:
  "\<exists>s t. CBB_init (\<lambda>_. True) 0 = (True, s) \<and>
    CBB_finish True 0 (run_cmds sample_cmds s) = (Some [0x30, 3, 2, 1, 5, 0, 2, 7, 8], t)"
proof -
  have v: "valid_cmds sample_cmds [(Len 0, [])]" by code_simp
  have f: "fits_cmds (SIZE_MOD - 1) sample_cmds [(Len 0, [])]" by code_simp
  have "level_content 0 (spec_cmds sample_cmds [(Len 0, [])]) = [0x30, 3, 2, 1, 5, 0, 2, 7, 8]" by code_simp
  with CBB_finish_succeeds [OF _ v f, of 0] show ?thesis by simp
qed

text \<open>C4: A builder over a caller's array never writes past it: after any calls, failed ones
  included, it holds at most the \<open>n\<close> bytes of the array, and it never reallocates.\<close>

theorem CBB_fixed_never_overflows:
  assumes "CBB_init_fixed mem n = (True, s)" and "n < SIZE_MOD" and "list_all cmd_sized cs"
    and "base (run_cmds cs s) = Some b"
  shows "length (buf b) \<le> n \<and> cap b = n \<and> \<not> can_resize b"
proof -
  have "cbb_within n s"
    using CBB_init_fixed_ok [OF assms(1,2)]
    by (auto simp: cbb_within_def within_fixed_def policy_def cbb_ok_def buffer_ok_def split: option.splits if_splits)
  from run_cmds_within [OF this assms(2,3)] assms(4) show ?thesis
    by (simp add: cbb_within_def within_fixed_def)
qed

lemma CBB_fixed_never_overflows_witness:
  "\<exists>b. base (run_cmds sample_cmds (snd (CBB_init_fixed (\<lambda>_. True) 4))) = Some b \<and> length (buf b) \<le> 4"
proof -
  define s where "s = snd (CBB_init_fixed (\<lambda>_. True) 4)"
  have i: "CBB_init_fixed (\<lambda>_. True) 4 = (True, s)"
    by (simp add: s_def CBB_init_fixed_def cbb_init_def)
  have z: "list_all cmd_sized sample_cmds" by code_simp
  have "base (run_cmds sample_cmds s) \<noteq> None" unfolding s_def by code_simp
  then obtain b where b: "base (run_cmds sample_cmds s) = Some b" by blast
  from CBB_fixed_never_overflows [OF i _ z b] b show ?thesis by (simp add: s_def)
qed

text \<open>C3: An element written through a DER child is read back: after opening a child with a
  tag, adding a body and flushing, the parent has gained exactly one element, from which
  \<open>CBS_get_asn1\<close> with that tag returns the body, whatever follows it.\<close>

theorem CBB_CBS_asn1_roundtrip:
  assumes "handle_ok d s" and "CBB_add_asn1 d tag s = (Some u1, s1)"
    and "CBB_add_bytes (Suc d) body s1 = (Some u2, s2)" and "CBB_flush d s2 = (Some u3, s3)"
    and "length body \<le> 0xfffffffe"
  shows "\<exists>elem. handle_content d s3 = handle_content d s @ elem \<and>
    CBS_get_asn1 tag (elem @ rest) = (Some body, rest)"
proof -
  note 1 = CBB_add_asn1_Some [OF assms(1,2)]
  have sz: "length body < SIZE_MOD" using assms(5) by simp
  note 2 = CBB_add_bytes_closed [OF closed_at_handle [OF 1(1)] assms(3) sz]
  have "handle_ok d s2" using 2(1) by (simp add: closed_at_def handle_ok_def)
  note 3 = CBB_flush_closed [OF this assms(4)]
  have d: "d < length (cbb_levels s)" using assms(1) length_cbb_levels by (simp add: handle_ok_def)
  have "cbb_levels s2 = level_append d (der_tag tag) (cbb_levels s) @ [(Asn1, body)]"
    using 2(2) 1(2) d by (simp add: level_append_def level_content_def nth_append)
  then have "handle_content d s3 = handle_content d s @ der_header tag (length body) @ body"
    using 3(2) d by (simp add: handle_content_def level_append_def level_content_def nth_append der_header_def)
  moreover have "CBS_get_asn1 tag ((der_header tag (length body) @ body) @ rest) = (Some body, rest)"
    using assms(5) by (simp add: CBS_get_asn1_iff)
  ultimately show ?thesis by blast
qed

lemma CBB_CBS_asn1_roundtrip_witness:
  "\<exists>s s3 elem. handle_content 0 s3 = handle_content 0 s @ elem \<and>
     CBS_get_asn1 0x30 (elem @ [9]) = (Some [5, 6], [9])"
proof -
  define s where "s = snd (CBB_init (\<lambda>_. True) 4)"
  have "CBB_init (\<lambda>_. True) 4 = (True, s)" by (simp add: s_def CBB_init_def cbb_init_def)
  then have ok: "handle_ok 0 s" using CBB_init_ok(1) by (simp add: handle_ok_def)
  define s1 where "s1 = snd (CBB_add_asn1 0 0x30 s)"
  define s2 where "s2 = snd (CBB_add_bytes 1 [5, 6] s1)"
  define s3 where "s3 = snd (CBB_flush 0 s2)"
  have "fst (CBB_add_asn1 0 0x30 s) = Some ()" unfolding s_def by code_simp
  then have 1: "CBB_add_asn1 0 0x30 s = (Some (), s1)" by (intro prod_eqI) (simp_all add: s1_def)
  have "fst (CBB_add_bytes 1 [5, 6] s1) = Some ()" unfolding s1_def s_def by code_simp
  then have 2: "CBB_add_bytes (Suc 0) [5, 6] s1 = (Some (), s2)" by (intro prod_eqI) (simp_all add: s2_def)
  have "fst (CBB_flush 0 s2) = Some ()" unfolding s2_def s1_def s_def by code_simp
  then have 3: "CBB_flush 0 s2 = (Some (), s3)" by (intro prod_eqI) (simp_all add: s3_def)
  from CBB_CBS_asn1_roundtrip [OF ok 1 2 3] show ?thesis by fastforce
qed

lemma cbs_get_u_be_bytes:
  "k \<le> 8 \<Longrightarrow> n < 256 ^ k \<Longrightarrow> cbs_get_u k (be_bytes k n @ rest) = (Some (word_of_nat n), rest)"
  using unat_be_word_short [of "be_bytes k n"] be_nat_be_bytes [of k n]
  by (auto simp: cbs_get_u_iff word_unat_eq_iff)
    (metis mod_less unat_of_nat_u64 unat_u64_less)

lemma get_written:
  "CBS_get_u8 ([a] @ rest) = (Some a, rest)"
  "CBS_get_u16 (be_bytes 2 (unat b) @ rest) = (Some b, rest)"
  "CBS_get_u24 (be_bytes 3 (unat (take_bit 24 c)) @ rest) = (Some (take_bit 24 c), rest)"
  "CBS_get_u32 (be_bytes 4 (unat c) @ rest) = (Some c, rest)"
  "CBS_get_u64 (be_bytes 8 (unat e) @ rest) = (Some e, rest)"
proof -
  have b: "unat b < 256 ^ 2" "unat c < 256 ^ 4" "unat e < 256 ^ 8" "unat (take_bit 24 c) < 256 ^ 3"
    using unsigned_less [of b, where 'a = nat] unsigned_less [of c, where 'a = nat]
      unsigned_less [of e, where 'a = nat] by (simp_all add: unsigned_take_bit_eq take_bit_eq_mod [of 24 "unat c"])
  show "CBS_get_u8 ([a] @ rest) = (Some a, rest)"
    "CBS_get_u16 (be_bytes 2 (unat b) @ rest) = (Some b, rest)"
    "CBS_get_u24 (be_bytes 3 (unat (take_bit 24 c)) @ rest) = (Some (take_bit 24 c), rest)"
    "CBS_get_u32 (be_bytes 4 (unat c) @ rest) = (Some c, rest)"
    "CBS_get_u64 (be_bytes 8 (unat e) @ rest) = (Some e, rest)"
    using b by (simp_all add: CBS_get_u16_def CBS_get_u24_def CBS_get_u32_def CBS_get_u64_def cbs_get_u_be_bytes
        opbind_def opret_def word_unat_eq_iff unsigned_ucast_eq unat_of_nat_u64 take_bit_nat_eq_self take_bit_word_eq_self del: be_bytes.simps)
qed

text \<open>Integers of every width and in both byte orders: writing a value appends bytes from
  which the reader of the same width and order takes back exactly that value.\<close>

theorem CBB_CBS_int_roundtrip:
  "(\<exists>bs. CBB_add_u8 d a = CBB_add_bytes d bs \<and> CBS_get_u8 (bs @ rest) = (Some a, rest)) \<and>
   (\<exists>bs. CBB_add_u16 d b = CBB_add_bytes d bs \<and> CBS_get_u16 (bs @ rest) = (Some b, rest)) \<and>
   (\<exists>bs. CBB_add_u16le d b = CBB_add_bytes d bs \<and> CBS_get_u16le (bs @ rest) = (Some b, rest)) \<and>
   (\<exists>bs. CBB_add_u24 d (take_bit 24 c) = CBB_add_bytes d bs \<and> CBS_get_u24 (bs @ rest) = (Some (take_bit 24 c), rest)) \<and>
   (\<exists>bs. CBB_add_u32 d c = CBB_add_bytes d bs \<and> CBS_get_u32 (bs @ rest) = (Some c, rest)) \<and>
   (\<exists>bs. CBB_add_u32le d c = CBB_add_bytes d bs \<and> CBS_get_u32le (bs @ rest) = (Some c, rest)) \<and>
   (\<exists>bs. CBB_add_u64 d e = CBB_add_bytes d bs \<and> CBS_get_u64 (bs @ rest) = (Some e, rest)) \<and>
   (\<exists>bs. CBB_add_u64le d e = CBB_add_bytes d bs \<and> CBS_get_u64le (bs @ rest) = (Some e, rest))"
proof -
  have "unat (take_bit 24 c) < 2 ^ 24"
    by (simp add: unsigned_take_bit_eq take_bit_eq_mod [of 24 "unat c"])
  then show ?thesis
    using get_written
    by (auto simp: CBB_add_int_eqs CBB_add_u16le_def CBB_add_u32le_def CBB_add_u64le_def CBS_get_u16le_def
        CBS_get_u32le_def CBS_get_u64le_def CBS_get_u64_def [symmetric] opbind_def opret_def
        bswap2_bswap2 bswap4_bswap4 bswap8_bswap8 simp del: be_bytes.simps intro!: exI)
qed

end
