(* ===== verification/CbbAsn1.thy ===== *)
theory CbbAsn1
  imports CbbContract
begin

text \<open>
  The typed DER writers of \<^verbatim>\<open>crypto/bytestring/cbb.c\<close> (integers, strings, booleans, object
  identifiers from text, the canonical order of a SET OF), the object identifier printer of
  \<^verbatim>\<open>cbs.c\<close> and \<^verbatim>\<open>CBB_finish_i2d\<close> of \<^verbatim>\<open>asn1_compat.c\<close>. Each writer appends one element to
  its handle; the lemmas say which one, and the readers of \<open>CbsAsn1\<close> take the value back.
\<close>

section \<open>The writers\<close>

fun asn1_uint64_bytes_loop :: "nat \<Rightarrow> u64 \<Rightarrow> nat list \<Rightarrow> bool \<Rightarrow> (CBB, bool) op" where
  "asn1_uint64_bytes_loop child value [] started = opret started"
| "asn1_uint64_bytes_loop child value (i # is) started =
     (let byte = ucast (drop_bit (8 * (7 - i)) value AND 0xff) :: u8 in
      if \<not> started then
        if byte = 0 then asn1_uint64_bytes_loop child value is started
        else opbind (if byte AND 0x80 \<noteq> 0 then CBB_add_u8 child 0 else opret ()) (\<lambda>_.
               opbind (CBB_add_u8 child byte) (\<lambda>_. asn1_uint64_bytes_loop child value is True))
      else opbind (CBB_add_u8 child byte) (\<lambda>_. asn1_uint64_bytes_loop child value is started))"

definition CBB_add_asn1_uint64 :: "nat \<Rightarrow> u64 \<Rightarrow> (CBB, unit) op" where
  "CBB_add_asn1_uint64 d value =
     opbind (CBB_add_asn1 d CBS_ASN1_INTEGER) (\<lambda>_.
     opbind (asn1_uint64_bytes_loop (Suc d) value [0..<8] False) (\<lambda>started.
     opbind (if \<not> started then CBB_add_u8 (Suc d) 0 else opret ()) (\<lambda>_.
     CBB_flush d)))"

text \<open>Byte \<open>i\<close> of a 64-bit integer as a little-endian host stores it.\<close>

definition i64_byte :: "u64 \<Rightarrow> nat \<Rightarrow> u8" where
  "i64_byte value i = ucast (drop_bit (8 * i) value)"

fun skip_sign_extension :: "u64 \<Rightarrow> nat \<Rightarrow> nat" where
  "skip_sign_extension value 0 = 0"
| "skip_sign_extension value (Suc start) =
     (if i64_byte value (Suc start) = 0xff \<and> i64_byte value start AND 0x80 \<noteq> 0
      then skip_sign_extension value start else Suc start)"

definition CBB_add_asn1_int64 :: "nat \<Rightarrow> u64 \<Rightarrow> (CBB, unit) op" where
  "CBB_add_asn1_int64 d value =
     (if sint value \<ge> 0 then CBB_add_asn1_uint64 d value
      else let start = skip_sign_extension value 7 in
        opbind (CBB_add_asn1 d CBS_ASN1_INTEGER) (\<lambda>_.
        opbind (op_seq (map (\<lambda>i. CBB_add_u8 (Suc d) (i64_byte value i)) (rev [0..<Suc start]))) (\<lambda>_.
        CBB_flush d)))"

definition CBB_add_asn1_octet_string :: "nat \<Rightarrow> bytes \<Rightarrow> (CBB, unit) op" where
  "CBB_add_asn1_octet_string d data =
     opbind (CBB_add_asn1 d CBS_ASN1_OCTETSTRING) (\<lambda>_.
     opbind (CBB_add_bytes (Suc d) data) (\<lambda>_. CBB_flush d))"

definition CBB_add_asn1_bool :: "nat \<Rightarrow> bool \<Rightarrow> (CBB, unit) op" where
  "CBB_add_asn1_bool d value =
     opbind (CBB_add_asn1 d CBS_ASN1_BOOLEAN) (\<lambda>_.
     opbind (CBB_add_u8 (Suc d) (if value then 0xff else 0)) (\<lambda>_. CBB_flush d))"

section \<open>One element\<close>

text \<open>What the writers have in common: open a child, put its bytes, flush the parent.\<close>

lemma close_child:
  assumes s: "handle_ok d s" and s1: "cbb_levels s1 = level_append d hdr (cbb_levels s) @ [(p, [])]" "policy s1 = policy s"
    and s2: "handle_ok (Suc d) s2" "handle_frame (Suc d) s2 = handle_frame (Suc d) s1"
    and f: "CBB_flush d s2 = (Some u, t)"
  shows "closed_at d t" and "handle_frame d t = handle_frame d s"
    and "handle_content d t = handle_content d s @ hdr @ prefix_bytes p (length (handle_content (Suc d) s2)) @ handle_content (Suc d) s2"
    and "prefix_fits p (length (handle_content (Suc d) s2))"
proof -
  have d: "d < length (cbb_levels s)" using s length_cbb_levels by (simp add: handle_ok_def)
  have h2: "handle_ok d s2" using s2(1) by (simp add: handle_ok_def)
  note fl = CBB_flush_closed [OF h2 f]
  let ?l1 = "cbb_levels s1" and ?l2 = "cbb_levels s2"
  have len: "Suc d < length ?l2" using s2(1) length_cbb_levels by (simp add: handle_ok_def)
  have t2: "take (Suc d) ?l2 = take (Suc d) ?l1" "fst (?l2 ! Suc d) = p" "policy s2 = policy s"
    using s2(2) s1 d by (simp_all add: handle_frame_def level_append_def nth_append)
  have l1: "take (Suc d) ?l1 = level_append d hdr (cbb_levels s)" using s1 d by (simp add: level_append_def)
  have "take (Suc d) ?l2 ! d = ?l2 ! d" using len by simp
  then have nth: "?l2 ! d = (fst (cbb_levels s ! d), handle_content d s @ hdr)"
    using d unfolding t2(1) l1 by (simp add: level_append_def handle_content_def nth_append)
  have rest: "drop (Suc d) ?l2 = (p, snd (?l2 ! Suc d)) # drop (Suc (Suc d)) ?l2"
    using Cons_nth_drop_Suc [OF len] t2(2) by (metis prod.collapse)
  have c: "handle_content (Suc d) s2 = snd (?l2 ! Suc d) @ flat (drop (Suc (Suc d)) ?l2)"
    by (simp add: handle_content_def level_content_def)
  then have "level_content d ?l2 = handle_content d s @ hdr @ prefix_bytes p (length (handle_content (Suc d) s2)) @ handle_content (Suc d) s2"
    by (simp add: level_content_def nth rest)
  then show "handle_content d t = handle_content d s @ hdr @ prefix_bytes p (length (handle_content (Suc d) s2)) @ handle_content (Suc d) s2"
    using fl(2) len by (simp add: handle_content_def level_append_frame)
  have "take d ?l2 = take d (take (Suc d) ?l2)" by simp
  also have "\<dots> = take d (cbb_levels s)" unfolding t2(1) l1 using d by (simp add: level_append_def)
  finally show "handle_frame d t = handle_frame d s"
    using fl(2,3) len nth t2(3) by (simp add: handle_frame_def level_append_frame)
  show "closed_at d t" by (rule fl(1))
  have "all_fit (drop (Suc d) ?l2)" using CBB_flush_Some(6) [OF _ _ f] h2 by (simp add: handle_ok_def)
  then show "prefix_fits p (length (handle_content (Suc d) s2))" unfolding rest c by simp
qed

lemma element_Some:
  assumes ok: "handle_ok d s"
    and r: "opbind (CBB_add_asn1 d tag) (\<lambda>_. opbind (op_seq (map (CBB_add_bytes (Suc d)) xss)) (\<lambda>_. CBB_flush d)) s = (Some u, t)"
    and sz: "length (concat xss) < SIZE_MOD"
  shows "closed_at d t" and "handle_frame d t = handle_frame d s" and "length (concat xss) \<le> 0xfffffffe"
    and "handle_content d t = handle_content d s @ der_header tag (length (concat xss)) @ concat xss"
proof -
  obtain u1 s1 u2 s2 where 1: "CBB_add_asn1 d tag s = (Some u1, s1)"
    and 2: "op_seq (map (CBB_add_bytes (Suc d)) xss) s1 = (Some u2, s2)" and 3: "CBB_flush d s2 = (Some u, t)"
    using r by (auto simp: opbind_Some_iff)
  note a = CBB_add_asn1_Some [OF ok 1]
  have l: "list_all (\<lambda>xs. length xs < SIZE_MOD) xss"
    using sz by (induction xss) auto
  note p = cbb_sink.put_seq_Some [OF closed_at_handle [OF a(1)] l 2]
  have "d < length (cbb_levels s)" using ok length_cbb_levels by (simp add: handle_ok_def)
  then have c: "handle_content (Suc d) s2 = concat xss"
    using p a(2) by (simp add: handle_content_def level_content_def level_append_def nth_append)
  note cl = close_child [OF ok a(2,3) _ _ 3]
  show "closed_at d t" "handle_frame d t = handle_frame d s" "length (concat xss) \<le> 0xfffffffe"
    "handle_content d t = handle_content d s @ der_header tag (length (concat xss)) @ concat xss"
    using cl p c by (simp_all add: der_header_def)
qed

lemmas element_bytes_Some = element_Some [where xss = "map (\<lambda>b. [b]) bs" for bs,
    unfolded concat_map_singleton map_map comp_def]

section \<open>Integers\<close>

definition uint_body :: "nat \<Rightarrow> bytes" where
  "uint_body n = (let raw = dropWhile (\<lambda>b. b = 0) (be_bytes 8 n) in
     if raw = [] then [0] else if 128 \<le> unat (hd raw) then 0 # raw else raw)"

lemma uint64_loop_eq:
  "asn1_uint64_bytes_loop c value is started =
    (let bs = map (\<lambda>i. ucast (drop_bit (8 * (7 - i)) value AND 0xff)) is;
         raw = (if started then bs else dropWhile (\<lambda>b. b = 0) bs) in
     opbind (op_seq (map (\<lambda>b. CBB_add_bytes c [b])
       (if \<not> started \<and> raw \<noteq> [] \<and> 128 \<le> unat (hd raw) then 0 # raw else raw)))
       (\<lambda>_. opret (started \<or> raw \<noteq> [])))"
  by (induction "is" arbitrary: started)
    (auto simp: CBB_add_u8_eq Let_def u8_80 opbind_assoc not_less)

lemma uint64_bytes_eq: "map (\<lambda>i. ucast (drop_bit (8 * (7 - i)) v AND 0xff)) [0..<8] = be_bytes 8 (unat (v :: u64))"
proof -
  have "(ucast (x AND 0xff) :: u8) = ucast x" for x :: u64
  proof -
    have m: "(0xff :: u64) = mask 8" by (simp add: mask_eq_exp_minus_1)
    show ?thesis unfolding m by (rule bit_eqI) (auto simp: bit_simps)
  qed
  then show ?thesis unfolding be_bytes_upt by (simp add: ucast_drop_byte)
qed

lemma be_nat_dropWhile_0: "be_nat (dropWhile (\<lambda>b. b = 0) bs) = be_nat bs"
  by (induction bs) (simp_all add: be_nat_Cons)

lemma uint_body_exact:
  assumes "n < 2 ^ 64"
  shows "minimal_int (uint_body n)" and "int_value (uint_body n) = int n" and "length (uint_body n) \<le> 9"
proof -
  let ?raw = "dropWhile (\<lambda>b. b = 0) (be_bytes 8 n)"
  have n: "be_nat ?raw = n" using assms by (simp add: be_nat_dropWhile_0 be_nat_be_bytes del: be_bytes.simps)
  have len: "length ?raw \<le> 8"
    using length_dropWhile_le [of "\<lambda>b. b = 0" "be_bytes 8 n"] by (simp del: be_bytes.simps)
  have "minimal_int (uint_body n) \<and> int_value (uint_body n) = int n \<and> length (uint_body n) \<le> 9"
  proof (cases ?raw)
    case Nil
    then have "uint_body n = [0]" "n = 0" using n by (simp_all only: uint_body_def Let_def simp_thms if_True be_nat_Nil)
    then show ?thesis by (simp add: minimal_int_def int_value_def)
  next
    case (Cons b r)
    have "b \<noteq> 0" using hd_dropWhile [of "\<lambda>b. b = 0" "be_bytes 8 n"] Cons by simp
    have body: "uint_body n = (if 128 \<le> unat b then 0 # b # r else b # r)"
      by (simp only: uint_body_def Let_def Cons list.distinct if_False list.sel)
    have "length (b # r) \<le> 8" "be_nat (b # r) = n" using len n by (simp_all only: Cons)
    then show ?thesis
      using \<open>b \<noteq> 0\<close> unfolding body
      by (auto simp: minimal_int_def int_value_def be_nat_Cons [of 0])
  qed
  then show "minimal_int (uint_body n)" and "int_value (uint_body n) = int n" and "length (uint_body n) \<le> 9"
    by simp_all
qed

lemma CBB_add_asn1_uint64_eq:
  "CBB_add_asn1_uint64 d v = opbind (CBB_add_asn1 d CBS_ASN1_INTEGER) (\<lambda>_.
     opbind (op_seq (map (\<lambda>b. CBB_add_bytes (Suc d) [b]) (uint_body (unat v)))) (\<lambda>_. CBB_flush d))"
proof -
  let ?raw = "dropWhile (\<lambda>b. b = 0) (be_bytes 8 (unat v))"
  have l: "asn1_uint64_bytes_loop c v [0..<8] False = opbind (op_seq (map (\<lambda>b. CBB_add_bytes c [b])
      (if ?raw \<noteq> [] \<and> 128 \<le> unat (hd ?raw) then 0 # ?raw else ?raw))) (\<lambda>_. opret (?raw \<noteq> []))" for c
    unfolding uint64_loop_eq uint64_bytes_eq by (simp add: Let_def del: be_bytes.simps)
  show ?thesis
  proof (cases "?raw = []")
    case True
    have "uint_body (unat v) = [0]" by (simp only: uint_body_def Let_def True simp_thms if_True)
    then show ?thesis
      unfolding CBB_add_asn1_uint64_def l opbind_assoc by (simp only: True) (simp add: CBB_add_u8_eq)
  next
    case False
    then show ?thesis
      unfolding CBB_add_asn1_uint64_def l opbind_assoc uint_body_def Let_def
      by (simp del: be_bytes.simps dropWhile_eq_Nil_conv)
  qed
qed

text \<open>The body of a negative number: its eight bytes less the sign bytes that may be dropped.\<close>

fun strip_sign :: "bytes \<Rightarrow> bytes" where
  "strip_sign (a # b # r) = (if a = 0xff \<and> 128 \<le> unat b then strip_sign (b # r) else a # b # r)"
| "strip_sign bs = bs"

lemma strip_sign_exact:
  "bs \<noteq> [] \<Longrightarrow> 128 \<le> unat (hd bs) \<Longrightarrow>
    minimal_int (strip_sign bs) \<and> int_value (strip_sign bs) = int_value bs \<and> length (strip_sign bs) \<le> length bs"
proof (induction bs rule: strip_sign.induct)
  case (1 a b r)
  show ?case
  proof (cases "a = 0xff \<and> 128 \<le> unat b")
    case True
    have "int_value (a # b # r) = int_value (b # r)"
      using True by (simp add: int_value_def be_nat_255)
    with 1 True show ?thesis by auto
  next
    case False
    then show ?thesis using 1(3) by (auto simp: minimal_int_def)
  qed
qed (auto simp: minimal_int_def)

lemma skip_sign_eq:
  "map (i64_byte v) (rev [0..<Suc (skip_sign_extension v k)]) = strip_sign (map (i64_byte v) (rev [0..<Suc k]))"
proof (induction k)
  case (Suc k)
  have "map (i64_byte v) (rev [0..<Suc (Suc k)]) =
      i64_byte v (Suc k) # i64_byte v k # map (i64_byte v) (rev [0..<k])" by simp
  moreover have "i64_byte v k AND 0x80 \<noteq> 0 \<longleftrightarrow> 128 \<le> unat (i64_byte v k)"
    using u8_80 [of "i64_byte v k"] by auto
  ultimately show ?case using Suc by simp
qed simp

lemma i64_bytes_eq: "map (i64_byte v) (rev [0..<Suc 7]) = be_bytes 8 (unat v)"
proof -
  have "rev [0..<Suc 7] = map (\<lambda>i. 8 - 1 - i) [0..<8]" by code_simp
  then show ?thesis unfolding be_bytes_upt by (simp add: i64_byte_def ucast_drop_byte)
qed

definition int_body :: "u64 \<Rightarrow> bytes" where
  "int_body v = (if sint v \<ge> 0 then uint_body (unat v) else strip_sign (be_bytes 8 (unat v)))"

lemma int_body_exact: "minimal_int (int_body v)" "int_value (int_body v) = sint v" "length (int_body v) \<le> 9"
  "sint v < 0 \<Longrightarrow> length (int_body v) \<le> 8"
proof -
  have "minimal_int (int_body v) \<and> int_value (int_body v) = sint v \<and> length (int_body v) \<le> 9 \<and>
    (sint v < 0 \<longrightarrow> length (int_body v) \<le> 8)"
  proof (cases "sint v \<ge> 0")
    case True
    have "\<not> 2 ^ 63 \<le> unat v"
    proof
      assume "2 ^ 63 \<le> unat v"
      then have "sint v = int (unat v) - 18446744073709551616" by (simp add: sint_u64)
      with True unat_u64_less [of v] show False by linarith
    qed
    then have "sint v = int (unat v)" by (simp add: sint_u64)
    with True uint_body_exact [of "unat v"] unat_u64_less [of v] show ?thesis by (simp add: int_body_def)
  next
    case False
    then have hi: "2 ^ 63 \<le> unat v" using sint_u64 [of v] by (simp split: if_splits)
    let ?bs = "be_bytes 8 (unat v)"
    obtain b r where br: "?bs = b # r"
      by (metis length_be_bytes list.size(3) neq_Nil_conv zero_neq_numeral)
    then have len: "length r = 7" using length_be_bytes [of 8 "unat v"] by (simp del: length_be_bytes)
    have n: "be_nat ?bs = unat v"
      using unat_u64_less [of v] by (simp add: be_nat_be_bytes del: be_bytes.simps unat_u64_less)
    have "unat v = unat b * 256 ^ 7 + be_nat r" "be_nat r < 256 ^ 7"
      using n be_nat_less [of r] len by (simp_all add: br be_nat_Cons del: be_bytes.simps)
    then have b: "128 \<le> unat b" using hi by simp
    have "int_value ?bs = sint v"
      using n b False hi by (simp add: int_value_def br sint_u64 len del: be_bytes.simps)
    with strip_sign_exact [of ?bs] b False br show ?thesis
      by (simp add: int_body_def len del: be_bytes.simps)
  qed
  then show "minimal_int (int_body v)" "int_value (int_body v) = sint v" "length (int_body v) \<le> 9"
    "sint v < 0 \<Longrightarrow> length (int_body v) \<le> 8" by simp_all
qed

lemma CBB_add_asn1_int64_eq:
  "CBB_add_asn1_int64 d v = opbind (CBB_add_asn1 d CBS_ASN1_INTEGER) (\<lambda>_.
     opbind (op_seq (map (\<lambda>b. CBB_add_bytes (Suc d) [b]) (int_body v))) (\<lambda>_. CBB_flush d))"
proof -
  have "map (\<lambda>i. CBB_add_u8 c (i64_byte v i)) (rev [0..<Suc (skip_sign_extension v 7)]) =
      map (\<lambda>b. CBB_add_bytes c [b]) (strip_sign (be_bytes 8 (unat v)))" for c
    unfolding i64_bytes_eq [symmetric] skip_sign_eq [symmetric] map_map comp_def CBB_add_u8_eq ..
  then show ?thesis
    by (simp add: CBB_add_asn1_int64_def CBB_add_asn1_uint64_eq int_body_def Let_def del: be_bytes.simps upt_Suc)
qed

lemma CBB_add_asn1_uint64_Some:
  assumes "handle_ok d s" and "CBB_add_asn1_uint64 d v s = (Some u, t)"
  shows "closed_at d t" and "handle_frame d t = handle_frame d s"
    and "handle_content d t = handle_content d s @ der_header CBS_ASN1_INTEGER (length (uint_body (unat v))) @ uint_body (unat v)"
  using element_bytes_Some [OF assms(1) assms(2) [unfolded CBB_add_asn1_uint64_eq]]
    uint_body_exact(3) [of "unat v"] unat_u64_less [of v] by simp_all

lemma CBB_add_asn1_int64_Some:
  assumes "handle_ok d s" and "CBB_add_asn1_int64 d v s = (Some u, t)"
  shows "closed_at d t" and "handle_frame d t = handle_frame d s"
    and "handle_content d t = handle_content d s @ der_header CBS_ASN1_INTEGER (length (int_body v)) @ int_body v"
  using element_bytes_Some [OF assms(1) assms(2) [unfolded CBB_add_asn1_int64_eq]] int_body_exact(3) [of v]
  by simp_all

lemma CBB_add_asn1_octet_string_Some:
  assumes "handle_ok d s" and "CBB_add_asn1_octet_string d data s = (Some u, t)" and "length data < SIZE_MOD"
  shows "closed_at d t" and "handle_frame d t = handle_frame d s" and "length data \<le> 0xfffffffe"
    and "handle_content d t = handle_content d s @ der_header CBS_ASN1_OCTETSTRING (length data) @ data"
  using element_Some [of d s CBS_ASN1_OCTETSTRING "[data]"] assms
  by (simp_all add: CBB_add_asn1_octet_string_def)

lemma CBB_add_asn1_bool_Some:
  assumes "handle_ok d s" and "CBB_add_asn1_bool d v s = (Some u, t)"
  shows "closed_at d t" and "handle_frame d t = handle_frame d s"
    and "handle_content d t = handle_content d s @ der_header CBS_ASN1_BOOLEAN 1 @ [if v then 0xff else 0]"
  using element_Some [of d s CBS_ASN1_BOOLEAN "[[if v then 0xff else 0]]"] assms
  by (simp_all add: CBB_add_asn1_bool_def CBB_add_u8_eq)

section \<open>Object identifiers\<close>

function parse_dotted_decimal_loop :: "u64 \<Rightarrow> bool \<Rightarrow> (CBS, u64) op" where
  "parse_dotted_decimal_loop out seen_digit cbs =
    (let finish = (if seen_digit then Some out else None) in
     case CBS_get_u8 cbs of
       (None, cbs) \<Rightarrow> (finish, cbs)
     | (Some u, cbs) \<Rightarrow>
         if u = 46 \<and> CBS_len cbs > 0 then (finish, cbs)
         else if u < 48 \<or> u > 57 \<or> (seen_digit \<and> out = 0) \<or> out > 0xffffffffffffffff div 10
             \<or> out * 10 > 0xffffffffffffffff - (ucast u - 48) then (None, cbs)
         else parse_dotted_decimal_loop (out * 10 + (ucast u - 48)) True cbs)"
  by pat_completeness auto
termination
  by (relation "measure (\<lambda>(out, seen_digit, cbs). length cbs)") (auto dest!: CBS_get_u8_iff [THEN iffD1, OF sym])

definition parse_dotted_decimal :: "(CBS, u64) op" where
  "parse_dotted_decimal = parse_dotted_decimal_loop 0 False"

declare parse_dotted_decimal_loop.simps [simp del]

text \<open>The decimal text of a number.\<close>

fun decimal :: "nat \<Rightarrow> bytes" where
  "decimal n = (if n < 10 then [word_of_nat (48 + n)] else decimal (n div 10) @ [word_of_nat (48 + n mod 10)])"

declare decimal.simps [simp del]

lemma decimal_step:
  fixes v e :: u64
  assumes "unat e \<le> 9"
  shows "(v > 0xffffffffffffffff div 10 \<or> v * 10 > 0xffffffffffffffff - e) \<longleftrightarrow> \<not> unat v * 10 + unat e < SIZE_MOD"
    and "unat v * 10 + unat e < SIZE_MOD \<Longrightarrow> v * 10 + e = word_of_nat (unat v * 10 + unat e)"
proof -
  have "(0xffffffffffffffff :: u64) div 10 = 1844674407370955161" by simp
  then have q: "v > 0xffffffffffffffff div 10 \<longleftrightarrow> 1844674407370955161 < unat v"
    by (simp add: word_less_nat_alt)
  have r: "unat (0xffffffffffffffff - e) = 18446744073709551615 - unat e"
    using assms by (subst unat_sub) (simp_all add: word_le_nat_alt)
  have m: "unat (v * 10) = unat v * 10" if "unat v \<le> 1844674407370955161"
    using that by (simp add: unat_word_ariths)
  show "(v > 0xffffffffffffffff div 10 \<or> v * 10 > 0xffffffffffffffff - e) \<longleftrightarrow> \<not> unat v * 10 + unat e < SIZE_MOD"
  proof (cases "unat v \<le> 1844674407370955161")
    case True
    have "v * 10 > 0xffffffffffffffff - e \<longleftrightarrow> 18446744073709551615 - unat e < unat v * 10"
      unfolding word_less_nat_alt r m [OF True] ..
    with True q assms show ?thesis by auto
  qed (use q in auto)
  show "unat v * 10 + unat e < SIZE_MOD \<Longrightarrow> v * 10 + e = word_of_nat (unat v * 10 + unat e)"
    by simp
qed

lemma parse_dotted_decimal_Cons:
  "parse_dotted_decimal_loop v seen (u # cbs) =
    (if u = 46 \<and> cbs \<noteq> [] then (if seen then Some v else None, cbs)
     else if 48 \<le> unat u \<and> unat u \<le> 57 \<and> \<not> (seen \<and> v = 0) \<and> unat v * 10 + (unat u - 48) < SIZE_MOD
     then parse_dotted_decimal_loop (word_of_nat (unat v * 10 + (unat u - 48))) True cbs else (None, cbs))"
proof -
  define e where "e = (ucast u - 48 :: u64)"
  note unfolded = parse_dotted_decimal_loop.simps [of v seen "u # cbs"] Let_def CBS_get_u8_simps prod.case
      option.case CBS_len_def e_def [symmetric]
  show ?thesis
  proof (cases "48 \<le> unat u \<and> unat u \<le> 57")
    case True
    then have "unat u = 48 + (unat u - 48)" "unat u - 48 \<le> 9" by linarith+
    then obtain n where n: "unat u = 48 + n" "n \<le> 9" by blast
    have "unat e = n"
      unfolding e_def using n by (subst unat_sub) (simp_all add: word_le_nat_alt)
    then have e: "unat e \<le> 9" "unat u - 48 = unat e" using n by simp_all
    have "(u < 48) = False" "(u > 57) = False" using True by (simp_all add: word_less_nat_alt)
    then show ?thesis
      unfolding unfolded decimal_step(1) [OF e(1)] e(2) using decimal_step(2) [OF e(1), of v] True
      by (auto simp del: of_nat_add of_nat_mult)
  next
    case False
    then have "u < 48 \<or> u > 57" by (auto simp: word_less_nat_alt)
    with False show ?thesis unfolding unfolded by auto
  qed
qed

lemma parse_dotted_decimal_Nil: "parse_dotted_decimal_loop v seen [] = (if seen then Some v else None, [])"
  by (simp add: parse_dotted_decimal_loop.simps [of v seen "[]"] Let_def)

lemma decimal_snoc: "0 < n \<Longrightarrow> d < 10 \<Longrightarrow> decimal (n * 10 + d) = decimal n @ [word_of_nat (48 + d)]"
  by (simp add: decimal.simps [of "n * 10 + d"])

lemma parse_dotted_decimal_loop_Some:
  assumes "parse_dotted_decimal_loop v seen cbs = (Some w, rest)" and "\<not> seen \<Longrightarrow> v = 0"
  shows "\<exists>ds. (cbs = ds \<and> rest = [] \<or> rest \<noteq> [] \<and> cbs = ds @ 46 # rest) \<and>
    (if seen then decimal (unat v) @ ds else ds) = decimal (unat w)"
  using assms
proof (induction cbs arbitrary: v seen)
  case Nil
  then show ?case by (auto simp: parse_dotted_decimal_Nil split: if_splits)
next
  case (Cons u cbs)
  show ?case
  proof (cases "u = 46 \<and> cbs \<noteq> []")
    case True
    with Cons.prems show ?thesis
      by (intro exI [of _ "[]"]) (auto simp: parse_dotted_decimal_Cons split: if_splits)
  next
    case False
    let ?v = "word_of_nat (unat v * 10 + (unat u - 48)) :: u64"
    from False Cons.prems have u: "48 \<le> unat u" "unat u \<le> 57" "\<not> (seen \<and> v = 0)"
      and lt: "unat v * 10 + (unat u - 48) < SIZE_MOD"
      and rec: "parse_dotted_decimal_loop ?v True cbs = (Some w, rest)"
      by (auto simp: parse_dotted_decimal_Cons simp del: of_nat_add of_nat_mult split: if_splits)
    obtain ds where ds: "cbs = ds \<and> rest = [] \<or> rest \<noteq> [] \<and> cbs = ds @ 46 # rest"
      "decimal (unat ?v) @ ds = decimal (unat w)"
      using Cons.IH [OF rec] by auto
    have uv: "unat ?v = unat v * 10 + (unat u - 48)" by (rule unat_of_nat_u64 [OF lt])
    have byte: "word_of_nat (48 + (unat u - 48)) = u"
      using u by (simp only: le_add_diff_inverse) simp
    have "decimal (unat ?v) = (if seen then decimal (unat v) else []) @ [u]"
    proof (cases seen)
      case True
      then have "0 < unat v" using u by (simp add: word_unat_eq_iff)
      then show ?thesis using decimal_snoc [of "unat v" "unat u - 48"] True u byte by (simp only: uv) simp
    next
      case False
      then have "unat v = 0" using Cons.prems(2) by simp
      then have "unat ?v = unat u - 48" "unat u - 48 < 10" using uv u by (simp_all only:)
      with False byte show ?thesis by (simp add: decimal.simps [of "unat u - 48"] del: of_nat_add)
    qed
    with ds show ?thesis by (intro exI [of _ "u # ds"]) auto
  qed
qed

lemma parse_decimal_digits:
  "n < SIZE_MOD \<Longrightarrow> parse_dotted_decimal_loop 0 False (decimal n @ tail) = parse_dotted_decimal_loop (word_of_nat n) True tail"
proof (induction n arbitrary: tail rule: decimal.induct)
  case (1 n)
  have digit: "unat (word_of_nat (48 + k) :: u8) = 48 + k" if "k < 10" for k
    using that by (simp add: unat_u8_of_nat del: of_nat_add)
  have not_dot: "(word_of_nat (48 + k) :: u8) \<noteq> 46" if "k < 10" for k
    using digit [OF that] by (auto simp: word_unat_eq_iff simp del: of_nat_add)
  show ?case
  proof (cases "n < 10")
    case True
    have "parse_dotted_decimal_loop 0 False (word_of_nat (48 + n) # tail) =
        parse_dotted_decimal_loop (word_of_nat n) True tail"
      using True digit [OF True] not_dot [OF True]
      by (simp add: parse_dotted_decimal_Cons del: of_nat_add)
    with True show ?thesis by (simp add: decimal.simps [of n] del: of_nat_add)
  next
    case False
    let ?q = "n div 10" and ?d = "n mod 10"
    have d: "?d < 10" by simp
    then have d9: "?d \<le> 9" by linarith
    have q: "?q < SIZE_MOD" "0 < ?q" using False 1(2) by (simp_all add: div_greater_zero_iff)
    have uq: "unat (word_of_nat ?q :: u64) = ?q" by (rule unat_of_nat_u64 [OF q(1)])
    then have nz: "(word_of_nat ?q :: u64) \<noteq> 0" using q(2) by (auto simp: word_unat_eq_iff)
    have "parse_dotted_decimal_loop 0 False (decimal ?q @ word_of_nat (48 + ?d) # tail) =
        parse_dotted_decimal_loop (word_of_nat ?q) True (word_of_nat (48 + ?d) # tail)"
      by (rule 1(1) [OF False q(1)])
    also have "\<dots> = parse_dotted_decimal_loop (word_of_nat n) True tail"
      using digit [OF d] not_dot [OF d] nz 1(2) uq d9
      by (simp add: parse_dotted_decimal_Cons del: of_nat_add)
    finally show ?thesis using False by (simp add: decimal.simps [of n] del: of_nat_add)
  qed
qed

lemma parse_dotted_decimal_iff:
  "parse_dotted_decimal cbs = (Some w, rest) \<longleftrightarrow>
    cbs = decimal (unat w) \<and> rest = [] \<or> rest \<noteq> [] \<and> cbs = decimal (unat w) @ 46 # rest"
proof
  assume "parse_dotted_decimal cbs = (Some w, rest)"
  from parse_dotted_decimal_loop_Some [OF this [unfolded parse_dotted_decimal_def]]
  show "cbs = decimal (unat w) \<and> rest = [] \<or> rest \<noteq> [] \<and> cbs = decimal (unat w) @ 46 # rest" by auto
next
  assume "cbs = decimal (unat w) \<and> rest = [] \<or> rest \<noteq> [] \<and> cbs = decimal (unat w) @ 46 # rest"
  then show "parse_dotted_decimal cbs = (Some w, rest)"
    using parse_decimal_digits [of "unat w" "[]"] parse_decimal_digits [of "unat w" "46 # rest"] unat_u64_less [of w]
    by (auto simp: parse_dotted_decimal_def parse_dotted_decimal_Nil parse_dotted_decimal_Cons)
qed

lemma parse_dotted_decimal_shorter:
  assumes "parse_dotted_decimal cbs = (Some w, rest)"
  shows "length rest < length cbs"
proof -
  have "decimal n \<noteq> []" for n by (simp add: decimal.simps [of n])
  then show ?thesis using assms by (auto simp: parse_dotted_decimal_iff)
qed

function add_oid_components :: "nat \<Rightarrow> CBS \<Rightarrow> (CBB, unit) op" where
  "add_oid_components d cbs =
    (if CBS_len cbs > 0 then
       (case parse_dotted_decimal cbs of
          (None, _) \<Rightarrow> opfail
        | (Some a, cbs) \<Rightarrow> opbind (add_base128_integer d a) (\<lambda>_. add_oid_components d cbs))
     else opret ())"
  by pat_completeness auto
termination
  by (relation "measure (\<lambda>(d, cbs). length cbs)") (auto dest: parse_dotted_decimal_shorter [OF sym])

declare add_oid_components.simps [simp del]

definition CBB_add_asn1_oid_from_text :: "nat \<Rightarrow> bytes \<Rightarrow> (CBB, unit) op" where
  "CBB_add_asn1_oid_from_text d text = opbind (CBB_flush d) (\<lambda>_.
     case parse_dotted_decimal (CBS_init text (length text)) of (None, _) \<Rightarrow> opfail | (Some a, cbs) \<Rightarrow>
     case parse_dotted_decimal cbs of (None, _) \<Rightarrow> opfail | (Some b, cbs) \<Rightarrow>
       if a > 2 \<or> (a < 2 \<and> b > 39) \<or> b > 0xffffffffffffffff - 80 then opfail
       else opbind (add_base128_integer d (40 * a + b)) (\<lambda>_. add_oid_components d cbs))"

definition add_decimal :: "nat \<Rightarrow> u64 \<Rightarrow> (CBB, unit) op" where
  "add_decimal d v = CBB_add_bytes d (decimal (unat v))"

lemma parse_base128_shorter: "parse_base128_integer cbs = (Some w, rest) \<Longrightarrow> length rest < length cbs"
  by (auto simp: parse_base128_integer_iff b128_def)

function oid_text_components :: "CBS \<Rightarrow> (CBB, unit) op" where
  "oid_text_components copy =
    (if CBS_len copy \<noteq> 0 then
       (case parse_base128_integer copy of
          (None, _) \<Rightarrow> opfail
        | (Some v, copy) \<Rightarrow> opbind (CBB_add_u8 0 46) (\<lambda>_. opbind (add_decimal 0 v) (\<lambda>_. oid_text_components copy)))
     else opret ())"
  by pat_completeness auto
termination
  by (relation "measure length") (auto dest: parse_base128_shorter [OF sym])

declare oid_text_components.simps [simp del]

definition CBS_asn1_oid_to_text :: "(nat \<Rightarrow> bool) \<Rightarrow> CBS \<Rightarrow> bytes option" where
  "CBS_asn1_oid_to_text mem cbs =
    (case CBB_init mem 32 of (False, _) \<Rightarrow> None | (True, cbb) \<Rightarrow>
     case parse_base128_integer cbs of (None, _) \<Rightarrow> None | (Some v, copy) \<Rightarrow>
       fst (opbind (if v \<ge> 80
                    then opbind (CBB_add_bytes 0 [50, 46]) (\<lambda>_. add_decimal 0 (v - 80))
                    else opbind (add_decimal 0 (v div 40)) (\<lambda>_. opbind (CBB_add_u8 0 46) (\<lambda>_. add_decimal 0 (v mod 40))))
            (\<lambda>_. opbind (oid_text_components copy) (\<lambda>_. opbind (CBB_add_u8 0 0) (\<lambda>_. CBB_finish True 0))) cbb))"

text \<open>
  The specification: an object identifier is its list of arcs; \<open>dotted\<close> is its text and
  \<open>oid_bytes\<close> its DER body.
\<close>

primrec dotted :: "nat list \<Rightarrow> bytes" where
  "dotted [] = []"
| "dotted (a # as) = decimal a @ (if as = [] then [] else 46 # dotted as)"

definition arcs_ok :: "nat list \<Rightarrow> bool" where
  "arcs_ok as \<longleftrightarrow> list_all (\<lambda>a. a < SIZE_MOD) as"

fun oid_bytes :: "nat list \<Rightarrow> bytes" where
  "oid_bytes (a # b # as) = b128 (40 * a + b) @ concat (map b128 as)"
| "oid_bytes _ = []"

fun valid_oid :: "nat list \<Rightarrow> bool" where
  "valid_oid (a # b # as) \<longleftrightarrow> a \<le> 2 \<and> (a < 2 \<longrightarrow> b \<le> 39) \<and> b \<le> SIZE_MOD - 1 - 80 \<and> arcs_ok as"
| "valid_oid _ \<longleftrightarrow> False"

lemma decimal_not_Nil [simp]: "decimal n \<noteq> []"
  by (simp add: decimal.simps [of n])

lemma dotted_Nil_iff [simp]: "dotted as = [] \<longleftrightarrow> as = []"
  by (cases as) simp_all

lemma parse_dotted_arc:
  "a < SIZE_MOD \<Longrightarrow> parse_dotted_decimal (dotted (a # as)) = (Some (word_of_nat a), dotted as)"
  by (simp add: parse_dotted_decimal_iff unat_of_nat_u64)

lemma parse_dotted_decimal_dotted:
  assumes "parse_dotted_decimal cbs = (Some w, dotted as)"
  shows "cbs = dotted (unat w # as)"
  using assms by (auto simp: parse_dotted_decimal_iff)

lemma add_oid_components_dotted:
  "arcs_ok as \<Longrightarrow> add_oid_components d (dotted as) = op_seq (map (\<lambda>b. CBB_add_bytes d [b]) (concat (map b128 as)))"
proof (induction as)
  case Nil
  then show ?case by (simp add: add_oid_components.simps CBS_len_def)
next
  case (Cons a as)
  then have a: "a < SIZE_MOD" "arcs_ok as" by (simp_all add: arcs_ok_def)
  have "add_oid_components d (dotted (a # as)) =
      opbind (add_base128_integer d (word_of_nat a)) (\<lambda>_. add_oid_components d (dotted as))"
    by (subst add_oid_components.simps) (simp add: CBS_len_def parse_dotted_arc [OF a(1)] del: dotted.simps)
  then show ?case
    using Cons.IH [OF a(2)] unat_of_nat_u64 [OF a(1)]
    by (simp add: add_base128_integer_eq op_seq_append del: dotted.simps)
qed

lemma add_oid_components_Some:
  "add_oid_components d cbs s = (Some u, t) \<Longrightarrow> \<exists>as. arcs_ok as \<and> cbs = dotted as"
proof (induction d cbs arbitrary: s rule: add_oid_components.induct)
  case (1 d cbs)
  show ?case
  proof (cases "cbs = []")
    case True
    then show ?thesis by (intro exI [of _ "[]"]) (simp add: arcs_ok_def)
  next
    case False
    with 1(2) obtain a cbs' where p: "parse_dotted_decimal cbs = (Some a, cbs')"
      and b: "opbind (add_base128_integer d a) (\<lambda>_. add_oid_components d cbs') s = (Some u, t)"
      by (auto simp: add_oid_components.simps [of d cbs] CBS_len_def opfail_def split: prod.splits option.splits)
    then obtain s' where "add_oid_components d cbs' s' = (Some u, t)" by (auto simp: opbind_Some_iff)
    then obtain as where as: "arcs_ok as" "cbs' = dotted as"
      using 1(1) [OF _ p [symmetric] refl] False by (auto simp: CBS_len_def)
    then have "cbs = dotted (unat a # as)" using parse_dotted_decimal_dotted p by blast
    then show ?thesis using as(1) by (intro exI [of _ "unat a # as"]) (simp add: arcs_ok_def)
  qed
qed

lemma CBB_add_asn1_oid_from_text_eq:
  assumes "valid_oid (a # b # as)"
  shows "CBB_add_asn1_oid_from_text d (dotted (a # b # as)) = opbind (CBB_flush d) (\<lambda>_.
    op_seq (map (\<lambda>x. CBB_add_bytes d [x]) (oid_bytes (a # b # as))))"
proof -
  have a: "a < SIZE_MOD" "b < SIZE_MOD" "a \<le> 2" "a < 2 \<longrightarrow> b \<le> 39" "b \<le> 18446744073709551535" "arcs_ok as"
    using assms by auto
  let ?a = "word_of_nat a :: u64" and ?b = "word_of_nat b :: u64"
  have u: "unat ?a = a" "unat ?b = b" using a by (simp_all add: unat_of_nat_u64)
  have v: "unat (40 * ?a + ?b) = 40 * a + b" using a u by (simp add: unat_word_ariths)
  have c: "\<not> (?a > 2 \<or> (?a < 2 \<and> ?b > 39) \<or> ?b > 0xffffffffffffffff - 80)"
    using a by (auto simp: word_less_nat_alt u)
  have p: "parse_dotted_decimal (dotted (a # b # as)) = (Some ?a, dotted (b # as))"
    "parse_dotted_decimal (dotted (b # as)) = (Some ?b, dotted as)"
    using parse_dotted_arc [OF a(1), of "b # as"] parse_dotted_arc [OF a(2), of as] by blast+
  show ?thesis
    unfolding CBB_add_asn1_oid_from_text_def CBS_init_def take_all [OF order_refl] p prod.case option.case
      add_base128_integer_eq v add_oid_components_dotted [OF a(6)] if_not_P [OF c]
    by (simp add: op_seq_append)
qed

lemma CBB_add_asn1_oid_from_text_Some:
  assumes "CBB_add_asn1_oid_from_text d text s = (Some u, t)"
  shows "\<exists>a b as. valid_oid (a # b # as) \<and> text = dotted (a # b # as)"
proof -
  obtain a cbs b cbs2 where p: "parse_dotted_decimal text = (Some a, cbs)" "parse_dotted_decimal cbs = (Some b, cbs2)"
    and c: "\<not> (a > 2 \<or> (a < 2 \<and> b > 39) \<or> b > 0xffffffffffffffff - 80)"
    and o: "\<exists>s' u t'. add_oid_components d cbs2 s' = (Some u, t')"
    using assms by (auto simp: CBB_add_asn1_oid_from_text_def CBS_init_def opbind_Some_iff opfail_def
        split: prod.splits option.splits if_splits)
  from o obtain as where as: "arcs_ok as" "cbs2 = dotted as" using add_oid_components_Some by blast
  have t2: "cbs = dotted (unat b # as)" using parse_dotted_decimal_dotted p(2) as(2) by blast
  then have t1: "text = dotted (unat a # unat b # as)" using parse_dotted_decimal_dotted p(1) by blast
  have "unat a \<le> 2" "unat a < 2 \<longrightarrow> unat b \<le> 39" "unat b \<le> 18446744073709551535"
    using c by (auto simp: word_less_nat_alt not_less)
  then have "valid_oid (unat a # unat b # as)" using as(1) by simp
  with t1 show ?thesis by blast
qed

lemma oid_from_text_writes:
  assumes ok: "handle_ok d s" and r: "CBB_add_asn1_oid_from_text d text s = (Some u, t)"
  obtains a b as where "valid_oid (a # b # as)" and "text = dotted (a # b # as)"
    and "handle_content d t = handle_content d s @ oid_bytes (a # b # as)" and "handle_frame d t = handle_frame d s"
proof -
  obtain a b as where v: "valid_oid (a # b # as)" "text = dotted (a # b # as)"
    using CBB_add_asn1_oid_from_text_Some [OF r] by blast
  obtain u1 s1 where f: "CBB_flush d s = (Some u1, s1)"
    and p: "op_seq (map (\<lambda>x. CBB_add_bytes d [x]) (oid_bytes (a # b # as))) s1 = (Some u, t)"
    using r unfolding v(2) CBB_add_asn1_oid_from_text_eq [OF v(1)] by (auto simp: opbind_Some_iff)
  note fl = CBB_flush_closed [OF ok f]
  note pb = cbb_sink.put_bytes_Some [OF closed_at_handle [OF fl(1)] p]
  have len: "d < length (cbb_levels s)" using ok length_cbb_levels by (simp add: handle_ok_def)
  have "handle_content d s1 = handle_content d s" "handle_frame d s1 = handle_frame d s"
    using fl(2,3) len by (simp_all add: handle_content_def handle_frame_def level_append_frame)
  with pb v that show ?thesis by auto
qed

lemma parse_b128_arc:
  "a < SIZE_MOD \<Longrightarrow> parse_base128_integer (b128 a @ rest) = (Some (word_of_nat a), rest)"
  using parse_b128 [of a rest] by simp

lemma oid_text_components_eq:
  "arcs_ok as \<Longrightarrow> oid_text_components (concat (map b128 as)) =
    op_seq (map (CBB_add_bytes 0) (concat (map (\<lambda>a. [[46], decimal a]) as)))"
proof (induction as)
  case Nil
  then show ?case by (simp add: oid_text_components.simps CBS_len_def)
next
  case (Cons a as)
  then have a: "a < SIZE_MOD" "arcs_ok as" by (simp_all add: arcs_ok_def)
  have "b128 a \<noteq> []" by (simp add: b128_def)
  then have "oid_text_components (concat (map b128 (a # as))) =
      opbind (CBB_add_u8 0 46) (\<lambda>_. opbind (add_decimal 0 (word_of_nat a)) (\<lambda>_. oid_text_components (concat (map b128 as))))"
    by (subst oid_text_components.simps) (simp add: CBS_len_def parse_b128_arc [OF a(1)])
  then show ?case
    using Cons.IH [OF a(2)] unat_of_nat_u64 [OF a(1)] by (simp add: CBB_add_u8_eq add_decimal_def)
qed

lemma oid_text_components_Some:
  "oid_text_components cbs s = (Some u, t) \<Longrightarrow> \<exists>as. arcs_ok as \<and> cbs = concat (map b128 as)"
proof (induction cbs arbitrary: s rule: oid_text_components.induct)
  case (1 cbs)
  show ?case
  proof (cases "cbs = []")
    case True
    then show ?thesis by (intro exI [of _ "[]"]) (simp add: arcs_ok_def)
  next
    case False
    with 1(2) obtain v cbs' where p: "parse_base128_integer cbs = (Some v, cbs')"
      and b: "opbind (CBB_add_u8 0 46) (\<lambda>_. opbind (add_decimal 0 v) (\<lambda>_. oid_text_components cbs')) s = (Some u, t)"
      by (auto simp: oid_text_components.simps [of cbs] CBS_len_def opfail_def split: prod.splits option.splits)
    then obtain s' where "oid_text_components cbs' s' = (Some u, t)" by (auto simp: opbind_Some_iff)
    then obtain as where as: "arcs_ok as" "cbs' = concat (map b128 as)"
      using 1(1) [OF _ p [symmetric] refl] False by (auto simp: CBS_len_def)
    then show ?thesis
      using p by (intro exI [of _ "unat v # as"]) (simp add: arcs_ok_def parse_base128_integer_iff)
  qed
qed

definition oid_chunks :: "nat \<Rightarrow> nat \<Rightarrow> nat list \<Rightarrow> bytes list" where
  "oid_chunks a b as = (if a = 2 then [[50, 46], decimal b] else [decimal a, [46], decimal b]) @
     concat (map (\<lambda>a. [[46], decimal a]) as) @ [[0]]"

lemma concat_oid_chunks:
  assumes "valid_oid (a # b # as)"
  shows "concat (oid_chunks a b as) = dotted (a # b # as) @ [0]"
proof -
  have "concat (concat (map (\<lambda>a. [[46], decimal a]) as)) = (if as = [] then [] else 46 # dotted as)"
    by (induction as) simp_all
  moreover have "decimal 2 = [50]" by (simp add: decimal.simps [of 2])
  ultimately show ?thesis by (simp add: oid_chunks_def)
qed

lemma oid_to_text_eq:
  assumes "valid_oid (a # b # as)"
  shows "CBS_asn1_oid_to_text mem (oid_bytes (a # b # as)) =
    (case CBB_init mem 32 of (False, _) \<Rightarrow> None | (True, cbb) \<Rightarrow>
       fst (opbind (op_seq (map (CBB_add_bytes 0) (oid_chunks a b as))) (\<lambda>_. CBB_finish True 0) cbb))"
proof -
  have a: "a \<le> 2" "a < 2 \<longrightarrow> b \<le> 39" "b \<le> 18446744073709551535" "arcs_ok as" using assms by auto
  let ?v = "word_of_nat (40 * a + b) :: u64"
  have v: "unat ?v = 40 * a + b" using a by (intro unat_of_nat_u64) simp
  have p: "parse_base128_integer (oid_bytes (a # b # as)) = (Some ?v, concat (map b128 as))"
    using a unfolding oid_bytes.simps by (intro parse_b128_arc) simp
  have big: "?v \<ge> 80 \<longleftrightarrow> a = 2" using a unfolding word_le_nat_alt v by auto
  have parts: "a = 2 \<Longrightarrow> unat (?v - 80) = b" "unat (?v div 40) = (40 * a + b) div 40" "unat (?v mod 40) = (40 * a + b) mod 40"
  proof -
    show "a = 2 \<Longrightarrow> unat (?v - 80) = b" using v by (subst unat_sub) (simp_all add: word_le_nat_alt del: of_nat_add)
    show "unat (?v div 40) = (40 * a + b) div 40" "unat (?v mod 40) = (40 * a + b) mod 40"
      using v by (simp_all add: unat_div unat_mod del: of_nat_add)
  qed
  have small: "(40 * a + b) div 40 = a" "(40 * a + b) mod 40 = b" if "a \<noteq> 2" using a that by auto
  show ?thesis
    unfolding CBS_asn1_oid_to_text_def p prod.case option.case oid_text_components_eq [OF a(4)] big
    using parts small
    by (auto simp: oid_chunks_def op_seq_append opbind_assoc CBB_add_u8_eq add_decimal_def
        simp del: of_nat_add split: prod.splits bool.splits)
qed

lemma CBS_asn1_oid_to_text_Some:
  assumes "CBS_asn1_oid_to_text mem cbs = Some txt"
  shows "\<exists>a b as. valid_oid (a # b # as) \<and> cbs = oid_bytes (a # b # as)"
proof -
  obtain v copy where p: "parse_base128_integer cbs = (Some v, copy)"
    and o: "\<exists>s u t. oid_text_components copy s = (Some u, t)"
    using assms by (auto simp: CBS_asn1_oid_to_text_def opbind_def split: prod.splits option.splits bool.splits)
  from o obtain as where as: "arcs_ok as" "copy = concat (map b128 as)" using oid_text_components_Some by blast
  let ?n = "unat v"
  define a b where "a = (if 80 \<le> ?n then 2 else ?n div 40)" and "b = (if 80 \<le> ?n then ?n - 80 else ?n mod 40)"
  have "40 * a + b = ?n" by (simp add: a_def b_def)
  moreover have "a \<le> 2" "a < 2 \<longrightarrow> b \<le> 39" "b \<le> 18446744073709551535"
    using unat_u64_less [of v] by (auto simp: a_def b_def simp del: unat_u64_less)
  ultimately have "valid_oid (a # b # as)" "cbs = oid_bytes (a # b # as)"
    using as p by (simp_all add: parse_base128_integer_iff)
  then show ?thesis by blast
qed

section \<open>Handing the result out\<close>

text \<open>
  \<open>CBB_finish_i2d\<close> and its output pointer: absent, pointing to NULL, or pointing into a
  caller's array, given as the bytes before and from the position.
\<close>

type_synonym out_ptr = "(bytes \<times> bytes) option option"

definition CBB_finish_i2d :: "out_ptr \<Rightarrow> CBB \<Rightarrow> int \<times> out_ptr \<times> CBB" where
  "CBB_finish_i2d outp cbb =
    (case CBB_finish True 0 cbb of
       (None, cbb) \<Rightarrow> (- 1, outp, CBB_cleanup 0 cbb)
     | (Some der, cbb) \<Rightarrow>
         if length der > 0x7fffffff then (- 1, outp, cbb)
         else (int (length der),
           (case outp of
              None \<Rightarrow> None
            | Some None \<Rightarrow> Some (Some ([], der))
            | Some (Some (before, after)) \<Rightarrow> Some (Some (before @ der, drop (length der) after))), cbb))"

lemma CBB_finish_i2d_cleans_up:
  assumes "CBB_finish_i2d outp cbb = (n, outp', t)" and "cbb_ok cbb \<or> cbb_failed cbb"
  shows "base t = None" and "n < 0 \<Longrightarrow> outp' = outp"
  using assms CBB_finish_Some(3) [OF assms(2), of True]
  by (auto simp: CBB_finish_i2d_def CBB_cleanup_def split: prod.splits option.splits if_splits)

section \<open>Properties\<close>

lemma length_int_body: "length (int_body v) \<le> 8"
proof (cases "sint v < 0")
  case True
  then show ?thesis by (rule int_body_exact(4))
next
  case False
  let ?b = "be_bytes 8 (unat v)" and ?raw = "dropWhile (\<lambda>b. b = 0) (be_bytes 8 (unat v))"
  have v: "unat v < 2 ^ 63"
  proof (rule ccontr)
    assume "\<not> unat v < 2 ^ 63"
    then have "sint v = int (unat v) - 18446744073709551616" by (simp add: sint_u64)
    with False unat_u64_less [of v] show False by linarith
  qed
  have le: "length ?raw \<le> 8"
    using length_dropWhile_le [of "\<lambda>b. b = 0" ?b] by (simp del: be_bytes.simps)
  have "\<not> 128 \<le> unat (hd ?raw)" if "length ?raw = 8"
  proof
    assume hi: "128 \<le> unat (hd ?raw)"
    have "length ?raw = Suc 7" using that by linarith
    then obtain b r where br: "?raw = b # r" "length r = 7" unfolding length_Suc_conv by blast
    have "be_nat ?raw = unat v"
      using unat_u64_less [of v] by (simp add: be_nat_dropWhile_0 be_nat_be_bytes del: be_bytes.simps unat_u64_less)
    then have "unat v = unat b * 256 ^ 7 + be_nat r" unfolding br(1) by (simp add: be_nat_Cons br(2))
    then have "128 * 256 ^ 7 \<le> unat v" using hi br by simp
    with v show False by simp
  qed
  then have "128 \<le> unat (hd ?raw) \<Longrightarrow> length ?raw \<le> 7" using le by linarith
  then have "length (uint_body (unat v)) \<le> 8"
    using le by (auto simp: uint_body_def Let_def simp del: be_bytes.simps dropWhile_eq_Nil_conv)
  with False show ?thesis by (simp add: int_body_def)
qed

text \<open>C7: Signed integers survive the trip: what \<open>CBB_add_asn1_int64\<close> appends is the one minimal
  INTEGER element from which \<open>CBS_get_asn1_int64\<close> returns the same 64-bit value.\<close>

theorem CBB_asn1_int64_roundtrip:
  assumes "handle_ok d s" and "CBB_add_asn1_int64 d v s = (Some u, t)"
  shows "\<exists>el. handle_content d t = handle_content d s @ el \<and> handle_frame d t = handle_frame d s \<and>
    CBS_get_asn1_int64 (el @ rest) = (Some v, rest)"
proof -
  let ?el = "der_header CBS_ASN1_INTEGER (length (int_body v)) @ int_body v"
  have "CBS_get_asn1_int64 (?el @ rest) = (Some v, rest)"
    unfolding CBS_get_asn1_int64_iff using int_body_exact(1,2) [of v] length_int_body [of v] by auto
  then show ?thesis using CBB_add_asn1_int64_Some [OF assms] by (intro exI [of _ ?el]) simp
qed

definition cbb_new :: CBB where
  "cbb_new = snd (CBB_init (\<lambda>_. True) 16)"

lemma cbb_new_ok: "cbb_ok cbb_new" "handle_ok 0 cbb_new" "handle_content 0 cbb_new = []"
  "policy cbb_new = Some (True, \<lambda>_. True, None)"
proof -
  have "CBB_init (\<lambda>_. True) 16 = (True, cbb_new)" by (simp add: cbb_new_def CBB_init_def cbb_init_def)
  note i = CBB_init_ok [OF this]
  then show "cbb_ok cbb_new" "handle_ok 0 cbb_new" "handle_content 0 cbb_new = []"
    "policy cbb_new = Some (True, \<lambda>_. True, None)"
    by (simp_all add: handle_ok_def handle_content_def level_content_def)
qed

lemma CBB_asn1_int64_roundtrip_witness:
  "\<exists>t el. handle_content 0 t = el \<and> CBS_get_asn1_int64 (el @ [9]) = (Some (- 129), [9])"
proof -
  define t where "t = snd (CBB_add_asn1_int64 0 (- 129) cbb_new)"
  have "fst (CBB_add_asn1_int64 0 (- 129) cbb_new) = Some ()" by code_simp
  then have "CBB_add_asn1_int64 0 (- 129) cbb_new = (Some (), t)" by (intro prod_eqI) (simp_all add: t_def)
  from CBB_asn1_int64_roundtrip [OF cbb_new_ok(2) this] show ?thesis by (auto simp: cbb_new_ok(3))
qed

text \<open>C8: Object identifiers survive the trip: when \<open>CBB_add_asn1_oid_from_text\<close> accepts a text, the
  bytes it appends are printed by \<open>CBS_asn1_oid_to_text\<close> as the same text with a terminator,
  so no two texts are accepted for one identifier and no accepted text is changed.\<close>

theorem oid_text_roundtrip:
  assumes "handle_ok d s" and "CBB_add_asn1_oid_from_text d text s = (Some u, t)" and "length text < SIZE_MOD - 1"
  shows "\<exists>bs. handle_content d t = handle_content d s @ bs \<and>
    CBS_asn1_oid_to_text (\<lambda>_. True) bs = Some (text @ [0])"
proof -
  obtain a b as where v: "valid_oid (a # b # as)" "text = dotted (a # b # as)"
    and c: "handle_content d t = handle_content d s @ oid_bytes (a # b # as)"
    using oid_from_text_writes [OF assms(1,2)] by blast
  obtain cbb where cbb: "CBB_init (\<lambda>_. True) 32 = (True, cbb)" by (simp add: CBB_init_def cbb_init_def)
  note i = CBB_init_ok [OF cbb]
  have h: "handle_ok 0 cbb" using i by (simp add: handle_ok_def)
  have cat: "concat (oid_chunks a b as) = text @ [0]" using concat_oid_chunks [OF v(1)] v(2) by simp
  have children: "children cbb = []" using length_cbb_levels [OF i(1)] i(2) by simp
  have "handle_accepts 0 cbb (length (concat (oid_chunks a b as)) + 0)"
    using i assms(3) children unfolding cat
    by (auto simp: handle_accepts_def handle_content_def level_content_def level_start_def cbb_room_def
        room_def policy_def split: if_splits)
  from cbb_sink.put_seq_accepts [OF h this] obtain s1
    where w: "op_seq (map (CBB_add_bytes 0) (oid_chunks a b as)) cbb = (Some (), s1)" "handle_accepts 0 s1 0" by blast
  have "length x < SIZE_MOD" if "x \<in> set (oid_chunks a b as)" for x
  proof -
    have "length x \<le> length (concat (oid_chunks a b as))"
      using that by (metis concat_map_singleton length_append le_add1 split_list concat_append concat.simps(2) le_add2 le_trans)
    then show ?thesis using assms(3) cat by simp
  qed
  then have "list_all (\<lambda>x. length x < SIZE_MOD) (oid_chunks a b as)" by (simp add: list_all_iff)
  note p = cbb_sink.put_seq_Some [OF h this w(1)]
  have s1: "cbb_ok s1" "handle_content 0 s1 = text @ [0]"
    using p cat i by (simp_all add: handle_ok_def handle_content_def level_content_def)
  obtain s2 where f: "CBB_flush 0 s1 = (Some (), s2)"
    using CBB_flush_room [OF s1(1), of 0] w(2) by (auto simp: handle_accepts_def handle_content_def)
  obtain b2 where "base s2 = Some b2"
    using CBB_flush_Some(1) [OF s1(1) _ f] cbb_okE by (metis zero_le)
  then have fin: "CBB_finish True 0 s1 = (Some (buf b2), CBB_cleanup 0 s2)"
    using f by (simp add: CBB_finish_def opbind_def)
  have "fst (CBB_finish True 0 s1) = Some (text @ [0])"
    using CBB_finish_Some(2) [OF _ fin] s1 fin by (simp add: handle_content_def)
  then have "CBS_asn1_oid_to_text (\<lambda>_. True) (oid_bytes (a # b # as)) = Some (text @ [0])"
    unfolding oid_to_text_eq [OF v(1)] cbb prod.case using w(1) by (simp add: opbind_def)
  with c show ?thesis by blast
qed

text \<open>The text 1.2.840.\<close>

lemma oid_text_roundtrip_witness:
  "\<exists>bs. CBS_asn1_oid_to_text (\<lambda>_. True) bs = Some ([49, 46, 50, 46, 56, 52, 48] @ [0])"
proof -
  define t where "t = snd (CBB_add_asn1_oid_from_text 0 [49, 46, 50, 46, 56, 52, 48] cbb_new)"
  have "fst (CBB_add_asn1_oid_from_text 0 [49, 46, 50, 46, 56, 52, 48] cbb_new) = Some ()" by code_simp
  then have r: "CBB_add_asn1_oid_from_text 0 [49, 46, 50, 46, 56, 52, 48] cbb_new = (Some (), t)"
    by (intro prod_eqI) (simp_all add: t_def)
  have "length [49, 46, 50, 46, 56, 52, 48 :: u8] < SIZE_MOD - 1" by simp
  from oid_text_roundtrip [OF cbb_new_ok(2) r this] show ?thesis by blast
qed

end
