(* ===== verification/Ber.thy ===== *)
theory Ber
  imports CbbAsn1
begin

text \<open>
  \<^verbatim>\<open>crypto/bytestring/ber.c\<close>: the walk that looks for BER-only forms, the conversion of BER to
  DER, and implicitly tagged strings. The conversion consumes its input through a shared CBS;
  its model returns what it leaves. Its recursion takes fuel, and one more than the length of the
  input is enough (\<open>convert_enough_fuel\<close>). \<open>der_seq\<close> is the
  specification of DER: only primitive and definite-length elements, minimal headers, no
  constructed strings, and the same inside; \<open>ber_der\<close> says which BER stands for which DER.
\<close>

definition CBS_ASN1_BITSTRING :: u32 where "CBS_ASN1_BITSTRING = 0x3"
definition CBS_ASN1_UTF8STRING :: u32 where "CBS_ASN1_UTF8STRING = 0xc"
definition CBS_ASN1_NUMERICSTRING :: u32 where "CBS_ASN1_NUMERICSTRING = 0x12"
definition CBS_ASN1_PRINTABLESTRING :: u32 where "CBS_ASN1_PRINTABLESTRING = 0x13"
definition CBS_ASN1_T61STRING :: u32 where "CBS_ASN1_T61STRING = 0x14"
definition CBS_ASN1_VIDEOTEXSTRING :: u32 where "CBS_ASN1_VIDEOTEXSTRING = 0x15"
definition CBS_ASN1_IA5STRING :: u32 where "CBS_ASN1_IA5STRING = 0x16"
definition CBS_ASN1_GRAPHICSTRING :: u32 where "CBS_ASN1_GRAPHICSTRING = 0x19"
definition CBS_ASN1_VISIBLESTRING :: u32 where "CBS_ASN1_VISIBLESTRING = 0x1a"
definition CBS_ASN1_GENERALSTRING :: u32 where "CBS_ASN1_GENERALSTRING = 0x1b"
definition CBS_ASN1_UNIVERSALSTRING :: u32 where "CBS_ASN1_UNIVERSALSTRING = 0x1c"
definition CBS_ASN1_BMPSTRING :: u32 where "CBS_ASN1_BMPSTRING = 0x1e"

definition kMaxDepth :: nat where
  "kMaxDepth = 2048"

definition primitive_tag :: "u32 \<Rightarrow> u32" where
  "primitive_tag tag = tag AND NOT CBS_ASN1_CONSTRUCTED"

definition is_string_type :: "u32 \<Rightarrow> bool" where
  "is_string_type tag =
     (list_ex (\<lambda>t. primitive_tag tag = t)
       [CBS_ASN1_BITSTRING, CBS_ASN1_OCTETSTRING, CBS_ASN1_UTF8STRING, CBS_ASN1_NUMERICSTRING,
        CBS_ASN1_PRINTABLESTRING, CBS_ASN1_T61STRING, CBS_ASN1_VIDEOTEXSTRING, CBS_ASN1_IA5STRING,
        CBS_ASN1_GRAPHICSTRING, CBS_ASN1_VISIBLESTRING, CBS_ASN1_GENERALSTRING,
        CBS_ASN1_UNIVERSALSTRING, CBS_ASN1_BMPSTRING])"

definition is_constructed :: "u32 \<Rightarrow> bool" where
  "is_constructed tag \<longleftrightarrow> tag AND CBS_ASN1_CONSTRUCTED \<noteq> 0"

definition is_indefinite :: "CBS \<Rightarrow> nat \<Rightarrow> bool" where
  "is_indefinite contents header_len \<longleftrightarrow>
     CBS_len contents = header_len \<and> header_len > 0 \<and> CBS_data contents ! (header_len - 1) = 0x80"

section \<open>BER elements\<close>

definition indefinite_header :: "u32 \<Rightarrow> bytes" where
  "indefinite_header tag = der_tag tag @ [0x80]"

lemma u8_128: "unat (lb::u8) = 128 \<longleftrightarrow> lb = 0x80"
  by (auto simp: word_unat_eq_iff)

lemma ber_element_iff:
  "CBS_get_any_ber_asn1_element cbs = (Some (out, tag, hl), rest) \<longleftrightarrow>
    CBS_get_any_asn1_element cbs = (Some (out, tag, hl), rest) \<or>
    is_constructed tag \<and> out = indefinite_header tag \<and> hl = length out \<and> cbs = out @ rest"
proof (cases "\<exists>tag lb header. cbs = der_tag tag @ lb # header")
  case False
  then have "\<not> cbs = indefinite_header tag @ rest" by (auto simp: indefinite_header_def)
  with False show ?thesis
    by (auto simp: CBS_get_any_asn1_element_def CBS_get_any_ber_asn1_element_def element_None)
next
  case True
  then obtain tag' lb header where cbs: "cbs = der_tag tag' @ lb # header" by blast
  have ind: "cbs = indefinite_header tag @ rest \<longleftrightarrow> tag = tag' \<and> lb = 0x80 \<and> rest = header"
    unfolding cbs indefinite_header_def using der_tag_append_inj [of tag' "lb # header" tag "0x80 # rest"]
    by auto
  have k: "\<not> unat lb < 128 \<and> unat lb - 128 = 0 \<longleftrightarrow> lb = 0x80" using u8_128 [of lb] by auto
  show ?thesis
  proof (cases "lb = 0x80 \<and> is_constructed tag'")
    case True
    have "CBS_get_any_asn1_element cbs = (None, cbs)"
      using True unfolding CBS_get_any_asn1_element_def cbs element_unfold by (simp add: Let_def)
    moreover have "CBS_get_any_ber_asn1_element cbs = (Some (out, tag, hl), rest) \<longleftrightarrow>
        tag = tag' \<and> hl = length (der_tag tag') + 1 \<and> cbs = out @ rest \<and> length out = length (der_tag tag') + 1"
      using True unfolding CBS_get_any_ber_asn1_element_def cbs element_unfold
      by (simp add: Let_def get_element_iff is_constructed_def)
    moreover have "cbs = indefinite_header tag' @ header" using True by (simp add: cbs indefinite_header_def)
    then have "cbs = out @ rest \<and> length out = length (der_tag tag') + 1 \<longleftrightarrow>
        out = indefinite_header tag' \<and> rest = header"
      using append_eq_append_conv [of "indefinite_header tag'" out header rest] by (auto simp: indefinite_header_def)
    ultimately show ?thesis using ind True by auto
  next
    case False
    then have "CBS_get_any_ber_asn1_element cbs = CBS_get_any_asn1_element cbs"
      unfolding CBS_get_any_ber_asn1_element_def CBS_get_any_asn1_element_def cbs element_unfold
      using k by (auto simp: Let_def is_constructed_def)
    with False ind show ?thesis by (auto simp: cbs)
  qed
qed

lemma ber_element_lengths:
  assumes "CBS_get_any_ber_asn1_element cbs = (Some (out, tag, hl), rest)"
  shows "cbs = out @ rest" and "2 \<le> hl" and "hl \<le> length out" and "length rest < length cbs"
proof -
  have d: "2 \<le> length (der_tag tag) + length (der_length n)" for n
    using length_der_tag(1) [of tag] by (simp add: der_length_def)
  have "cbs = out @ rest \<and> 2 \<le> hl \<and> hl \<le> length out"
    using assms length_der_tag(1) [of tag] d
    by (auto simp: ber_element_iff CBS_get_any_asn1_element_iff der_header_def indefinite_header_def)
  then show "cbs = out @ rest" and "2 \<le> hl" and "hl \<le> length out" and "length rest < length cbs" by auto
qed

section \<open>Looking for BER\<close>

function cbs_find_ber_loop :: "nat \<Rightarrow> bool \<Rightarrow> CBS \<Rightarrow> bool option" where
  "cbs_find_ber_loop depth ber_found cbs =
    (if CBS_len cbs > 0 then
       case CBS_get_any_ber_asn1_element cbs of
         (None, _) \<Rightarrow> None
       | (Some (contents, tag, header_len), cbs) \<Rightarrow>
           if is_indefinite contents header_len then Some True
           else if is_constructed tag then
             if is_string_type tag then Some True
             else case CBS_skip header_len contents of
               (None, _) \<Rightarrow> None
             | (Some _, contents) \<Rightarrow>
                 if depth + 1 > kMaxDepth then None
                 else case cbs_find_ber_loop (depth + 1) False contents of
                   None \<Rightarrow> None
                 | Some ber_found \<Rightarrow> cbs_find_ber_loop depth ber_found cbs
           else cbs_find_ber_loop depth ber_found cbs
     else Some ber_found)"
  by pat_completeness auto
termination
proof (relation "measure (\<lambda>(depth, ber_found, cbs). length cbs)", goal_cases)
  case 1
  show ?case by simp
next
  case prems: (2 depth ber_found cbs x cbs' a contents b tag header_len y contents' z)
  have e: "CBS_get_any_ber_asn1_element cbs = (Some (contents, tag, header_len), cbs')" using prems by simp
  have "contents' = drop header_len contents" using prems by (simp add: CBS_skip_eq split: if_splits)
  then show ?case using ber_element_lengths [OF e] by simp
next
  case prems: (3 depth ber_found cbs x cbs' a contents b tag header_len)
  then have "CBS_get_any_ber_asn1_element cbs = (Some (contents, tag, header_len), cbs')" by simp
  from ber_element_lengths(4) [OF this] show ?case by simp
next
  case prems: (4 depth ber_found cbs x cbs' a contents b tag header_len)
  then have "CBS_get_any_ber_asn1_element cbs = (Some (contents, tag, header_len), cbs')" by simp
  from ber_element_lengths(4) [OF this] show ?case by simp
qed

definition cbs_find_ber :: "CBS \<Rightarrow> nat \<Rightarrow> bool option" where
  "cbs_find_ber cbs depth = (if depth > kMaxDepth then None else cbs_find_ber_loop depth False cbs)"

declare cbs_find_ber_loop.simps [simp del]

section \<open>The conversion\<close>

definition is_eoc :: "nat \<Rightarrow> CBS \<Rightarrow> bool" where
  "is_eoc header_len contents \<longleftrightarrow> header_len = 2 \<and> CBS_len contents = 2 \<and> CBS_data contents = [0, 0]"

fun cbs_convert_ber :: "nat \<Rightarrow> nat \<Rightarrow> u32 \<Rightarrow> bool \<Rightarrow> nat \<Rightarrow> CBS \<Rightarrow> (CBB, CBS) op" where
  "cbs_convert_ber 0 out string_tag looking_for_eoc depth cbs = opfail"
| "cbs_convert_ber (Suc fuel) out string_tag looking_for_eoc depth cbs =
    (if depth > kMaxDepth then opfail
     else if CBS_len cbs > 0 then
       case CBS_get_any_ber_asn1_element cbs of
         (None, _) \<Rightarrow> opfail
       | (Some (contents, tag, header_len), cbs) \<Rightarrow>
           if is_eoc header_len contents then (if looking_for_eoc then opret cbs else opfail)
           else if string_tag \<noteq> 0 \<and> primitive_tag tag \<noteq> string_tag then opfail
           else
             let fragment = string_tag \<noteq> 0;
                 joined = \<not> fragment \<and> is_constructed tag \<and> is_string_type tag;
                 out_tag = (if joined then primitive_tag tag else tag);
                 child_string_tag = (if joined then out_tag else string_tag);
                 out_contents = (if fragment then out else Suc out) in
             opbind (if fragment then opret () else CBB_add_asn1 out out_tag) (\<lambda>_.
               if is_indefinite contents header_len then
                 opbind (cbs_convert_ber fuel out_contents child_string_tag True (depth + 1) cbs) (\<lambda>cbs.
                 opbind (CBB_flush out) (\<lambda>_.
                 cbs_convert_ber fuel out string_tag looking_for_eoc depth cbs))
               else case CBS_skip header_len contents of
                 (None, _) \<Rightarrow> opfail
               | (Some _, contents) \<Rightarrow>
                   opbind (if is_constructed tag
                           then opbind (cbs_convert_ber fuel out_contents child_string_tag False (depth + 1) contents)
                                  (\<lambda>_. opret ())
                           else CBB_add_bytes out_contents contents) (\<lambda>_.
                   opbind (CBB_flush out) (\<lambda>_.
                   cbs_convert_ber fuel out string_tag looking_for_eoc depth cbs)))
     else (if looking_for_eoc then opfail else opret cbs))"

definition CBS_asn1_ber_to_der :: "(nat \<Rightarrow> bool) \<Rightarrow> (CBS, CBS \<times> bytes option) op" where
  "CBS_asn1_ber_to_der mem cbs =
    (case cbs_find_ber cbs 0 of
       None \<Rightarrow> (None, cbs)
     | Some False \<Rightarrow> opbind CBS_get_any_asn1_element (\<lambda>(out, _, _). opret (out, None)) cbs
     | Some True \<Rightarrow>
         (case CBB_init mem (CBS_len cbs) of
            (False, _) \<Rightarrow> (None, cbs)
          | (True, cbb) \<Rightarrow>
              (case cbs_convert_ber (Suc (length cbs)) 0 0 False 0 cbs cbb of
                 (None, _) \<Rightarrow> (None, cbs)
               | (Some rest, cbb) \<Rightarrow>
                   (case CBB_finish True 0 cbb of
                      (None, _) \<Rightarrow> (None, rest)
                    | (Some storage, _) \<Rightarrow> (Some (CBS_init storage (length storage), Some storage), rest)))))"

fun implicit_string_chunks :: "nat \<Rightarrow> u32 \<Rightarrow> CBS \<Rightarrow> (CBB, unit) op" where
  "implicit_string_chunks 0 inner_tag child = opfail"
| "implicit_string_chunks (Suc fuel) inner_tag child =
    (if CBS_len child > 0 then
       (case CBS_get_asn1 inner_tag child of
          (None, _) \<Rightarrow> opfail
        | (Some chunk, child) \<Rightarrow>
            opbind (CBB_add_bytes 0 (CBS_data chunk)) (\<lambda>_. implicit_string_chunks fuel inner_tag child))
     else opret ())"

definition CBS_get_asn1_implicit_string :: "(nat \<Rightarrow> bool) \<Rightarrow> u32 \<Rightarrow> u32 \<Rightarrow> (CBS, CBS \<times> bytes option) op" where
  "CBS_get_asn1_implicit_string mem outer_tag inner_tag cbs =
    (if CBS_peek_asn1_tag cbs outer_tag
     then opbind (CBS_get_asn1 outer_tag) (\<lambda>out. opret (out, None)) cbs
     else case CBB_init mem (CBS_len cbs) of
       (False, _) \<Rightarrow> (None, cbs)
     | (True, result) \<Rightarrow>
         (case CBS_get_asn1 (outer_tag OR CBS_ASN1_CONSTRUCTED) cbs of
            (None, cbs) \<Rightarrow> (None, cbs)
          | (Some child, cbs) \<Rightarrow>
              (case opbind (implicit_string_chunks (Suc (length child)) inner_tag child) (\<lambda>_. CBB_finish True 0) result of
                 (None, _) \<Rightarrow> (None, cbs)
               | (Some data, _) \<Rightarrow> (Some (CBS_init data (length data), Some data), cbs))))"

section \<open>DER and the meaning of BER\<close>

inductive der_seq :: "bytes \<Rightarrow> bool" where
  Nil: "der_seq []"
| Prim: "\<lbrakk>\<not> is_constructed tag; length body < 2 ^ 32; der_seq rest\<rbrakk> \<Longrightarrow>
    der_seq (der_header tag (length body) @ body @ rest)"
| Cons: "\<lbrakk>is_constructed tag; \<not> is_string_type tag; der_seq body; length body < 2 ^ 32; der_seq rest\<rbrakk> \<Longrightarrow>
    der_seq (der_header tag (length body) @ body @ rest)"

text \<open>
  \<open>ber_der st eoc i o\<close>: the input \<open>i\<close> is a sequence of BER elements (ending with an
  end-of-contents element when \<open>eoc\<close> is set) that stands for the bytes \<open>o\<close>: a sequence of DER
  elements when \<open>st\<close> is 0, else the joined fragments of a string with tag \<open>st\<close>.
\<close>

definition string_join :: "u32 \<Rightarrow> u32 \<Rightarrow> u32 \<times> u32" where
  "string_join st tag =
     (if st = 0 \<and> is_string_type tag then (primitive_tag tag, primitive_tag tag) else (tag, st))"

inductive ber_der :: "u32 \<Rightarrow> bool \<Rightarrow> bytes \<Rightarrow> bytes \<Rightarrow> bool" where
  End: "ber_der st False [] []"
| Eoc: "ber_der st True [0, 0] []"
| Prim: "\<lbrakk>\<not> is_constructed tag; tag \<noteq> 0 \<or> body \<noteq> []; st \<noteq> 0 \<longrightarrow> primitive_tag tag = st; length body < 2 ^ 32; ber_der st eoc i o'\<rbrakk> \<Longrightarrow>
    ber_der st eoc (der_header tag (length body) @ body @ i)
      ((if st \<noteq> 0 then body else der_header tag (length body) @ body) @ o')"
| Definite: "\<lbrakk>is_constructed tag; length body < 2 ^ 32; st \<noteq> 0 \<longrightarrow> primitive_tag tag = st;
    string_join st tag = (out_tag, st'); ber_der st' False body ob; st = 0 \<longrightarrow> length ob < 2 ^ 32; ber_der st eoc i o'\<rbrakk> \<Longrightarrow>
    ber_der st eoc (der_header tag (length body) @ body @ i)
      ((if st \<noteq> 0 then ob else der_header out_tag (length ob) @ ob) @ o')"
| Indefinite: "\<lbrakk>is_constructed tag; st \<noteq> 0 \<longrightarrow> primitive_tag tag = st;
    string_join st tag = (out_tag, st'); ber_der st' True body ob; st = 0 \<longrightarrow> length ob < 2 ^ 32; ber_der st eoc i o'\<rbrakk> \<Longrightarrow>
    ber_der st eoc (indefinite_header tag @ body @ i)
      ((if st \<noteq> 0 then ob else der_header out_tag (length ob) @ ob) @ o')"

lemmas ber_forms = CBS_len_def CBS_data_def CBS_skip_eq

lemma ber_element_cases:
  assumes "CBS_get_any_ber_asn1_element cbs = (Some (contents, tag, hl), rest)"
  obtains (definite) body where "length body < 2 ^ 32" and "cbs = der_header tag (length body) @ body @ rest"
      and "contents = der_header tag (length body) @ body" and "hl = length (der_header tag (length body))"
      and "\<not> is_indefinite contents hl" and "CBS_skip hl contents = (Some (), body)"
      and "is_eoc hl contents \<longleftrightarrow> tag = 0 \<and> body = []"
    | (indefinite) "is_constructed tag" and "cbs = indefinite_header tag @ rest" and "is_indefinite contents hl"
      and "\<not> is_eoc hl contents"
proof -
  from assms consider "CBS_get_any_asn1_element cbs = (Some (contents, tag, hl), rest)"
    | "is_constructed tag" "contents = indefinite_header tag" "hl = length contents" "cbs = contents @ rest"
    by (auto simp: ber_element_iff)
  then show ?thesis
  proof cases
    case 1
    then obtain body where body: "length body < 2 ^ 32" "cbs = contents @ rest"
      "contents = der_header tag (length body) @ body" "hl = length (der_header tag (length body))"
      unfolding CBS_get_any_asn1_element_iff by blast
    have ni: "\<not> is_indefinite contents hl"
    proof
      assume "is_indefinite contents hl"
      then have "body = []" and "last (der_header tag 0) = 0x80"
        using body by (auto simp: is_indefinite_def ber_forms last_conv_nth)
      then show False by (simp add: der_header_def der_length_def)
    qed
    have eoc: "is_eoc hl contents \<longleftrightarrow> tag = 0 \<and> body = []"
    proof
      assume e: "is_eoc hl contents"
      then have "body = []" "der_header tag 0 = [0, 0]" using body by (auto simp: is_eoc_def ber_forms)
      moreover have "der_header 0 0 = [0, 0]" by code_simp
      ultimately show "tag = 0 \<and> body = []"
        using der_tag_append_inj [of tag "der_length 0" 0 "der_length 0"] by (simp add: der_header_def)
    next
      assume "tag = 0 \<and> body = []"
      moreover have "der_header 0 0 = [0, 0]" by code_simp
      ultimately show "is_eoc hl contents" using body by (simp add: is_eoc_def ber_forms)
    qed
    show ?thesis
      using definite [OF body(1) _ body(3,4) ni _ eoc] body by (simp add: CBS_skip_eq)
  next
    case 2
    have "is_indefinite contents hl" using 2 by (simp add: is_indefinite_def ber_forms indefinite_header_def nth_append)
    moreover have "\<not> is_eoc hl contents"
      using 2 by (auto simp: is_eoc_def ber_forms indefinite_header_def)
    ultimately show ?thesis using indefinite 2 by simp
  qed
qed

section \<open>Soundness\<close>

definition convert_open :: "u32 \<Rightarrow> nat \<Rightarrow> u32 \<Rightarrow> (CBB, unit) op" where
  "convert_open st d out_tag = (if st \<noteq> 0 then opret () else CBB_add_asn1 d out_tag)"

definition convert_target :: "u32 \<Rightarrow> nat \<Rightarrow> nat" where
  "convert_target st d = (if st \<noteq> 0 then d else Suc d)"

lemma convert_cases:
  assumes "cbs_convert_ber (Suc fuel) d st look depth cbs s = (Some rest, t)"
  obtains (fin) "cbs = []" "\<not> look" "rest = []" "t = s"
    | (eoc) "look" "cbs = [0, 0] @ rest" "t = s"
    | (prim) tag body cbs' s1 s2 s3 where "\<not> is_constructed tag" "tag \<noteq> 0 \<or> body \<noteq> []" "st \<noteq> 0 \<longrightarrow> primitive_tag tag = st"
        "length body < 2 ^ 32" "cbs = der_header tag (length body) @ body @ cbs'"
        "convert_open st d tag s = (Some (), s1)" "CBB_add_bytes (convert_target st d) body s1 = (Some (), s2)"
        "CBB_flush d s2 = (Some (), s3)" "cbs_convert_ber fuel d st look depth cbs' s3 = (Some rest, t)"
    | (cons) tag body cbs' out_tag st' r s1 s2 s3 where "is_constructed tag" "st \<noteq> 0 \<longrightarrow> primitive_tag tag = st"
        "string_join st tag = (out_tag, st')"
        "length body < 2 ^ 32" "cbs = der_header tag (length body) @ body @ cbs'"
        "convert_open st d out_tag s = (Some (), s1)"
        "cbs_convert_ber fuel (convert_target st d) st' False (depth + 1) body s1 = (Some r, s2)"
        "CBB_flush d s2 = (Some (), s3)" "cbs_convert_ber fuel d st look depth cbs' s3 = (Some rest, t)"
    | (indef) tag cbs1 cbs' out_tag st' s1 s2 s3 where "is_constructed tag" "st \<noteq> 0 \<longrightarrow> primitive_tag tag = st"
        "string_join st tag = (out_tag, st')" "cbs = indefinite_header tag @ cbs1"
        "convert_open st d out_tag s = (Some (), s1)"
        "cbs_convert_ber fuel (convert_target st d) st' True (depth + 1) cbs1 s1 = (Some cbs', s2)"
        "CBB_flush d s2 = (Some (), s3)" "cbs_convert_ber fuel d st look depth cbs' s3 = (Some rest, t)"
proof (cases "cbs = []")
  case True
  with assms fin show ?thesis by (auto simp: ber_forms op_iffs split: if_splits)
next
  case False
  with assms obtain contents tag hl cbs' where e: "CBS_get_any_ber_asn1_element cbs = (Some (contents, tag, hl), cbs')"
    by (auto simp: ber_forms op_iffs split: if_splits prod.splits option.splits)
  define joined where "joined \<longleftrightarrow> st = 0 \<and> is_constructed tag \<and> is_string_type tag"
  have join: "(if joined then primitive_tag tag else tag, if joined then primitive_tag tag else st) =
      (if is_constructed tag then string_join st tag else (tag, st))"
    by (auto simp: joined_def string_join_def)
  note a = assms [unfolded cbs_convert_ber.simps e prod.case option.case Let_def]
  show ?thesis
  proof (cases "is_eoc hl contents")
    case True
    with a False have "look" "rest = cbs'" "t = s" by (auto simp: ber_forms op_iffs split: if_splits)
    moreover have "contents = [0, 0]" using True by (simp add: is_eoc_def ber_forms)
    ultimately show ?thesis using eoc ber_element_lengths(1) [OF e] by simp
  next
    case ne: False
    with a False have st: "st \<noteq> 0 \<longrightarrow> primitive_tag tag = st" by (auto simp: ber_forms op_iffs split: if_splits)
    let ?ot = "if joined then primitive_tag tag else tag" and ?st = "if joined then primitive_tag tag else st"
    let ?oc = "convert_target st d"
    have a2: "opbind (convert_open st d ?ot) (\<lambda>_.
         if is_indefinite contents hl then
           opbind (cbs_convert_ber fuel ?oc ?st True (depth + 1) cbs') (\<lambda>cbs.
           opbind (CBB_flush d) (\<lambda>_. cbs_convert_ber fuel d st look depth cbs))
         else case CBS_skip hl contents of
           (None, _) \<Rightarrow> opfail
         | (Some _, contents) \<Rightarrow>
             opbind (if is_constructed tag
                     then opbind (cbs_convert_ber fuel ?oc ?st False (depth + 1) contents) (\<lambda>_. opret ())
                     else CBB_add_bytes ?oc contents) (\<lambda>_.
             opbind (CBB_flush d) (\<lambda>_. cbs_convert_ber fuel d st look depth cbs'))) s = (Some rest, t)"
      using a False ne st unfolding joined_def convert_open_def convert_target_def
      by (auto simp: ber_forms opfail_def split: if_splits)
    then obtain s1 where s1: "convert_open st d ?ot s = (Some (), s1)" by (auto simp: opbind_Some_iff)
    from e show ?thesis
    proof (cases rule: ber_element_cases)
      case (definite body)
      note tail = a2 [unfolded if_not_P [OF definite(5)] definite(6) prod.case option.case]
      show ?thesis
      proof (cases "is_constructed tag")
        case True
        then obtain r s2 s3 where "cbs_convert_ber fuel ?oc ?st False (depth + 1) body s1 = (Some r, s2)"
          "CBB_flush d s2 = (Some (), s3)" "cbs_convert_ber fuel d st look depth cbs' s3 = (Some rest, t)"
          using tail s1 by (auto simp: op_iffs)
        moreover have "string_join st tag = (?ot, ?st)" using join True by (simp only: if_True)
        ultimately show ?thesis using cons [OF True st _ definite(1,2) s1] by blast
      next
        case nc: False
        then obtain s2 s3 where "CBB_add_bytes ?oc body s1 = (Some (), s2)"
          "CBB_flush d s2 = (Some (), s3)" "cbs_convert_ber fuel d st look depth cbs' s3 = (Some rest, t)"
          using tail s1 by (auto simp: op_iffs)
        moreover have "\<not> joined" "tag \<noteq> 0 \<or> body \<noteq> []" using nc ne definite(7) by (auto simp: joined_def)
        ultimately show ?thesis using prim [OF nc _ st definite(1,2)] s1 by simp
      qed
    next
      case indefinite
      note tail = a2 [unfolded if_P [OF indefinite(3)]]
      then obtain cbs2 s2 s3 where "cbs_convert_ber fuel ?oc ?st True (depth + 1) cbs' s1 = (Some cbs2, s2)"
        "CBB_flush d s2 = (Some (), s3)" "cbs_convert_ber fuel d st look depth cbs2 s3 = (Some rest, t)"
        using s1 by (auto simp: op_iffs)
      moreover have "string_join st tag = (?ot, ?st)" using join indefinite(1) by (simp only: if_True)
      ultimately show ?thesis using indef [OF indefinite(1) st _ indefinite(2) s1] by blast
    qed
  qed
qed

lemma convert_open_close:
  assumes h: "handle_ok d s" and o: "convert_open st d out_tag s = (Some (), s1)"
    and b: "handle_ok (convert_target st d) s1 \<Longrightarrow> handle_ok (convert_target st d) s2 \<and>
      handle_content (convert_target st d) s2 = handle_content (convert_target st d) s1 @ body \<and>
      handle_frame (convert_target st d) s2 = handle_frame (convert_target st d) s1"
    and f: "CBB_flush d s2 = (Some (), s3)"
  shows "handle_ok d s3" and "handle_frame d s3 = handle_frame d s"
    and "handle_content d s3 = handle_content d s @ (if st \<noteq> 0 then body else der_header out_tag (length body) @ body)"
    and "st = 0 \<longrightarrow> length body < 2 ^ 32"
proof -
  have "handle_ok d s3 \<and> handle_frame d s3 = handle_frame d s \<and>
    handle_content d s3 = handle_content d s @ (if st \<noteq> 0 then body else der_header out_tag (length body) @ body) \<and>
    (st = 0 \<longrightarrow> length body < 2 ^ 32)"
  proof (cases "st = 0")
    case True
    then have a: "CBB_add_asn1 d out_tag s = (Some (), s1)" using o by (simp add: convert_open_def)
    note 1 = CBB_add_asn1_Some [OF h a]
    have d: "d < length (cbb_levels s)" using h length_cbb_levels by (simp add: handle_ok_def)
    have s2: "handle_ok (Suc d) s2" "handle_frame (Suc d) s2 = handle_frame (Suc d) s1"
      "handle_content (Suc d) s2 = handle_content (Suc d) s1 @ body"
      using b [unfolded convert_target_def] True closed_at_handle [OF 1(1)] by simp_all
    have "handle_content (Suc d) s1 = []"
      using 1(2) d by (simp add: handle_content_def level_content_def level_append_def nth_append)
    then have c: "handle_content (Suc d) s2 = body" using s2(3) by simp
    show ?thesis
      using close_child [OF h 1(2,3) s2(1,2) f] True unfolding c
      by (simp add: closed_at_handle der_header_def)
  next
    case False
    then have "s1 = s" using o by (simp add: convert_open_def opret_def)
    then have s2: "handle_ok d s2" "handle_frame d s2 = handle_frame d s" "handle_content d s2 = handle_content d s @ body"
      using b [unfolded convert_target_def] False h by simp_all
    note fl = CBB_flush_closed [OF s2(1) f]
    have len: "d < length (cbb_levels s2)" using s2(1) length_cbb_levels by (simp add: handle_ok_def)
    have "handle_content d s3 = handle_content d s2" "handle_frame d s3 = handle_frame d s2"
      using fl(2,3) len by (simp_all add: handle_content_def handle_frame_def level_append_frame)
    then show ?thesis using s2 False closed_at_handle [OF fl(1)] by simp
  qed
  then show "handle_ok d s3" and "handle_frame d s3 = handle_frame d s"
    and "handle_content d s3 = handle_content d s @ (if st \<noteq> 0 then body else der_header out_tag (length body) @ body)"
    and "st = 0 \<longrightarrow> length body < 2 ^ 32" by auto
qed

lemma convert_sound:
  assumes "handle_ok d s" and "cbs_convert_ber fuel d st look depth cbs s = (Some rest, t)"
  shows "\<exists>i o'. cbs = i @ rest \<and> ber_der st look i o' \<and> (\<not> look \<longrightarrow> rest = []) \<and> handle_ok d t \<and>
    handle_frame d t = handle_frame d s \<and> handle_content d t = handle_content d s @ o'"
  using assms
proof (induction fuel arbitrary: d st look depth cbs s rest t)
  case 0
  then show ?case by (simp add: opfail_def)
next
  case (Suc fuel)
  note IH = Suc.IH
  note h = Suc.prems(1)
  from Suc.prems(2) show ?case
  proof (cases rule: convert_cases)
    case fin
    then show ?thesis using h by (intro exI [of _ "[]"]) (auto intro: ber_der.intros)
  next
    case eoc
    then show ?thesis using h by (intro exI [of _ "[0, 0]"] exI [of _ "[]"]) (auto intro: ber_der.intros)
  next
    case (prim tag body cbs' s1 s2 s3)
    have sz: "length body < SIZE_MOD" using prim(4) by simp
    note c = convert_open_close [OF h prim(6) cbb_sink.put_Some [OF _ sz prim(7)] prim(8)]
    from IH [OF c(1) prim(9)] obtain i o' where r: "cbs' = i @ rest" "ber_der st look i o'" "\<not> look \<longrightarrow> rest = []"
      "handle_ok d t" "handle_frame d t = handle_frame d s3" "handle_content d t = handle_content d s3 @ o'" by blast
    show ?thesis
      using r c prim(5) ber_der.Prim [OF prim(1-4) r(2)]
      by (intro exI [of _ "der_header tag (length body) @ body @ i"]
          exI [of _ "(if st \<noteq> 0 then body else der_header tag (length body) @ body) @ o'"]) simp
  next
    case (cons tag body cbs' out_tag st' r s1 s2 s3)
    define ob where "ob = drop (length (handle_content (convert_target st d) s1)) (handle_content (convert_target st d) s2)"
    have inner: "\<exists>ob'. ber_der st' False body ob' \<and> handle_ok (convert_target st d) s2 \<and>
      handle_frame (convert_target st d) s2 = handle_frame (convert_target st d) s1 \<and>
      handle_content (convert_target st d) s2 = handle_content (convert_target st d) s1 @ ob'"
      if "handle_ok (convert_target st d) s1" using IH [OF that cons(7)] by auto
    have h1: "handle_ok (convert_target st d) s1"
      using cons(6) h closed_at_handle [OF CBB_add_asn1_Some(1) [OF h]]
      by (auto simp: convert_open_def convert_target_def opret_def split: if_splits)
    from inner [OF h1] have ob: "ber_der st' False body ob"
      "handle_ok (convert_target st d) s2 \<and> handle_content (convert_target st d) s2 = handle_content (convert_target st d) s1 @ ob \<and>
       handle_frame (convert_target st d) s2 = handle_frame (convert_target st d) s1"
      by (auto simp: ob_def)
    note c = convert_open_close [OF h cons(6) ob(2) cons(8)]
    from IH [OF c(1) cons(9)] obtain i o' where r: "cbs' = i @ rest" "ber_der st look i o'" "\<not> look \<longrightarrow> rest = []"
      "handle_ok d t" "handle_frame d t = handle_frame d s3" "handle_content d t = handle_content d s3 @ o'" by blast
    show ?thesis
      using r c cons(5) ber_der.Definite [OF cons(1,4,2,3) ob(1) c(4) r(2)]
      by (intro exI [of _ "der_header tag (length body) @ body @ i"]
          exI [of _ "(if st \<noteq> 0 then ob else der_header out_tag (length ob) @ ob) @ o'"]) simp
  next
    case (indef tag cbs1 cbs' out_tag st' s1 s2 s3)
    have h1: "handle_ok (convert_target st d) s1"
      using indef(5) h closed_at_handle [OF CBB_add_asn1_Some(1) [OF h]]
      by (auto simp: convert_open_def convert_target_def opret_def split: if_splits)
    from IH [OF h1 indef(6)] obtain body ob where ob: "cbs1 = body @ cbs'" "ber_der st' True body ob"
      "handle_ok (convert_target st d) s2 \<and> handle_content (convert_target st d) s2 = handle_content (convert_target st d) s1 @ ob \<and>
       handle_frame (convert_target st d) s2 = handle_frame (convert_target st d) s1"
      by blast
    note c = convert_open_close [OF h indef(5) ob(3) indef(7)]
    from IH [OF c(1) indef(8)] obtain i o' where r: "cbs' = i @ rest" "ber_der st look i o'" "\<not> look \<longrightarrow> rest = []"
      "handle_ok d t" "handle_frame d t = handle_frame d s3" "handle_content d t = handle_content d s3 @ o'" by blast
    show ?thesis
      using r c indef(4) ob(1) ber_der.Indefinite [OF indef(1-3) ob(2) c(4) r(2)]
      by (intro exI [of _ "indefinite_header tag @ body @ i"]
          exI [of _ "(if st \<noteq> 0 then ob else der_header out_tag (length ob) @ ob) @ o'"]) simp
  qed
qed

section \<open>Enough fuel\<close>

lemma convert_shorter:
  "cbs_convert_ber fuel d st look depth cbs s = (Some rest, t) \<Longrightarrow> length rest \<le> length cbs"
proof (induction fuel arbitrary: d st look depth cbs s rest t)
  case (Suc fuel)
  from Suc.prems show ?case
  proof (cases rule: convert_cases)
    case (indef tag cbs1 cbs' out_tag st' s1 s2 s3)
    then show ?thesis using Suc.IH [OF indef(6)] Suc.IH [OF indef(8)] by simp
  qed (auto dest: Suc.IH)
qed (simp add: opfail_def)

lemma convert_enough_fuel:
  "length cbs < fuel \<Longrightarrow> length cbs < fuel' \<Longrightarrow>
    cbs_convert_ber fuel d st look depth cbs = cbs_convert_ber fuel' d st look depth cbs"
proof (induction fuel arbitrary: fuel' d st look depth cbs)
  case (Suc fuel)
  then obtain f' where f': "fuel' = Suc f'" by (cases fuel') auto
  have A: "cbs_convert_ber fuel oc st' b dep x = cbs_convert_ber f' oc st' b dep x"
    if "length x < length cbs" for oc st' b dep x
    using Suc that f' by (intro Suc.IH) simp_all
  have B: "opbind (cbs_convert_ber fuel oc st' b dep x) (\<lambda>c. opbind (CBB_flush d) (\<lambda>_. cbs_convert_ber fuel d st look depth c)) =
      opbind (cbs_convert_ber f' oc st' b dep x) (\<lambda>c. opbind (CBB_flush d) (\<lambda>_. cbs_convert_ber f' d st look depth c))"
    if x: "length x < length cbs" for oc st' b dep x
  proof (rule ext, rule opbind_cong [OF _ refl])
    fix s c t
    show "cbs_convert_ber fuel oc st' b dep x s = cbs_convert_ber f' oc st' b dep x s" using A [OF x] by simp
    assume "cbs_convert_ber f' oc st' b dep x s = (Some c, t)"
    then have "length c < length cbs" using convert_shorter x by fastforce
    then show "opbind (CBB_flush d) (\<lambda>_. cbs_convert_ber fuel d st look depth c) t =
        opbind (CBB_flush d) (\<lambda>_. cbs_convert_ber f' d st look depth c) t"
      using A by simp
  qed
  show ?case
  proof (cases "CBS_get_any_ber_asn1_element cbs")
    case (Pair r cbs')
    show ?thesis
    proof (cases r)
      case None
      then show ?thesis using Pair by (simp add: f')
    next
      case (Some q)
      obtain contents tag hl where q: "q = (contents, tag, hl)" by (cases q)
      note len = ber_element_lengths [OF Pair [unfolded Some q]]
      have c: "length cbs' < length cbs" "length (drop hl contents) < length cbs"
        using len(2-4) arg_cong [OF len(1), of length] by auto
      show ?thesis
        unfolding f' cbs_convert_ber.simps Pair Some q prod.case option.case Let_def
          CBS_skip_eq if_P [OF len(3)] B [OF c(1)]
        unfolding A [OF c(1)] A [OF c(2)] ..
    qed
  qed
qed simp

section \<open>DER needs no conversion\<close>

lemma not_constructed_primitive [simp]: "\<not> is_constructed (primitive_tag tag)"
proof -
  have "primitive_tag tag AND CBS_ASN1_CONSTRUCTED = 0"
    unfolding primitive_tag_def by (rule bit_eqI) (auto simp: bit_simps)
  then show ?thesis by (simp add: is_constructed_def)
qed

lemma ber_der_der_seq: "ber_der st eoc i o' \<Longrightarrow> st = 0 \<Longrightarrow> der_seq o'"
proof (induction rule: ber_der.induct)
  case (Prim tag body st eoc i o')
  then show ?case using der_seq.Prim [of tag body o'] by simp
next
  case (Definite tag body st out_tag st' ob eoc i o')
  then show ?case
    using der_seq.Prim [of out_tag ob o'] der_seq.Cons [of out_tag ob o']
    by (auto simp: string_join_def split: if_splits)
next
  case (Indefinite tag st out_tag st' body ob eoc i o')
  then show ?case
    using der_seq.Prim [of out_tag ob o'] der_seq.Cons [of out_tag ob o']
    by (auto simp: string_join_def split: if_splits)
qed (auto intro: der_seq.intros)


lemma find_ber_Nil: "cbs_find_ber_loop depth found [] = Some found"
  by (subst cbs_find_ber_loop.simps) (simp add: CBS_len_def)

lemma find_ber_indefinite:
  "is_constructed tag \<Longrightarrow> cbs_find_ber_loop depth found (indefinite_header tag @ rest) = Some True"
proof -
  assume "is_constructed tag"
  then have "CBS_get_any_ber_asn1_element (indefinite_header tag @ rest) =
      (Some (indefinite_header tag, tag, length (indefinite_header tag)), rest)"
    by (simp add: ber_element_iff)
  then show ?thesis
    by (subst cbs_find_ber_loop.simps) (simp add: CBS_len_def CBS_data_def is_indefinite_def indefinite_header_def nth_append)
qed

lemma find_ber_definite:
  assumes "length body < 2 ^ 32"
  shows "cbs_find_ber_loop depth found (der_header tag (length body) @ body @ rest) =
    (if is_constructed tag then
       if is_string_type tag then Some True
       else if depth + 1 > kMaxDepth then None
       else case cbs_find_ber_loop (depth + 1) False body of
              None \<Rightarrow> None
            | Some found \<Rightarrow> cbs_find_ber_loop depth found rest
     else cbs_find_ber_loop depth found rest)"
proof -
  let ?h = "der_header tag (length body)"
  have e: "CBS_get_any_ber_asn1_element (?h @ body @ rest) = (Some (?h @ body, tag, length ?h), rest)"
    using get_element_ok [OF assms] by (simp add: ber_element_iff)
  have ne: "?h \<noteq> []" by (simp add: der_header_def der_length_def)
  have ni: "\<not> is_indefinite (?h @ body) (length ?h)"
    using e
  proof (cases rule: ber_element_cases)
    case indefinite
    then have "der_length (length body) @ body = [0x80]"
      by (simp add: der_header_def indefinite_header_def)
    then show ?thesis by (auto simp: der_length_def be_nat_single split: if_splits)
  qed
  have "CBS_skip (length ?h) (?h @ body) = (Some (), body)" by (simp add: CBS_skip_eq)
  with e ni ne show ?thesis
    by (subst cbs_find_ber_loop.simps) (simp add: CBS_len_def split: option.splits)
qed

section \<open>Implicitly tagged strings\<close>

lemma implicit_string_chunks_Some:
  "handle_ok 0 s \<Longrightarrow> implicit_string_chunks fuel inner_tag child s = (Some u, t) \<Longrightarrow>
    \<exists>chunks. child = concat (map (\<lambda>c. der_header inner_tag (length c) @ c) chunks) \<and> handle_ok 0 t \<and>
      handle_content 0 t = handle_content 0 s @ concat chunks"
proof (induction fuel arbitrary: child s)
  case 0
  then show ?case by (simp add: opfail_def)
next
  case (Suc fuel)
  show ?case
  proof (cases "child = []")
    case True
    with Suc.prems show ?thesis by (intro exI [of _ "[]"]) (simp add: ber_forms opret_def)
  next
    case False
    with Suc.prems(2) obtain chunk rest v s1 where g: "CBS_get_asn1 inner_tag child = (Some chunk, rest)"
      and a: "CBB_add_bytes 0 chunk s = (Some v, s1)" and r: "implicit_string_chunks fuel inner_tag rest s1 = (Some u, t)"
      by (auto simp: ber_forms op_iffs split: prod.splits option.splits)
    have c: "length chunk < 2 ^ 32" "child = der_header inner_tag (length chunk) @ chunk @ rest"
      using g by (simp_all add: CBS_get_asn1_iff)
    have sz: "length chunk < SIZE_MOD" using c by simp
    note p = cbb_sink.put_Some [OF Suc.prems(1) sz a]
    from Suc.IH [OF _ r] p obtain chunks where "rest = concat (map (\<lambda>c. der_header inner_tag (length c) @ c) chunks)"
      "handle_ok 0 t" "handle_content 0 t = handle_content 0 s1 @ concat chunks" by blast
    with c p show ?thesis by (intro exI [of _ "chunk # chunks"]) simp
  qed
qed


section \<open>Properties\<close>

text \<open>C10: When \<open>CBS_asn1_ber_to_der\<close> converts, its result is DER throughout (definite minimal
  lengths and no constructed strings at any depth) and it is the DER that the whole input stands
  for: indefinite lengths closed by their end-of-contents, fragments of strings joined in order.\<close>

theorem CBS_asn1_ber_to_der_converts:
  assumes "CBS_asn1_ber_to_der mem cbs = (Some (out, Some storage), rest)" and "length cbs < SIZE_MOD"
  shows "out = storage \<and> rest = [] \<and> ber_der 0 False cbs out \<and> der_seq out"
proof -
  obtain cbb cbb2 cbb3 where i: "CBB_init mem (length cbs) = (True, cbb)"
    and c: "cbs_convert_ber (Suc (length cbs)) 0 0 False 0 cbs cbb = (Some rest, cbb2)"
    and f: "CBB_finish True 0 cbb2 = (Some storage, cbb3)" and o: "out = storage"
    using assms(1)
    by (auto simp: CBS_asn1_ber_to_der_def ber_forms CBS_init_def op_iffs
        split: option.splits bool.splits prod.splits)
  note init = CBB_init_ok [OF i assms(2)]
  have h: "handle_ok 0 cbb" using init by (simp add: handle_ok_def)
  from convert_sound [OF h c] obtain i' o' where s: "cbs = i' @ rest" "ber_der 0 False i' o'" "rest = []"
    "handle_ok 0 cbb2" "handle_content 0 cbb2 = handle_content 0 cbb @ o'" by auto
  have "storage = o'"
    using CBB_finish_Some(2) [OF _ f] s(4,5) init
    by (simp add: handle_ok_def handle_content_def level_content_def)
  then show ?thesis using o s ber_der_der_seq by simp
qed

definition ber_sample :: bytes where
  "ber_sample = [0x24, 0x80, 4, 1, 7, 0, 0]"

lemma CBS_asn1_ber_to_der_converts_witness:
  "fst (CBS_asn1_ber_to_der (\<lambda>_. True) ber_sample) = Some ([4, 1, 7], Some [4, 1, 7]) \<and>
   ber_der 0 False ber_sample [4, 1, 7] \<and> der_seq [4, 1, 7]"
proof -
  have f: "fst (CBS_asn1_ber_to_der (\<lambda>_. True) ber_sample) = Some ([4, 1, 7], Some [4, 1, 7])"
    by code_simp
  then obtain rest where r: "CBS_asn1_ber_to_der (\<lambda>_. True) ber_sample =
      (Some ([4, 1, 7], Some [4, 1, 7]), rest)"
    by (metis prod.collapse)
  have "length ber_sample < SIZE_MOD" by (simp add: ber_sample_def)
  from CBS_asn1_ber_to_der_converts [OF r this] f show ?thesis by simp
qed




lemma missed_headers:
  "der_header 0x20000010 8 = [0x30, 8]" "der_header 0x20000010 4 = [0x30, 4]" "der_header 0x20000010 0 = [0x30, 0]"
  "indefinite_header 0x20000010 = [0x30, 0x80]" "is_constructed 0x20000010" "\<not> is_string_type 0x20000010"
  by code_simp+

lemma missed_headers_Suc:
  "der_header 0x20000010 (Suc (Suc (Suc (Suc (Suc (Suc (Suc (Suc 0)))))))) = [0x30, 8]"
  "der_header 0x20000010 (Suc (Suc (Suc (Suc 0)))) = [0x30, 4]"
  by code_simp+

lemma missed_finds:
  shows missed_inner: "cbs_find_ber_loop depth False [0x30, 0x80, 0, 0] = Some True"
    and missed_found: "depth < kMaxDepth \<Longrightarrow> cbs_find_ber_loop depth False [0x30, 4, 0x30, 0x80, 0, 0] = Some True"
    and missed_again: "depth < kMaxDepth \<Longrightarrow>
      cbs_find_ber_loop depth False [0x30, 4, 0x30, 0x80, 0, 0, 0x30, 0] = Some False"
proof -
  show a: "cbs_find_ber_loop depth False [0x30, 0x80, 0, 0] = Some True" for depth
    using find_ber_indefinite [where tag = "0x20000010" and rest = "[0, 0]"] by (simp add: missed_headers missed_headers_Suc)
  have e: "cbs_find_ber_loop depth found [0x30, 0] = Some False" if "depth < kMaxDepth" for depth found
    using find_ber_definite [of "[]" depth found "0x20000010" "[]"] that by (simp add: missed_headers missed_headers_Suc find_ber_Nil)
  show "cbs_find_ber_loop depth False [0x30, 4, 0x30, 0x80, 0, 0] = Some True" if "depth < kMaxDepth"
    using find_ber_definite [of "[0x30, 0x80, 0, 0]" depth False "0x20000010" "[]"] that
    by (simp add: missed_headers missed_headers_Suc a find_ber_Nil)
  show "cbs_find_ber_loop depth False [0x30, 4, 0x30, 0x80, 0, 0, 0x30, 0] = Some False" if "depth < kMaxDepth"
    using find_ber_definite [of "[0x30, 0x80, 0, 0]" depth False "0x20000010" "[0x30, 0]"] that
    by (simp add: missed_headers missed_headers_Suc a e)
qed



text \<open>An implicitly tagged string is the body of a primitive element with the outer tag, or the
  bodies of the chunks of a constructed one, joined in order; every chunk has the inner tag.\<close>

theorem CBS_get_asn1_implicit_string_joins:
  assumes "CBS_get_asn1_implicit_string mem outer_tag inner_tag cbs = (Some (out, storage), rest)"
    and "length cbs < SIZE_MOD"
  shows "(if storage = None then cbs = der_header outer_tag (length out) @ out @ rest
    else \<exists>chunks. out = concat chunks \<and>
      (let child = concat (map (\<lambda>c. der_header inner_tag (length c) @ c) chunks) in
       cbs = der_header (outer_tag OR CBS_ASN1_CONSTRUCTED) (length child) @ child @ rest))"
proof (cases "CBS_peek_asn1_tag cbs outer_tag")
  case True
  then have "storage = None" "CBS_get_asn1 outer_tag cbs = (Some out, rest)"
    using assms(1) by (auto simp: CBS_get_asn1_implicit_string_def op_iffs)
  then show ?thesis by (simp add: CBS_get_asn1_iff)
next
  case False
  obtain result where i: "CBB_init mem (length cbs) = (True, result)"
    using assms(1) False by (cases "CBB_init mem (length cbs)"; cases "fst (CBB_init mem (length cbs))")
      (simp_all add: CBS_get_asn1_implicit_string_def CBS_len_def)
  obtain child where g: "CBS_get_asn1 (outer_tag OR CBS_ASN1_CONSTRUCTED) cbs = (Some child, rest)"
    and r: "(case opbind (implicit_string_chunks (Suc (length child)) inner_tag child) (\<lambda>_. CBB_finish True 0) result of
       (None, _) \<Rightarrow> (None, rest)
     | (Some data, _) \<Rightarrow> (Some (CBS_init data (length data), Some data), rest)) = (Some (out, storage), rest)"
    using assms(1) False i by (simp add: CBS_get_asn1_implicit_string_def CBS_len_def split: prod.splits option.splits)
  obtain t where "opbind (implicit_string_chunks (Suc (length child)) inner_tag child) (\<lambda>_. CBB_finish True 0) result = (Some out, t)"
    and st: "storage = Some out"
    using r by (cases "opbind (implicit_string_chunks (Suc (length child)) inner_tag child) (\<lambda>_. CBB_finish True 0) result";
      cases "fst (opbind (implicit_string_chunks (Suc (length child)) inner_tag child) (\<lambda>_. CBB_finish True 0) result)")
      (simp_all add: CBS_init_def)
  then obtain s where c: "implicit_string_chunks (Suc (length child)) inner_tag child result = (Some (), s)"
    and f: "CBB_finish True 0 s = (Some out, t)" by (auto simp: opbind_Some_iff)
  note init = CBB_init_ok [OF i assms(2)]
  have h: "handle_ok 0 result" using init by (simp add: handle_ok_def)
  from implicit_string_chunks_Some [OF h c] obtain chunks
    where ch: "child = concat (map (\<lambda>c. der_header inner_tag (length c) @ c) chunks)" "handle_ok 0 s"
      "handle_content 0 s = handle_content 0 result @ concat chunks" by blast
  have "out = concat chunks"
    using CBB_finish_Some(2) [OF _ f] ch(2,3) init by (simp add: handle_ok_def handle_content_def level_content_def)
  moreover have "cbs = der_header (outer_tag OR CBS_ASN1_CONSTRUCTED) (length child) @ child @ rest"
    using g by (simp add: CBS_get_asn1_iff)
  ultimately show ?thesis using st ch(1) by (auto simp: Let_def)
qed

lemma CBS_get_asn1_implicit_string_joins_witness:
  "\<exists>chunks. [7, 8] = concat chunks \<and>
     (let child = concat (map (\<lambda>c. der_header 4 (length c) @ c) chunks) in
      [0xa1, 6, 4, 1, 7, 4, 1, 8] = der_header 0xa0000001 (length child) @ child)"
proof -
  have e: "CBS_get_asn1_implicit_string (\<lambda>_. True) 0x80000001 4 [0xa1, 6, 4, 1, 7, 4, 1, 8] = (Some ([7, 8], Some [7, 8]), [])"
    by code_simp
  have "(0x80000001 :: u32) OR CBS_ASN1_CONSTRUCTED = 0xa0000001" by code_simp
  with CBS_get_asn1_implicit_string_joins [OF e] show ?thesis by simp
qed

end
