(* ===== verification/Unicode.thy ===== *)
theory Unicode
  imports CbbAsn1
begin

text \<open>
  \<^verbatim>\<open>crypto/bytestring/unicode.c\<close>: code points read from and written to UTF-8, Latin-1, UCS-2
  and UTF-32. \<open>utf8\<close> is the specification, in arithmetic: the one shortest encoding of a code
  point. The reader accepts exactly it, so overlong, truncated and surrogate sequences fail.
\<close>

section \<open>The code\<close>

definition is_valid_code_point :: "u32 \<Rightarrow> bool" where
  "is_valid_code_point v \<longleftrightarrow>
     \<not> (v > 0x10ffff \<or> v AND 0xfffe = 0xfffe \<or> (v \<ge> 0xfdd0 \<and> v \<le> 0xfdef) \<or> (v \<ge> 0xd800 \<and> v \<le> 0xdfff))"

definition BOTTOM_BITS :: "nat \<Rightarrow> u8" where
  "BOTTOM_BITS n = ucast ((push_bit n 1 :: u32) - 1)"

definition TOP_BITS :: "nat \<Rightarrow> u8" where
  "TOP_BITS n = NOT (BOTTOM_BITS (8 - n))"

fun utf8_continuation :: "nat \<Rightarrow> u32 \<Rightarrow> (CBS, u32) op" where
  "utf8_continuation 0 v = opret v"
| "utf8_continuation (Suc len) v = opbind CBS_get_u8 (\<lambda>c.
     if c AND TOP_BITS 2 \<noteq> TOP_BITS 1 then opfail
     else utf8_continuation len (push_bit 6 v OR ucast (c AND BOTTOM_BITS 6)))"

definition utf8_rest :: "u8 \<Rightarrow> nat \<Rightarrow> nat \<Rightarrow> u32 \<Rightarrow> (CBS, u32) op" where
  "utf8_rest c bits len lower_bound =
     opbind (utf8_continuation len (ucast (c AND BOTTOM_BITS bits))) (\<lambda>v.
     if \<not> is_valid_code_point v \<or> v < lower_bound then opfail else opret v)"

definition cbs_get_utf8 :: "(CBS, u32) op" where
  "cbs_get_utf8 = opbind CBS_get_u8 (\<lambda>c.
     if c \<le> 0x7f then opret (ucast c)
     else if c AND TOP_BITS 3 = TOP_BITS 2 then utf8_rest c 5 1 0x80
     else if c AND TOP_BITS 4 = TOP_BITS 3 then utf8_rest c 4 2 0x800
     else if c AND TOP_BITS 5 = TOP_BITS 4 then utf8_rest c 3 3 0x10000
     else opfail)"

definition cbs_get_latin1 :: "(CBS, u32) op" where
  "cbs_get_latin1 = opbind CBS_get_u8 (\<lambda>c. opret (ucast c))"

definition cbs_get_ucs2_be :: "(CBS, u32) op" where
  "cbs_get_ucs2_be = opbind CBS_get_u16 (\<lambda>c.
     if \<not> is_valid_code_point (ucast c) then opfail else opret (ucast c))"

definition cbs_get_utf32_be :: "(CBS, u32) op" where
  "cbs_get_utf32_be = opbind CBS_get_u32 (\<lambda>u. if is_valid_code_point u then opret u else opfail)"

definition cbb_get_utf8_len :: "u32 \<Rightarrow> nat" where
  "cbb_get_utf8_len u = (if u \<le> 0x7f then 1 else if u \<le> 0x7ff then 2 else if u \<le> 0xffff then 3 else 4)"

definition utf8_lead :: "nat \<Rightarrow> u32 \<Rightarrow> u8" where
  "utf8_lead n u = ucast (ucast (TOP_BITS n) OR u)"

definition utf8_trail :: "u32 \<Rightarrow> u8" where
  "utf8_trail u = ucast (ucast (TOP_BITS 1) OR (u AND ucast (BOTTOM_BITS 6)))"

definition cbb_add_utf8 :: "nat \<Rightarrow> u32 \<Rightarrow> (CBB, unit) op" where
  "cbb_add_utf8 cbb u =
     (if \<not> is_valid_code_point u then opfail
      else if u \<le> 0x7f then CBB_add_u8 cbb (ucast u)
      else if u \<le> 0x7ff then
        opbind (CBB_add_u8 cbb (utf8_lead 2 (drop_bit 6 u))) (\<lambda>_.
        CBB_add_u8 cbb (utf8_trail u))
      else if u \<le> 0xffff then
        opbind (CBB_add_u8 cbb (utf8_lead 3 (drop_bit 12 u))) (\<lambda>_.
        opbind (CBB_add_u8 cbb (utf8_trail (drop_bit 6 u))) (\<lambda>_.
        CBB_add_u8 cbb (utf8_trail u)))
      else if u \<le> 0x10ffff then
        opbind (CBB_add_u8 cbb (utf8_lead 4 (drop_bit 18 u))) (\<lambda>_.
        opbind (CBB_add_u8 cbb (utf8_trail (drop_bit 12 u))) (\<lambda>_.
        opbind (CBB_add_u8 cbb (utf8_trail (drop_bit 6 u))) (\<lambda>_.
        CBB_add_u8 cbb (utf8_trail u))))
      else opfail)"

definition cbb_add_latin1 :: "nat \<Rightarrow> u32 \<Rightarrow> (CBB, unit) op" where
  "cbb_add_latin1 cbb u = (if u \<le> 0xff then CBB_add_u8 cbb (ucast u) else opfail)"

definition cbb_add_ucs2_be :: "nat \<Rightarrow> u32 \<Rightarrow> (CBB, unit) op" where
  "cbb_add_ucs2_be cbb u =
     (if u \<le> 0xffff \<and> is_valid_code_point u then CBB_add_u16 cbb (ucast u) else opfail)"

definition cbb_add_utf32_be :: "nat \<Rightarrow> u32 \<Rightarrow> (CBB, unit) op" where
  "cbb_add_utf32_be cbb u = (if is_valid_code_point u then CBB_add_u32 cbb u else opfail)"

section \<open>Specification\<close>

definition utf8 :: "nat \<Rightarrow> bytes" where
  "utf8 n = map word_of_nat
     (if n < 0x80 then [n]
      else if n < 0x800 then [0xc0 + n div 64, 0x80 + n mod 64]
      else if n < 0x10000 then [0xe0 + n div 4096, 0x80 + n div 64 mod 64, 0x80 + n mod 64]
      else [0xf0 + n div 262144, 0x80 + n div 4096 mod 64, 0x80 + n div 64 mod 64, 0x80 + n mod 64])"

section \<open>Bits as arithmetic\<close>

lemma bits_values [simp]:
  "BOTTOM_BITS 3 = 0x7" "BOTTOM_BITS 4 = 0xf" "BOTTOM_BITS 5 = 0x1f" "BOTTOM_BITS 6 = 0x3f"
  "TOP_BITS 1 = 0x80" "TOP_BITS (Suc 0) = 0x80" "TOP_BITS 2 = 0xc0" "TOP_BITS 3 = 0xe0" "TOP_BITS 4 = 0xf0" "TOP_BITS 5 = 0xf8"
  by (simp_all add: BOTTOM_BITS_def TOP_BITS_def push_bit_eq_mult)

lemma top_bits_iff:
  fixes c :: u8
  shows "c AND 0xc0 = 0x80 \<longleftrightarrow> unat c div 64 = 2" and "c AND 0xe0 = 0xc0 \<longleftrightarrow> unat c div 32 = 6"
    and "c AND 0xf0 = 0xe0 \<longleftrightarrow> unat c div 16 = 14" and "c AND 0xf8 = 0xf0 \<longleftrightarrow> unat c div 8 = 30"
proof -
  have t: "c AND push_bit n (mask (8 - n)) = push_bit n w \<longleftrightarrow> unat c div 2 ^ n = unat w"
    if w: "unat w < 2 ^ (8 - n)" and "n \<le> 8" for n and w :: u8
  proof -
    have "c AND push_bit n (mask (8 - n)) = push_bit n (drop_bit n c)"
      by (rule bit_eqI) (auto simp: bit_simps)
    then have "unat (c AND push_bit n (mask (8 - n))) = take_bit 8 (push_bit n (drop_bit n (unat c)))"
      using take_bit_nat_eq_self [of "unat c" 8] unat_u8_less [of c]
      by (simp add: unsigned_push_bit_eq unsigned_drop_bit_eq)
    moreover have "push_bit n (drop_bit n (unat c)) = unat c div 2 ^ n * 2 ^ n"
      by (simp add: push_bit_eq_mult drop_bit_eq_div)
    moreover have "unat c div 2 ^ n * 2 ^ n < 256"
      using unat_u8_less [of c] div_times_less_eq_dividend [of "unat c" "2 ^ n"] by linarith
    ultimately have "unat (c AND push_bit n (mask (8 - n))) = unat c div 2 ^ n * 2 ^ n"
      by (simp add: take_bit_nat_eq_self)
    moreover have "unat w * 2 ^ n < 2 ^ (8 - n) * 2 ^ n" using w by simp
    then have "unat w * 2 ^ n < 256" using \<open>n \<le> 8\<close> by (simp flip: power_add)
    then have "unat (push_bit n w) = unat w * 2 ^ n"
      by (simp add: unsigned_push_bit_eq push_bit_eq_mult [of n "unat w"] take_bit_nat_eq_self)
    ultimately show ?thesis by (simp add: word_unat_eq_iff)
  qed
  show "c AND 0xc0 = 0x80 \<longleftrightarrow> unat c div 64 = 2" "c AND 0xe0 = 0xc0 \<longleftrightarrow> unat c div 32 = 6"
    "c AND 0xf0 = 0xe0 \<longleftrightarrow> unat c div 16 = 14" "c AND 0xf8 = 0xf0 \<longleftrightarrow> unat c div 8 = 30"
    using t [of 2 6] t [of 6 5] t [of 14 4] t [of 30 3]
    by (simp_all add: push_bit_eq_mult mask_eq_exp_minus_1)
qed


lemma unat_push6_or:
  fixes v :: u32
  assumes "unat v < 2 ^ 26"
  shows "unat (push_bit 6 v OR ucast (c AND (0x3f :: u8))) = unat v * 64 + unat c mod 64"
proof -
  have "unat (ucast (c AND 0x3f) :: u32) = unat c mod 64" by (simp add: unat_low_bits)
  then show ?thesis using unat_push_or [of "ucast (c AND 0x3f) :: u32" 6 v] assms by simp
qed

lemma continuation_Suc:
  "utf8_continuation (Suc n) v cbs = (Some w, rest) \<longleftrightarrow>
    (\<exists>c cbs'. cbs = c # cbs' \<and> unat c div 64 = 2 \<and>
       utf8_continuation n (push_bit 6 v OR ucast (c AND 0x3f)) cbs' = (Some w, rest))"
  by (cases cbs) (auto simp: opbind_def opfail_def top_bits_iff)

declare utf8_continuation.simps [simp del]

lemma continuation_0: "utf8_continuation 0 v cbs = (Some w, rest) \<longleftrightarrow> w = v \<and> rest = cbs"
  by (auto simp: utf8_continuation.simps opret_def)


text \<open>A sequence of bytes is decoded by its arithmetic value; each class of lead byte has one shape.\<close>

definition cp_of :: "nat \<Rightarrow> bytes \<Rightarrow> nat" where
  "cp_of lead bs = foldl (\<lambda>v c. v * 64 + unat c mod 64) lead bs"

lemma continuation_iff:
  assumes "unat v < 2 ^ (32 - 6 * n)" and "n \<le> 3"
  shows "utf8_continuation n v cbs = (Some w, rest) \<longleftrightarrow>
    (\<exists>bs. cbs = bs @ rest \<and> length bs = n \<and> (\<forall>c \<in> set bs. unat c div 64 = 2) \<and> unat w = cp_of (unat v) bs)"
  using assms
proof (induction n arbitrary: v cbs)
  case 0
  then show ?case by (auto simp: continuation_0 cp_of_def word_unat_eq_iff)
next
  case (Suc n)
  have "(2::nat) ^ (32 - 6 * Suc n) \<le> 2 ^ 26" by (rule power_increasing) auto
  then have v: "unat v < 2 ^ 26" using Suc.prems(1) by linarith
  let ?v = "\<lambda>c::u8. push_bit 6 v OR ucast (c AND 0x3f) :: u32"
  have u: "unat (?v c) = unat v * 64 + unat c mod 64" for c using v by (rule unat_push6_or)
  have "32 - 6 * n = (32 - 6 * Suc n) + 6" using Suc.prems(2) by simp
  then have "(2::nat) ^ (32 - 6 * n) = 2 ^ (32 - 6 * Suc n) * 2 ^ 6" by (simp only: power_add)
  then have lt: "unat (?v c) < 2 ^ (32 - 6 * n)" for c
    using Suc.prems(1) u [of c] pos_mod_bound [of 64 "int (unat c)"] mod_less_divisor [of 64 "unat c"] by simp
  have ih: "utf8_continuation n (?v c) cbs' = (Some w, rest) \<longleftrightarrow>
    (\<exists>bs. cbs' = bs @ rest \<and> length bs = n \<and> (\<forall>c \<in> set bs. unat c div 64 = 2) \<and>
      unat w = cp_of (unat v * 64 + unat c mod 64) bs)" for c cbs'
    using Suc.IH [OF lt] Suc.prems(2) u [of c] by simp
  show ?case
    unfolding continuation_Suc ih
    by (auto simp: cp_of_def length_Suc_conv; metis append_Cons foldl_Cons list.set_intros set_ConsD)
qed


lemma utf8_rest_iff:
  assumes "unat c mod 2 ^ bits < 2 ^ (32 - 6 * n)" and "n \<le> 3"
    and "unat (c AND BOTTOM_BITS bits) = unat c mod 2 ^ bits"
  shows "utf8_rest c bits n lb cbs = (Some u, rest) \<longleftrightarrow>
    (\<exists>bs. cbs = bs @ rest \<and> length bs = n \<and> (\<forall>c \<in> set bs. unat c div 64 = 2) \<and>
      unat u = cp_of (unat c mod 2 ^ bits) bs \<and> is_valid_code_point u \<and> lb \<le> u)"
proof -
  have "unat (ucast (c AND BOTTOM_BITS bits) :: u32) = unat c mod 2 ^ bits" using assms(3) by simp
  then show ?thesis
    using continuation_iff [of "ucast (c AND BOTTOM_BITS bits)" n] assms
    by (auto simp: utf8_rest_def opbind_Some_iff opfail_def opret_def not_less split: if_splits)
qed

lemma utf8_shapes:
  fixes c d e f :: u8
  shows "0x80 \<le> n \<Longrightarrow> n < 0x800 \<Longrightarrow>
      unat c div 32 = 6 \<and> unat d div 64 = 2 \<and> n = cp_of (unat c mod 32) [d] \<longleftrightarrow> [c, d] = utf8 n"
    and "0x800 \<le> n \<Longrightarrow> n < 0x10000 \<Longrightarrow>
      unat c div 16 = 14 \<and> unat d div 64 = 2 \<and> unat e div 64 = 2 \<and> n = cp_of (unat c mod 16) [d, e]
      \<longleftrightarrow> [c, d, e] = utf8 n"
    and "0x10000 \<le> n \<Longrightarrow> n < 0x200000 \<Longrightarrow>
      unat c div 8 = 30 \<and> unat d div 64 = 2 \<and> unat e div 64 = 2 \<and> unat f div 64 = 2 \<and>
      n = cp_of (unat c mod 8) [d, e, f] \<longleftrightarrow> [c, d, e, f] = utf8 n"
proof -
  have w: "x = word_of_nat k \<longleftrightarrow> unat x = k" if "k < 256" for x :: u8 and k
    using that by (simp add: word_unat_eq_iff unat_of_nat)
  have split: "m = x * 64 + unat y mod 64 \<longleftrightarrow> m div 64 = x \<and> m mod 64 = unat y mod 64" for m x and y :: u8
    using div_mod_digit [of "unat y mod 64" 64 m x] by auto
  have trail: "unat y div 64 = 2 \<and> m mod 64 = unat y mod 64 \<longleftrightarrow> unat y = 128 + m mod 64" for m and y :: u8
    using div_mod_digit [of "m mod 64" 64 "unat y" 2] by auto
  have lead: "unat x div 32 = 6 \<and> m = unat x mod 32 \<longleftrightarrow> unat x = 192 + m" if "m < 32" for m and x :: u8
    using div_mod_digit [of m 32 "unat x" 6] that by auto
  have lead3: "unat x div 16 = 14 \<and> m = unat x mod 16 \<longleftrightarrow> unat x = 224 + m" if "m < 16" for m and x :: u8
    using div_mod_digit [of m 16 "unat x" 14] that by auto
  have lead4: "unat x div 8 = 30 \<and> m = unat x mod 8 \<longleftrightarrow> unat x = 240 + m" if "m < 8" for m and x :: u8
    using div_mod_digit [of m 8 "unat x" 30] that by auto
  have dd: "n div 64 div 64 = n div 4096" "n div 4096 div 64 = n div 262144" by (simp_all flip: div_mult2_eq)
  show "unat c div 32 = 6 \<and> unat d div 64 = 2 \<and> n = cp_of (unat c mod 32) [d] \<longleftrightarrow> [c, d] = utf8 n"
    if "0x80 \<le> n" "n < 0x800"
  proof -
    have "n div 64 < 32" using that by simp
    then have "[c, d] = utf8 n \<longleftrightarrow> unat c = 192 + n div 64 \<and> unat d = 128 + n mod 64"
      using that by (simp add: utf8_def w del: of_nat_add)
    moreover have "n = cp_of (unat c mod 32) [d] \<longleftrightarrow> n div 64 = unat c mod 32 \<and> n mod 64 = unat d mod 64"
      by (simp only: cp_of_def foldl.simps split)
    ultimately show ?thesis using lead [OF \<open>n div 64 < 32\<close>, of c] trail [of d n] by blast
  qed
  show "unat c div 16 = 14 \<and> unat d div 64 = 2 \<and> unat e div 64 = 2 \<and> n = cp_of (unat c mod 16) [d, e]
      \<longleftrightarrow> [c, d, e] = utf8 n" if "0x800 \<le> n" "n < 0x10000"
  proof -
    have lt: "n div 4096 < 16" using that by simp
    then have "[c, d, e] = utf8 n \<longleftrightarrow> unat c = 224 + n div 4096 \<and> unat d = 128 + n div 64 mod 64 \<and> unat e = 128 + n mod 64"
      using that by (simp add: utf8_def w del: of_nat_add)
    moreover have "n = cp_of (unat c mod 16) [d, e] \<longleftrightarrow>
        n div 4096 = unat c mod 16 \<and> n div 64 mod 64 = unat d mod 64 \<and> n mod 64 = unat e mod 64"
      by (simp only: cp_of_def foldl.simps split dd conj_assoc)
    ultimately show ?thesis using lead3 [OF lt, of c] trail [of e n] trail [of d "n div 64"] by blast
  qed
  show "unat c div 8 = 30 \<and> unat d div 64 = 2 \<and> unat e div 64 = 2 \<and> unat f div 64 = 2 \<and>
      n = cp_of (unat c mod 8) [d, e, f] \<longleftrightarrow> [c, d, e, f] = utf8 n" if "0x10000 \<le> n" "n < 0x200000"
  proof -
    have lt: "n div 262144 < 8" using that by simp
    then have "[c, d, e, f] = utf8 n \<longleftrightarrow> unat c = 240 + n div 262144 \<and> unat d = 128 + n div 4096 mod 64 \<and>
        unat e = 128 + n div 64 mod 64 \<and> unat f = 128 + n mod 64"
      using that by (simp add: utf8_def w del: of_nat_add)
    moreover have "n = cp_of (unat c mod 8) [d, e, f] \<longleftrightarrow> n div 262144 = unat c mod 8 \<and>
        n div 4096 mod 64 = unat d mod 64 \<and> n div 64 mod 64 = unat e mod 64 \<and> n mod 64 = unat f mod 64"
      by (simp only: cp_of_def foldl.simps split dd conj_assoc)
    ultimately show ?thesis
      using lead4 [OF lt, of c] trail [of f n] trail [of e "n div 64"] trail [of d "n div 4096"] by blast
  qed
qed


lemma cp_of_less: "lead < k \<Longrightarrow> cp_of lead bs < k * 64 ^ length bs"
proof (induction bs rule: rev_induct)
  case (snoc b bs)
  have "cp_of lead bs * 64 + unat b mod 64 < Suc (cp_of lead bs) * 64" by simp
  also have "\<dots> \<le> k * 64 ^ length bs * 64" using snoc by (intro mult_right_mono) auto
  finally show ?case by (simp add: cp_of_def)
qed (simp add: cp_of_def)

section \<open>The reader\<close>

lemma valid_code_point_less: "is_valid_code_point u \<Longrightarrow> unat u < 0x110000"
  by (simp add: is_valid_code_point_def word_le_nat_alt word_less_nat_alt)

lemma utf8_Cons:
  "utf8 n = bs \<Longrightarrow> n < 0x200000 \<Longrightarrow>
    (n < 0x80 \<and> (\<exists>c. bs = [c])) \<or> (0x80 \<le> n \<and> n < 0x800 \<and> (\<exists>c d. bs = [c, d])) \<or>
    (0x800 \<le> n \<and> n < 0x10000 \<and> (\<exists>c d e. bs = [c, d, e])) \<or> (0x10000 \<le> n \<and> (\<exists>c d e f. bs = [c, d, e, f]))"
  by (auto simp: utf8_def split: if_splits)

lemma length_2_iff: "length xs = 2 \<longleftrightarrow> (\<exists>a b. xs = [a, b])"
  and length_3_iff: "length xs = 3 \<longleftrightarrow> (\<exists>a b c. xs = [a, b, c])"
  by (auto simp: numeral_2_eq_2 numeral_3_eq_3 length_Suc_conv)

lemma utf8_1: "n < 0x80 \<Longrightarrow> [c] = utf8 n \<longleftrightarrow> unat c = n"
  by (simp add: utf8_def word_unat_eq_iff unat_of_nat)

lemma utf8_rest_values:
  "utf8_rest c 5 1 0x80 cbs = (Some u, rest) \<longleftrightarrow> (\<exists>d. cbs = d # rest \<and> unat d div 64 = 2 \<and>
     unat u = cp_of (unat c mod 32) [d] \<and> is_valid_code_point u \<and> 0x80 \<le> unat u)"
  "utf8_rest c 4 2 0x800 cbs = (Some u, rest) \<longleftrightarrow> (\<exists>d e. cbs = d # e # rest \<and> unat d div 64 = 2 \<and> unat e div 64 = 2 \<and>
     unat u = cp_of (unat c mod 16) [d, e] \<and> is_valid_code_point u \<and> 0x800 \<le> unat u)"
  "utf8_rest c 3 3 0x10000 cbs = (Some u, rest) \<longleftrightarrow> (\<exists>d e f. cbs = d # e # f # rest \<and> unat d div 64 = 2 \<and>
     unat e div 64 = 2 \<and> unat f div 64 = 2 \<and>
     unat u = cp_of (unat c mod 8) [d, e, f] \<and> is_valid_code_point u \<and> 0x10000 \<le> unat u)"
proof -
  note lt = unat_u8_less [of c]
  have m: "unat c mod 2 ^ 5 < 2 ^ (32 - 6 * 1)" "unat c mod 2 ^ 4 < 2 ^ (32 - 6 * 2)" "unat c mod 2 ^ 3 < 2 ^ (32 - 6 * 3)"
    using lt by (auto intro: le_less_trans [OF mod_less_eq_dividend])
  show "utf8_rest c 5 1 0x80 cbs = (Some u, rest) \<longleftrightarrow> (\<exists>d. cbs = d # rest \<and> unat d div 64 = 2 \<and>
     unat u = cp_of (unat c mod 32) [d] \<and> is_valid_code_point u \<and> 0x80 \<le> unat u)"
    by (subst utf8_rest_iff [OF m(1)]) (auto simp: unat_low_bits length_Suc_conv word_le_nat_alt)
  show "utf8_rest c 4 2 0x800 cbs = (Some u, rest) \<longleftrightarrow> (\<exists>d e. cbs = d # e # rest \<and> unat d div 64 = 2 \<and> unat e div 64 = 2 \<and>
     unat u = cp_of (unat c mod 16) [d, e] \<and> is_valid_code_point u \<and> 0x800 \<le> unat u)"
    by (subst utf8_rest_iff [OF m(2)]) (auto simp: unat_low_bits length_2_iff word_le_nat_alt)
  show "utf8_rest c 3 3 0x10000 cbs = (Some u, rest) \<longleftrightarrow> (\<exists>d e f. cbs = d # e # f # rest \<and> unat d div 64 = 2 \<and>
     unat e div 64 = 2 \<and> unat f div 64 = 2 \<and>
     unat u = cp_of (unat c mod 8) [d, e, f] \<and> is_valid_code_point u \<and> 0x10000 \<le> unat u)"
    by (subst utf8_rest_iff [OF m(3)]) (auto simp: unat_low_bits length_3_iff word_le_nat_alt)
qed

lemma ascii_valid: "unat u < 0x80 \<Longrightarrow> is_valid_code_point u"
proof -
  assume u: "unat u < 0x80"
  have "u AND 0xfffe \<noteq> 0xfffe"
  proof
    assume "u AND 0xfffe = 0xfffe"
    then have "bit (u AND 0xfffe) 8" by simp
    then have "bit u 8" by (simp add: bit_and_iff)
    then show False using u by (simp add: bit_iff_odd_unat)
  qed
  then show ?thesis using u by (simp add: is_valid_code_point_def word_le_nat_alt word_less_nat_alt)
qed

lemma cbs_get_utf8_Cons:
  "cbs_get_utf8 (c # cbs) = (Some u, rest) \<longleftrightarrow>
    (unat c < 128 \<and> unat u = unat c \<and> rest = cbs) \<or>
    (unat c div 32 = 6 \<and> utf8_rest c 5 1 0x80 cbs = (Some u, rest)) \<or>
    (unat c div 16 = 14 \<and> utf8_rest c 4 2 0x800 cbs = (Some u, rest)) \<or>
    (unat c div 8 = 30 \<and> utf8_rest c 3 3 0x10000 cbs = (Some u, rest))"
proof -
  have "unat c < 128 \<Longrightarrow> unat c div 32 \<noteq> 6" "unat c < 128 \<Longrightarrow> unat c div 16 \<noteq> 14" "unat c < 128 \<Longrightarrow> unat c div 8 \<noteq> 30"
    by auto
  moreover have "unat c div 8 = 30 \<Longrightarrow> unat c div 16 = 15" "unat c div 16 = 15 \<Longrightarrow> unat c div 32 = 7"
    "unat c div 16 = 14 \<Longrightarrow> unat c div 32 = 7"
    by linarith+
  moreover have "c \<le> 0x7f \<longleftrightarrow> unat c < 128" by (auto simp: word_le_nat_alt)
  then have "cbs_get_utf8 (c # cbs) = (if unat c < 128 then (Some (ucast c), cbs)
     else if unat c div 32 = 6 then utf8_rest c 5 1 0x80 cbs
     else if unat c div 16 = 14 then utf8_rest c 4 2 0x800 cbs
     else if unat c div 8 = 30 then utf8_rest c 3 3 0x10000 cbs else (None, cbs))"
    by (simp add: cbs_get_utf8_def opbind_def opret_def opfail_def top_bits_iff)
  moreover have "u = ucast c \<longleftrightarrow> unat u = unat c" by (simp add: word_unat_eq_iff)
  ultimately show ?thesis by (cases "unat c < 128") (auto simp del: One_nat_def)
qed

lemma cbs_get_utf8_iff:
  "cbs_get_utf8 cbs = (Some u, rest) \<longleftrightarrow> is_valid_code_point u \<and> cbs = utf8 (unat u) @ rest"
proof (cases cbs)
  case Nil
  have "utf8 n \<noteq> []" for n by (simp add: utf8_def)
  with Nil show ?thesis by (simp add: cbs_get_utf8_def opbind_def)
next
  case (Cons c cs)
  let ?n = "unat u"
  show ?thesis
  proof (cases "is_valid_code_point u")
    case False
    with ascii_valid [of u] show ?thesis unfolding Cons cbs_get_utf8_Cons utf8_rest_values by auto
  next
    case True
    then have n: "?n < 0x200000" using valid_code_point_less [of u] by linarith
    have r: "cp_of (unat c mod 32) [d] < 0x800" "cp_of (unat c mod 16) [d, e] < 0x10000"
      "cp_of (unat c mod 8) [d, e, f] < 0x200000" for d e f
      using cp_of_less [of "unat c mod 32" 32 "[d]"] cp_of_less [of "unat c mod 16" 16 "[d, e]"]
        cp_of_less [of "unat c mod 8" 8 "[d, e, f]"] by simp_all
    have "cbs_get_utf8 (c # cs) = (Some u, rest) \<longleftrightarrow>
        (?n < 0x80 \<and> [c] = utf8 ?n \<and> rest = cs) \<or>
        (0x80 \<le> ?n \<and> ?n < 0x800 \<and> (\<exists>d. cs = d # rest \<and> [c, d] = utf8 ?n)) \<or>
        (0x800 \<le> ?n \<and> ?n < 0x10000 \<and> (\<exists>d e. cs = d # e # rest \<and> [c, d, e] = utf8 ?n)) \<or>
        (0x10000 \<le> ?n \<and> (\<exists>d e f. cs = d # e # f # rest \<and> [c, d, e, f] = utf8 ?n))"
      unfolding cbs_get_utf8_Cons utf8_rest_values
      using True n r utf8_1 [of ?n c] utf8_shapes [of ?n] by metis
    also have "\<dots> \<longleftrightarrow> c # cs = utf8 ?n @ rest"
      using utf8_Cons [OF refl n] by auto
    finally show ?thesis using Cons True by simp
  qed
qed


section \<open>The writers\<close>

lemma utf8_bytes_values:
  shows "unat u < 32 \<Longrightarrow> utf8_lead 2 u = word_of_nat (0xc0 + unat u)"
    and "unat u < 16 \<Longrightarrow> utf8_lead 3 u = word_of_nat (0xe0 + unat u)"
    and "unat u < 8 \<Longrightarrow> utf8_lead 4 u = word_of_nat (0xf0 + unat u)"
    and "utf8_trail u = word_of_nat (0x80 + unat u mod 64)"
proof -
  have o: "unat (push_bit n w OR v) = unat (push_bit n w) + unat v"
    if "unat v < 2 ^ n" "unat (push_bit n w) + unat v < 2 ^ 32" for n and v w :: u32
  proof -
    have "unat (push_bit n w + v) = (unat (push_bit n w) + unat v) mod 2 ^ 32"
      using unat_word_ariths(1) [of "push_bit n w" v] by simp
    also have "\<dots> = unat (push_bit n w) + unat v" using that(2) by (rule mod_less)
    finally show ?thesis by (simp only: push_or_add [OF that(1)])
  qed
  show "utf8_lead 2 u = word_of_nat (0xc0 + unat u)" if "unat u < 32"
    using o [of u 5 6] that unfolding utf8_lead_def ucast_u8_of_unat by (simp add: push_bit_eq_mult)
  show "utf8_lead 3 u = word_of_nat (0xe0 + unat u)" if "unat u < 16"
    using o [of u 4 14] that unfolding utf8_lead_def ucast_u8_of_unat by (simp add: push_bit_eq_mult)
  show "utf8_lead 4 u = word_of_nat (0xf0 + unat u)" if "unat u < 8"
    using o [of u 3 30] that unfolding utf8_lead_def ucast_u8_of_unat by (simp add: push_bit_eq_mult)
  have "unat (u AND 0x3f) < 64" by (simp add: unat_low_bits)
  then show "utf8_trail u = word_of_nat (0x80 + unat u mod 64)"
    using o [of "u AND 0x3f" 6 2] unfolding utf8_trail_def ucast_u8_of_unat by (simp add: push_bit_eq_mult unat_low_bits)
qed

lemma cbb_add_utf8_eq:
  "cbb_add_utf8 d u = (if is_valid_code_point u
     then op_seq (map (\<lambda>b. CBB_add_bytes d [b]) (utf8 (unat u))) else opfail)"
proof (cases "is_valid_code_point u")
  case True
  note sh = unat_shift_right [of _ u]
  have dd: "unat u div 4096 div 64 = unat u div 262144" by (simp flip: div_mult2_eq)
  note n = valid_code_point_less [OF True]
  have le: "u \<le> 0x7f \<longleftrightarrow> unat u < 0x80" "u \<le> 0x7ff \<longleftrightarrow> unat u < 0x800" "u \<le> 0xffff \<longleftrightarrow> unat u < 0x10000"
    "u \<le> 0x10ffff"
    using n by (auto simp: word_le_nat_alt)
  consider "unat u < 0x80" | "0x80 \<le> unat u" "unat u < 0x800" | "0x800 \<le> unat u" "unat u < 0x10000" | "0x10000 \<le> unat u"
    by linarith
  then show ?thesis
  proof cases
    case 1
    then have "utf8 (unat u) = [word_of_nat (unat u)]" by (simp add: utf8_def)
    then show ?thesis using 1 True by (simp add: cbb_add_utf8_def le CBB_add_u8_eq)
  next
    case 2
    then have "unat (drop_bit 6 u) < 32" by (simp add: sh)
    with 2 True show ?thesis
      by (simp add: cbb_add_utf8_def le CBB_add_u8_eq utf8_def utf8_bytes_values sh del: of_nat_add)
  next
    case 3
    then have "unat (drop_bit 12 u) < 16" by (simp add: sh)
    with 3 True show ?thesis
      by (simp add: cbb_add_utf8_def le CBB_add_u8_eq utf8_def utf8_bytes_values sh del: of_nat_add)
  next
    case 4
    then have "unat (drop_bit 18 u) < 8" using n by (simp add: sh)
    with 4 True show ?thesis
      by (simp add: cbb_add_utf8_def le CBB_add_u8_eq utf8_def utf8_bytes_values sh del: of_nat_add)
  qed
qed (simp add: cbb_add_utf8_def)


section \<open>Properties\<close>

text \<open>C13: The UTF-8 reader accepts exactly the shortest encoding of a valid code point, whatever
  follows it, and returns that code point; \<open>cbb_get_utf8_len\<close> is the length of that encoding.\<close>

theorem cbs_get_utf8_exact:
  "(cbs_get_utf8 cbs = (Some u, rest) \<longleftrightarrow> is_valid_code_point u \<and> cbs = utf8 (unat u) @ rest) \<and>
   length (utf8 (unat u)) = cbb_get_utf8_len u"
  by (simp add: cbs_get_utf8_iff utf8_def cbb_get_utf8_len_def word_le_nat_alt)

lemma fixed_width_written:
  shows "cbb_add_latin1 d u s = (Some v, t) \<Longrightarrow> \<exists>bs. CBB_add_bytes d bs s = (Some v, t) \<and> length bs < SIZE_MOD \<and>
      cbs_get_latin1 (bs @ rest) = (Some u, rest)"
    and "cbb_add_ucs2_be d u s = (Some v, t) \<Longrightarrow> \<exists>bs. CBB_add_bytes d bs s = (Some v, t) \<and> length bs < SIZE_MOD \<and>
      cbs_get_ucs2_be (bs @ rest) = (Some u, rest)"
    and "cbb_add_utf32_be d u s = (Some v, t) \<Longrightarrow> \<exists>bs. CBB_add_bytes d bs s = (Some v, t) \<and> length bs < SIZE_MOD \<and>
      cbs_get_utf32_be (bs @ rest) = (Some u, rest)"
proof -
  have small: "unat (ucast (ucast u :: u8) :: u32) = unat u" if "u \<le> 0xff"
  proof -
    have "unat (ucast u :: u8) = unat u"
      using that by (simp only: unsigned_ucast_eq) (simp add: word_le_nat_alt take_bit_nat_eq_self)
    then show ?thesis using unat_ucast_wider [of "ucast u :: u8", where 'b = 32] by simp
  qed
  have small2: "unat (ucast (ucast u :: u16) :: u32) = unat u" if "u \<le> 0xffff"
  proof -
    have "unat (ucast u :: u16) = unat u"
      using that by (simp only: unsigned_ucast_eq) (simp add: word_le_nat_alt take_bit_nat_eq_self)
    then show ?thesis using unat_ucast_wider [of "ucast u :: u16", where 'b = 32] by simp
  qed
  show "\<exists>bs. CBB_add_bytes d bs s = (Some v, t) \<and> length bs < SIZE_MOD \<and> cbs_get_latin1 (bs @ rest) = (Some u, rest)"
    if "cbb_add_latin1 d u s = (Some v, t)"
    using that small
    by (intro exI [of _ "[ucast u]"])
      (auto simp: cbb_add_latin1_def cbs_get_latin1_def CBB_add_u8_eq opfail_def opbind_def opret_def word_unat_eq_iff split: if_splits)
  show "\<exists>bs. CBB_add_bytes d bs s = (Some v, t) \<and> length bs < SIZE_MOD \<and> cbs_get_ucs2_be (bs @ rest) = (Some u, rest)"
    if "cbb_add_ucs2_be d u s = (Some v, t)"
  proof -
    have c: "u \<le> 0xffff" "is_valid_code_point u" "CBB_add_bytes d (be_bytes 2 (unat (ucast u :: u16))) s = (Some v, t)"
      using that by (auto simp: cbb_add_ucs2_be_def CBB_add_u16_eq opfail_def split: if_splits)
    moreover have "ucast (ucast u :: u16) = u" using small2 [OF c(1)] by (simp add: word_unat_eq_iff)
    ultimately show ?thesis
      by (intro exI [of _ "be_bytes 2 (unat (ucast u :: u16))"])
        (simp add: cbs_get_ucs2_be_def opbind_def opret_def get_written del: be_bytes.simps)
  qed
  show "\<exists>bs. CBB_add_bytes d bs s = (Some v, t) \<and> length bs < SIZE_MOD \<and> cbs_get_utf32_be (bs @ rest) = (Some u, rest)"
    if "cbb_add_utf32_be d u s = (Some v, t)"
    using that
    by (intro exI [of _ "be_bytes 4 (unat u)"])
      (auto simp: cbb_add_utf32_be_def cbs_get_utf32_be_def CBB_add_u32_eq opfail_def opbind_def opret_def get_written
        simp del: be_bytes.simps split: if_splits)
qed

text \<open>C14: Text survives the trip in each encoding: a code point that the UTF-8, Latin-1, UCS-2 or
  UTF-32 writer accepts is appended in a form from which the reader of that encoding returns it.\<close>

theorem text_encodings_roundtrip:
  assumes "handle_ok d s" and "add d u s = (Some (), t)"
    and "(add, get) \<in> {(cbb_add_utf8, cbs_get_utf8), (cbb_add_latin1, cbs_get_latin1),
      (cbb_add_ucs2_be, cbs_get_ucs2_be), (cbb_add_utf32_be, cbs_get_utf32_be)}"
  shows "\<exists>bs. handle_content d t = handle_content d s @ bs \<and> handle_frame d t = handle_frame d s \<and>
    get (bs @ rest) = (Some u, rest)"
proof (cases "add = cbb_add_utf8 \<and> get = cbs_get_utf8")
  case True
  then have v: "is_valid_code_point u" "op_seq (map (\<lambda>b. CBB_add_bytes d [b]) (utf8 (unat u))) s = (Some (), t)"
    using assms(2) by (auto simp: cbb_add_utf8_eq opfail_def split: if_splits)
  with cbb_sink.put_bytes_Some [OF assms(1) v(2)] True show ?thesis by (simp add: cbs_get_utf8_iff)
next
  case False
  then obtain bs where "CBB_add_bytes d bs s = (Some (), t)" "length bs < SIZE_MOD" "get (bs @ rest) = (Some u, rest)"
    using assms(2,3) fixed_width_written [of d u s "()" t rest] by auto
  with cbb_sink.put_Some [OF assms(1)] show ?thesis by blast
qed

text \<open>The euro sign.\<close>

lemma text_encodings_roundtrip_witness:
  "\<exists>t bs. handle_content 0 t = bs \<and> cbs_get_utf8 (bs @ [7]) = (Some 0x20ac, [7])"
proof -
  define t where "t = snd (cbb_add_utf8 0 0x20ac cbb_new)"
  have "fst (cbb_add_utf8 0 0x20ac cbb_new) = Some ()" by code_simp
  then have "cbb_add_utf8 0 0x20ac cbb_new = (Some (), t)" by (intro prod_eqI) (simp_all add: t_def)
  from text_encodings_roundtrip [where d = 0 and add = cbb_add_utf8 and get = cbs_get_utf8, OF cbb_new_ok(2) this]
  show ?thesis by (auto simp: cbb_new_ok(3))
qed

end
