(* ===== verification/Blocks.thy ===== *)
theory Blocks
  imports Prelude
begin

text \<open>
  The interface of a routine that is fed data in pieces of any size and works in blocks: it
  keeps what does not fill a block for the next call. \<open>absorb\<close> is the specification, a fold of
  the step over the whole blocks of all the data with what is left over; a \<open>block_stream\<close> is a
  state with an update that does this. Then only the concatenation of the pieces matters. The
  base64 encoder and the message digests are such streams.
\<close>

function absorb :: "nat \<Rightarrow> ('c \<Rightarrow> 'a list \<Rightarrow> 'c) \<Rightarrow> 'c \<Rightarrow> 'a list \<Rightarrow> 'c \<times> 'a list" where
  "absorb n step c xs =
     (if n = 0 \<or> length xs < n then (c, xs) else absorb n step (step c (take n xs)) (drop n xs))"
  by pat_completeness auto
termination
  by (relation "measure (\<lambda>(n, step, c, xs). length xs)") auto

declare absorb.simps [simp del]

lemma absorb_short: "length xs < n \<Longrightarrow> absorb n step c xs = (c, xs)"
  by (simp add: absorb.simps)

lemma absorb_block:
  "0 < n \<Longrightarrow> length b = n \<Longrightarrow> absorb n step c (b @ xs) = absorb n step (step c b) xs"
  by (subst absorb.simps) simp

lemma absorb_left: "0 < n \<Longrightarrow> length (snd (absorb n step c xs)) < n"
  by (induction n step c xs rule: absorb.induct) (subst absorb.simps, simp)

lemma absorb_append:
  "0 < n \<Longrightarrow> absorb n step c (xs @ ys) =
     (case absorb n step c xs of (c', left) \<Rightarrow> absorb n step c' (left @ ys))"
proof (induction n step c xs rule: absorb.induct)
  case (1 n step c xs)
  show ?case
  proof (cases "length xs < n")
    case False
    have split: "xs @ ys = take n xs @ drop n xs @ ys" by simp
    have "absorb n step c (xs @ ys) = absorb n step (step c (take n xs)) (drop n xs @ ys)"
      using absorb_block [of n "take n xs" step c "drop n xs @ ys"] 1(2) False
      by (subst split) simp
    also have "\<dots> = (case absorb n step (step c (take n xs)) (drop n xs) of (c', left) \<Rightarrow> absorb n step c' (left @ ys))"
      using 1 False by simp
    also have "absorb n step (step c (take n xs)) (drop n xs) = absorb n step c xs"
      using False 1(2) by (subst (2) absorb.simps) simp
    finally show ?thesis .
  qed (simp add: absorb_short)
qed

lemma absorb_whole:
  "0 < n \<Longrightarrow> length xs = k * n \<Longrightarrow>
    absorb n step c xs = (foldl (\<lambda>c i. step c (take n (drop (i * n) xs))) c [0..<k], [])"
proof (induction k arbitrary: c xs)
  case (Suc k)
  have "absorb n step c xs = absorb n step (step c (take n xs)) (drop n xs)"
    using Suc.prems by (subst absorb.simps) auto
  also have "\<dots> = (foldl (\<lambda>c i. step c (take n (drop (i * n) (drop n xs)))) (step c (take n xs)) [0..<k], [])"
    using Suc.prems by (intro Suc.IH) simp_all
  also have "\<dots> = (foldl (\<lambda>c i. step c (take n (drop (i * n) xs))) c [0..<Suc k], [])"
    by (simp add: upt_conv_Cons foldl_map add.commute del: upt_Suc flip: map_Suc_upt)
  finally show ?case .
qed (simp add: absorb_short)

text \<open>The whole blocks in one fold, as code that is handed a number of blocks consumes them.\<close>

lemma absorb_foldl:
  assumes n: "0 < n"
  shows "absorb n step c xs =
    (foldl (\<lambda>c i. step c (take n (drop (i * n) xs))) c [0..<length xs div n], drop (length xs div n * n) xs)"
proof -
  define k where "k = length xs div n"
  have "absorb n step c xs = (case absorb n step c (take (k * n) xs) of (c, left) \<Rightarrow> absorb n step c (left @ drop (k * n) xs))"
    using absorb_append [OF n, of step c "take (k * n) xs" "drop (k * n) xs"] by simp
  also have "absorb n step c (take (k * n) xs) =
      (foldl (\<lambda>c i. step c (take n (drop (i * n) (take (k * n) xs)))) c [0..<k], [])"
    by (rule absorb_whole) (simp_all add: k_def n min_absorb2)
  also have "foldl (\<lambda>c i. step c (take n (drop (i * n) (take (k * n) xs)))) c [0..<k] =
      foldl (\<lambda>c i. step c (take n (drop (i * n) xs))) c [0..<k]"
  proof (rule foldl_cong [OF refl refl])
    fix c i assume "i \<in> set [0..<k]"
    then have "n \<le> k * n - i * n"
      by (auto simp flip: diff_mult_distrib)
    then show "step c (take n (drop (i * n) (take (k * n) xs))) = step c (take n (drop (i * n) xs))"
      by (simp add: drop_take min_absorb1)
  qed
  also have "length (drop (k * n) xs) < n"
    using n by (simp add: k_def minus_div_mult_eq_mod)
  ultimately show ?thesis
    by (simp add: absorb_short k_def)
qed

lemma absorb_left_length: "0 < n \<Longrightarrow> length (snd (absorb n step c xs)) = length xs mod n"
proof (induction n step c xs rule: absorb.induct)
  case (1 n step c xs)
  then show ?case
    by (subst absorb.simps) (simp add: le_mod_geq not_less)
qed

locale block_stream =
  fixes n :: nat
    and step :: "'c \<Rightarrow> bytes \<Rightarrow> 'c"
    and chain :: "'s \<Rightarrow> 'c"
    and pending :: "'s \<Rightarrow> bytes"
    and update :: "'s \<Rightarrow> bytes \<Rightarrow> 's"
    and ok :: "'s \<Rightarrow> bool"
    and sized :: "bytes \<Rightarrow> bool"
  assumes pending: "ok s \<Longrightarrow> length (pending s) < n"
    and update: "ok s \<Longrightarrow> sized xs \<Longrightarrow>
      ok (update s xs) \<and> (chain (update s xs), pending (update s xs)) = absorb n step (chain s) (pending s @ xs)"
begin

lemma n_pos: "ok s \<Longrightarrow> 0 < n"
  using pending [of s] by simp

lemma updates:
  "ok s \<Longrightarrow> list_all sized xss \<Longrightarrow> ok (foldl update s xss) \<and>
    (chain (foldl update s xss), pending (foldl update s xss)) = absorb n step (chain s) (pending s @ concat xss)"
proof (induction xss arbitrary: s)
  case Nil
  then show ?case by (simp add: absorb_short pending)
next
  case (Cons xs xss)
  then show ?case using update [of s xs] absorb_append [OF n_pos, of s step "chain s" "pending s @ xs" "concat xss"]
    by (auto split: prod.splits)
qed

text \<open>Pieces do not matter: two ways to cut the same data leave the same chain and remainder.\<close>

lemma pieces:
  assumes "ok s" and "list_all sized xss" and "list_all sized yss" and "concat xss = concat yss"
  shows "chain (foldl update s xss) = chain (foldl update s yss)"
    and "pending (foldl update s xss) = pending (foldl update s yss)"
  using updates [OF assms(1,2)] updates [OF assms(1,3)] assms(4) by (metis prod.inject)+

end

end
