(* ===== verification/Base64.thy ===== *)
theory Base64
  imports Mem Blocks
begin

text \<open>
  \<^verbatim>\<open>crypto/base64/base64.c\<close>: the constant-time alphabet, the one-shot and the streaming encoder
  and decoder. A call that writes through an output pointer returns the bytes it wrote from
  there on, the terminator included; the count it reports is next to it. \<open>quads\<close> and
  \<open>b64_lines\<close> are the specification: the digits of each group of three bytes in base 64, with
  padding, and the same in lines of 64 characters.
\<close>

section \<open>The alphabet\<close>

definition constant_time_lt_args_8 :: "u8 \<Rightarrow> u8 \<Rightarrow> u8" where
  "constant_time_lt_args_8 a b = ucast (constant_time_msb_w (ucast a - ucast b))"

definition constant_time_in_range_8 :: "u8 \<Rightarrow> u8 \<Rightarrow> u8 \<Rightarrow> u8" where
  "constant_time_in_range_8 a lo hi = constant_time_lt_args_8 (a - lo) (hi - lo + 1)"

definition conv_bin2ascii :: "u8 \<Rightarrow> u8" where
  "conv_bin2ascii a0 =
    (let a = a0 AND 0x3f;
         ret = constant_time_select_8 (constant_time_eq_8 (ucast a) 62) 43 47;
         ret = constant_time_select_8 (constant_time_lt_args_8 a 62) (a - 52 + 48) ret;
         ret = constant_time_select_8 (constant_time_lt_args_8 a 52) (a - 26 + 97) ret
     in constant_time_select_8 (constant_time_lt_args_8 a 26) (a + 65) ret)"

definition base64_ascii_to_bin :: "u8 \<Rightarrow> u8" where
  "base64_ascii_to_bin a =
    (let is_upper = constant_time_in_range_8 a 65 90;
         is_lower = constant_time_in_range_8 a 97 122;
         is_digit = constant_time_in_range_8 a 48 57;
         is_plus = constant_time_eq_8 (ucast a) 43;
         is_slash = constant_time_eq_8 (ucast a) 47;
         is_equals = constant_time_eq_8 (ucast a) 61;
         ret = constant_time_select_8 is_upper (a - 65) 0xff;
         ret = constant_time_select_8 is_lower (a - 97 + 26) ret;
         ret = constant_time_select_8 is_digit (a - 48 + 52) ret;
         ret = constant_time_select_8 is_plus 62 ret;
         ret = constant_time_select_8 is_slash 63 ret
     in constant_time_select_8 is_equals 0 ret)"

section \<open>Encoding\<close>

definition EVP_EncodedLength :: "u64 \<Rightarrow> u64 option" where
  "EVP_EncodedLength len0 =
    (if len0 + 2 < len0 then None
     else let len = (len0 + 2) div 3 in
       if drop_bit 2 (push_bit 2 len) \<noteq> len then None
       else let len = push_bit 2 len in
         if len + 1 < len then None else Some (len + 1))"

record EVP_ENCODE_CTX =
  data_used :: nat
  enc_data :: bytes
  eof_seen :: bool
  error_encountered :: bool

definition ENC_DATA_SIZE :: nat where
  "ENC_DATA_SIZE = 48"

definition EVP_EncodeInit :: EVP_ENCODE_CTX where
  "EVP_EncodeInit = \<lparr>data_used = 0, enc_data = replicate ENC_DATA_SIZE 0, eof_seen = False, error_encountered = False\<rparr>"

fun encode_quads :: "bytes \<Rightarrow> bytes" where
  "encode_quads [] = []"
| "encode_quads [a] =
    (let l = push_bit 16 (ucast a) :: u32 in
     [conv_bin2ascii (ucast (drop_bit 18 l)), conv_bin2ascii (ucast (drop_bit 12 l)), 61, 61])"
| "encode_quads [a, b] =
    (let l = push_bit 16 (ucast a) OR push_bit 8 (ucast b) :: u32 in
     [conv_bin2ascii (ucast (drop_bit 18 l)), conv_bin2ascii (ucast (drop_bit 12 l)),
      conv_bin2ascii (ucast (drop_bit 6 l)), 61])"
| "encode_quads (a # b # c # src) =
    (let l = push_bit 16 (ucast a) OR push_bit 8 (ucast b) OR ucast c :: u32 in
     [conv_bin2ascii (ucast (drop_bit 18 l)), conv_bin2ascii (ucast (drop_bit 12 l)),
      conv_bin2ascii (ucast (drop_bit 6 l)), conv_bin2ascii (ucast l)] @ encode_quads src)"

definition EVP_EncodeBlock :: "bytes \<Rightarrow> bytes \<times> nat" where
  "EVP_EncodeBlock src = (let dst = encode_quads src in (dst @ [0], length dst mod SIZE_MOD))"

definition INT_MAX :: nat where
  "INT_MAX = 2147483647"

definition encode_line :: "bytes \<Rightarrow> bytes \<times> nat" where
  "encode_line src = (case EVP_EncodeBlock src of (dst, encoded) \<Rightarrow> (take encoded dst @ [10], encoded))"

text \<open>The loop over whole lines; the flag says that the count overflowed.\<close>

function encode_lines :: "bytes \<Rightarrow> nat \<Rightarrow> bytes \<Rightarrow> bytes \<times> nat \<times> bytes \<times> bool" where
  "encode_lines out tot src =
    (if length src \<ge> ENC_DATA_SIZE then
       case encode_line (take ENC_DATA_SIZE src) of (line, encoded) \<Rightarrow>
         let out = out @ line; src = drop ENC_DATA_SIZE src; sum = (tot + encoded + 1) mod SIZE_MOD in
         if sum < tot then (out, tot, src, True) else encode_lines out sum src
     else (out, tot, src, False))"
  by pat_completeness auto
termination
  by (relation "measure (\<lambda>(out, tot, src). length src)") (auto simp: ENC_DATA_SIZE_def)

declare encode_lines.simps [simp del]

definition EVP_EncodeUpdate :: "EVP_ENCODE_CTX \<Rightarrow> bytes \<Rightarrow> bytes \<times> nat \<times> EVP_ENCODE_CTX" where
  "EVP_EncodeUpdate ctx inp =
    (if inp = [] then ([], 0, ctx)
     else if ENC_DATA_SIZE - data_used ctx > length inp then
       ([], 0, ctx\<lparr>enc_data := write_at (data_used ctx) inp (enc_data ctx), data_used := data_used ctx + length inp\<rparr>)
     else
       let todo = ENC_DATA_SIZE - data_used ctx;
           full = write_at (data_used ctx) (take todo inp) (enc_data ctx);
           (out, tot, inp, ctx) =
             (if data_used ctx \<noteq> 0
              then case encode_line full of (line, encoded) \<Rightarrow>
                (line, encoded + 1, drop todo inp, ctx\<lparr>enc_data := full, data_used := 0\<rparr>)
              else ([], 0, inp, ctx));
           (out, tot, inp, overflow) = encode_lines out tot inp;
           written = (if out = [] then [] else out @ [0])
       in if overflow then (written, 0, ctx)
          else (written, if tot > INT_MAX then 0 else tot,
            ctx\<lparr>enc_data := write_at 0 inp (enc_data ctx), data_used := length inp\<rparr>))"

definition EVP_EncodeFinal :: "EVP_ENCODE_CTX \<Rightarrow> bytes \<times> nat \<times> EVP_ENCODE_CTX" where
  "EVP_EncodeFinal ctx =
    (if data_used ctx = 0 then ([], 0, ctx)
     else case encode_line (take (data_used ctx) (enc_data ctx)) of (line, encoded) \<Rightarrow>
       (line @ [0], encoded + 1, ctx\<lparr>data_used := 0\<rparr>))"

section \<open>Decoding\<close>

definition EVP_DecodedLength :: "nat \<Rightarrow> nat option" where
  "EVP_DecodedLength len = (if len mod 4 \<noteq> 0 then None else Some (len div 4 * 3))"

definition EVP_DecodeInit :: EVP_ENCODE_CTX where
  "EVP_DecodeInit = EVP_EncodeInit"

text \<open>The bytes of a quad, as many as \<open>*out_num_bytes\<close> says.\<close>

definition base64_decode_quad :: "u8 \<Rightarrow> u8 \<Rightarrow> u8 \<Rightarrow> u8 \<Rightarrow> bytes option" where
  "base64_decode_quad in0 in1 in2 in3 =
    (let a = base64_ascii_to_bin in0; b = base64_ascii_to_bin in1;
         c = base64_ascii_to_bin in2; d = base64_ascii_to_bin in3 in
     if a = 0xff \<or> b = 0xff \<or> c = 0xff \<or> d = 0xff then None
     else let v = push_bit 18 (ucast a) OR push_bit 12 (ucast b) OR push_bit 6 (ucast c) OR ucast d :: u32;
              padding_pattern = push_bit 3 (of_bool (in0 = 61)) OR push_bit 2 (of_bool (in1 = 61)) OR
                push_bit 1 (of_bool (in2 = 61)) OR of_bool (in3 = 61) :: u32 in
       if padding_pattern = 0 then Some [ucast (drop_bit 16 v), ucast (drop_bit 8 v), ucast v]
       else if padding_pattern = 1 then Some [ucast (drop_bit 16 v), ucast (drop_bit 8 v)]
       else if padding_pattern = 3 then Some [ucast (drop_bit 16 v)]
       else None)"

definition is_space :: "u8 \<Rightarrow> bool" where
  "is_space c \<longleftrightarrow> c = 32 \<or> c = 9 \<or> c = 13 \<or> c = 10"

fun decode_chars :: "EVP_ENCODE_CTX \<Rightarrow> bytes \<Rightarrow> bytes \<Rightarrow> bool \<times> bytes \<times> EVP_ENCODE_CTX" where
  "decode_chars ctx out [] = (True, out, ctx)"
| "decode_chars ctx out (c # cs) =
    (if is_space c then decode_chars ctx out cs
     else if eof_seen ctx then (False, out, ctx\<lparr>error_encountered := True\<rparr>)
     else let ctx = ctx\<lparr>enc_data := (enc_data ctx)[data_used ctx := c], data_used := data_used ctx + 1\<rparr> in
       if data_used ctx = 4 then
         (case base64_decode_quad (enc_data ctx ! 0) (enc_data ctx ! 1) (enc_data ctx ! 2) (enc_data ctx ! 3) of
            None \<Rightarrow> (False, out, ctx\<lparr>error_encountered := True\<rparr>)
          | Some bs \<Rightarrow>
              let ctx = ctx\<lparr>data_used := 0\<rparr>;
                  ctx = (if length bs < 3 then ctx\<lparr>eof_seen := True\<rparr> else ctx) in
              decode_chars ctx (out @ bs) cs)
       else decode_chars ctx out cs)"

definition EVP_DecodeUpdate :: "EVP_ENCODE_CTX \<Rightarrow> bytes \<Rightarrow> int \<times> bytes \<times> nat \<times> EVP_ENCODE_CTX" where
  "EVP_DecodeUpdate ctx inp =
    (if error_encountered ctx then (- 1, [], 0, ctx)
     else case decode_chars ctx [] inp of
       (False, out, ctx) \<Rightarrow> (- 1, out, 0, ctx)
     | (True, out, ctx) \<Rightarrow>
         let bytes_out = length out mod SIZE_MOD in
         if bytes_out > INT_MAX then (- 1, out, 0, ctx\<lparr>error_encountered := True\<rparr>)
         else (if eof_seen ctx then 0 else 1, out, bytes_out, ctx))"

definition EVP_DecodeFinal :: "EVP_ENCODE_CTX \<Rightarrow> int" where
  "EVP_DecodeFinal ctx = (if error_encountered ctx \<or> data_used ctx \<noteq> 0 then - 1 else 1)"

text \<open>The loop over the quads returns whether it went through and what it wrote.\<close>

fun decode_quads :: "bytes \<Rightarrow> bytes \<Rightarrow> bool \<times> bytes" where
  "decode_quads out (a # b # c # d # inp) =
    (case base64_decode_quad a b c d of
       None \<Rightarrow> (False, out)
     | Some bs \<Rightarrow> if length bs \<noteq> 3 \<and> inp \<noteq> [] then (False, out @ bs) else decode_quads (out @ bs) inp)"
| "decode_quads out inp = (True, out)"

definition EVP_DecodeBase64 :: "nat \<Rightarrow> bytes \<Rightarrow> bool \<times> bytes \<times> nat" where
  "EVP_DecodeBase64 max_out inp =
    (if length inp mod 4 \<noteq> 0 then (False, [], 0)
     else case EVP_DecodedLength (length inp) of
       None \<Rightarrow> (False, [], 0)
     | Some max_len \<Rightarrow>
         if max_out < max_len then (False, [], 0)
         else case decode_quads [] inp of
           (False, out) \<Rightarrow> (False, out, 0)
         | (True, out) \<Rightarrow> (True, out, length out))"

definition trim_left :: "bytes \<Rightarrow> bytes" where
  "trim_left src = dropWhile (\<lambda>c. c = 32 \<or> c = 9) src"

definition trim_right :: "bytes \<Rightarrow> bytes" where
  "trim_right src = rev (dropWhile is_space (rev src))"

definition EVP_DecodeBlock :: "bytes \<Rightarrow> int \<times> bytes" where
  "EVP_DecodeBlock src0 =
    (let src = trim_right (trim_left src0) in
     case EVP_DecodedLength (length src) of
       None \<Rightarrow> (- 1, [])
     | Some dst_len \<Rightarrow>
         if dst_len > INT_MAX then (- 1, [])
         else case EVP_DecodeBase64 dst_len src of
           (False, dst, _) \<Rightarrow> (- 1, dst)
         | (True, dst, dst_len) \<Rightarrow>
             let pad = (3 - dst_len mod 3) mod 3 in (int (dst_len + pad), dst @ replicate pad 0))"


section \<open>Specification\<close>

definition b64 :: "nat \<Rightarrow> u8" where
  "b64 n = word_of_nat (if n < 26 then 65 + n else if n < 52 then 97 + (n - 26) else if n < 62 then 48 + (n - 52)
     else if n = 62 then 43 else 47)"

fun quads :: "bytes \<Rightarrow> bytes" where
  "quads (a # b # c # src) =
     (let n = be_nat [a, b, c] in [b64 (n div 64 ^ 3), b64 (n div 64 ^ 2 mod 64), b64 (n div 64 mod 64), b64 (n mod 64)]) @ quads src"
| "quads [a, b] = (let n = be_nat [a, b, 0] in [b64 (n div 64 ^ 3), b64 (n div 64 ^ 2 mod 64), b64 (n div 64 mod 64), 61])"
| "quads [a] = (let n = be_nat [a, 0, 0] in [b64 (n div 64 ^ 3), b64 (n div 64 ^ 2 mod 64), 61, 61])"
| "quads [] = []"

section \<open>The alphabet, in arithmetic\<close>

lemma lt_args_8_eq: "constant_time_lt_args_8 a b = (if a < b then - 1 else 0)"
proof -
  have "bit (ucast a - ucast b :: u64) 63 \<longleftrightarrow> a < b"
  proof -
    have d: "unat (ucast a - ucast b :: u64) = (if unat b \<le> unat a then unat a - unat b else unat a + SIZE_MOD - unat b)"
      by (simp add: unat_sub_if')
    have "(2::nat) ^ 63 = 9223372036854775808" by simp
    then show ?thesis
      unfolding bit_63_iff word_less_nat_alt d using unat_u8_less [of a] unat_u8_less [of b]
      by (cases "unat b \<le> unat a") (simp_all only: if_True if_False, linarith+)
  qed
  then show ?thesis by (simp add: constant_time_lt_args_8_def constant_time_msb_w_eq ucast_u8_all_ones)
qed

lemma in_range_8_eq:
  "lo \<le> hi \<Longrightarrow> hi - lo \<noteq> - 1 \<Longrightarrow> constant_time_in_range_8 a lo hi = (if lo \<le> a \<and> a \<le> hi then - 1 else 0)"
proof -
  assume le: "lo \<le> hi" and ne: "hi - lo \<noteq> - 1"
  have "unat (hi - lo) = unat hi - unat lo" using le by (simp add: unat_sub)
  moreover have "unat (- 1 :: u8) = 255" by (simp add: unsigned_minus_1_eq_mask mask_eq_exp_minus_1)
  then have "unat (hi - lo) \<noteq> 255" using ne by (metis word_unat_eq_iff)
  moreover have "unat (hi - lo) < 256" by simp
  ultimately have "unat (hi - lo + 1) = unat hi - unat lo + 1" by (simp add: unat_word_ariths)
  moreover have "unat (a - lo) = (if unat lo \<le> unat a then unat a - unat lo else unat a + 256 - unat lo)"
    by (simp add: unat_sub_if')
  ultimately have "a - lo < hi - lo + 1 \<longleftrightarrow> lo \<le> a \<and> a \<le> hi"
    unfolding word_less_nat_alt word_le_nat_alt
    using le [unfolded word_le_nat_alt] unat_u8_less [of a] unat_u8_less [of hi]
    by (cases "unat lo \<le> unat a"; simp only: if_True if_False; arith)
  then show ?thesis by (simp add: constant_time_in_range_8_def lt_args_8_eq)
qed

lemmas select_eqs = constant_time_8_eqs constant_time_select_8_eq lt_args_8_eq

lemma ucast_u8_u64_eq: "(ucast (a :: u8) :: u64) = ucast b \<longleftrightarrow> a = b"
  by (simp add: word_unat_eq_iff)

lemma b64_cases:
  assumes "unat x < 64"
  shows "b64 (unat x) = (if x < 26 then x + 65 else if x < 52 then x - 26 + 97 else if x < 62 then x - 52 + 48
    else if x = 62 then 43 else 47)"
  using assms
  by (auto simp: b64_def word_unat_eq_iff word_less_nat_alt unat_of_nat unat_sub_if' unat_word_ariths)

lemma conv_bin2ascii_eq: "conv_bin2ascii a = b64 (unat a mod 64)"
proof -
  let ?x = "a AND 0x3f"
  have m: "unat ?x = unat a mod 64" by (rule unat_low_bits)
  have "constant_time_eq_8 (ucast ?x) 62 = (if ?x = 62 then - 1 else 0)"
    using ucast_u8_u64_eq [of ?x 62] by (simp add: constant_time_8_eqs)
  then have "conv_bin2ascii a = (if ?x < 26 then ?x + 65 else if ?x < 52 then ?x - 26 + 97 else if ?x < 62 then ?x - 52 + 48
    else if ?x = 62 then 43 else 47)"
    by (simp add: conv_bin2ascii_def Let_def lt_args_8_eq constant_time_select_8_eq)
  also have "\<dots> = b64 (unat ?x)" by (rule b64_cases [symmetric]) (simp add: m)
  finally show ?thesis by (simp add: m)
qed

definition ascii_value :: "u8 \<Rightarrow> nat option" where
  "ascii_value c = (let n = unat c in
     if 65 \<le> n \<and> n \<le> 90 then Some (n - 65) else if 97 \<le> n \<and> n \<le> 122 then Some (n - 97 + 26)
     else if 48 \<le> n \<and> n \<le> 57 then Some (n - 48 + 52) else if n = 43 then Some 62
     else if n = 47 then Some 63 else if n = 61 then Some 0 else None)"

lemma ascii_to_bin_eq:
  "base64_ascii_to_bin c = (case ascii_value c of None \<Rightarrow> 0xff | Some n \<Rightarrow> word_of_nat n)"
proof -
  have e: "constant_time_eq_8 (ucast c) 43 = (if c = 43 then - 1 else 0)" "constant_time_eq_8 (ucast c) 47 = (if c = 47 then - 1 else 0)"
    "constant_time_eq_8 (ucast c) 61 = (if c = 61 then - 1 else 0)"
    using ucast_u8_u64_eq [of c 43] ucast_u8_u64_eq [of c 47] ucast_u8_u64_eq [of c 61] by (simp_all add: constant_time_8_eqs)
  have r: "constant_time_in_range_8 c 65 90 = (if 65 \<le> c \<and> c \<le> 90 then - 1 else 0)"
    "constant_time_in_range_8 c 97 122 = (if 97 \<le> c \<and> c \<le> 122 then - 1 else 0)"
    "constant_time_in_range_8 c 48 57 = (if 48 \<le> c \<and> c \<le> 57 then - 1 else 0)"
    by (simp_all add: in_range_8_eq)
  have "base64_ascii_to_bin c =
      (if c = 61 then 0 else if c = 47 then 63 else if c = 43 then 62 else if 48 \<le> c \<and> c \<le> 57 then c - 48 + 52
       else if 97 \<le> c \<and> c \<le> 122 then c - 97 + 26 else if 65 \<le> c \<and> c \<le> 90 then c - 65 else 0xff)"
    by (simp add: base64_ascii_to_bin_def Let_def r e constant_time_select_8_eq)
  then show ?thesis
    by (auto simp: ascii_value_def Let_def word_unat_eq_iff word_le_nat_alt unat_of_nat unat_sub_if' unat_word_ariths)
qed

section \<open>The one-shot encoder and decoder\<close>

lemma unat_triple:
  "unat (push_bit 16 (ucast a) OR push_bit 8 (ucast b) OR ucast c :: u32) = be_nat [a, b, c]"
proof -
  have 1: "unat (push_bit 8 (ucast a) OR ucast b :: u32) = unat a * 256 + unat b"
    using unat_push_or [of "ucast b :: u32" 8 "ucast a"] unat_u8_less [of a] unat_u8_less [of b] by simp
  have "unat a * 256 + unat b < 65536" using unat_u8_less [of a] unat_u8_less [of b] by linarith
  then have 2: "unat (push_bit 8 (push_bit 8 (ucast a) OR ucast b) OR ucast c :: u32) = (unat a * 256 + unat b) * 256 + unat c"
    using unat_push_or [of "ucast c :: u32" 8 "push_bit 8 (ucast a) OR ucast b"] unat_u8_less [of c] 1 by simp
  have "push_bit 16 (ucast a) OR push_bit 8 (ucast b) OR ucast c =
      (push_bit 8 (push_bit 8 (ucast a) OR ucast b) OR ucast c :: u32)"
    by (simp add: push_bit_or or.assoc)
  then show ?thesis using 2 by (simp add: be_nat_Cons)
qed

lemma conv_digit:
  fixes l :: u32
  shows "conv_bin2ascii (ucast (drop_bit k l)) = b64 (unat l div 2 ^ k mod 64)"
    and "conv_bin2ascii (ucast l) = b64 (unat l mod 64)"
proof -
  have "unat (ucast w :: u8) mod 64 = unat w mod 64" for w :: u32
    by (simp only: unsigned_ucast_eq) (simp add: take_bit_eq_mod mod_mod_cancel)
  then show "conv_bin2ascii (ucast (drop_bit k l)) = b64 (unat l div 2 ^ k mod 64)"
    "conv_bin2ascii (ucast l) = b64 (unat l mod 64)"
    by (simp_all only: conv_bin2ascii_eq unat_shift_right)
qed

lemma encode_quads_eq: "encode_quads src = quads src"
proof (induction src rule: encode_quads.induct)
  case (2 a)
  have "unat (push_bit 16 (ucast a) :: u32) = be_nat [a, 0, 0]" using unat_triple [of a 0 0] by simp
  moreover have "be_nat [a, 0, 0] div 64 ^ 3 < 64" using be_nat_less [of "[a, 0, 0]"] by simp
  ultimately show ?case by (simp only: encode_quads.simps quads.simps Let_def conv_digit unat_shift_right) simp
next
  case (3 a b)
  have "unat (push_bit 16 (ucast a) OR push_bit 8 (ucast b) :: u32) = be_nat [a, b, 0]" using unat_triple [of a b 0] by simp
  moreover have "be_nat [a, b, 0] div 64 ^ 3 < 64" using be_nat_less [of "[a, b, 0]"] by simp
  ultimately show ?case by (simp only: encode_quads.simps quads.simps Let_def conv_digit unat_shift_right) simp
next
  case (4 a b c src)
  have "be_nat [a, b, c] div 64 ^ 3 < 64" using be_nat_less [of "[a, b, c]"] by simp
  with 4 show ?case by (simp only: encode_quads.simps quads.simps Let_def conv_digit unat_shift_right unat_triple) simp
qed simp

lemma b64_value: "n < 64 \<Longrightarrow> ascii_value (b64 n) = Some n" and b64_pad: "n < 64 \<Longrightarrow> b64 n \<noteq> 61"
  by (auto simp: ascii_value_def b64_def unat_of_nat Let_def word_unat_eq_iff)

lemma value_b64: "ascii_value c = Some n \<Longrightarrow> n < 64 \<and> (c = 61 \<and> n = 0 \<or> c = b64 n)"
  by (auto simp: ascii_value_def b64_def Let_def word_unat_eq_iff unat_of_nat split: if_splits)

lemma ascii_to_bin_invalid: "base64_ascii_to_bin c = 0xff \<longleftrightarrow> ascii_value c = None"
proof (cases "ascii_value c")
  case (Some n)
  with value_b64 [OF Some] have "unat (word_of_nat n :: u8) \<noteq> 255" by (simp add: unat_of_nat)
  then have "word_of_nat n \<noteq> (0xff :: u8)" by auto
  with Some show ?thesis by (simp add: ascii_to_bin_eq)
qed (simp add: ascii_to_bin_eq)

definition digits_nat :: "nat list \<Rightarrow> nat" where
  "digits_nat ds = foldl (\<lambda>n d. n * 64 + d) 0 ds"

lemma unat_quad:
  assumes "a < 64" "b < 64" "c < 64" "d < 64"
  shows "unat (push_bit 18 (ucast (word_of_nat a :: u8)) OR push_bit 12 (ucast (word_of_nat b :: u8)) OR
      push_bit 6 (ucast (word_of_nat c :: u8)) OR ucast (word_of_nat d :: u8) :: u32) = digits_nat [a, b, c, d]"
proof -
  let ?w = "\<lambda>n. ucast (word_of_nat n :: u8) :: u32"
  have w: "unat (?w n) = n" if "n < 64" for n using that by (simp add: unat_of_nat)
  have 1: "unat (push_bit 6 (?w a) OR ?w b) = a * 64 + b"
    using unat_push_or [of "?w b" 6 "?w a"] assms by (simp only: w) simp
  have "a * 64 + b < 4096" using assms by linarith
  then have 2: "unat (push_bit 6 (push_bit 6 (?w a) OR ?w b) OR ?w c) = (a * 64 + b) * 64 + c"
    using unat_push_or [of "?w c" 6 "push_bit 6 (?w a) OR ?w b"] assms by (simp only: w 1) simp
  have "(a * 64 + b) * 64 + c < 262144" using digit_less [OF \<open>a * 64 + b < 4096\<close> assms(3)] by simp
  then have 3: "unat (push_bit 6 (push_bit 6 (push_bit 6 (?w a) OR ?w b) OR ?w c) OR ?w d) = ((a * 64 + b) * 64 + c) * 64 + d"
    using unat_push_or [of "?w d" 6 "push_bit 6 (push_bit 6 (?w a) OR ?w b) OR ?w c"] assms by (simp only: w 2) simp
  have "push_bit 18 (?w a) OR push_bit 12 (?w b) OR push_bit 6 (?w c) OR ?w d =
      push_bit 6 (push_bit 6 (push_bit 6 (?w a) OR ?w b) OR ?w c) OR ?w d"
    by (simp only: push_bit_or push_bit_push_bit or.assoc) simp
  then show ?thesis using 3 by (simp add: digits_nat_def)
qed

definition quad_bytes :: "nat \<Rightarrow> u8 \<Rightarrow> u8 \<Rightarrow> u8 \<Rightarrow> u8 \<Rightarrow> bytes option" where
  "quad_bytes n p q r s =
     (if p = 61 \<or> q = 61 \<or> (r = 61 \<and> s \<noteq> 61) then None
      else Some (take (if r = 61 then 1 else if s = 61 then 2 else 3) (be_bytes 3 n)))"

lemma be_bytes_3: "be_bytes 3 n = [word_of_nat (n div 256 div 256), word_of_nat (n div 256), word_of_nat n]"
  by (simp add: numeral_3_eq_3)

lemma pad_pattern:
  "(push_bit 3 (of_bool p) OR push_bit 2 (of_bool q) OR push_bit 1 (of_bool r) OR of_bool s :: u32) =
     (if p then 8 else 0) + (if q then 4 else 0) + (if r then 2 else 0) + (if s then 1 else 0)"
  by (cases p; cases q; cases r; cases s) (simp_all add: push_bit_eq_mult)

lemma decode_quad_Some:
  assumes "ascii_value p = Some a" "ascii_value q = Some b" "ascii_value r = Some c" "ascii_value s = Some d"
  shows "base64_decode_quad p q r s = quad_bytes (digits_nat [a, b, c, d]) p q r s"
proof -
  let ?v = "push_bit 18 (ucast (word_of_nat a :: u8)) OR push_bit 12 (ucast (word_of_nat b :: u8)) OR
      push_bit 6 (ucast (word_of_nat c :: u8)) OR ucast (word_of_nat d :: u8) :: u32"
  have lt: "a < 64" "b < 64" "c < 64" "d < 64" using assms by (auto dest: value_b64)
  have v: "unat ?v = digits_nat [a, b, c, d]" using unat_quad [OF lt] .
  have ff: "base64_ascii_to_bin x \<noteq> 0xff" "base64_ascii_to_bin x = word_of_nat n" if "ascii_value x = Some n" for x n
    using that ascii_to_bin_invalid [of x] by (simp_all add: ascii_to_bin_eq)
  obtain v where vd: "v = ?v" by blast
  have b: "be_bytes 3 (digits_nat [a, b, c, d]) = [ucast (drop_bit 16 v), ucast (drop_bit 8 v), ucast v]"
    unfolding vd by (simp only: be_bytes_3 list.inject ucast_u8_of_unat unat_shift_right v simp_thms) (simp flip: div_mult2_eq)
  have "base64_decode_quad p q r s =
    (let pattern = (if p = 61 then 8 else 0) + (if q = 61 then 4 else 0) + (if r = 61 then 2 else 0) + (if s = 61 then 1 else 0) :: u32 in
     if pattern = 0 then Some [ucast (drop_bit 16 v), ucast (drop_bit 8 v), ucast v]
     else if pattern = 1 then Some [ucast (drop_bit 16 v), ucast (drop_bit 8 v)]
     else if pattern = 3 then Some [ucast (drop_bit 16 v)] else None)"
    using ff(1) [OF assms(1)] ff(1) [OF assms(2)] ff(1) [OF assms(3)] ff(1) [OF assms(4)]
    by (simp only: base64_decode_quad_def Let_def pad_pattern vd ff(2) [OF assms(1)] ff(2) [OF assms(2)] ff(2) [OF assms(3)]
        ff(2) [OF assms(4)] simp_thms if_False)
  then show ?thesis
    unfolding quad_bytes_def b
    by (cases "p = 61"; cases "q = 61"; cases "r = 61"; cases "s = 61") simp_all
qed

lemma decode_quad_iff:
  "base64_decode_quad p q r s = Some bs \<longleftrightarrow> (\<exists>a b c d. ascii_value p = Some a \<and> ascii_value q = Some b \<and>
     ascii_value r = Some c \<and> ascii_value s = Some d \<and> quad_bytes (digits_nat [a, b, c, d]) p q r s = Some bs)"
proof (cases "ascii_value p = None \<or> ascii_value q = None \<or> ascii_value r = None \<or> ascii_value s = None")
  case True
  then have "base64_decode_quad p q r s = None"
    unfolding base64_decode_quad_def Let_def ascii_to_bin_invalid by auto
  with True show ?thesis by auto
next
  case False
  then obtain a b c d where "ascii_value p = Some a" "ascii_value q = Some b" "ascii_value r = Some c" "ascii_value s = Some d"
    by auto
  with decode_quad_Some [OF this] show ?thesis by simp
qed


text \<open>The digits of three bytes, and back.\<close>

lemma digits_nat_split:
  "n < 64 ^ 4 \<Longrightarrow> digits_nat [n div 64 ^ 3, n div 64 ^ 2 mod 64, n div 64 mod 64, n mod 64] = n"
proof -
  have "n div 64 ^ 2 div 64 = n div 64 ^ 3" "n div 64 div 64 = n div 64 ^ 2" by (simp_all flip: div_mult2_eq)
  then have "n div 64 ^ 3 * 64 + n div 64 ^ 2 mod 64 = n div 64 ^ 2" "n div 64 ^ 2 * 64 + n div 64 mod 64 = n div 64"
    by (metis div_mult_mod_eq)+
  then show ?thesis by (simp add: digits_nat_def)
qed

lemma quad_digits:
  assumes "n < 64 ^ 4"
  shows "base64_decode_quad (b64 (n div 64 ^ 3)) (b64 (n div 64 ^ 2 mod 64)) (b64 (n div 64 mod 64)) (b64 (n mod 64)) =
      Some (be_bytes 3 n)"
    and "n mod 64 = 0 \<Longrightarrow> base64_decode_quad (b64 (n div 64 ^ 3)) (b64 (n div 64 ^ 2 mod 64)) (b64 (n div 64 mod 64)) 61 =
      Some (take 2 (be_bytes 3 n))"
    and "n mod 4096 = 0 \<Longrightarrow> base64_decode_quad (b64 (n div 64 ^ 3)) (b64 (n div 64 ^ 2 mod 64)) 61 61 =
      Some (take 1 (be_bytes 3 n))"
proof -
  have lt: "n div 64 ^ 3 < 64" using assms by simp
  note v = b64_value [OF lt] b64_value [of "n div 64 ^ 2 mod 64"] b64_value [of "n div 64 mod 64"] b64_value [of "n mod 64"]
  have p: "ascii_value 61 = Some 0" by (simp add: ascii_value_def)
  note q = b64_pad [OF lt] b64_pad [of "n div 64 ^ 2 mod 64"] b64_pad [of "n div 64 mod 64"] b64_pad [of "n mod 64"]
  note s = digits_nat_split [OF assms]
  show "base64_decode_quad (b64 (n div 64 ^ 3)) (b64 (n div 64 ^ 2 mod 64)) (b64 (n div 64 mod 64)) (b64 (n mod 64)) =
      Some (be_bytes 3 n)"
    using decode_quad_Some [OF v(1)] v q s by (simp add: quad_bytes_def del: be_bytes.simps)
  show "base64_decode_quad (b64 (n div 64 ^ 3)) (b64 (n div 64 ^ 2 mod 64)) (b64 (n div 64 mod 64)) 61 =
      Some (take 2 (be_bytes 3 n))" if "n mod 64 = 0"
    using decode_quad_Some [OF v(1) _ _ p] v q s that by (simp add: quad_bytes_def del: be_bytes.simps)
  show "base64_decode_quad (b64 (n div 64 ^ 3)) (b64 (n div 64 ^ 2 mod 64)) 61 61 = Some (take 1 (be_bytes 3 n))"
    if "n mod 4096 = 0"
  proof -
    have "n mod 64 = 0" "n div 64 mod 64 = 0" using that mod_mult2_eq [of n 64 64] by auto
    then show ?thesis
      using decode_quad_Some [OF v(1) _ p p] v q s by (simp add: quad_bytes_def del: be_bytes.simps)
  qed
qed

lemma be_bytes_be_nat3: "be_bytes 3 (be_nat [a, b, c]) = [a, b, c]"
  by (rule be_bytes_be_nat) simp

lemma decode_quads_quads: "decode_quads out (quads src) = (True, out @ src)"
proof (induction src arbitrary: out rule: quads.induct)
  case (1 a b c src)
  have "be_nat [a, b, c] < 64 ^ 4" using be_nat_less [of "[a, b, c]"] by simp
  from quad_digits(1) [OF this] 1 show ?case by (simp add: Let_def be_bytes_be_nat3 del: be_bytes.simps)
next
  case (2 a b)
  have "be_nat [a, b, 0] < 64 ^ 4" using be_nat_less [of "[a, b, 0]"] by simp
  moreover have "be_nat [a, b, 0] mod 64 = 0" by (simp add: be_nat_Cons)
  ultimately show ?case using quad_digits(2) [of "be_nat [a, b, 0]"] by (simp add: Let_def be_bytes_be_nat3 del: be_bytes.simps)
next
  case (3 a)
  have "be_nat [a, 0, 0] < 64 ^ 4" using be_nat_less [of "[a, 0, 0]"] by simp
  moreover have "be_nat [a, 0, 0] mod 4096 = 0" by (simp add: be_nat_Cons)
  ultimately show ?case using quad_digits(3) [of "be_nat [a, 0, 0]"] by (simp add: Let_def be_bytes_be_nat3 del: be_bytes.simps)
qed simp

lemma length_quads: "length (quads src) = (length src + 2) div 3 * 4"
proof (induction src rule: quads.induct)
  case (1 a b c src)
  have "(length (a # b # c # src) + 2) div 3 = (length src + 2) div 3 + 1"
    using div_add_self2 [of 3 "length src + 2"] by (simp add: add.commute)
  with 1 show ?case by (simp add: Let_def)
qed (simp_all add: Let_def)

section \<open>The streaming encoder\<close>

definition line_step :: "bytes \<Rightarrow> bytes \<Rightarrow> bytes" where
  "line_step out line = out @ quads line @ [10]"

definition b64_text :: "bytes \<Rightarrow> bytes" where
  "b64_text data = (case absorb ENC_DATA_SIZE line_step [] data of
     (out, left) \<Rightarrow> out @ (if left = [] then [] else quads left @ [10]))"

definition enc_ok :: "EVP_ENCODE_CTX \<Rightarrow> bool" where
  "enc_ok ctx \<longleftrightarrow> data_used ctx < ENC_DATA_SIZE \<and> length (enc_data ctx) = ENC_DATA_SIZE"

lemma absorb_out:
  "0 < n \<Longrightarrow> absorb n (\<lambda>out b. out @ f b) out xs =
     (case absorb n (\<lambda>out b. out @ f b) [] xs of (w, left) \<Rightarrow> (out @ w, left))"
proof (induction "length xs" arbitrary: out xs rule: less_induct)
  case less
  show ?case
  proof (cases "length xs < n")
    case False
    then have l: "length (drop n xs) < length xs" using less(2) by simp
    have s: "absorb n (\<lambda>out b. out @ f b) o' xs = absorb n (\<lambda>out b. out @ f b) (o' @ f (take n xs)) (drop n xs)" for o'
      using False less(2) by (subst absorb.simps) simp
    show ?thesis
      using less(1) [OF l less(2), of "out @ f (take n xs)"] less(1) [OF l less(2), of "f (take n xs)"]
      by (simp add: s split: prod.splits)
  qed (simp add: absorb_short)
qed

lemma encode_line_eq: "length src \<le> ENC_DATA_SIZE \<Longrightarrow> encode_line src = (quads src @ [10], length (quads src))"
proof -
  assume "length src \<le> ENC_DATA_SIZE"
  then have "length (quads src) < SIZE_MOD" by (simp add: length_quads ENC_DATA_SIZE_def)
  then show ?thesis by (simp add: encode_line_def EVP_EncodeBlock_def encode_quads_eq Let_def)
qed

lemma encode_lines_eq:
  "tot + 65 * (length src div ENC_DATA_SIZE) < SIZE_MOD \<Longrightarrow>
    encode_lines out tot src = (case absorb ENC_DATA_SIZE line_step out src of
      (out, left) \<Rightarrow> (out, tot + 65 * (length src div ENC_DATA_SIZE), left, False))"
proof (induction "length src" arbitrary: out tot src rule: less_induct)
  case less
  show ?case
  proof (cases "length src < ENC_DATA_SIZE")
    case True
    then show ?thesis by (subst encode_lines.simps) (simp add: absorb_short)
  next
    case False
    let ?line = "take ENC_DATA_SIZE src"
    have z: "0 < ENC_DATA_SIZE" by (simp add: ENC_DATA_SIZE_def)
    have l: "length ?line = ENC_DATA_SIZE" using False by simp
    have e: "encode_line ?line = (quads ?line @ [10], 64)"
      using l by (simp add: encode_line_eq length_quads) (simp add: ENC_DATA_SIZE_def)
    have d: "length src div ENC_DATA_SIZE = Suc (length (drop ENC_DATA_SIZE src) div ENC_DATA_SIZE)"
      using False z by (simp add: le_div_geq)
    have sum: "65 + tot < SIZE_MOD" using less(2) unfolding d by simp
    have "encode_lines out tot src = encode_lines (out @ quads ?line @ [10]) (tot + 65) (drop ENC_DATA_SIZE src)"
      using False by (subst encode_lines.simps) (simp add: e sum Let_def add.commute [of tot])
    also have "\<dots> = (case absorb ENC_DATA_SIZE line_step (out @ quads ?line @ [10]) (drop ENC_DATA_SIZE src) of
        (out, left) \<Rightarrow> (out, tot + 65 + 65 * (length (drop ENC_DATA_SIZE src) div ENC_DATA_SIZE), left, False))"
      using less(2) False z unfolding d by (intro less(1)) simp_all
    also have "absorb ENC_DATA_SIZE line_step (out @ quads ?line @ [10]) (drop ENC_DATA_SIZE src) =
        absorb ENC_DATA_SIZE line_step out src"
      using False z by (subst (2) absorb.simps) (simp add: line_step_def)
    finally show ?thesis by (simp add: d split: prod.splits)
  qed
qed

lemma length_absorb_lines:
  "length (fst (absorb ENC_DATA_SIZE line_step out src)) = length out + 65 * (length src div ENC_DATA_SIZE)"
proof (induction "length src" arbitrary: out src rule: less_induct)
  case less
  have z: "0 < ENC_DATA_SIZE" by (simp add: ENC_DATA_SIZE_def)
  show ?case
  proof (cases "length src < ENC_DATA_SIZE")
    case False
    then have d: "length src div ENC_DATA_SIZE = Suc (length (drop ENC_DATA_SIZE src) div ENC_DATA_SIZE)"
      using z by (simp add: le_div_geq)
    have "length (quads (take ENC_DATA_SIZE src)) = 64"
      using False by (simp add: length_quads) (simp add: ENC_DATA_SIZE_def)
    then show ?thesis
      using less [of "drop ENC_DATA_SIZE src" "line_step out (take ENC_DATA_SIZE src)"] False z d
      by (subst absorb.simps) (simp add: line_step_def)
  qed (simp add: absorb_short)
qed

lemma EVP_EncodeUpdate_eq:
  assumes ok: "enc_ok ctx" and sz: "length inp \<le> 2 ^ 30"
  obtains w ctx' where "EVP_EncodeUpdate ctx inp = (if w = [] then [] else w @ [0], length w, ctx')" and "enc_ok ctx'"
    and "absorb ENC_DATA_SIZE line_step [] (take (data_used ctx) (enc_data ctx) @ inp) =
      (w, take (data_used ctx') (enc_data ctx'))"
proof (cases "ENC_DATA_SIZE - data_used ctx > length inp")
  case True
  let ?ctx = "ctx\<lparr>enc_data := write_at (data_used ctx) inp (enc_data ctx), data_used := data_used ctx + length inp\<rparr>"
  have s: "length (take (data_used ctx) (enc_data ctx) @ inp) < ENC_DATA_SIZE" using True ok by (simp add: enc_ok_def)
  show ?thesis
  proof (cases "inp = []")
    case True
    then show ?thesis
      using ok absorb_short [OF s, of line_step "[]"] by (intro that [of "[]" ctx]) (simp_all add: EVP_EncodeUpdate_def)
  next
    case False
    have "enc_ok ?ctx" using True ok by (simp add: enc_ok_def)
    moreover have "take (data_used ctx) (enc_data ctx) @ inp = take (data_used ?ctx) (enc_data ?ctx)"
      using True ok by (simp add: enc_ok_def write_at_def)
    ultimately show ?thesis
      using True False absorb_short [OF s, of line_step "[]"] by (intro that [of "[]" ?ctx]) (simp_all add: EVP_EncodeUpdate_def)
  qed
next
  case False
  let ?u = "data_used ctx"
  let ?todo = "if ?u \<noteq> 0 then ENC_DATA_SIZE - ?u else 0"
  let ?full = "write_at ?u (take ?todo inp) (enc_data ctx)"
  let ?rest = "drop ?todo inp"
  let ?out = "if ?u \<noteq> 0 then quads ?full @ [10] else []"
  have u: "?u < ENC_DATA_SIZE" "length (enc_data ctx) = ENC_DATA_SIZE" using ok by (simp_all add: enc_ok_def)
  have full: "length ?full = ENC_DATA_SIZE" using u False by simp
  have fullq: "?u \<noteq> 0 \<Longrightarrow> ?full = take ?u (enc_data ctx) @ take ?todo inp"
    using u False by (simp add: write_at_def)
  have z: "0 < ENC_DATA_SIZE" by (simp add: ENC_DATA_SIZE_def)
  have q: "length (quads ?full) = 64" unfolding length_quads full by (simp add: ENC_DATA_SIZE_def)
  obtain w left where a: "absorb ENC_DATA_SIZE line_step ?out ?rest = (w, left)" by fastforce
  have "absorb ENC_DATA_SIZE line_step [] (take ?u (enc_data ctx) @ inp) = absorb ENC_DATA_SIZE line_step ?out ?rest"
  proof (cases "?u = 0")
    case False
    have "take ?u (enc_data ctx) @ inp = ?full @ ?rest" unfolding fullq [OF False] by simp
    then show ?thesis using absorb_block [OF z full, of line_step "[]" ?rest] False by (simp add: line_step_def)
  qed simp
  with a have ab: "absorb ENC_DATA_SIZE line_step [] (take ?u (enc_data ctx) @ inp) = (w, left)" by simp
  have left: "length left < ENC_DATA_SIZE" using absorb_left [OF z, of line_step ?out ?rest] a by simp
  have len: "length w = (if ?u \<noteq> 0 then 65 else 0) + 65 * (length ?rest div ENC_DATA_SIZE)"
    using length_absorb_lines [of ?out ?rest] a q by (simp split: if_splits)
  have "65 * (length ?rest div ENC_DATA_SIZE) \<le> 65 * (2 ^ 30 div ENC_DATA_SIZE)"
    using sz by (intro mult_le_mono2 div_le_mono) simp
  also have "\<dots> \<le> INT_MAX - 65" by (simp add: INT_MAX_def ENC_DATA_SIZE_def)
  finally have lines: "65 * (length ?rest div ENC_DATA_SIZE) \<le> INT_MAX - 65" .
  have "(if ?u \<noteq> 0 then 65 else 0) \<le> (65::nat)" by simp
  note order_trans [OF add_mono [OF this lines], of INT_MAX]
  then have max: "length w \<le> INT_MAX" unfolding len by (simp only: INT_MAX_def)
  moreover have "INT_MAX < SIZE_MOD" by (simp add: INT_MAX_def)
  ultimately have sm: "(if ?u \<noteq> 0 then 65 else 0) + 65 * (length ?rest div ENC_DATA_SIZE) < SIZE_MOD"
    unfolding len by (rule le_less_trans)
  have w: "w \<noteq> []" using len False u by (auto simp: div_eq_0_iff not_less split: if_splits)
  let ?c = "if ?u \<noteq> 0 then ctx\<lparr>enc_data := ?full, data_used := 0\<rparr> else ctx"
  let ?ctx = "?c\<lparr>enc_data := write_at 0 left (enc_data ?c), data_used := length left\<rparr>"
  have "EVP_EncodeUpdate ctx inp = (w @ [0], length w, ?ctx)"
    using encode_lines_eq [OF sm, of ?out] a q full max False w u len
    by (auto simp: EVP_EncodeUpdate_def Let_def encode_line_eq split: if_splits)
  moreover have "enc_ok ?ctx" using left u full by (simp add: enc_ok_def)
  moreover have "take (length left) (write_at 0 left xs) = left" for xs :: bytes by (simp add: write_at_def)
  ultimately show ?thesis using that [of w ?ctx] w ab by simp
qed

text \<open>The encoder with what it has written so far, as its caller keeps it.\<close>

definition encode_update :: "EVP_ENCODE_CTX \<times> bytes \<Rightarrow> bytes \<Rightarrow> EVP_ENCODE_CTX \<times> bytes" where
  "encode_update = (\<lambda>(ctx, out) inp. case EVP_EncodeUpdate ctx inp of (w, len, ctx) \<Rightarrow> (ctx, out @ take len w))"

interpretation b64_encoder: block_stream ENC_DATA_SIZE line_step snd
  "\<lambda>(ctx, out). take (data_used ctx) (enc_data ctx)" encode_update "\<lambda>(ctx, out). enc_ok ctx" "\<lambda>xs. length xs \<le> 2 ^ 30"
proof (unfold_locales, goal_cases)
  case (1 s)
  then show ?case by (auto simp: enc_ok_def)
next
  case (2 s xs)
  obtain ctx out where s: "s = (ctx, out)" by fastforce
  have ok: "enc_ok ctx" using 2 s by simp
  obtain w ctx' where "EVP_EncodeUpdate ctx xs = (if w = [] then [] else w @ [0], length w, ctx')" "enc_ok ctx'"
    and a: "absorb ENC_DATA_SIZE line_step [] (take (data_used ctx) (enc_data ctx) @ xs) = (w, take (data_used ctx') (enc_data ctx'))"
    using EVP_EncodeUpdate_eq [OF ok 2(2)] by metis
  moreover have "absorb ENC_DATA_SIZE line_step out (take (data_used ctx) (enc_data ctx) @ xs) = (out @ w, take (data_used ctx') (enc_data ctx'))"
    using absorb_out [of ENC_DATA_SIZE "\<lambda>b. quads b @ [10]" out] a
    by (simp add: line_step_def [abs_def] ENC_DATA_SIZE_def)
  ultimately show ?case by (simp add: s encode_update_def)
qed

definition encode_stream :: "bytes list \<Rightarrow> bytes" where
  "encode_stream chunks = (case foldl encode_update (EVP_EncodeInit, []) chunks of (ctx, out) \<Rightarrow>
     case EVP_EncodeFinal ctx of (w, len, _) \<Rightarrow> out @ take len w)"

lemma encode_stream_eq:
  assumes "list_all (\<lambda>xs. length xs \<le> 2 ^ 30) chunks"
  shows "encode_stream chunks = b64_text (concat chunks)"
proof -
  have i: "enc_ok EVP_EncodeInit" "data_used EVP_EncodeInit = 0"
    by (simp_all add: enc_ok_def EVP_EncodeInit_def ENC_DATA_SIZE_def)
  obtain ctx out where f: "foldl encode_update (EVP_EncodeInit, []) chunks = (ctx, out)" by fastforce
  have u: "enc_ok ctx" "(out, take (data_used ctx) (enc_data ctx)) = absorb ENC_DATA_SIZE line_step [] (concat chunks)"
    using b64_encoder.updates [of "(EVP_EncodeInit, [])", OF _ assms] i f by simp_all
  let ?left = "take (data_used ctx) (enc_data ctx)"
  have e: "?left = [] \<longleftrightarrow> data_used ctx = 0" and l: "length ?left \<le> ENC_DATA_SIZE"
    using u(1) by (auto simp: enc_ok_def)
  show ?thesis
    unfolding encode_stream_def f b64_text_def u(2) [symmetric] prod.case EVP_EncodeFinal_def
    using e l by (simp add: encode_line_eq)
qed

section \<open>The streaming decoder\<close>

lemma decode_chars_filter: "decode_chars ctx out cs = decode_chars ctx out (filter (\<lambda>c. \<not> is_space c) cs)"
  by (induction ctx out cs rule: decode_chars.induct) (simp_all add: Let_def split: option.splits)

lemma decode_chars_append:
  "decode_chars ctx out (cs @ ds) = (case decode_chars ctx out cs of
     (True, out, ctx) \<Rightarrow> decode_chars ctx out ds | (False, out, ctx) \<Rightarrow> (False, out, ctx))"
  by (induction ctx out cs rule: decode_chars.induct) (simp_all add: Let_def split: option.splits)

lemma decode_chars_out:
  "decode_chars ctx (out @ out') cs = (case decode_chars ctx out' cs of (r, w, ctx) \<Rightarrow> (r, out @ w, ctx))"
  by (induction ctx out' cs rule: decode_chars.induct) (simp_all add: Let_def split: option.splits)

definition dec_ok :: "EVP_ENCODE_CTX \<Rightarrow> bool" where
  "dec_ok ctx \<longleftrightarrow> data_used ctx < 4 \<and> length (enc_data ctx) = ENC_DATA_SIZE \<and> \<not> error_encountered ctx"

lemma decode_chars_ok:
  "dec_ok ctx \<Longrightarrow> decode_chars ctx out cs = (True, w, ctx') \<Longrightarrow> dec_ok ctx'"
  by (induction ctx out cs rule: decode_chars.induct)
    (auto simp: dec_ok_def Let_def split: if_splits option.splits)

lemma decode_chars_failed:
  "decode_chars ctx out cs = (False, w, ctx') \<Longrightarrow> error_encountered ctx'"
  by (induction ctx out cs rule: decode_chars.induct) (auto simp: Let_def split: if_splits option.splits)

lemma decode_quad_length: "base64_decode_quad a b c d = Some bs \<Longrightarrow> length bs \<in> {1, 2, 3}"
  by (auto simp: decode_quad_iff quad_bytes_def split: if_splits)

lemma length_decode_chars:
  "decode_chars ctx out cs = (r, w, ctx') \<Longrightarrow> length w \<le> length out + 3 * length cs"
proof (induction ctx out cs rule: decode_chars.induct)
  case (2 ctx out c cs)
  then show ?case using decode_quad_length
    by (auto simp: Let_def split: if_splits option.splits) fastforce+
qed auto

text \<open>Four characters at a quad boundary.\<close>

definition at_quad :: "EVP_ENCODE_CTX \<Rightarrow> bool" where
  "at_quad ctx \<longleftrightarrow> data_used ctx = 0 \<and> length (enc_data ctx) = ENC_DATA_SIZE \<and> \<not> eof_seen ctx \<and> \<not> error_encountered ctx"

lemma decode_four:
  assumes "at_quad ctx" and "\<not> is_space a" "\<not> is_space b" "\<not> is_space c" "\<not> is_space d"
  obtains (bad) "base64_decode_quad a b c d = None" and "\<not> fst (decode_chars ctx out (a # b # c # d # cs))"
    | (quad) bs ctx' where "base64_decode_quad a b c d = Some bs" and
        "decode_chars ctx out (a # b # c # d # cs) = decode_chars ctx' (out @ bs) cs" and "length bs = 3" and "at_quad ctx'"
    | (last) bs ctx' where "base64_decode_quad a b c d = Some bs" and
        "decode_chars ctx out (a # b # c # d # cs) = decode_chars ctx' (out @ bs) cs" and "length bs < 3"
        and "eof_seen ctx'" and "data_used ctx' = 0"
proof -
  let ?data = "(((enc_data ctx)[0 := a])[Suc 0 := b])[2 := c, 3 := d]"
  have len: "length (enc_data ctx) = 48" using assms(1) by (simp add: at_quad_def ENC_DATA_SIZE_def)
  then have n: "?data ! 0 = a" "?data ! 1 = b" "?data ! 2 = c" "?data ! 3 = d" by (simp_all add: nth_list_update)
  let ?ctx = "ctx\<lparr>enc_data := ?data, data_used := 0\<rparr>"
  have e: "decode_chars ctx out (a # b # c # d # cs) =
    (case base64_decode_quad a b c d of None \<Rightarrow> (False, out, ctx\<lparr>enc_data := ?data, data_used := 4, error_encountered := True\<rparr>)
     | Some bs \<Rightarrow> decode_chars (if length bs < 3 then ?ctx\<lparr>eof_seen := True\<rparr> else ?ctx) (out @ bs) cs)"
    using assms n by (simp add: at_quad_def Let_def numeral_2_eq_2 numeral_3_eq_3 split: option.splits)
  show ?thesis
  proof (cases "base64_decode_quad a b c d")
    case (Some bs)
    have r: "decode_chars ctx out (a # b # c # d # cs) =
        decode_chars (if length bs < 3 then ?ctx\<lparr>eof_seen := True\<rparr> else ?ctx) (out @ bs) cs"
      unfolding e Some option.case ..
    have q: "at_quad ?ctx" using assms(1) by (simp add: at_quad_def)
    show ?thesis
    proof (cases "length bs < 3")
      case True
      with r show ?thesis by (intro last [OF Some, of "?ctx\<lparr>eof_seen := True\<rparr>"]) simp_all
    next
      case False
      then have "length bs = 3" using decode_quad_length [OF Some] by auto
      with r q show ?thesis by (intro quad [OF Some, of ?ctx]) simp_all
    qed
  next
    case None
    show ?thesis by (rule bad [OF None]) (simp only: e None option.case fst_conv, simp)
  qed
qed

lemma decode_chars_quads:
  assumes "at_quad ctx" and "list_all (\<lambda>c. \<not> is_space c) cs"
  shows "\<exists>ok w ctx'. decode_chars ctx out cs = (ok, w, ctx') \<and>
    (ok \<and> data_used ctx' = 0 \<longleftrightarrow> length cs mod 4 = 0 \<and> fst (decode_quads out cs)) \<and>
    (ok \<and> data_used ctx' = 0 \<longrightarrow> w = snd (decode_quads out cs))"
  using assms
proof (induction out cs arbitrary: ctx rule: decode_quads.induct)
  case (1 out a b c d cs)
  have s: "\<not> is_space a" "\<not> is_space b" "\<not> is_space c" "\<not> is_space d" "list_all (\<lambda>c. \<not> is_space c) cs"
    using 1(3) by simp_all
  from 1(2) s(1-4) show ?case
  proof (cases rule: decode_four [where out = out and cs = cs])
    case bad
    obtain ok w ctx' where r: "decode_chars ctx out (a # b # c # d # cs) = (ok, w, ctx')" by (metis prod_cases3)
    show ?thesis using bad(2) unfolding r using bad(1) by auto
  next
    case (quad bs ctx1)
    have "\<not> (length bs \<noteq> 3 \<and> cs \<noteq> [])" using quad by simp
    from 1(1) [OF quad(1) this quad(4) s(5)] show ?thesis
      unfolding quad(2) decode_quads.simps quad(1) option.case using quad(3) by simp
  next
    case (last bs ctx1)
    show ?thesis
    proof (cases cs)
      case Nil
      then show ?thesis unfolding last(2) decode_quads.simps last(1) option.case using last(5) by auto
    next
      case (Cons x xs)
      obtain ok w ctx' where r: "decode_chars ctx1 (out @ bs) cs = (ok, w, ctx')" by (metis prod_cases3)
      moreover have "\<not> fst (decode_chars ctx1 (out @ bs) cs)" using Cons last(4) s(5) by simp
      ultimately show ?thesis
        unfolding last(2) decode_quads.simps last(1) option.case using last(3) Cons by auto
    qed
  qed
qed (auto simp: at_quad_def Let_def)


text \<open>The caller of the streaming decoder: it stops at the first error.\<close>

fun decode_updates :: "EVP_ENCODE_CTX \<Rightarrow> bytes \<Rightarrow> bytes list \<Rightarrow> bytes option" where
  "decode_updates ctx out [] = (if EVP_DecodeFinal ctx = 1 then Some out else None)"
| "decode_updates ctx out (piece # pieces) =
    (case EVP_DecodeUpdate ctx piece of (r, w, len, ctx) \<Rightarrow>
       if r = - 1 then None else decode_updates ctx (out @ take len w) pieces)"

definition decode_stream :: "bytes list \<Rightarrow> bytes option" where
  "decode_stream pieces = decode_updates EVP_DecodeInit [] pieces"

lemma EVP_DecodeUpdate_eq:
  assumes "dec_ok ctx" and "length piece \<le> 2 ^ 29"
  shows "EVP_DecodeUpdate ctx piece = (case decode_chars ctx [] piece of
     (False, w, ctx) \<Rightarrow> (- 1, w, 0, ctx) | (True, w, ctx) \<Rightarrow> (if eof_seen ctx then 0 else 1, w, length w, ctx))"
proof -
  obtain r w ctx' where d: "decode_chars ctx [] piece = (r, w, ctx')" by (metis prod_cases3)
  then have "length w \<le> 3 * 2 ^ 29" using length_decode_chars [OF d] assms(2) by simp
  then have "length w mod SIZE_MOD = length w" "\<not> length w > INT_MAX" by (simp_all add: INT_MAX_def)
  with d assms(1) show ?thesis by (cases r) (simp_all add: EVP_DecodeUpdate_def dec_ok_def Let_def)
qed

lemma decode_updates_eq:
  "dec_ok ctx \<Longrightarrow> list_all (\<lambda>piece. length piece \<le> 2 ^ 29) pieces \<Longrightarrow>
    decode_updates ctx out pieces = (case decode_chars ctx out (concat pieces) of (ok, w, ctx') \<Rightarrow>
      if ok \<and> data_used ctx' = 0 then Some w else None)"
proof (induction pieces arbitrary: ctx out)
  case Nil
  then show ?case by (simp add: EVP_DecodeFinal_def dec_ok_def)
next
  case (Cons piece pieces)
  obtain r w ctx' where d: "decode_chars ctx [] piece = (r, w, ctx')" by (metis prod_cases3)
  have e: "decode_chars ctx out piece = (r, out @ w, ctx')" using decode_chars_out [of ctx out "[]" piece] d by simp
  show ?case
  proof (cases r)
    case True
    with Cons d e decode_chars_ok [OF Cons.prems(1), of "[]" piece w ctx'] show ?thesis
      by (simp add: EVP_DecodeUpdate_eq decode_chars_append)
  next
    case False
    with Cons d e show ?thesis by (simp add: EVP_DecodeUpdate_eq decode_chars_append)
  qed
qed

lemma init_quad: "at_quad EVP_DecodeInit" "dec_ok EVP_DecodeInit"
  by (simp_all add: at_quad_def dec_ok_def EVP_DecodeInit_def EVP_EncodeInit_def)

lemma decode_base64_eq:
  assumes "length cs div 4 * 3 \<le> room"
  shows "EVP_DecodeBase64 room cs = (case decode_quads [] cs of (ok, w) \<Rightarrow>
    if length cs mod 4 \<noteq> 0 then (False, [], 0) else if ok then (True, w, length w) else (False, w, 0))"
  using assms by (auto simp: EVP_DecodeBase64_def EVP_DecodedLength_def split: prod.splits bool.splits)

lemma decode_stream_eq:
  assumes "list_all (\<lambda>piece. length piece \<le> 2 ^ 29) pieces"
  shows "decode_stream pieces =
    (let cs = filter (\<lambda>c. \<not> is_space c) (concat pieces) in
     if length cs mod 4 = 0 \<and> fst (decode_quads [] cs) then Some (snd (decode_quads [] cs)) else None)"
proof -
  let ?cs = "filter (\<lambda>c. \<not> is_space c) (concat pieces)"
  have "list_all (\<lambda>c. \<not> is_space c) ?cs" by (simp add: list_all_iff)
  from decode_chars_quads [OF init_quad(1) this, of "[]"] obtain ok w ctx' where
    d: "decode_chars EVP_DecodeInit [] ?cs = (ok, w, ctx')"
    "ok \<and> data_used ctx' = 0 \<longleftrightarrow> length ?cs mod 4 = 0 \<and> fst (decode_quads [] ?cs)"
    "ok \<and> data_used ctx' = 0 \<longrightarrow> w = snd (decode_quads [] ?cs)" by (elim exE conjE) (rule that)
  show ?thesis
    unfolding decode_stream_def decode_updates_eq [OF init_quad(2) assms] decode_chars_filter [of _ _ "concat pieces"] d(1)
    using d(2,3) by (simp add: Let_def)
qed


lemma no_space_quads: "filter (\<lambda>c. \<not> is_space c) (quads xs) = quads xs"
proof -
  have d: "\<not> is_space (b64 n)" if "n < 64" for n
    using that by (auto simp: is_space_def b64_def word_unat_eq_iff unat_of_nat split: if_splits)
  have lt: "be_nat [a, b, c] div 262144 < 64" for a b c using be_nat_less [of "[a, b, c]"] by simp
  have p: "\<not> is_space 61" by (simp add: is_space_def)
  show ?thesis by (induction xs rule: quads.induct) (simp_all add: Let_def d lt p)
qed

lemma quads_append: "length xs mod 3 = 0 \<Longrightarrow> quads (xs @ ys) = quads xs @ quads ys"
proof (induction xs rule: quads.induct)
  case (1 a b c src)
  have "length (a # b # c # src) mod 3 = length src mod 3" using mod_add_self2 [of "length src" 3] by simp
  with 1 show ?case by (simp add: Let_def)
qed (simp_all add: Let_def)

lemma strip_lines:
  "filter (\<lambda>c. \<not> is_space c) (fst (absorb ENC_DATA_SIZE line_step out xs)) @ quads (snd (absorb ENC_DATA_SIZE line_step out xs)) =
    filter (\<lambda>c. \<not> is_space c) out @ quads xs"
proof (induction "length xs" arbitrary: out xs rule: less_induct)
  case less
  have z: "0 < ENC_DATA_SIZE" by (simp add: ENC_DATA_SIZE_def)
  show ?case
  proof (cases "length xs < ENC_DATA_SIZE")
    case False
    let ?b = "take ENC_DATA_SIZE xs" and ?r = "drop ENC_DATA_SIZE xs"
    have "length ?b mod 3 = 0" using False by (simp add: ENC_DATA_SIZE_def)
    then have q: "quads xs = quads ?b @ quads ?r" using quads_append [of ?b ?r] by simp
    have nl: "is_space 10" by (simp add: is_space_def)
    show ?thesis
      using less [of ?r "line_step out ?b"] False z q no_space_quads [of ?b] nl
      by (subst (1 2) absorb.simps) (simp add: line_step_def)
  qed (simp add: absorb_short)
qed

lemma strip_b64_text: "filter (\<lambda>c. \<not> is_space c) (b64_text xs) = quads xs"
proof -
  have nl: "is_space 10" by (simp add: is_space_def)
  show ?thesis
    using strip_lines [of "[]" xs] no_space_quads nl by (auto simp: b64_text_def split: prod.splits)
qed

section \<open>Properties\<close>

text \<open>C15: The streaming encoder and decoder are inverse: whatever pieces the data is fed in and
  whatever pieces the text of it is fed back in, the decoder ends well and returns the data.\<close>

theorem base64_stream_roundtrip:
  assumes "list_all (\<lambda>xs. length xs \<le> 2 ^ 30) chunks" and "list_all (\<lambda>piece. length piece \<le> 2 ^ 29) pieces"
    and "concat pieces = encode_stream chunks"
  shows "decode_stream pieces = Some (concat chunks)"
  unfolding decode_stream_eq [OF assms(2)] assms(3) encode_stream_eq [OF assms(1)] strip_b64_text
  by (simp add: decode_quads_quads length_quads)

lemma base64_stream_roundtrip_witness: "decode_stream [[81, 85], [74, 67, 10]] = Some [65, 66, 66]"
proof -
  have "encode_stream [[65], [66, 66]] = concat [[81, 85], [74, 67, 10]]"
    by (simp add: encode_stream_def encode_update_def EVP_EncodeInit_def EVP_EncodeUpdate_def EVP_EncodeFinal_def
      encode_line_eq ENC_DATA_SIZE_def write_at_def quads.simps b64_def be_nat_def)
  from base64_stream_roundtrip [OF _ _ this [symmetric]] show ?thesis by simp
qed

text \<open>C16: The streaming decoder and the one-shot decoder agree: fed any pieces, the first ends well
  exactly when the second accepts the text without its spaces and newlines, with the same bytes.\<close>

theorem base64_decoders_agree:
  assumes "list_all (\<lambda>piece. length piece \<le> 2 ^ 29) pieces" and "cs = filter (\<lambda>c. \<not> is_space c) (concat pieces)"
    and "length cs div 4 * 3 \<le> room"
  shows "decode_stream pieces = (case EVP_DecodeBase64 room cs of (ok, w, len) \<Rightarrow> if ok then Some (take len w) else None)"
  unfolding decode_stream_eq [OF assms(1)] decode_base64_eq [OF assms(3)] assms(2) [symmetric]
  by (simp add: Let_def split: prod.splits)

lemma base64_decoders_agree_witness:
  "decode_stream [[81, 81, 32], [61, 61, 10]] = (case EVP_DecodeBase64 3 [81, 81, 61, 61] of (ok, w, len) \<Rightarrow> if ok then Some (take len w) else None)"
  by (rule base64_decoders_agree) (simp_all add: is_space_def)

lemma length_decode_quads: "length (snd (decode_quads out cs)) \<le> length out + length cs div 4 * 3"
proof (induction out cs rule: decode_quads.induct)
  case (1 out a b c d cs)
  have l: "length (a # b # c # d # cs) div 4 = Suc (length cs div 4)" by simp
  show ?case
  proof (cases "base64_decode_quad a b c d")
    case (Some bs)
    with decode_quad_length [OF Some] 1 [OF Some] show ?thesis unfolding l by (auto simp: Some)
  qed simp
qed auto

lemma encoded_length_exact:
  assumes "length src = unat len"
  shows "case EVP_EncodedLength len of Some n \<Rightarrow> length (fst (EVP_EncodeBlock src)) = unat n
      | None \<Rightarrow> SIZE_MOD \<le> length (fst (EVP_EncodeBlock src))"
proof -
  let ?n = "unat len" and ?w = "(len + 2) div 3"
  have l: "length (fst (EVP_EncodeBlock src)) = (?n + 2) div 3 * 4 + 1"
    using assms by (simp add: EVP_EncodeBlock_def Let_def encode_quads_eq length_quads)
  have n: "?n < SIZE_MOD" by simp
  have sum: "unat (len + 2) = (?n + 2) mod SIZE_MOD" by (simp add: unat_word_ariths)
  show ?thesis
  proof (cases "?n + 2 < SIZE_MOD")
    case False
    have "?n + 2 - SIZE_MOD < SIZE_MOD" using unat_u64_less [of len] by linarith
    then have "unat (len + 2) = ?n + 2 - SIZE_MOD" unfolding sum using False by (metis le_mod_geq mod_less not_le)
    moreover have "?n + 2 - SIZE_MOD < ?n" using unat_u64_less [of len] False by linarith
    ultimately have "len + 2 < len" unfolding word_less_nat_alt by (simp only:)
    moreover have "SIZE_MOD \<le> (?n + 2) div 3 * 4 + 1" using False by linarith
    ultimately show ?thesis unfolding l by (simp add: EVP_EncodedLength_def)
  next
    case True
    then have s: "unat (len + 2) = ?n + 2" unfolding sum by simp
    then have nw: "\<not> len + 2 < len" by (simp add: word_less_nat_alt)
    have w: "unat ?w = (?n + 2) div 3" by (simp add: unat_div_distrib s)
    have p: "unat (push_bit 2 ?w) = (4 * unat ?w) mod SIZE_MOD"
      by (simp add: unsigned_push_bit_eq take_bit_eq_mod push_bit_eq_mult [of 2 "unat ?w"] mult.commute)
    have "drop_bit 2 (push_bit 2 ?w) = ?w \<longleftrightarrow> (4 * unat ?w) mod SIZE_MOD div 4 = unat ?w"
      by (simp only: word_unat_eq_iff unat_shift_right p) simp
    also have "\<dots> \<longleftrightarrow> 4 * unat ?w < SIZE_MOD"
    proof
      assume "4 * unat ?w mod SIZE_MOD div 4 = unat ?w"
      moreover have "4 * unat ?w mod SIZE_MOD < SIZE_MOD" by simp
      ultimately show "4 * unat ?w < SIZE_MOD" by linarith
    qed simp
    finally have d: "drop_bit 2 (push_bit 2 ?w) = ?w \<longleftrightarrow> 4 * unat ?w < SIZE_MOD" .
    show ?thesis
    proof (cases "4 * unat ?w < SIZE_MOD")
      case False
      then show ?thesis unfolding l w using nw d by (simp add: EVP_EncodedLength_def Let_def w)
    next
      case True
      then have "4 * unat ?w + 1 < SIZE_MOD" by presburger
      then have "unat (push_bit 2 ?w + 1) = 4 * unat ?w + 1" using True p by (simp add: unat_word_ariths)
      moreover have "\<not> push_bit 2 ?w + 1 < push_bit 2 ?w" using True p calculation by (simp add: word_less_nat_alt)
      ultimately show ?thesis unfolding l using nw d True w by (simp add: EVP_EncodedLength_def Let_def)
    qed
  qed
qed

text \<open>The buffers suffice: an encoding is exactly as long as \<open>EVP_EncodedLength\<close> says, its
  terminator included, and the decoder never writes past \<open>max_out\<close>, on malformed input either.\<close>

theorem base64_buffer_bounds:
  assumes "length src = unat len"
  shows "(case EVP_EncodedLength len of Some n \<Rightarrow> length (fst (EVP_EncodeBlock src)) = unat n
      | None \<Rightarrow> SIZE_MOD \<le> length (fst (EVP_EncodeBlock src)))
    \<and> length (fst (snd (EVP_DecodeBase64 max_out cs))) \<le> max_out"
proof -
  have "length (fst (snd (EVP_DecodeBase64 max_out cs))) \<le> max_out"
    using length_decode_quads [of "[]" cs] by (auto simp: EVP_DecodeBase64_def EVP_DecodedLength_def split: prod.splits bool.splits)
  with encoded_length_exact [OF assms] show ?thesis by simp
qed

lemma base64_buffer_bounds_witness:
  "(case EVP_EncodedLength 4 of Some n \<Rightarrow> length (fst (EVP_EncodeBlock [1, 2, 3, 4])) = unat n
      | None \<Rightarrow> SIZE_MOD \<le> length (fst (EVP_EncodeBlock [1, 2, 3, 4])))
    \<and> length (fst (snd (EVP_DecodeBase64 2 [81, 81, 61]))) \<le> 2"
  by (rule base64_buffer_bounds) simp

text \<open>
  Two places where the code is not what \<^verbatim>\<open>base64.h\<close> says: a trailing minus is not stripped, and a
  short line that needs no padding is reported as a full one.
\<close>

lemma decode_ABC: "base64_decode_quad 81 85 74 68 = Some [65, 66, 67]"
proof -
  have v: "ascii_value 81 = Some 16" "ascii_value 85 = Some 20" "ascii_value 74 = Some 9" "ascii_value 68 = Some 3"
    by (simp_all add: ascii_value_def)
  show ?thesis unfolding decode_quad_Some [OF v] by (simp add: quad_bytes_def digits_nat_def be_bytes_3)
qed

lemma DecodeBlock_keeps_minus:
  "fst (EVP_DecodeBlock [81, 85, 74, 68, 45]) = - 1" "EVP_DecodeBlock [81, 85, 74, 68] = (3, [65, 66, 67])"
  by (simp_all add: EVP_DecodeBlock_def trim_left_def trim_right_def is_space_def EVP_DecodedLength_def INT_MAX_def
      EVP_DecodeBase64_def decode_ABC)

lemma DecodeUpdate_short_line: "fst (EVP_DecodeUpdate EVP_DecodeInit [81, 85, 74, 68, 10]) = 1"
proof -
  have s: "\<not> is_space 81" "\<not> is_space 85" "\<not> is_space 74" "\<not> is_space 68" "is_space 10"
    by (simp_all add: is_space_def)
  from init_quad(1) s(1-4) obtain ctx' where "at_quad ctx'"
    "decode_chars EVP_DecodeInit [] [81, 85, 74, 68, 10] = decode_chars ctx' [65, 66, 67] [10]"
    by (cases rule: decode_four [where out = "[]" and cs = "[10]"]) (auto simp: decode_ABC)
  with s(5) show ?thesis by (simp add: EVP_DecodeUpdate_eq init_quad at_quad_def del: decode_chars.simps(2)) (simp add: at_quad_def)
qed

end
