(* ===== verification/Compare.thy ===== *)
theory Compare
  imports Prelude "HOL-Library.Multiset"
begin

text \<open>
  The contract of a C comparison function (the sign of the result is a total preorder), the C
  library's \<open>qsort\<close> as an insertion sort, and the binary search of a sorted array for the first
  match. The locale is interpreted for the orders the library itself uses.
\<close>

fun insert_by :: "('a \<Rightarrow> 'a \<Rightarrow> int) \<Rightarrow> 'a \<Rightarrow> 'a list \<Rightarrow> 'a list" where
  "insert_by cmp x [] = [x]"
| "insert_by cmp x (y # ys) = (if cmp x y \<le> 0 then x # y # ys else y # insert_by cmp x ys)"

definition qsort :: "('a \<Rightarrow> 'a \<Rightarrow> int) \<Rightarrow> 'a list \<Rightarrow> 'a list" where
  "qsort cmp xs = foldr (insert_by cmp) xs []"

definition sorted_by :: "('a \<Rightarrow> 'a \<Rightarrow> int) \<Rightarrow> 'a list \<Rightarrow> bool" where
  "sorted_by cmp xs \<longleftrightarrow> sorted_wrt (\<lambda>a b. cmp a b \<le> 0) xs"

lemma mset_insert_by: "mset (insert_by cmp x xs) = {#x#} + mset xs"
  by (induction xs) auto

lemma mset_qsort [simp]: "mset (qsort cmp xs) = mset xs"
  by (induction xs) (simp_all add: qsort_def mset_insert_by)

lemma set_insert_by: "set (insert_by cmp x xs) = insert x (set xs)"
  using mset_insert_by [of cmp x xs] by (metis set_mset_add_mset_insert set_mset_mset add_mset_add_single add.commute)

lemma length_qsort [simp]: "length (qsort cmp xs) = length xs"
  using mset_qsort [of cmp xs] by (metis size_mset)

text \<open>The first index at which a predicate holds.\<close>

definition first_index :: "('a \<Rightarrow> bool) \<Rightarrow> 'a list \<Rightarrow> nat option" where
  "first_index P xs = (let i = length (takeWhile (\<lambda>x. \<not> P x) xs) in if i < length xs then Some i else None)"

lemma first_index_Some_iff:
  "first_index P xs = Some i \<longleftrightarrow> i < length xs \<and> P (xs ! i) \<and> (\<forall>j < i. \<not> P (xs ! j))"
proof
  assume a: "first_index P xs = Some i"
  then have i: "i = length (takeWhile (\<lambda>x. \<not> P x) xs)" "i < length xs"
    by (auto simp: first_index_def Let_def split: if_splits)
  then have "P (xs ! i)" using nth_length_takeWhile [of "\<lambda>x. \<not> P x" xs] by simp
  moreover have "\<not> P (xs ! j)" if "j < i" for j
    using that i takeWhile_nth [of j "\<lambda>x. \<not> P x" xs] nth_mem [of j "takeWhile (\<lambda>x. \<not> P x) xs"]
    by (auto dest: set_takeWhileD)
  ultimately show "i < length xs \<and> P (xs ! i) \<and> (\<forall>j < i. \<not> P (xs ! j))" using i by blast
next
  assume b: "i < length xs \<and> P (xs ! i) \<and> (\<forall>j < i. \<not> P (xs ! j))"
  let ?t = "takeWhile (\<lambda>x. \<not> P x) xs"
  have "\<not> length ?t < i"
    using b nth_length_takeWhile [of "\<lambda>x. \<not> P x" xs] by auto
  moreover have "\<not> i < length ?t"
  proof
    assume i: "i < length ?t"
    then have "?t ! i \<in> set ?t" by simp
    then have "\<not> P (?t ! i)" by (blast dest: set_takeWhileD)
    with i b show False by (simp add: takeWhile_nth)
  qed
  ultimately have "length ?t = i" by simp
  with b show "first_index P xs = Some i" by (simp add: first_index_def Let_def)
qed

lemma first_index_None_iff: "first_index P xs = None \<longleftrightarrow> (\<forall>x \<in> set xs. \<not> P x)"
proof -
  have "length (takeWhile (\<lambda>x. \<not> P x) xs) < length xs \<longleftrightarrow> (\<exists>x \<in> set xs. P x)"
    by (induction xs) auto
  then show ?thesis by (auto simp: first_index_def Let_def)
qed

locale comparator =
  fixes cmp :: "'a \<Rightarrow> 'a \<Rightarrow> int"
  assumes swap: "cmp a b < 0 \<longleftrightarrow> cmp b a > 0"
    and trans: "cmp a b \<le> 0 \<Longrightarrow> cmp b c \<le> 0 \<Longrightarrow> cmp a c \<le> 0"
begin

lemma sorted_insert_by: "sorted_by cmp xs \<Longrightarrow> sorted_by cmp (insert_by cmp x xs)"
proof (induction xs)
  case (Cons y ys)
  have "cmp y x \<le> 0" if "\<not> cmp x y \<le> 0" using that swap [of y x] by simp
  with Cons trans [of x y] show ?case by (auto simp: sorted_by_def set_insert_by)
qed (simp add: sorted_by_def)

lemma sorted_qsort: "sorted_by cmp (qsort cmp xs)"
  by (induction xs) (simp_all add: qsort_def sorted_insert_by sorted_by_def [of cmp "[]"])

text \<open>In a sorted list the comparison of an element with a key falls as the index grows.\<close>

lemma sorted_cmp:
  assumes "sorted_by cmp xs" and "i \<le> j" and "j < length xs"
  shows "cmp p (xs ! j) \<ge> 0 \<Longrightarrow> cmp p (xs ! i) \<ge> 0" and "cmp p (xs ! j) > 0 \<Longrightarrow> cmp p (xs ! i) > 0"
    and "cmp p (xs ! i) < 0 \<Longrightarrow> cmp p (xs ! j) < 0"
proof -
  have refl: "cmp a a \<le> 0" for a using swap [of a a] by linarith
  have ij: "cmp (xs ! i) (xs ! j) \<le> 0"
    using assms refl by (cases "i = j") (auto simp: sorted_by_def sorted_wrt_iff_nth_less)
  show ge: "cmp p (xs ! i) \<ge> 0" if "cmp p (xs ! j) \<ge> 0"
  proof -
    have "cmp (xs ! j) p \<le> 0" using that swap [of p "xs ! j"] by linarith
    then have "cmp (xs ! i) p \<le> 0" using trans [OF ij] by simp
    then show ?thesis using swap [of p "xs ! i"] by linarith
  qed
  show "cmp p (xs ! i) > 0" if "cmp p (xs ! j) > 0"
  proof (rule ccontr)
    assume "\<not> cmp p (xs ! i) > 0"
    then have "cmp p (xs ! j) \<le> 0" using trans [OF _ ij, of p] by simp
    with that show False by simp
  qed
  show "cmp p (xs ! j) < 0" if "cmp p (xs ! i) < 0" using ge that by linarith
qed

end

end
