(* ===== verification/SetOf.thy ===== *)
theory SetOf
  imports CbbAsn1 Compare "HOL-Library.List_Lexorder"
begin

text \<open>
  The DER order of a SET OF in \<^verbatim>\<open>crypto/bytestring/cbb.c\<close>: \<open>CBB_flush_asn1_set_of\<close> parses
  the elements written so far, sorts them and writes them back. The C library's \<open>qsort\<close> is an
  insertion sort with the same comparison function; the comparison is the lexicographic order
  of the encodings as unsigned bytes, in which equal elements are equal byte strings, so every
  correct sort gives the same bytes.
\<close>

fun memcmp :: "bytes \<Rightarrow> bytes \<Rightarrow> int" where
  "memcmp (a # as) (b # bs) = (if a = b then memcmp as bs else if a < b then - 1 else 1)"
| "memcmp _ _ = 0"

definition OPENSSL_memcmp :: "bytes \<Rightarrow> bytes \<Rightarrow> nat \<Rightarrow> int" where
  "OPENSSL_memcmp a b n = (if n = 0 then 0 else memcmp (take n a) (take n b))"

definition compare_set_of_element :: "CBS \<Rightarrow> CBS \<Rightarrow> int" where
  "compare_set_of_element a b =
     (let a_len = CBS_len a; b_len = CBS_len b;
          min_len = (if a_len < b_len then a_len else b_len);
          ret = OPENSSL_memcmp (CBS_data a) (CBS_data b) min_len in
      if ret \<noteq> 0 then ret
      else if a_len = b_len then 0
      else if a_len < b_len then - 1 else 1)"

lemma get_any_element_shorter:
  "CBS_get_any_asn1_element cbs = (Some r, rest) \<Longrightarrow> length rest < length cbs"
  using cbs_get_any_asn1_element_shorter [of False cbs r rest]
  by (simp add: CBS_get_any_asn1_element_def)

function count_elements :: "CBS \<Rightarrow> nat option" where
  "count_elements cbs =
    (if CBS_len cbs \<noteq> 0 then
       (case CBS_get_any_asn1_element cbs of
          (None, _) \<Rightarrow> None
        | (Some _, cbs) \<Rightarrow> map_option Suc (count_elements cbs))
     else Some 0)"
  by pat_completeness auto
termination
  by (relation "measure length") (auto dest: get_any_element_shorter [OF sym])

declare count_elements.simps [simp del]

primrec get_elements :: "nat \<Rightarrow> CBS \<Rightarrow> CBS list option" where
  "get_elements 0 cbs = Some []"
| "get_elements (Suc n) cbs =
    (case CBS_get_any_asn1_element cbs of
       (None, _) \<Rightarrow> None
     | (Some (child, _, _), cbs) \<Rightarrow> map_option ((#) child) (get_elements n cbs))"

definition sizeof_CBS :: nat where
  "sizeof_CBS = 16"

definition cbb_mem :: "CBB \<Rightarrow> nat \<Rightarrow> bool" where
  "cbb_mem cbb n = (case base cbb of None \<Rightarrow> False | Some b \<Rightarrow> mem_ok b n)"

definition cbb_rewind :: "nat \<Rightarrow> CBB \<Rightarrow> CBB" where
  "cbb_rewind d cbb =
     cbb\<lparr>base := map_option (\<lambda>b. b\<lparr>buf := take (cbb_start d cbb) (buf b)\<rparr>) (base cbb)\<rparr>"

definition CBB_flush_asn1_set_of :: "nat \<Rightarrow> (CBB, unit) op" where
  "CBB_flush_asn1_set_of d = opbind (CBB_flush d) (\<lambda>_ cbb.
    case count_elements (CBS_init (CBB_data d cbb) (CBB_len d cbb)) of
      None \<Rightarrow> (None, cbb)
    | Some num_children \<Rightarrow>
        if num_children < 2 then (Some (), cbb)
        else if num_children > (SIZE_MOD - 1) div sizeof_CBS then (None, cbb)
        else let buf_len = CBB_len d cbb; copy = OPENSSL_memdup (cbb_mem cbb) (CBB_data d cbb) buf_len in
          if copy = None \<or> \<not> cbb_mem cbb (num_children * sizeof_CBS) then (None, cbb)
          else case get_elements num_children (CBS_init (the copy) buf_len) of
            None \<Rightarrow> (None, cbb)
          | Some elems \<Rightarrow>
              op_seq (map (\<lambda>c. CBB_add_bytes d (CBS_data c)) (qsort compare_set_of_element elems))
                (cbb_rewind d cbb))"

section \<open>The order\<close>

lemma memcmp_same_length:
  "length a = length b \<Longrightarrow> (memcmp a b = 0 \<longleftrightarrow> a = b) \<and> (memcmp a b < 0 \<longleftrightarrow> a < b)"
  by (induction a b rule: list_induct2) auto

lemma list_less_take:
  fixes a b :: "'a::linorder list"
  shows "length a < length b \<Longrightarrow> a < b \<longleftrightarrow> a \<le> take (length a) b"
    and "length b < length a \<Longrightarrow> a < b \<longleftrightarrow> take (length b) a < b"
proof -
  show "length a < length b \<Longrightarrow> a < b \<longleftrightarrow> a \<le> take (length a) b"
  proof (induction a arbitrary: b)
    case (Cons x a)
    then show ?case by (cases b) auto
  qed (auto simp: neq_Nil_conv)
  show "length b < length a \<Longrightarrow> a < b \<longleftrightarrow> take (length b) a < b"
  proof (induction b arbitrary: a)
    case (Cons x b)
    then show ?case by (cases a) auto
  qed simp
qed

lemma compare_set_of_le: "compare_set_of_element a b \<le> 0 \<longleftrightarrow> a \<le> b"
proof -
  let ?n = "min (length a) (length b)"
  have m: "OPENSSL_memcmp a b ?n = memcmp (take ?n a) (take ?n b)"
    by (simp add: OPENSSL_memcmp_def)
  have len: "length (take ?n a) = length (take ?n b)" by simp
  have tri: "memcmp (take ?n a) (take ?n b) = 0 \<or> memcmp (take ?n a) (take ?n b) < 0 \<or> memcmp (take ?n a) (take ?n b) > 0"
    by linarith
  have c: "compare_set_of_element a b =
      (let ret = memcmp (take ?n a) (take ?n b) in
       if ret \<noteq> 0 then ret else if length a = length b then 0 else if length a < length b then - 1 else 1)"
    unfolding compare_set_of_element_def CBS_len_def CBS_data_def Let_def using m by (auto simp: min_def)
  consider "length a = length b" | "length a < length b" | "length b < length a" by linarith
  then show ?thesis
  proof cases
    case 1
    then show ?thesis using memcmp_same_length [of a b] unfolding c Let_def by auto
  next
    case 2
    then have "a \<le> b \<longleftrightarrow> a \<le> take (length a) b"
      using list_less_take(1) [OF 2] by (auto simp: order_le_less)
    with 2 show ?thesis
      using memcmp_same_length [of a "take (length a) b"] unfolding c Let_def by (auto simp: order_le_less)
  next
    case 3
    then have "a \<le> b \<longleftrightarrow> take (length b) a < b"
      using list_less_take(2) [OF 3] by (auto simp: order_le_less)
    with 3 show ?thesis
      using memcmp_same_length [of "take (length b) a" b] unfolding c Let_def by auto
  qed
qed

lemma compare_set_of_eq: "compare_set_of_element a b = 0 \<longleftrightarrow> a = b"
proof (cases "length a = length b")
  case True
  then show ?thesis
    using memcmp_same_length [OF True]
    by (auto simp: compare_set_of_element_def CBS_len_def CBS_data_def OPENSSL_memcmp_def Let_def)
next
  case False
  then show ?thesis by (auto simp: compare_set_of_element_def CBS_len_def Let_def)
qed

lemma compare_set_of_less: "compare_set_of_element a b < 0 \<longleftrightarrow> a < b"
  using compare_set_of_le [of a b] compare_set_of_eq [of a b] by (auto simp: order_le_less)

interpretation set_of_order: comparator compare_set_of_element
proof (unfold_locales, goal_cases)
  case (1 a b)
  have "compare_set_of_element b a \<le> 0 \<longleftrightarrow> b \<le> a" by (rule compare_set_of_le)
  moreover have "compare_set_of_element a b < 0 \<longleftrightarrow> a < b" by (rule compare_set_of_less)
  ultimately show ?case by (simp add: not_le [symmetric])
next
  case (2 a b c)
  then show ?case by (simp add: compare_set_of_le)
qed

lemma qsort_sort: "qsort compare_set_of_element xs = sort xs"
proof -
  have "insert_by compare_set_of_element x ys = insort x ys" for x and ys :: "bytes list"
    by (induction ys) (simp_all add: compare_set_of_le)
  then have "insert_by compare_set_of_element = insort" by (intro ext)
  then show ?thesis by (simp add: qsort_def sort_key_def)
qed

section \<open>The elements\<close>

definition der_element :: "bytes \<Rightarrow> bool" where
  "der_element e \<longleftrightarrow> (\<exists>tag body. length body < 2 ^ 32 \<and> e = der_header tag (length body) @ body)"

lemma count_elements_Some:
  "count_elements cbs = Some n \<Longrightarrow>
    \<exists>els. get_elements n cbs = Some els \<and> length els = n \<and> cbs = concat els \<and> list_all der_element els"
proof (induction cbs arbitrary: n rule: count_elements.induct)
  case (1 cbs)
  show ?case
  proof (cases "cbs = []")
    case True
    then have "n = 0" using 1(2) by (simp add: count_elements.simps [of "[]"] CBS_len_def)
    then show ?thesis using True by simp
  next
    case False
    with 1(2) obtain out tag hl rest m where e: "CBS_get_any_asn1_element cbs = (Some (out, tag, hl), rest)"
      and m: "count_elements rest = Some m" "n = Suc m"
      by (auto simp: count_elements.simps [of cbs] CBS_len_def split: prod.splits option.splits)
    from 1(1) [OF _ e [symmetric] refl m(1)] False obtain els where els: "get_elements m rest = Some els" "length els = m"
      "rest = concat els" "list_all der_element els"
      by (auto simp: CBS_len_def)
    have "cbs = out @ rest" "der_element out"
      using e unfolding CBS_get_any_asn1_element_iff der_element_def by auto
    with els e m show ?thesis by simp
  qed
qed

lemma cbb_rewind_closed:
  assumes c: "closed_at d s"
  shows "closed_at d (cbb_rewind d s)" and "handle_content d (cbb_rewind d s) = []"
    and "handle_frame d (cbb_rewind d s) = handle_frame d s"
proof -
  have ok: "cbb_ok s" and len: "length (children s) = d" using c by (simp_all add: closed_at_def)
  obtain b where b: "base s = Some b" "buffer_ok b" "chain_ok 0 (children s) (length (buf b))"
    "cbb_levels s = levels_from (Len 0) 0 (children s) (buf b)" using cbb_okE [OF ok] by metis
  have st: "cbb_start d s = level_start 0 (children s) d" by (simp add: cbb_start_def level_start_def)
  let ?s = "level_start 0 (children s) d" and ?t = "cbb_rewind d s"
  have le: "?s \<le> length (buf b)" using chain_ok_le [OF chain_ok_drop [OF b(3)]] len by simp
  have t: "?t = s\<lparr>base := Some (b\<lparr>buf := take ?s (buf b)\<rparr>)\<rparr>" by (simp add: cbb_rewind_def b(1) st)
  have lev: "cbb_levels ?t = take d (cbb_levels s) @ [(level_kind (Len 0) (children s) d, [])]"
    using levels_take [OF b(3), of d "take ?s (buf b)" "buf b" "Len 0"] len le
    by (simp add: t cbb_levels_def b(1) min_def)
  show "closed_at d ?t"
    using chain_ok_take [OF b(3), of d "length (take ?s (buf b))"] len le b(2)
    by (simp add: t closed_at_def cbb_ok_def buffer_ok_def)
  have l: "length (take d (cbb_levels s)) = d" using length_cbb_levels [OF ok] len by simp
  show "handle_content d ?t = []"
    using l by (simp add: handle_content_def level_content_def lev nth_append)
  have "policy ?t = policy s" by (simp add: t policy_def b(1))
  then show "handle_frame d ?t = handle_frame d s"
    using l level_nth(1) [OF b(4) [symmetric], of d] len
    by (simp add: handle_frame_def lev nth_append)
qed

lemma closed_data:
  assumes c: "closed_at d s"
  shows "CBB_data d s = handle_content d s" and "CBB_len d s = length (handle_content d s)"
proof -
  have ok: "cbb_ok s" and len: "length (children s) = d" using c by (simp_all add: closed_at_def)
  obtain b where b: "base s = Some b" "cbb_levels s = levels_from (Len 0) 0 (children s) (buf b)"
    using cbb_okE [OF ok] by metis
  have st: "cbb_start d s = level_start 0 (children s) d" by (simp add: cbb_start_def level_start_def)
  show "CBB_data d s = handle_content d s" "CBB_len d s = length (handle_content d s)"
    using level_nth(2) [OF b(2) [symmetric], of d] len b(1)
    by (simp_all add: CBB_data_def CBB_len_def st handle_content_def level_content_def flip: length_drop)
qed

section \<open>Properties\<close>

text \<open>C9: Flushing a SET OF puts it in DER order: the content of the handle was a sequence of
  DER elements, and it becomes the same elements in ascending order of their encodings as
  unsigned byte strings; everything around it is unchanged.\<close>

theorem CBB_flush_asn1_set_of_sorts:
  assumes "handle_ok d s" and "CBB_flush_asn1_set_of d s = (Some u, t)"
    and "length (handle_content d s) < SIZE_MOD"
  shows "\<exists>els. list_all der_element els \<and> handle_content d s = concat els \<and>
    handle_content d t = concat (sort els) \<and> handle_frame d t = handle_frame d s"
proof -
  obtain u1 s1 where f: "CBB_flush d s = (Some u1, s1)"
    using assms(2) by (auto simp: CBB_flush_asn1_set_of_def opbind_Some_iff)
  note fl = CBB_flush_closed [OF assms(1) f]
  have len: "d < length (cbb_levels s)" using assms(1) length_cbb_levels by (simp add: handle_ok_def)
  have same: "handle_content d s1 = handle_content d s" "handle_frame d s1 = handle_frame d s"
    using fl(2,3) len by (simp_all add: handle_content_def handle_frame_def level_append_frame)
  let ?c = "handle_content d s"
  note data = closed_data [OF fl(1), unfolded same]
  obtain n where n: "count_elements ?c = Some n"
    using assms(2) f data by (auto simp: CBB_flush_asn1_set_of_def opbind_Some_iff CBS_init_def split: option.splits)
  from count_elements_Some [OF n] obtain els
    where els: "get_elements n ?c = Some els" "length els = n" "?c = concat els" "list_all der_element els" by blast
  show ?thesis
  proof (cases "n < 2")
    case True
    then have "t = s1" using assms(2) f data n by (auto simp: CBB_flush_asn1_set_of_def opbind_Some_iff CBS_init_def)
    moreover have "sort els = els" using True els(2) by (cases els; cases "tl els") auto
    ultimately show ?thesis using els same by auto
  next
    case False
    have w: "op_seq (map (CBB_add_bytes d) (sort els)) (cbb_rewind d s1) = (Some u, t)"
      using assms(2) f data n False els(1)
      by (auto simp: CBB_flush_asn1_set_of_def opbind_Some_iff CBS_init_def CBS_data_def OPENSSL_memdup_def
          qsort_sort Let_def split: if_splits)
    note rw = cbb_rewind_closed [OF fl(1)]
    have "length x < SIZE_MOD" if "x \<in> set els" for x
    proof -
      have "length x \<le> length (concat els)"
        using that by (induction els) auto
      then show ?thesis using assms(3) els(3) by simp
    qed
    then have "list_all (\<lambda>x. length x < SIZE_MOD) (sort els)" by (simp add: list_all_iff)
    from cbb_sink.put_seq_Some [OF closed_at_handle [OF rw(1)] this w] rw(2,3) same els
    show ?thesis by auto
  qed
qed

lemma CBB_flush_asn1_set_of_sorts_witness:
  "\<exists>t els. [4, 1, 9, 4, 1, 3] = concat els \<and> list_all der_element els \<and> handle_content 0 t = concat (sort els)"
proof -
  define s where "s = snd (CBB_add_bytes 0 [4, 1, 9, 4, 1, 3] cbb_new)"
  have "fst (CBB_add_bytes 0 [4, 1, 9, 4, 1, 3] cbb_new) = Some ()" by code_simp
  then have r: "CBB_add_bytes 0 [4, 1, 9, 4, 1, 3] cbb_new = (Some (), s)" by (intro prod_eqI) (simp_all add: s_def)
  have s: "handle_ok 0 s" "handle_content 0 s = [4, 1, 9, 4, 1, 3]"
    using cbb_sink.put_Some [OF cbb_new_ok(2) _ r] cbb_new_ok(3) by simp_all
  define t where "t = snd (CBB_flush_asn1_set_of 0 s)"
  have "fst (CBB_flush_asn1_set_of 0 s) = Some ()" unfolding s_def by code_simp
  then have "CBB_flush_asn1_set_of 0 s = (Some (), t)" by (intro prod_eqI) (simp_all add: t_def)
  from CBB_flush_asn1_set_of_sorts [OF s(1) this] s(2) show ?thesis by auto
qed

end
