(* ===== verification/Stack.thy ===== *)
theory Stack
  imports Compare Sink SetOf
begin

text \<open>
  \<^verbatim>\<open>crypto/stack/stack.c\<close>: the growing array of pointers. A pointer is an option, \<open>None\<close> being
  NULL, and so is the stack argument. A comparison function is a name \<open>'f\<close> that \<open>call_cmp_func\<close>
  interprets, because the code compares such pointers. The array is a list of \<open>num_alloc\<close>
  slots; the slots a reallocation adds are NULL in the model and are written before they are
  read. \<open>mem n\<close> says whether an allocation of \<open>n\<close> bytes succeeds. The abstraction \<open>elems\<close> is the
  list of the first \<open>num\<close> slots.
\<close>

section \<open>The code\<close>

record ('f, 'p) stack =
  num :: nat
  data :: "'p option list"
  is_sorted :: bool
  num_alloc :: nat
  comp_func :: "'f option"

definition kMinSize :: nat where "kMinSize = 4"
definition sizeof_ptr :: nat where "sizeof_ptr = 8"
definition sizeof_STACK :: nat where "sizeof_STACK = 40"

definition sk_new :: "(nat \<Rightarrow> bool) \<Rightarrow> 'f option \<Rightarrow> ('f, 'p) stack option" where
  "sk_new mem cmpf =
    (if \<not> mem sizeof_STACK then None
     else if \<not> mem (sizeof_ptr * kMinSize) then None
     else Some \<lparr>num = 0, data = replicate kMinSize None, is_sorted = False, num_alloc = kMinSize, comp_func = cmpf\<rparr>)"

definition sk_new_null :: "(nat \<Rightarrow> bool) \<Rightarrow> ('f, 'p) stack option" where
  "sk_new_null mem = sk_new mem None"

definition sk_num :: "('f, 'p) stack option \<Rightarrow> nat" where
  "sk_num sk = (case sk of None \<Rightarrow> 0 | Some sk \<Rightarrow> num sk)"

definition sk_zero :: "('f, 'p) stack option \<Rightarrow> ('f, 'p) stack option" where
  "sk_zero sk = (case sk of None \<Rightarrow> None | Some sk \<Rightarrow>
     if num sk = 0 then Some sk
     else Some (sk\<lparr>data := write_at 0 (replicate (num sk) None) (data sk), num := 0, is_sorted := False\<rparr>))"

definition sk_value :: "('f, 'p) stack option \<Rightarrow> nat \<Rightarrow> 'p option" where
  "sk_value sk i = (case sk of None \<Rightarrow> None | Some sk \<Rightarrow> if i \<ge> num sk then None else data sk ! i)"

definition sk_set :: "('f, 'p) stack option \<Rightarrow> nat \<Rightarrow> 'p option \<Rightarrow> 'p option \<times> ('f, 'p) stack option" where
  "sk_set sk i value = (case sk of None \<Rightarrow> (None, None) | Some sk \<Rightarrow>
     if i \<ge> num sk then (None, Some sk) else (value, Some (sk\<lparr>data := (data sk)[i := value]\<rparr>)))"

text \<open>The pointers handed to the free function, in order; the stack is gone afterwards.\<close>

definition sk_pop_free_ex :: "('f, 'p) stack option \<Rightarrow> 'p list" where
  "sk_pop_free_ex sk = (case sk of None \<Rightarrow> [] | Some sk \<Rightarrow> List.map_filter (\<lambda>i. data sk ! i) [0..<num sk])"

definition sk_grow :: "(nat \<Rightarrow> bool) \<Rightarrow> ('f, 'p) stack \<Rightarrow> ('f, 'p) stack option" where
  "sk_grow mem sk =
    (let new_alloc = (2 * num_alloc sk) mod SIZE_MOD;
         alloc_size = (new_alloc * sizeof_ptr) mod SIZE_MOD;
         overflow = new_alloc < num_alloc sk \<or> alloc_size div sizeof_ptr \<noteq> new_alloc;
         new_alloc = (if overflow then (num_alloc sk + 1) mod SIZE_MOD else new_alloc);
         alloc_size = (if overflow then (new_alloc * sizeof_ptr) mod SIZE_MOD else alloc_size) in
     if new_alloc < num_alloc sk \<or> alloc_size div sizeof_ptr \<noteq> new_alloc then None
     else if \<not> mem alloc_size then None
     else Some (sk\<lparr>data := take new_alloc (data sk) @ replicate (new_alloc - length (data sk)) None, num_alloc := new_alloc\<rparr>))"

definition sk_insert :: "(nat \<Rightarrow> bool) \<Rightarrow> ('f, 'p) stack option \<Rightarrow> 'p option \<Rightarrow> nat \<Rightarrow> nat \<times> ('f, 'p) stack option" where
  "sk_insert mem sk p where = (case sk of None \<Rightarrow> (0, None) | Some sk \<Rightarrow>
     (case if num_alloc sk \<le> num sk + 1 then sk_grow mem sk else Some sk of
        None \<Rightarrow> (0, Some sk)
      | Some sk \<Rightarrow>
          let sk =
            (if where \<ge> num sk then sk\<lparr>data := (data sk)[num sk := p]\<rparr>
             else sk\<lparr>data := (move_block (where + 1) where (num sk - where) (data sk))[where := p]\<rparr>);
              sk = sk\<lparr>num := num sk + 1, is_sorted := False\<rparr>
          in (num sk, Some sk)))"

definition sk_delete :: "('f, 'p) stack option \<Rightarrow> nat \<Rightarrow> 'p option \<times> ('f, 'p) stack option" where
  "sk_delete sk where = (case sk of None \<Rightarrow> (None, None) | Some sk \<Rightarrow>
     if where \<ge> num sk then (None, Some sk)
     else
       let ret = data sk ! where;
           sk = (if where \<noteq> num sk - 1
                 then sk\<lparr>data := move_block where (where + 1) (num sk - where - 1) (data sk)\<rparr> else sk)
       in (ret, Some (sk\<lparr>num := num sk - 1\<rparr>)))"

text \<open>The loops that look for a pointer or for a match return its index.\<close>

definition find_from :: "('p option \<Rightarrow> bool) \<Rightarrow> ('f, 'p) stack \<Rightarrow> nat option" where
  "find_from P sk = List.find (\<lambda>i. P (data sk ! i)) [0..<num sk]"

definition sk_delete_ptr :: "('f, 'p) stack option \<Rightarrow> 'p option \<Rightarrow> 'p option \<times> ('f, 'p) stack option" where
  "sk_delete_ptr sk p = (case sk of None \<Rightarrow> (None, None) | Some sk \<Rightarrow>
     (case find_from (\<lambda>q. q = p) sk of None \<Rightarrow> (None, Some sk) | Some i \<Rightarrow> sk_delete (Some sk) i))"

definition sk_is_sorted :: "('f, 'p) stack option \<Rightarrow> bool" where
  "sk_is_sorted sk = (case sk of None \<Rightarrow> True | Some sk \<Rightarrow> is_sorted sk)"

function sk_search :: "('p option \<Rightarrow> int) \<Rightarrow> 'p option list \<Rightarrow> nat \<Rightarrow> nat \<Rightarrow> nat option" where
  "sk_search cmp_p xs lo hi =
    (if lo < hi then
       let mid = lo + (hi - lo - 1) div 2; r = cmp_p (xs ! mid) in
       if r > 0 then sk_search cmp_p xs (mid + 1) hi
       else if r < 0 then sk_search cmp_p xs lo mid
       else if hi - lo = 1 then Some mid
       else sk_search cmp_p xs lo (mid + 1)
     else None)"
  by pat_completeness auto
termination
  by (relation "measure (\<lambda>(cmp_p, xs, lo, hi). hi - lo)") auto

declare sk_search.simps [simp del]

definition sk_find :: "('f \<Rightarrow> 'p option \<Rightarrow> 'p option \<Rightarrow> int) \<Rightarrow> ('f, 'p) stack option \<Rightarrow> 'p option \<Rightarrow> nat option" where
  "sk_find call_cmp_func sk p = (case sk of None \<Rightarrow> None | Some sk \<Rightarrow>
     (case comp_func sk of
        None \<Rightarrow> find_from (\<lambda>q. q = p) sk
      | Some cmpf \<Rightarrow>
          if p = None then None
          else if \<not> sk_is_sorted (Some sk) then find_from (\<lambda>elem. call_cmp_func cmpf p elem = 0) sk
          else sk_search (call_cmp_func cmpf p) (data sk) 0 (num sk)))"

definition sk_shift :: "('f, 'p) stack option \<Rightarrow> 'p option \<times> ('f, 'p) stack option" where
  "sk_shift sk = (case sk of None \<Rightarrow> (None, None) | Some s \<Rightarrow> if num s = 0 then (None, sk) else sk_delete sk 0)"

definition sk_push :: "(nat \<Rightarrow> bool) \<Rightarrow> ('f, 'p) stack option \<Rightarrow> 'p option \<Rightarrow> nat \<times> ('f, 'p) stack option" where
  "sk_push mem sk p = sk_insert mem sk p (sk_num sk)"

definition sk_pop :: "('f, 'p) stack option \<Rightarrow> 'p option \<times> ('f, 'p) stack option" where
  "sk_pop sk = (case sk of None \<Rightarrow> (None, None) | Some s \<Rightarrow>
     if num s = 0 then (None, sk) else sk_delete sk (num s - 1))"

definition sk_dup :: "(nat \<Rightarrow> bool) \<Rightarrow> ('f, 'p) stack option \<Rightarrow> ('f, 'p) stack option" where
  "sk_dup mem sk = (case sk of None \<Rightarrow> None | Some sk \<Rightarrow>
     (case sk_new mem (comp_func sk) of None \<Rightarrow> None | Some ret \<Rightarrow>
        if \<not> mem ((sizeof_ptr * num_alloc sk) mod SIZE_MOD) then None
        else Some (ret\<lparr>num := num sk,
          data := take (num sk) (data sk) @ drop (num sk) (take (num_alloc sk) (data ret) @ replicate (num_alloc sk - length (data ret)) None),
          is_sorted := is_sorted sk, num_alloc := num_alloc sk, comp_func := comp_func sk\<rparr>)))"

definition sk_sort :: "('f \<Rightarrow> 'p option \<Rightarrow> 'p option \<Rightarrow> int) \<Rightarrow> ('f, 'p) stack option \<Rightarrow> ('f, 'p) stack option" where
  "sk_sort cmp sk = (case sk of None \<Rightarrow> None | Some sk \<Rightarrow>
     (case comp_func sk of
        None \<Rightarrow> Some sk
      | Some cmpf \<Rightarrow>
          if is_sorted sk then Some sk
          else
            let sk = (if num sk \<ge> 2 then sk\<lparr>data := write_at 0 (qsort (cmp cmpf) (take (num sk) (data sk))) (data sk)\<rparr> else sk)
            in Some (sk\<lparr>is_sorted := True\<rparr>)))"

definition sk_set_cmp_func :: "('f, 'p) stack \<Rightarrow> 'f option \<Rightarrow> 'f option \<times> ('f, 'p) stack" where
  "sk_set_cmp_func sk cmpf =
    (let old = comp_func sk; sk = (if comp_func sk \<noteq> cmpf then sk\<lparr>is_sorted := False\<rparr> else sk)
     in (old, sk\<lparr>comp_func := cmpf\<rparr>))"

text \<open>
  The copying loop from index \<open>i\<close> on: it stops at the first copy that fails, freeing the copies
  made so far, in order. The copy function may allocate: it works on a state \<open>'s\<close>.
\<close>

function deep_copy_loop :: "('p \<Rightarrow> ('s, 'p) op) \<Rightarrow> nat \<Rightarrow> ('f, 'p) stack \<Rightarrow> 's \<Rightarrow> (('f, 'p) stack option \<times> 'p list) \<times> 's" where
  "deep_copy_loop copy i ret s =
    (if i < num ret then
       (case data ret ! i of
          None \<Rightarrow> deep_copy_loop copy (Suc i) ret s
        | Some p \<Rightarrow>
            (case copy p s of
               (None, s) \<Rightarrow> ((None, List.map_filter (\<lambda>j. data ret ! j) [0..<i]), s)
             | (Some q, s) \<Rightarrow> deep_copy_loop copy (Suc i) (ret\<lparr>data := (data ret)[i := Some q]\<rparr>) s))
     else ((Some ret, []), s))"
  by pat_completeness auto
termination
  by (relation "measure (\<lambda>(copy, i, ret, s). num ret - i)") auto

declare deep_copy_loop.simps [simp del]

definition sk_deep_copy :: "(nat \<Rightarrow> bool) \<Rightarrow> ('p \<Rightarrow> ('s, 'p) op) \<Rightarrow> ('f, 'p) stack option \<Rightarrow> 's \<Rightarrow>
    (('f, 'p) stack option \<times> 'p list) \<times> 's" where
  "sk_deep_copy mem copy sk s = (case sk_dup mem sk of
     None \<Rightarrow> ((None, []), s) | Some ret \<Rightarrow> deep_copy_loop copy 0 ret s)"


section \<open>Invariant and abstraction\<close>

definition stack_ok :: "('f, 'p) stack \<Rightarrow> bool" where
  "stack_ok sk \<longleftrightarrow> num sk < num_alloc sk \<and> length (data sk) = num_alloc sk \<and> kMinSize \<le> num_alloc sk \<and>
     num_alloc sk * sizeof_ptr < SIZE_MOD"

definition elems :: "('f, 'p) stack \<Rightarrow> 'p option list" where
  "elems sk = take (num sk) (data sk)"

definition sorted_truly :: "('f \<Rightarrow> 'p option \<Rightarrow> 'p option \<Rightarrow> int) \<Rightarrow> ('f, 'p) stack \<Rightarrow> bool" where
  "sorted_truly cmp sk \<longleftrightarrow> (is_sorted sk \<longrightarrow> (\<exists>f. comp_func sk = Some f \<and> sorted_by (cmp f) (elems sk)))"

lemmas stack_sizes = kMinSize_def sizeof_ptr_def sizeof_STACK_def

lemma length_elems: "stack_ok sk \<Longrightarrow> length (elems sk) = num sk"
  by (simp add: stack_ok_def elems_def)

lemma elems_nth: "i < num sk \<Longrightarrow> elems sk ! i = data sk ! i"
  by (simp add: elems_def)

lemma find_from_eq: "stack_ok sk \<Longrightarrow> find_from P sk = first_index P (elems sk)"
proof -
  assume ok: "stack_ok sk"
  show ?thesis
  proof (cases "find_from P sk")
    case None
    then have "\<forall>x \<in> set (elems sk). \<not> P x"
      using ok by (auto simp: find_from_def find_None_iff elems_def stack_ok_def in_set_conv_nth)
    then show ?thesis using None first_index_None_iff [of P "elems sk"] by simp
  next
    case (Some i)
    then have "first_index P (elems sk) = Some i"
      using length_elems [OF ok] by (auto simp: find_from_def find_Some_iff first_index_Some_iff elems_nth)
    with Some show ?thesis by simp
  qed
qed

lemma sk_new_ok:
  "sk_new mem f = Some sk \<Longrightarrow> stack_ok sk \<and> elems sk = [] \<and> \<not> is_sorted sk \<and> comp_func sk = f"
  by (auto simp: sk_new_def stack_ok_def elems_def stack_sizes split: if_splits)

lemma no_wrap: "(x * 8) mod SIZE_MOD div 8 = x \<Longrightarrow> x * 8 < SIZE_MOD"
proof -
  assume "(x * 8) mod SIZE_MOD div 8 = x"
  then have "x * 8 \<le> (x * 8) mod SIZE_MOD" using div_times_less_eq_dividend [of "(x * 8) mod SIZE_MOD" 8] by simp
  also have "\<dots> < SIZE_MOD" by simp
  finally show ?thesis .
qed

lemma sk_grow_ok:
  assumes "stack_ok sk" and "sk_grow mem sk = Some t"
  shows "stack_ok t" and "elems t = elems sk" and "num t = num sk" and "num sk + 1 < num_alloc t"
    and "is_sorted t = is_sorted sk" and "comp_func t = comp_func sk"
proof -
  let ?n = "num_alloc sk"
  have n: "num sk < ?n" "length (data sk) = ?n" "4 \<le> ?n" "8 * ?n < SIZE_MOD"
    using assms(1) by (simp_all add: stack_ok_def stack_sizes)
  have d: "(2 * ?n) mod SIZE_MOD = 2 * ?n" using n(4) by simp
  have i: "(?n + 1) mod SIZE_MOD = ?n + 1" using n(4) by simp
  let ?m = "if (2 * ?n * 8) mod SIZE_MOD div 8 = 2 * ?n then 2 * ?n else ?n + 1"
  let ?t = "sk\<lparr>data := take ?m (data sk) @ replicate (?m - length (data sk)) None, num_alloc := ?m\<rparr>"
  have "t = ?t \<and> (?m * 8) mod SIZE_MOD div 8 = ?m"
  proof (cases "(2 * ?n * 8) mod SIZE_MOD div 8 = 2 * ?n")
    case True
    then have "sk_grow mem sk = (if mem ((2 * ?n * 8) mod SIZE_MOD) then Some ?t else None)"
      by (simp only: sk_grow_def Let_def d sizeof_ptr_def) simp
    with assms(2) True show ?thesis by (simp split: if_splits)
  next
    case False
    then have "sk_grow mem sk = (if ((?n + 1) * 8) mod SIZE_MOD div 8 \<noteq> ?n + 1 then None
        else if mem (((?n + 1) * 8) mod SIZE_MOD) then Some ?t else None)"
      by (simp only: sk_grow_def Let_def d sizeof_ptr_def i) simp
    with assms(2) False show ?thesis by (simp split: if_splits)
  qed
  moreover obtain m where md: "m = ?m" by blast
  ultimately have t: "t = sk\<lparr>data := take m (data sk) @ replicate (m - length (data sk)) None, num_alloc := m\<rparr>"
    and w: "(m * 8) mod SIZE_MOD div 8 = m" by (simp_all only:)
  have m: "m \<ge> ?n + 1" "m * 8 < SIZE_MOD"
    using n(3) no_wrap [OF w] by (simp_all add: md split: if_splits)
  show "stack_ok t" "elems t = elems sk" "num t = num sk" "num sk + 1 < num_alloc t"
    "is_sorted t = is_sorted sk" "comp_func t = comp_func sk"
    using m n by (simp_all add: t stack_ok_def elems_def stack_sizes)
qed


lemma insert_slots:
  assumes "length xs = n" and "ys \<noteq> []"
  shows "take (n + 1) ((if w \<ge> n then (xs @ ys)[n := p]
      else (move_block (w + 1) w (n - w) (xs @ ys))[w := p])) = take w xs @ p # drop w xs"
    and "length (if w \<ge> n then (xs @ ys)[n := p] else (move_block (w + 1) w (n - w) (xs @ ys))[w := p]) = length (xs @ ys)"
proof -
  obtain y zs where ys: "ys = y # zs" using assms(2) by (cases ys) auto
  show "take (n + 1) ((if w \<ge> n then (xs @ ys)[n := p]
      else (move_block (w + 1) w (n - w) (xs @ ys))[w := p])) = take w xs @ p # drop w xs"
  proof (cases "w \<ge> n")
    case True
    then show ?thesis using assms(1) ys by (simp add: list_update_append)
  next
    case False
    define a b where "a = take w xs" and "b = drop w xs"
    then have ab: "xs = a @ b" "length a = w" "length b = n - w" "b \<noteq> []" using assms(1) False by auto
    then obtain c bs where b: "b = c # bs" by (cases b) auto
    have n: "n = w + Suc (length bs)" using ab(3) b False by simp
    have "move_block (w + 1) w (n - w) (xs @ ys) = a @ c # b @ zs"
      unfolding n using ab(1,2) b ys by (simp add: move_block_def write_at_def)
    then have "(move_block (w + 1) w (n - w) (xs @ ys))[w := p] = a @ p # b @ zs"
      using ab(2) by (simp add: list_update_append)
    then show ?thesis using ab False by (simp add: take_Cons' split: if_splits)
  qed
  show "length (if w \<ge> n then (xs @ ys)[n := p] else (move_block (w + 1) w (n - w) (xs @ ys))[w := p]) = length (xs @ ys)"
    using assms ys by (auto simp: move_block_def)
qed

lemma sk_insert_eq:
  assumes "stack_ok sk" and "sk_insert mem (Some sk) p w = (n, r)"
  obtains (failed) "n = 0" and "r = Some sk"
    | (inserted) t where "r = Some t" and "n = num sk + 1" and "stack_ok t" and "\<not> is_sorted t"
        and "elems t = take w (elems sk) @ p # drop w (elems sk)" and "comp_func t = comp_func sk"
proof (cases "if num_alloc sk \<le> num sk + 1 then sk_grow mem sk else Some sk")
  case None
  with assms(2) show ?thesis by (intro failed) (simp_all add: sk_insert_def)
next
  case (Some s)
  have s: "stack_ok s" "elems s = elems sk" "num s = num sk" "num sk + 1 < num_alloc s" "comp_func s = comp_func sk"
    using Some sk_grow_ok [OF assms(1)] assms(1) by (auto split: if_splits)
  let ?d = "if w \<ge> num s then (data s)[num s := p] else (move_block (w + 1) w (num s - w) (data s))[w := p]"
  obtain u where u: "u = s\<lparr>data := ?d, num := num s + 1, is_sorted := False\<rparr>" by blast
  have e: "sk_insert mem (Some sk) p w = (num sk + 1, Some u)"
    using Some s(3) unfolding sk_insert_def option.case u by simp
  have d: "data s = elems s @ drop (num s) (data s)" by (simp add: elems_def)
  have d': "length (elems s) = num s" "drop (num s) (data s) \<noteq> []"
    using s(1,3,4) length_elems [OF s(1)] by (simp_all add: stack_ok_def)
  have "take (num s + 1) ?d = take w (elems s) @ p # drop w (elems s)" "length ?d = length (data s)"
    using insert_slots [OF d', of w p] unfolding d [symmetric] by simp_all
  then have "elems u = take w (elems sk) @ p # drop w (elems sk)" and l: "length ?d = length (data s)"
    unfolding s(2) [symmetric] elems_def [of u] by (simp_all add: u)
  moreover have "stack_ok u" "\<not> is_sorted u" "comp_func u = comp_func sk" using s l by (simp_all add: u stack_ok_def)
  ultimately show ?thesis using e assms(2) by (intro inserted [of u]) simp_all
qed

lemma sk_delete_eq:
  assumes "stack_ok sk"
  obtains (none) "num sk \<le> w" and "sk_delete (Some sk) w = (None, Some sk)"
    | (deleted) t where "w < num sk" and "sk_delete (Some sk) w = (elems sk ! w, Some t)" and "stack_ok t"
        and "elems t = take w (elems sk) @ drop (Suc w) (elems sk)" and "is_sorted t = is_sorted sk" and "comp_func t = comp_func sk"
proof (cases "w < num sk")
  case True
  let ?d = "if w \<noteq> num sk - 1 then move_block w (w + 1) (num sk - w - 1) (data sk) else data sk"
  let ?t = "sk\<lparr>data := ?d, num := num sk - 1\<rparr>"
  have "sk_delete (Some sk) w = (elems sk ! w, Some ?t)"
    using True by (simp add: sk_delete_def elems_nth Let_def)
  moreover have ok: "num sk < length (data sk)" "length (data sk) = num_alloc sk" using assms by (simp_all add: stack_ok_def)
  then have "length ?d = num_alloc sk" using True by (simp add: move_block_def)
  moreover have "take (num sk - 1) ?d = take w (elems sk) @ drop (Suc w) (elems sk)"
    using True ok by (auto simp: move_block_def write_at_def elems_def drop_take min_def)
  ultimately show ?thesis
    using True assms by (intro deleted [of ?t]) (auto simp: stack_ok_def elems_def)
next
  case False
  then show ?thesis by (intro none) (simp_all add: sk_delete_def)
qed

text \<open>The binary search.\<close>

lemma sk_search_first:
  assumes "comparator cmp" and "sorted_by cmp xs" and "hi \<le> length xs"
    and "\<forall>i < lo. cmp p (xs ! i) > 0"
    and "(\<forall>i. hi \<le> i \<longrightarrow> i < length xs \<longrightarrow> cmp p (xs ! i) < 0) \<or> (lo < hi \<and> cmp p (xs ! (hi - 1)) = 0)"
  shows "sk_search (cmp p) xs lo hi = first_index (\<lambda>x. cmp p x = 0) xs"
  using assms(3-5)
proof (induction "hi - lo" arbitrary: lo hi rule: less_induct)
  case less
  note fall = comparator.sorted_cmp [OF assms(1,2), where p = p]
  show ?case
  proof (cases "lo < hi")
    case False
    have "cmp p (xs ! i) \<noteq> 0" if "i < length xs" for i
    proof (cases "i < lo")
      case False
      with \<open>\<not> lo < hi\<close> have "hi \<le> i" by linarith
      with less(4) \<open>\<not> lo < hi\<close> that show ?thesis by auto
    qed (use less(3) in auto)
    then have "first_index (\<lambda>x. cmp p x = 0) xs = None" by (auto simp: first_index_None_iff in_set_conv_nth)
    with False show ?thesis by (simp add: sk_search.simps)
  next
    case True
    let ?mid = "lo + (hi - lo - 1) div 2"
    let ?r = "cmp p (xs ! ?mid)"
    have mid: "lo \<le> ?mid" "?mid < hi" "?mid < length xs" using True less(2) by linarith+
    consider "?r > 0" | "?r < 0" | "?r = 0" "hi - lo = 1" | "?r = 0" "hi - lo \<noteq> 1" by linarith
    then show ?thesis
    proof cases
      case 1
      have below: "\<forall>i < ?mid + 1. cmp p (xs ! i) > 0" using fall(2) [OF _ mid(3)] 1 by (auto simp: less_Suc_eq_le)
      have "?mid \<noteq> hi - 1" if z: "cmp p (xs ! (hi - 1)) = 0"
      proof
        assume m: "?mid = hi - 1"
        have "?r = 0" unfolding m by (rule z)
        with 1 show False by simp
      qed
      with less(4) mid have "(\<forall>i. hi \<le> i \<longrightarrow> i < length xs \<longrightarrow> cmp p (xs ! i) < 0) \<or>
          (?mid + 1 < hi \<and> cmp p (xs ! (hi - 1)) = 0)" by auto
      moreover have "hi - (?mid + 1) < hi - lo" using mid True by linarith
      ultimately have "sk_search (cmp p) xs (?mid + 1) hi = first_index (\<lambda>x. cmp p x = 0) xs"
        using less(1) less(2) below by blast
      with True 1 show ?thesis by (subst sk_search.simps) (simp add: Let_def)
    next
      case 2
      have "\<forall>i. ?mid \<le> i \<longrightarrow> i < length xs \<longrightarrow> cmp p (xs ! i) < 0" using fall(3) 2 by blast
      moreover have "?mid - lo < hi - lo" "?mid \<le> length xs" using mid True by linarith+
      ultimately have "sk_search (cmp p) xs lo ?mid = first_index (\<lambda>x. cmp p x = 0) xs"
        using less(1) less(3) by blast
      with True 2 show ?thesis by (subst sk_search.simps) (simp add: Let_def)
    next
      case 3
      then have "first_index (\<lambda>x. cmp p x = 0) xs = Some lo"
        using less(2,3) by (auto simp: first_index_Some_iff)
      with 3 True show ?thesis by (subst sk_search.simps) (simp add: Let_def)
    next
      case 4
      then have "?mid + 1 - lo < hi - lo" using True by linarith
      then have "sk_search (cmp p) xs lo (?mid + 1) = first_index (\<lambda>x. cmp p x = 0) xs"
        using less(1) [of "?mid + 1" lo] less(3) mid 4(1) by simp
      with True 4 show ?thesis by (subst sk_search.simps) (simp add: Let_def)
    qed
  qed
qed

section \<open>The other operations\<close>

lemma sk_zero_eq:
  "stack_ok sk \<Longrightarrow> \<exists>t. sk_zero (Some sk) = Some t \<and> stack_ok t \<and> elems t = [] \<and> comp_func t = comp_func sk \<and>
     (is_sorted t \<longrightarrow> is_sorted sk)"
  by (auto simp: sk_zero_def stack_ok_def elems_def)

lemma sk_set_eq:
  "stack_ok sk \<Longrightarrow> \<exists>t. sk_set (Some sk) i v = (if i < num sk then v else None, Some t) \<and> stack_ok t \<and>
     elems t = (elems sk)[i := v] \<and> comp_func t = comp_func sk \<and> is_sorted t = is_sorted sk"
  by (auto simp: sk_set_def stack_ok_def elems_def take_update_swap list_update_beyond)

lemma sk_sort_eq:
  assumes "stack_ok sk"
  obtains t where "sk_sort cmp (Some sk) = Some t" and "stack_ok t" and "comp_func t = comp_func sk"
    and "mset (elems t) = mset (elems sk)"
    and "is_sorted t \<longleftrightarrow> is_sorted sk \<or> comp_func sk \<noteq> None"
    and "\<And>f. comp_func sk = Some f \<Longrightarrow> \<not> is_sorted sk \<Longrightarrow> elems t = qsort (cmp f) (elems sk)"
proof (cases "comp_func sk")
  case None
  then show ?thesis using assms by (intro that [of sk]) (simp_all add: sk_sort_def)
next
  case (Some f)
  show ?thesis
  proof (cases "is_sorted sk")
    case True
    with Some show ?thesis using assms by (intro that [of sk]) (simp_all add: sk_sort_def)
  next
    case False
    have l: "length (elems sk) = num sk" "num sk \<le> length (data sk)"
      using length_elems [OF assms] assms by (simp_all add: stack_ok_def)
    have small: "qsort (cmp f) xs = xs" if "\<not> 2 \<le> length xs" for xs :: "'b option list"
      using that by (cases xs; cases "tl xs") (auto simp: qsort_def)
    let ?d = "if num sk \<ge> 2 then write_at 0 (qsort (cmp f) (elems sk)) (data sk) else data sk"
    obtain t where t: "t = sk\<lparr>data := ?d, is_sorted := True\<rparr>" by blast
    have "sk_sort cmp (Some sk) = Some t" using Some False by (simp add: sk_sort_def t elems_def)
    moreover have "take (num sk) ?d = qsort (cmp f) (elems sk)"
      using l small [of "elems sk"] by (simp add: write_at_def) (simp add: elems_def)
    then have "elems t = qsort (cmp f) (elems sk)" unfolding elems_def [of t] by (simp add: t)
    moreover have "stack_ok t" using assms l by (simp add: t stack_ok_def)
    ultimately show ?thesis using Some by (intro that [of t]) (simp_all add: t)
  qed
qed

lemma sk_dup_eq:
  "stack_ok sk \<Longrightarrow> sk_dup mem (Some sk) = Some t \<Longrightarrow> stack_ok t \<and> elems t = elems sk \<and> comp_func t = comp_func sk \<and>
     is_sorted t = is_sorted sk \<and> num t = num sk"
  by (auto simp: sk_dup_def sk_new_def stack_ok_def elems_def stack_sizes split: if_splits)

lemma sk_set_cmp_func_eq:
  "stack_ok sk \<Longrightarrow> sk_set_cmp_func sk f = (old, t) \<Longrightarrow> old = comp_func sk \<and> stack_ok t \<and> elems t = elems sk \<and>
     comp_func t = f \<and> (is_sorted t \<longleftrightarrow> is_sorted sk \<and> f = comp_func sk)"
  by (auto simp: sk_set_cmp_func_def stack_ok_def elems_def Let_def split: if_splits)

section \<open>Steps\<close>

text \<open>
  What a program can do to a stack it holds, failing calls included. The flag says whether it
  overwrites elements with \<open>sk_set\<close>, which leaves the sorted flag as it was.
\<close>

inductive sk_step :: "(nat \<Rightarrow> bool) \<Rightarrow> ('f \<Rightarrow> 'p option \<Rightarrow> 'p option \<Rightarrow> int) \<Rightarrow> bool \<Rightarrow> ('f, 'p) stack \<Rightarrow> ('f, 'p) stack \<Rightarrow> bool"
  for mem cmp sets where
  Insert: "sk_insert mem (Some sk) p w = (n, Some t) \<Longrightarrow> sk_step mem cmp sets sk t"
| Push: "sk_push mem (Some sk) p = (n, Some t) \<Longrightarrow> sk_step mem cmp sets sk t"
| Delete: "sk_delete (Some sk) w = (r, Some t) \<Longrightarrow> sk_step mem cmp sets sk t"
| DeletePtr: "sk_delete_ptr (Some sk) p = (r, Some t) \<Longrightarrow> sk_step mem cmp sets sk t"
| Shift: "sk_shift (Some sk) = (r, Some t) \<Longrightarrow> sk_step mem cmp sets sk t"
| Pop: "sk_pop (Some sk) = (r, Some t) \<Longrightarrow> sk_step mem cmp sets sk t"
| Zero: "sk_zero (Some sk) = Some t \<Longrightarrow> sk_step mem cmp sets sk t"
| Sort: "sk_sort cmp (Some sk) = Some t \<Longrightarrow> sk_step mem cmp sets sk t"
| SetCmp: "sk_set_cmp_func sk f = (old, t) \<Longrightarrow> sk_step mem cmp sets sk t"
| Dup: "sk_dup mem (Some sk) = Some t \<Longrightarrow> sk_step mem cmp sets sk t"
| Set: "sets \<Longrightarrow> sk_set (Some sk) i v = (r, Some t) \<Longrightarrow> sk_step mem cmp sets sk t"

lemma sorted_by_delete: "sorted_by c xs \<Longrightarrow> sorted_by c (take i xs @ drop (Suc i) xs)"
proof -
  assume a: "sorted_by c xs"
  show ?thesis
  proof (cases "i < length xs")
    case True
    then have "xs = take i xs @ xs ! i # drop (Suc i) xs" by (simp add: id_take_nth_drop)
    then have "sorted_by c (take i xs @ xs ! i # drop (Suc i) xs)" using a by simp
    then show ?thesis by (auto simp: sorted_by_def sorted_wrt_append)
  qed (use a in simp)
qed

lemma delete_keeps:
  assumes "stack_ok sk" and "sk_delete (Some sk) w = (r, Some t)"
  shows "stack_ok t \<and> (sorted_truly cmp sk \<longrightarrow> sorted_truly cmp t)"
  by (rule sk_delete_eq [OF assms(1), of w]) (use assms in \<open>auto simp: sorted_truly_def intro: sorted_by_delete\<close>)

lemma insert_keeps:
  assumes "stack_ok sk" and "sk_insert mem (Some sk) p w = (n, Some t)"
  shows "stack_ok t \<and> (sorted_truly cmp sk \<longrightarrow> sorted_truly cmp t)"
  using assms(1) by (cases rule: sk_insert_eq [OF assms]) (auto simp: sorted_truly_def)

lemma sk_step_keeps:
  assumes "sk_step mem cmp sets sk t" and "\<And>f. comparator (cmp f)" and "stack_ok sk"
  shows "stack_ok t \<and> (sorted_truly cmp sk \<longrightarrow> \<not> sets \<longrightarrow> sorted_truly cmp t)"
  using assms(1,3)
proof cases
  case Insert
  then show ?thesis using insert_keeps assms(3) by blast
next
  case Push
  then show ?thesis unfolding sk_push_def using insert_keeps assms(3) by blast
next
  case Delete
  then show ?thesis using delete_keeps assms(3) by blast
next
  case DeletePtr
  then show ?thesis using delete_keeps [OF assms(3)] assms(3) by (auto simp: sk_delete_ptr_def split: option.splits)
next
  case Shift
  then show ?thesis using delete_keeps [OF assms(3)] assms(3) by (auto simp: sk_shift_def split: if_splits)
next
  case Pop
  then show ?thesis using delete_keeps [OF assms(3)] assms(3) by (auto simp: sk_pop_def split: if_splits)
next
  case Zero
  then show ?thesis using sk_zero_eq [OF assms(3)] by (auto simp: sorted_truly_def sorted_by_def)
next
  case Sort
  obtain t' where t': "sk_sort cmp (Some sk) = Some t'" "stack_ok t'" "comp_func t' = comp_func sk"
    "is_sorted t' \<longleftrightarrow> is_sorted sk \<or> comp_func sk \<noteq> None"
    "\<And>f. comp_func sk = Some f \<Longrightarrow> \<not> is_sorted sk \<Longrightarrow> elems t' = qsort (cmp f) (elems sk)"
    by (rule sk_sort_eq [OF assms(3), of cmp]) blast
  have "sorted_truly cmp t" if s: "sorted_truly cmp sk"
  proof (cases "is_sorted sk")
    case True
    then have "t = sk" using Sort s by (auto simp: sk_sort_def sorted_truly_def)
    with s show ?thesis by simp
  next
    case False
    with t' Sort comparator.sorted_qsort [OF assms(2)] show ?thesis
      by (cases "comp_func sk") (auto simp: sorted_truly_def)
  qed
  with t' Sort show ?thesis by simp
next
  case SetCmp
  with sk_set_cmp_func_eq [OF assms(3) SetCmp] show ?thesis by (auto simp: sorted_truly_def)
next
  case Dup
  with sk_dup_eq [OF assms(3) Dup] show ?thesis by (auto simp: sorted_truly_def)
next
  case (Set i v r)
  with sk_set_eq [OF assms(3), of i v] show ?thesis by auto
qed

section \<open>The list interface\<close>

text \<open>
  An indexed list: insertion and deletion at a position. Pushing, popping and shifting are its
  clients, so a program that uses only the interface has a stack at one end and a queue between
  the two.
\<close>

locale indexed_list =
  fixes ok :: "'s \<Rightarrow> bool"
    and list :: "'s \<Rightarrow> 'a list"
    and insert_at :: "'s \<Rightarrow> 'a \<Rightarrow> nat \<Rightarrow> nat \<times> 's"
    and delete_at :: "'s \<Rightarrow> nat \<Rightarrow> 'a \<times> 's"
  assumes insert_law: "ok s \<Longrightarrow> insert_at s x w = (n, t) \<Longrightarrow> ok t \<and>
      (n = 0 \<and> list t = list s \<or> n = length (list s) + 1 \<and> list t = take w (list s) @ x # drop w (list s))"
    and delete_law: "ok s \<Longrightarrow> w < length (list s) \<Longrightarrow> delete_at s w = (x, t) \<Longrightarrow> ok t \<and>
      x = list s ! w \<and> list t = take w (list s) @ drop (Suc w) (list s)"
begin

lemma push_law:
  "ok s \<Longrightarrow> insert_at s x (length (list s)) = (n, t) \<Longrightarrow> ok t \<and>
    (if n = 0 then list t = list s else n = length (list t) \<and> list t = list s @ [x])"
  using insert_law [of s x "length (list s)" n t] by auto

lemma pop_law:
  "ok s \<Longrightarrow> list s = xs @ [x] \<Longrightarrow> delete_at s (length (list s) - 1) = (y, t) \<Longrightarrow> ok t \<and> y = x \<and> list t = xs"
  using delete_law [of s "length (list s) - 1" y t] by (auto simp: nth_append)

lemma shift_law:
  "ok s \<Longrightarrow> list s = x # xs \<Longrightarrow> delete_at s 0 = (y, t) \<Longrightarrow> ok t \<and> y = x \<and> list t = xs"
  using delete_law [of s 0 y t] by auto

end

interpretation sk_list: indexed_list stack_ok elems
  "\<lambda>sk p w. map_prod id the (sk_insert mem (Some sk) p w)" "\<lambda>sk w. map_prod id the (sk_delete (Some sk) w)"
  for mem
proof (unfold_locales, goal_cases)
  case (1 sk p w n t)
  obtain m r where r: "sk_insert mem (Some sk) p w = (m, r)" by fastforce
  with 1(2) have t: "n = m" "t = the r" by simp_all
  show ?case using 1(1) unfolding t
    by (cases rule: sk_insert_eq [OF 1(1) r]) (use length_elems [OF 1(1)] in auto)
next
  case (2 sk w x t)
  then show ?case
    by (cases rule: sk_delete_eq [OF 2(1), of w]) (use length_elems [OF 2(1)] in auto)
qed

section \<open>Copies\<close>

lemma map_filter_upt_Suc:
  "List.map_filter f [0..<Suc i] = List.map_filter f [0..<i] @ (case f i of None \<Rightarrow> [] | Some x \<Rightarrow> [x])"
  by (simp add: List.map_filter_def split: option.splits)

lemma map_filter_nth: "n \<le> length xs \<Longrightarrow> List.map_filter (\<lambda>j. xs ! j) [0..<n] = List.map_filter id (take n xs)"
proof (induction n)
  case (Suc n)
  then show ?case by (simp add: map_filter_upt_Suc take_Suc_conv_app_nth) (simp add: List.map_filter_def)
qed (simp add: List.map_filter_def)

text \<open>What a copy function may do to the pointers that are live: a copy that succeeds adds one.\<close>

definition counts_copies :: "('s \<Rightarrow> 'p multiset) \<Rightarrow> ('p \<Rightarrow> ('s, 'p) op) \<Rightarrow> bool" where
  "counts_copies live copy \<longleftrightarrow> (\<forall>p s. case copy p s of
     (None, t) \<Rightarrow> live t = live s | (Some q, t) \<Rightarrow> live t = add_mset q (live s))"

lemma deep_copy_loop_live:
  assumes "counts_copies live copy" and "num ret \<le> length (data ret)" and "i \<le> num ret"
    and "deep_copy_loop copy i ret s = ((r, freed), t)"
  shows "case r of
     None \<Rightarrow> live t + mset (List.map_filter id (take i (data ret))) = live s + mset freed
   | Some u \<Rightarrow> freed = [] \<and> num u = num ret \<and> length (data u) = length (data ret) \<and> num_alloc u = num_alloc ret \<and>
       live t + mset (List.map_filter id (take i (data ret))) = live s + mset (List.map_filter id (take (num u) (data u)))"
  using assms(2-4)
proof (induction "num ret - i" arbitrary: i ret s rule: less_induct)
  case less
  let ?nn = "\<lambda>i ret. List.map_filter id (take i (data ret))"
  have step: "?nn (Suc i) ret = ?nn i ret @ (case data ret ! i of None \<Rightarrow> [] | Some x \<Rightarrow> [x])" if "i < num ret"
    using that less(2) by (simp add: take_Suc_conv_app_nth List.map_filter_def split: option.splits)
  show ?case
  proof (cases "i < num ret")
    case False
    with less(3,4) show ?thesis by (auto simp: deep_copy_loop.simps)
  next
    case True
    then have lt: "num ret - Suc i < num ret - i" "Suc i \<le> num ret" by simp_all
    show ?thesis
    proof (cases "data ret ! i")
      case None
      then have "deep_copy_loop copy (Suc i) ret s = ((r, freed), t)"
        using less(4) True by (simp add: deep_copy_loop.simps [of copy i])
      note ih = less(1) [OF lt(1) less(2) lt(2) this]
      have "?nn (Suc i) ret = ?nn i ret" using step [OF True] None by simp
      with ih show ?thesis by (simp only:)
    next
      case (Some p)
      obtain c s' where c: "copy p s = (c, s')" by fastforce
      show ?thesis
      proof (cases c)
        case None
        then have "r = None" "freed = ?nn i ret" "t = s'"
          using less(2,4) True Some c map_filter_nth [of i "data ret"] by (simp_all add: deep_copy_loop.simps [of copy i])
        moreover have "live s' = live s" using assms(1) c None unfolding counts_copies_def
          by (metis (mono_tags, lifting) case_prod_conv option.case(1))
        ultimately show ?thesis by simp
      next
        case (Some q)
        let ?ret = "ret\<lparr>data := (data ret)[i := Some q]\<rparr>"
        have "deep_copy_loop copy (Suc i) ?ret s' = ((r, freed), t)"
          using less(4) True \<open>data ret ! i = Some p\<close> c Some by (simp add: deep_copy_loop.simps [of copy i])
        note ih = less(1) [OF _ _ _ this]
        have "?nn (Suc i) ?ret = ?nn i ret @ [q]"
          using True less(2) by (simp add: take_Suc_conv_app_nth List.map_filter_def)
        moreover have "live s' = add_mset q (live s)" using assms(1) c Some unfolding counts_copies_def
          by (metis (mono_tags, lifting) case_prod_conv option.case(2))
        ultimately show ?thesis using ih lt less(2) by (auto split: option.splits)
      qed
    qed
  qed
qed

section \<open>Properties\<close>

text \<open>C18: Whatever sequence of calls a program makes on a stack, failing ones included, the array
  stays allocated as recorded with a free slot, and as long as no element is overwritten by
  \<open>sk_set\<close> the sorted flag is only set when the elements are in the order of the comparison.\<close>

theorem sk_reachable_ok:
  assumes "\<And>f. comparator (cmp f)" and "sk_new mem f = Some new" and "(sk_step mem cmp sets)\<^sup>*\<^sup>* new sk"
  shows "stack_ok sk \<and> (\<not> sets \<longrightarrow> sorted_truly cmp sk)"
  using assms(3)
proof induction
  case base
  then show ?case using sk_new_ok [OF assms(2)] by (simp add: sorted_truly_def)
next
  case (step s t)
  with sk_step_keeps [OF step(2) assms(1)] show ?case by blast
qed

definition bytes_cmp :: "unit \<Rightarrow> bytes option \<Rightarrow> bytes option \<Rightarrow> int" where
  "bytes_cmp f a b = compare_set_of_element (case a of None \<Rightarrow> [] | Some x \<Rightarrow> x) (case b of None \<Rightarrow> [] | Some x \<Rightarrow> x)"

lemma comparator_bytes_cmp: "comparator (bytes_cmp f)"
  unfolding bytes_cmp_def by unfold_locales (rule set_of_order.swap, erule (1) set_of_order.trans)

definition sample_stack :: "bytes option list \<Rightarrow> bool \<Rightarrow> (unit, bytes) stack" where
  "sample_stack xs s = \<lparr>num = length xs, data = xs @ replicate (4 - length xs) None, is_sorted = s, num_alloc = 4, comp_func = Some ()\<rparr>"

lemma sample_steps:
  "sk_new (\<lambda>_. True) (Some ()) = Some (sample_stack [] False)"
  "sk_push (\<lambda>_. True) (Some (sample_stack [] False)) (Some [2]) = (1, Some (sample_stack [Some [2]] False))"
  "sk_push (\<lambda>_. True) (Some (sample_stack [Some [2]] False)) (Some [1]) = (2, Some (sample_stack [Some [2], Some [1]] False))"
  "sk_sort bytes_cmp (Some (sample_stack [Some [2], Some [1]] False)) = Some (sample_stack [Some [1], Some [2]] True)"
  by (simp_all add: sample_stack_def sk_new_def sk_push_def sk_num_def sk_insert_def stack_sizes sk_sort_def write_at_def
      qsort_def bytes_cmp_def compare_set_of_element_def CBS_len_def CBS_data_def OPENSSL_memcmp_def eval_nat_numeral)

lemma sk_reachable_ok_witness:
  "stack_ok (sample_stack [Some [1], Some [2]] True) \<and> sorted_truly bytes_cmp (sample_stack [Some [1], Some [2]] True)"
proof -
  let ?step = "sk_step (\<lambda>_. True) bytes_cmp False"
  have "?step (sample_stack [] False) (sample_stack [Some [2]] False)" by (rule sk_step.Push [OF sample_steps(2)])
  moreover have "?step (sample_stack [Some [2]] False) (sample_stack [Some [2], Some [1]] False)"
    by (rule sk_step.Push [OF sample_steps(3)])
  moreover have "?step (sample_stack [Some [2], Some [1]] False) (sample_stack [Some [1], Some [2]] True)"
    by (rule sk_step.Sort [OF sample_steps(4)])
  ultimately have "?step\<^sup>*\<^sup>* (sample_stack [] False) (sample_stack [Some [1], Some [2]] True)"
    by (rule converse_rtranclp_into_rtranclp [OF _ converse_rtranclp_into_rtranclp [OF _ r_into_rtranclp]])
  from sk_reachable_ok [OF comparator_bytes_cmp sample_steps(1) this] show ?thesis by simp
qed

lemma sk_search_take: "hi \<le> n \<Longrightarrow> sk_search c (take n xs) lo hi = sk_search c xs lo hi"
proof (induction c xs lo hi rule: sk_search.induct)
  case (1 c xs lo hi)
  then show ?case
    by (subst (1 2) sk_search.simps) (simp add: Let_def)
qed

lemma sk_reachable_ok_sample: "stack_ok (sample_stack [Some [1], Some [2]] True)"
  "sorted_truly bytes_cmp (sample_stack [Some [1], Some [2]] True)"
  by (simp_all add: stack_ok_def stack_sizes sample_stack_def sorted_truly_def sorted_by_def elems_def bytes_cmp_def
      compare_set_of_element_def CBS_len_def CBS_data_def OPENSSL_memcmp_def)

text \<open>C17: On a stack that satisfies the invariant the operations are those of a list: a push that
  succeeds appends, a pop takes the last element, a shift the first, and an insertion or a deletion
  moves the elements after it; a push that fails changes nothing.\<close>

theorem sk_refines_list:
  assumes "stack_ok sk"
  shows "(case sk_push mem (Some sk) p of (n, r) \<Rightarrow> n = 0 \<and> elems (the r) = elems sk \<or>
      n = length (elems (the r)) \<and> elems (the r) = elems sk @ [p])
    \<and> (case sk_insert mem (Some sk) p w of (n, r) \<Rightarrow> n = 0 \<and> elems (the r) = elems sk \<or>
      elems (the r) = take w (elems sk) @ p # drop w (elems sk))
    \<and> (elems sk \<noteq> [] \<longrightarrow> fst (sk_pop (Some sk)) = last (elems sk) \<and> elems (the (snd (sk_pop (Some sk)))) = butlast (elems sk))
    \<and> (elems sk \<noteq> [] \<longrightarrow> fst (sk_shift (Some sk)) = hd (elems sk) \<and> elems (the (snd (sk_shift (Some sk)))) = tl (elems sk))
    \<and> (w < length (elems sk) \<longrightarrow> fst (sk_delete (Some sk) w) = elems sk ! w \<and>
      elems (the (snd (sk_delete (Some sk) w))) = take w (elems sk) @ drop (Suc w) (elems sk))"
    (is "?push \<and> ?insert \<and> ?pop \<and> ?shift \<and> ?delete")
proof -
  have l: "length (elems sk) = num sk" using assms by (rule length_elems)
  have ?push
    using sk_list.push_law [OF assms, of mem p] l
    by (auto simp: sk_push_def sk_num_def split: prod.splits if_splits)
  moreover have ?insert
    using sk_list.insert_law [OF assms, of mem p w] by (auto split: prod.splits)
  moreover have d: "fst (sk_delete (Some sk) i) = elems sk ! i \<and>
      elems (the (snd (sk_delete (Some sk) i))) = take i (elems sk) @ drop (Suc i) (elems sk)" if "i < length (elems sk)" for i
    using sk_list.delete_law [OF assms that] by (metis fst_map_prod id_apply prod.collapse snd_map_prod)
  then have ?delete by blast
  moreover have ?pop using d [of "num sk - 1"] l
    by (auto simp: sk_pop_def last_conv_nth butlast_conv_take)
  moreover have ?shift using d [of 0] l by (auto simp: sk_shift_def hd_conv_nth drop_Suc)
  ultimately show ?thesis by blast
qed

lemma sk_refines_list_witness:
  "elems (the (snd (sk_pop (Some (sample_stack [Some [1], Some [2]] True))))) = [Some [1]]"
proof -
  have "elems (sample_stack [Some [1], Some [2]] True) = [Some [1], Some [2]]" by (simp add: sample_stack_def elems_def)
  with sk_refines_list [OF sk_reachable_ok_sample(1), where p = None and w = 0 and mem = "\<lambda>_. True"] show ?thesis by simp
qed

text \<open>\<open>sk_find\<close> returns the first match, with pointer equality when no comparison is set and with
  the comparison otherwise; the binary search of a sorted stack finds the same index as the walk.\<close>

theorem sk_find_first:
  assumes "stack_ok sk" and "sorted_truly cmp sk" and "\<And>f. comparator (cmp f)"
  shows "sk_find cmp (Some sk) p =
    (case comp_func sk of
       None \<Rightarrow> first_index (\<lambda>q. q = p) (elems sk)
     | Some f \<Rightarrow> if p = None then None else first_index (\<lambda>q. cmp f p q = 0) (elems sk))"
proof (cases "comp_func sk")
  case None
  then show ?thesis using assms(1) by (simp add: sk_find_def find_from_eq)
next
  case (Some f)
  have l: "length (elems sk) = num sk" using assms(1) by (rule length_elems)
  have "sk_search (cmp f p) (data sk) 0 (num sk) = first_index (\<lambda>q. cmp f p q = 0) (elems sk)" if "is_sorted sk"
  proof -
    have "sorted_by (cmp f) (elems sk)" using assms(2) that Some by (simp add: sorted_truly_def)
    from sk_search_first [OF assms(3) this, of "num sk" 0 p] l
    have "sk_search (cmp f p) (elems sk) 0 (num sk) = first_index (\<lambda>q. cmp f p q = 0) (elems sk)" by simp
    then show ?thesis using sk_search_take [of "num sk" "num sk" "cmp f p" "data sk" 0] by (simp only: elems_def)
  qed
  with Some assms(1) show ?thesis by (simp add: sk_find_def find_from_eq sk_is_sorted_def)
qed

lemma sk_find_first_witness:
  "sk_find bytes_cmp (Some (sample_stack [Some [1], Some [2]] True)) (Some [2]) = Some 1"
proof -
  have "first_index (\<lambda>q. bytes_cmp () (Some [2]) q = 0) [Some [1], Some [2]] = Some 1"
    by (simp add: first_index_def bytes_cmp_def compare_set_of_element_def CBS_len_def CBS_data_def OPENSSL_memcmp_def)
  then show ?thesis
    using sk_find_first [of "sample_stack [Some [1], Some [2]] True" bytes_cmp "Some [2]"] sk_reachable_ok_sample comparator_bytes_cmp
    by (simp add: sample_stack_def elems_def)
qed

text \<open>
  Overwriting an element of a sorted stack leaves the flag set, so the search that follows can miss
  an element that is there.
\<close>

lemma sk_set_forgets_order:
  "snd (sk_set (Some (sample_stack [Some [1], Some [2]] True)) 0 (Some [3])) = Some (sample_stack [Some [3], Some [2]] True)"
  "sk_find bytes_cmp (Some (sample_stack [Some [3], Some [2]] True)) (Some [2]) = None"
  by (simp_all add: sk_set_def sample_stack_def sk_find_def sk_is_sorted_def sk_search.simps [of _ _ 0] sk_search.simps [of _ _ 1]
      sk_search.simps [of _ _ 2] Let_def bytes_cmp_def compare_set_of_element_def CBS_len_def CBS_data_def OPENSSL_memcmp_def)

text \<open>A deep copy leaks nothing: when it fails, every copy made on the way has been freed, and
  when it succeeds, the new live pointers are exactly the elements of the new stack.\<close>

theorem sk_deep_copy_leaks_nothing:
  assumes "counts_copies live copy" and "stack_ok sk" and "sk_deep_copy mem copy (Some sk) s = ((r, freed), t)"
  shows "case r of None \<Rightarrow> live t = live s + mset freed
    | Some u \<Rightarrow> freed = [] \<and> stack_ok u \<and> num u = num sk \<and> live t = live s + mset (List.map_filter id (elems u))"
proof (cases "sk_dup mem (Some sk)")
  case None
  then show ?thesis using assms(3) by (auto simp: sk_deep_copy_def)
next
  case (Some ret)
  note d = sk_dup_eq [OF assms(2) Some]
  have "deep_copy_loop copy 0 ret s = ((r, freed), t)" using assms(3) Some by (simp add: sk_deep_copy_def)
  from deep_copy_loop_live [OF assms(1) _ _ this] d show ?thesis
    by (auto simp: stack_ok_def elems_def List.map_filter_def split: option.splits)
qed

definition sample_copy :: "nat \<Rightarrow> (nat list, nat) op" where
  "sample_copy p = (\<lambda>s. if p = 0 then (None, s) else (Some (p + 10), (p + 10) # s))"

lemma sk_deep_copy_leaks_nothing_witness:
  "\<exists>sk :: (unit, nat) stack. \<exists>freed t. sk_deep_copy (\<lambda>_. True) sample_copy (Some sk) [] = ((None, freed), t) \<and>
     freed = [11] \<and> mset t = mset freed"
proof -
  let ?sk = "\<lparr>num = 3, data = [Some 1, Some 0, Some 2, None], is_sorted = False, num_alloc = 4, comp_func = None\<rparr> :: (unit, nat) stack"
  have r: "sk_deep_copy (\<lambda>_. True) sample_copy (Some ?sk) [] = ((None, [11]), [11])"
    by (simp add: sk_deep_copy_def sk_dup_def sk_new_def stack_sizes deep_copy_loop.simps [of _ 0] deep_copy_loop.simps [of _ "Suc 0"]
        sample_copy_def List.map_filter_def)
  have "counts_copies mset sample_copy" by (simp add: counts_copies_def sample_copy_def)
  moreover have "stack_ok ?sk" by (simp add: stack_ok_def stack_sizes)
  ultimately show ?thesis using sk_deep_copy_leaks_nothing [OF _ _ r] r by fastforce
qed

end
