(* ===== verification/Refine.thy ===== *)
theory Refine
  imports Prelude
begin

text \<open>
  Functional refinement: an implementation whose operations agree, result and next state, with
  those of an abstract machine. The law speaks of one step; the lemmas carry it to a run.
\<close>

fun run :: "('op \<Rightarrow> 's \<Rightarrow> 'r \<times> 's) \<Rightarrow> 'op list \<Rightarrow> 's \<Rightarrow> 'r list \<times> 's" where
  "run step [] s = ([], s)"
| "run step (op # ops) s =
     (let (r, s) = step op s; (rs, s) = run step ops s in (r # rs, s))"

lemma length_run [simp]: "length (fst (run step ops s)) = length ops"
proof (induction ops arbitrary: s)
  case (Cons op ops)
  then show ?case
    using Cons.IH [of "snd (step op s)"] by (simp add: split_beta)
qed simp

locale refines =
  fixes good :: "'s \<Rightarrow> bool"
    and abs :: "'s \<Rightarrow> 'a"
    and legal :: "'op \<Rightarrow> bool"
    and step :: "'op \<Rightarrow> 's \<Rightarrow> 'r \<times> 's"
    and spec :: "'op \<Rightarrow> 'a \<Rightarrow> 'r \<times> 'a"
  assumes good_step: "good s \<Longrightarrow> legal op \<Longrightarrow> good (snd (step op s))"
    and abs_step: "good s \<Longrightarrow> legal op \<Longrightarrow> spec op (abs s) = map_prod id abs (step op s)"
begin

lemma good_run: "good s \<Longrightarrow> \<forall>op \<in> set ops. legal op \<Longrightarrow> good (snd (run step ops s))"
proof (induction ops arbitrary: s)
  case (Cons op ops)
  then show ?case
    using good_step [of s op] by (simp add: split_beta)
qed simp

lemma run_refines:
  "good s \<Longrightarrow> \<forall>op \<in> set ops. legal op \<Longrightarrow> run spec ops (abs s) = map_prod id abs (run step ops s)"
proof (induction ops arbitrary: s)
  case (Cons op ops)
  obtain r s' where s: "step op s = (r, s')"
    by fastforce
  have "good s'" "spec op (abs s) = (r, abs s')"
    using good_step [of s op] abs_step [of s op] s Cons.prems by simp_all
  then show ?case
    using Cons.IH [of s'] Cons.prems s by (simp add: map_prod_def split: prod.split)
qed simp

end

end
