(* ===== verification/Lhash.thy ===== *)
theory Lhash
  imports Mem Refine "HOL-Library.Multiset"
begin

text \<open>
  \<^verbatim>\<open>crypto/lhash/lhash.c\<close>: the chained hash table. A chain is the list of its items, and the
  pointer to the link at which a search stopped is a bucket and a position in it. The count of
  items is a natural number: each item is a live allocation, so a \<open>size_t\<close> cannot overflow. A
  callback of \<open>lh_doall_arg\<close> works on its argument; callbacks that change the table are not
  modelled. The abstraction \<open>contents\<close> is the set of values stored, at most one of each class of
  the comparison.
\<close>

section \<open>The code\<close>

record 'a lhash_item =
  item_data :: 'a
  item_hash :: u32

record 'a lhash =
  num_items :: nat
  buckets :: "'a lhash_item list list"
  num_buckets :: nat
  callback_depth :: nat
  comp_fn :: "'a \<Rightarrow> 'a \<Rightarrow> int"
  hash_fn :: "'a \<Rightarrow> u32"

definition kMinNumBuckets :: nat where "kMinNumBuckets = 16"
definition kMaxAverageChainLength :: nat where "kMaxAverageChainLength = 2"
definition kMinAverageChainLength :: nat where "kMinAverageChainLength = 1"
definition sizeof_LHASH :: nat where "sizeof_LHASH = 48"
definition sizeof_LHASH_ITEM :: nat where "sizeof_LHASH_ITEM = 24"
definition sizeof_link :: nat where "sizeof_link = 8"
definition UINT_MAX :: nat where "UINT_MAX = 4294967295"

definition lh_new :: "(nat \<Rightarrow> bool) \<Rightarrow> ('a \<Rightarrow> u32) \<Rightarrow> ('a \<Rightarrow> 'a \<Rightarrow> int) \<Rightarrow> 'a lhash option" where
  "lh_new mem hash cmp =
    (if \<not> mem sizeof_LHASH then None
     else if \<not> mem (sizeof_link * kMinNumBuckets) then None
     else Some \<lparr>num_items = 0, buckets = replicate kMinNumBuckets [], num_buckets = kMinNumBuckets,
       callback_depth = 0, comp_fn = cmp, hash_fn = hash\<rparr>)"

definition lh_num_items :: "'a lhash \<Rightarrow> nat" where
  "lh_num_items lh = num_items lh"

text \<open>Where a search stops: the bucket, and the position of the match or of the end of the chain.\<close>

definition next_ptr :: "'a lhash \<Rightarrow> u32 \<Rightarrow> ('a \<Rightarrow> bool) \<Rightarrow> nat \<times> nat" where
  "next_ptr lh hash matches =
     (let b = unat hash mod num_buckets lh in
      (b, length (takeWhile (\<lambda>cur. \<not> matches (item_data cur)) (buckets lh ! b))))"

definition get_next_ptr_and_hash :: "'a lhash \<Rightarrow> 'a \<Rightarrow> (nat \<times> nat) \<times> u32" where
  "get_next_ptr_and_hash lh data =
     (let hash = hash_fn lh data in (next_ptr lh hash (\<lambda>cur. comp_fn lh cur data = 0), hash))"

definition get_next_ptr_by_key :: "'a lhash \<Rightarrow> 'k \<Rightarrow> u32 \<Rightarrow> ('k \<Rightarrow> 'a \<Rightarrow> int) \<Rightarrow> nat \<times> nat" where
  "get_next_ptr_by_key lh key key_hash cmp_key = next_ptr lh key_hash (\<lambda>cur. cmp_key key cur = 0)"

definition deref :: "'a lhash \<Rightarrow> nat \<times> nat \<Rightarrow> 'a lhash_item option" where
  "deref lh = (\<lambda>(b, k). if k < length (buckets lh ! b) then Some (buckets lh ! b ! k) else None)"

definition lh_retrieve :: "'a lhash \<Rightarrow> 'a \<Rightarrow> 'a option" where
  "lh_retrieve lh data = map_option item_data (deref lh (fst (get_next_ptr_and_hash lh data)))"

definition lh_retrieve_key :: "'a lhash \<Rightarrow> 'k \<Rightarrow> u32 \<Rightarrow> ('k \<Rightarrow> 'a \<Rightarrow> int) \<Rightarrow> 'a option" where
  "lh_retrieve_key lh key key_hash cmp_key = map_option item_data (deref lh (get_next_ptr_by_key lh key key_hash cmp_key))"

definition rebucket_item :: "nat \<Rightarrow> 'a lhash_item list list \<Rightarrow> 'a lhash_item \<Rightarrow> 'a lhash_item list list" where
  "rebucket_item n new_buckets cur =
     (let b = unat (item_hash cur) mod n in new_buckets[b := cur # new_buckets ! b])"

definition lh_rebucket :: "(nat \<Rightarrow> bool) \<Rightarrow> 'a lhash \<Rightarrow> nat \<Rightarrow> 'a lhash" where
  "lh_rebucket mem lh new_num_buckets =
    (let alloc_size = (sizeof_link * new_num_buckets) mod SIZE_MOD in
     if alloc_size div sizeof_link \<noteq> new_num_buckets then lh
     else if \<not> mem alloc_size then lh
     else lh\<lparr>num_buckets := new_num_buckets,
       buckets := foldl (rebucket_item new_num_buckets) (replicate new_num_buckets []) (concat (buckets lh))\<rparr>)"

definition lh_maybe_resize :: "(nat \<Rightarrow> bool) \<Rightarrow> 'a lhash \<Rightarrow> 'a lhash" where
  "lh_maybe_resize mem lh =
    (if callback_depth lh > 0 then lh
     else
       let avg_chain_length = num_items lh div num_buckets lh in
       if avg_chain_length > kMaxAverageChainLength then
         let new_num_buckets = (num_buckets lh * 2) mod SIZE_MOD in
         if new_num_buckets > num_buckets lh then lh_rebucket mem lh new_num_buckets else lh
       else if avg_chain_length < kMinAverageChainLength \<and> num_buckets lh > kMinNumBuckets then
         let new_num_buckets = num_buckets lh div 2;
             new_num_buckets = (if new_num_buckets < kMinNumBuckets then kMinNumBuckets else new_num_buckets)
         in lh_rebucket mem lh new_num_buckets
       else lh)"

text \<open>Whether the call succeeded and the value it replaced.\<close>

definition lh_insert :: "(nat \<Rightarrow> bool) \<Rightarrow> 'a lhash \<Rightarrow> 'a \<Rightarrow> (bool \<times> 'a option) \<times> 'a lhash" where
  "lh_insert mem lh data =
    (case get_next_ptr_and_hash lh data of ((b, k), hash) \<Rightarrow>
       case deref lh (b, k) of
         Some item \<Rightarrow>
           ((True, Some (item_data item)),
            lh\<lparr>buckets := (buckets lh)[b := (buckets lh ! b)[k := item\<lparr>item_data := data\<rparr>]]\<rparr>)
       | None \<Rightarrow>
           if \<not> mem sizeof_LHASH_ITEM then ((False, None), lh)
           else
             let item = \<lparr>item_data = data, item_hash = hash\<rparr>;
                 lh = lh\<lparr>buckets := (buckets lh)[b := buckets lh ! b @ [item]], num_items := num_items lh + 1\<rparr>
             in ((True, None), lh_maybe_resize mem lh))"

definition lh_delete :: "(nat \<Rightarrow> bool) \<Rightarrow> 'a lhash \<Rightarrow> 'a \<Rightarrow> 'a option \<times> 'a lhash" where
  "lh_delete mem lh data =
    (case fst (get_next_ptr_and_hash lh data) of (b, k) \<Rightarrow>
       case deref lh (b, k) of
         None \<Rightarrow> (None, lh)
       | Some item \<Rightarrow>
           let chain = buckets lh ! b;
               lh = lh\<lparr>buckets := (buckets lh)[b := take k chain @ drop (Suc k) chain], num_items := num_items lh - 1\<rparr>
           in (Some (item_data item), lh_maybe_resize mem lh))"

definition lh_doall_arg :: "(nat \<Rightarrow> bool) \<Rightarrow> 'a lhash option \<Rightarrow> ('a \<Rightarrow> 's \<Rightarrow> 's) \<Rightarrow> 's \<Rightarrow> 's \<times> 'a lhash option" where
  "lh_doall_arg mem lh0 func arg = (case lh0 of None \<Rightarrow> (arg, None) | Some lh \<Rightarrow>
     let lh = (if callback_depth lh < UINT_MAX then lh\<lparr>callback_depth := callback_depth lh + 1\<rparr> else lh);
         arg = foldl (\<lambda>arg chain. foldl (\<lambda>arg cur. func (item_data cur) arg) arg chain) arg (buckets lh);
         lh = (if callback_depth lh < UINT_MAX then lh\<lparr>callback_depth := callback_depth lh - 1\<rparr> else lh)
     in (arg, Some (lh_maybe_resize mem lh)))"

definition lh_strhash :: "bytes option \<Rightarrow> u32" where
  "lh_strhash c = (case c of None \<Rightarrow> 0 | Some s \<Rightarrow> OPENSSL_hash32 (take (c_strlen s) s))"

section \<open>Invariant and abstraction\<close>

definition items :: "'a lhash \<Rightarrow> 'a lhash_item multiset" where
  "items lh = mset (concat (buckets lh))"

definition same :: "'a lhash \<Rightarrow> 'a \<Rightarrow> 'a \<Rightarrow> bool" where
  "same lh x y \<longleftrightarrow> comp_fn lh x y = 0"

text \<open>The contract of the caller's functions: equality is an equivalence and equal values hash alike.\<close>

definition lh_functions :: "('a \<Rightarrow> u32) \<Rightarrow> ('a \<Rightarrow> 'a \<Rightarrow> int) \<Rightarrow> bool" where
  "lh_functions hash cmp \<longleftrightarrow> equivp (\<lambda>x y. cmp x y = 0) \<and> (\<forall>x y. cmp x y = 0 \<longrightarrow> hash x = hash y)"

definition lh_ok :: "'a lhash \<Rightarrow> bool" where
  "lh_ok lh \<longleftrightarrow> lh_functions (hash_fn lh) (comp_fn lh) \<and> length (buckets lh) = num_buckets lh \<and>
     kMinNumBuckets \<le> num_buckets lh \<and> num_buckets lh * sizeof_link < SIZE_MOD \<and> num_items lh = size (items lh) \<and>
     (\<forall>b < num_buckets lh. \<forall>it \<in> set (buckets lh ! b).
        item_hash it = hash_fn lh (item_data it) \<and> unat (item_hash it) mod num_buckets lh = b) \<and>
     (\<forall>x. size (filter_mset (\<lambda>it. same lh (item_data it) x) (items lh)) \<le> 1)"

definition contents :: "'a lhash \<Rightarrow> 'a set" where
  "contents lh = item_data ` set_mset (items lh)"

lemmas lh_sizes = kMinNumBuckets_def sizeof_link_def

section \<open>Chains\<close>

definition placed :: "('a \<Rightarrow> u32) \<Rightarrow> nat \<Rightarrow> 'a lhash_item list list \<Rightarrow> bool" where
  "placed h n bs \<longleftrightarrow> (\<forall>b < n. \<forall>it \<in> set (bs ! b). item_hash it = h (item_data it) \<and> unat (item_hash it) mod n = b)"

lemma lh_ok_placed:
  "lh_ok lh \<longleftrightarrow> lh_functions (hash_fn lh) (comp_fn lh) \<and> length (buckets lh) = num_buckets lh \<and>
     kMinNumBuckets \<le> num_buckets lh \<and> num_buckets lh * sizeof_link < SIZE_MOD \<and> num_items lh = size (items lh) \<and>
     placed (hash_fn lh) (num_buckets lh) (buckets lh) \<and>
     (\<forall>x. size (filter_mset (\<lambda>it. same lh (item_data it) x) (items lh)) \<le> 1)"
  by (simp add: lh_ok_def placed_def)

lemma mset_concat_update:
  "b < length bs \<Longrightarrow> mset (concat (bs[b := ys])) + mset (bs ! b) = mset (concat bs) + mset ys"
proof (induction bs arbitrary: b)
  case (Cons c bs)
  then show ?case by (cases b) (simp_all add: union_assoc add.commute add.left_commute)
qed simp

lemma mset_concat_append:
  assumes "b < length bs"
  shows "mset (concat (bs[b := bs ! b @ [it]])) = add_mset it (mset (concat bs))"
  using mset_concat_update [OF assms, of "bs ! b @ [it]"] by simp

lemma mset_concat_push:
  assumes "b < length bs"
  shows "mset (concat (bs[b := it # bs ! b])) = add_mset it (mset (concat bs))"
  using mset_concat_update [OF assms, of "it # bs ! b"] by simp

lemma mset_concat_remove:
  assumes "b < length bs" "k < length (bs ! b)"
  shows "mset (concat bs) = add_mset (bs ! b ! k) (mset (concat (bs[b := take k (bs ! b) @ drop (Suc k) (bs ! b)])))"
proof -
  have "mset (bs ! b) = add_mset (bs ! b ! k) (mset (take k (bs ! b) @ drop (Suc k) (bs ! b)))"
    by (subst id_take_nth_drop [OF assms(2)]) simp
  with mset_concat_update [OF assms(1), of "take k (bs ! b) @ drop (Suc k) (bs ! b)"] show ?thesis
    by simp
qed

lemma mset_concat_replace:
  assumes "b < length bs" "k < length (bs ! b)"
  shows "mset (concat (bs[b := (bs ! b)[k := it]])) =
    add_mset it (mset (concat (bs[b := take k (bs ! b) @ drop (Suc k) (bs ! b)])))"
proof -
  have "mset ((bs ! b)[k := it]) = add_mset it (mset (take k (bs ! b) @ drop (Suc k) (bs ! b)))"
    by (simp add: upd_conv_take_nth_drop [OF assms(2)])
  with mset_concat_update [OF assms(1), of "take k (bs ! b) @ drop (Suc k) (bs ! b)"]
    mset_concat_update [OF assms(1), of "(bs ! b)[k := it]"]
  have "mset (concat (bs[b := (bs ! b)[k := it]])) + mset (bs ! b) =
      add_mset it (mset (concat (bs[b := take k (bs ! b) @ drop (Suc k) (bs ! b)]))) + mset (bs ! b)"
    by simp
  then show ?thesis
    by (simp only: add_right_cancel)
qed

lemma placedD:
  "placed h n bs \<Longrightarrow> b < n \<Longrightarrow> it \<in> set (bs ! b) \<Longrightarrow> item_hash it = h (item_data it) \<and> unat (item_hash it) mod n = b"
  unfolding placed_def by blast

lemma placed_update:
  assumes "placed h n bs" "length bs = n"
    "\<And>it. it \<in> set ys \<Longrightarrow> item_hash it = h (item_data it) \<and> unat (item_hash it) mod n = b"
  shows "placed h n (bs[b := ys])"
  unfolding placed_def
proof (intro allI impI ballI)
  fix c it
  assume c: "c < n" "it \<in> set (bs[b := ys] ! c)"
  show "item_hash it = h (item_data it) \<and> unat (item_hash it) mod n = c"
  proof (cases "c = b")
    case True
    then show ?thesis using c assms(2) assms(3) [of it] by (simp del: mod_mod_trivial) metis
  next
    case False
    then show ?thesis using c placedD [OF assms(1), of c it] by (metis nth_list_update_neq)
  qed
qed

lemma placed_replicate [simp]: "placed h n (replicate n [])"
  by (simp add: placed_def)

lemma rebucket_foldl:
  assumes "n > 0" "length bs = n" "placed h n bs" "\<And>it. it \<in> set its \<Longrightarrow> item_hash it = h (item_data it)"
  shows "length (foldl (rebucket_item n) bs its) = n \<and> placed h n (foldl (rebucket_item n) bs its) \<and>
    mset (concat (foldl (rebucket_item n) bs its)) = mset (concat bs) + mset its"
  using assms
proof (induction its arbitrary: bs)
  case (Cons it its)
  let ?b = "unat (item_hash it) mod n"
  have b: "?b < length bs"
    using Cons.prems by simp
  have "placed h n (rebucket_item n bs it)"
    unfolding rebucket_item_def Let_def using Cons.prems b
    by (intro placed_update) (auto dest: placedD)
  with Cons.IH [of "rebucket_item n bs it"] Cons.prems b show ?case
    by (simp add: rebucket_item_def Let_def mset_concat_push)
qed simp

section \<open>Searching\<close>

lemma deref_find:
  "deref lh (next_ptr lh hash P) = find (\<lambda>it. P (item_data it)) (buckets lh ! (unat hash mod num_buckets lh))"
proof -
  have "(if length (takeWhile (\<lambda>it. \<not> P (item_data it)) c) < length c
      then Some (c ! length (takeWhile (\<lambda>it. \<not> P (item_data it)) c)) else None) = find (\<lambda>it. P (item_data it)) c" for c
    by (induction c) auto
  from this [of "buckets lh ! (unat hash mod num_buckets lh)"] show ?thesis
    by (simp only: deref_def next_ptr_def Let_def prod.case)
qed

lemma items_iff: "it \<in># items lh \<longleftrightarrow> (\<exists>b < length (buckets lh). it \<in> set (buckets lh ! b))"
  by (auto simp: items_def in_set_conv_nth [of _ "buckets lh"]) (metis in_set_conv_nth)

lemma unique_in_filter:
  assumes "size (filter_mset P M) \<le> 1" "x \<in># M" "y \<in># M" "P x" "P y"
  shows "x = y"
proof (rule ccontr)
  assume "x \<noteq> y"
  from assms(2) obtain N where N: "M = add_mset x N"
    by (metis mset_add)
  with assms(3) \<open>x \<noteq> y\<close> obtain K where "N = add_mset y K"
    by (metis insert_noteq_member mset_add)
  with N assms show False
    by simp
qed

lemma lh_ok_bucket: "lh_ok lh \<Longrightarrow> unat (h :: u32) mod num_buckets lh < length (buckets lh)"
  by (simp add: lh_ok_def lh_sizes)

lemma lh_ok_unique:
  "lh_ok lh \<Longrightarrow> it \<in># items lh \<Longrightarrow> jt \<in># items lh \<Longrightarrow> same lh (item_data it) x \<Longrightarrow> same lh (item_data jt) x \<Longrightarrow> it = jt"
  by (rule unique_in_filter [where P = "\<lambda>it. same lh (item_data it) x"]) (auto simp: lh_ok_placed)

lemma lh_ok_hash:
  "lh_ok lh \<Longrightarrow> b < length (buckets lh) \<Longrightarrow> it \<in> set (buckets lh ! b) \<Longrightarrow>
    item_hash it = hash_fn lh (item_data it) \<and> unat (item_hash it) mod num_buckets lh = b"
  unfolding lh_ok_placed by (auto dest: placedD)

lemma find_item:
  assumes ok: "lh_ok lh" and P: "\<And>it. it \<in># items lh \<Longrightarrow> P (item_data it) \<longleftrightarrow> same lh (item_data it) x"
    and h: "hash = hash_fn lh x"
  shows "find (\<lambda>it. P (item_data it)) (buckets lh ! (unat hash mod num_buckets lh)) = Some it \<longleftrightarrow>
    it \<in># items lh \<and> same lh (item_data it) x"
    (is "find ?P ?c = _ \<longleftrightarrow> _")
proof
  assume "find ?P ?c = Some it"
  then have "it \<in> set ?c" "?P it"
    by (auto simp: find_Some_iff)
  with P lh_ok_bucket [OF ok] show "it \<in># items lh \<and> same lh (item_data it) x"
    using items_iff by blast
next
  assume it: "it \<in># items lh \<and> same lh (item_data it) x"
  then obtain b where b: "b < length (buckets lh)" "it \<in> set (buckets lh ! b)"
    by (auto simp: items_iff)
  have "hash_fn lh (item_data it) = hash_fn lh x"
    using ok it by (auto simp: lh_ok_def lh_functions_def same_def)
  then have "it \<in> set ?c"
    using lh_ok_hash [OF ok b] b h by auto
  moreover have "?P it"
    using it P by blast
  ultimately obtain jt where jt: "find ?P ?c = Some jt"
    by (cases "find ?P ?c") (auto simp: find_None_iff)
  then have "jt \<in> set ?c" "?P jt"
    by (auto simp: find_Some_iff)
  then have "jt \<in># items lh" "same lh (item_data jt) x"
    using lh_ok_bucket [OF ok] P items_iff by blast+
  with it jt lh_ok_unique [OF ok] show "find ?P ?c = Some it"
    by blast
qed

lemma lh_find:
  assumes "lh_ok lh"
  shows "deref lh (fst (get_next_ptr_and_hash lh x)) = Some it \<longleftrightarrow> it \<in># items lh \<and> same lh (item_data it) x"
  unfolding get_next_ptr_and_hash_def Let_def fst_conv deref_find
  by (rule find_item [OF assms, where P = "\<lambda>c. comp_fn lh c x = 0"]) (simp_all add: same_def)

lemma lh_retrieve_iff:
  assumes "lh_ok lh"
  shows "lh_retrieve lh x = Some y \<longleftrightarrow> y \<in> contents lh \<and> same lh y x"
  by (auto simp: lh_retrieve_def contents_def lh_find [OF assms])

lemma lh_retrieve_none:
  "lh_ok lh \<Longrightarrow> lh_retrieve lh x = None \<longleftrightarrow> (\<forall>y \<in> contents lh. \<not> same lh y x)"
  using lh_retrieve_iff by (metis not_None_eq)

section \<open>Resizing\<close>

definition frame :: "'a lhash \<Rightarrow> ('a \<Rightarrow> 'a \<Rightarrow> int) \<times> ('a \<Rightarrow> u32) \<times> nat" where
  "frame lh = (comp_fn lh, hash_fn lh, callback_depth lh)"

lemma lh_rebucket_ok:
  assumes ok: "lh_ok lh" and n: "kMinNumBuckets \<le> n"
  shows "lh_ok (lh_rebucket mem lh n)" "items (lh_rebucket mem lh n) = items lh"
    "num_items (lh_rebucket mem lh n) = num_items lh" "frame (lh_rebucket mem lh n) = frame lh"
proof -
  define bs where "bs = foldl (rebucket_item n) (replicate n []) (concat (buckets lh))"
  have h: "item_hash it = hash_fn lh (item_data it)" if "it \<in> set (concat (buckets lh))" for it
    using that lh_ok_hash [OF ok] by (auto simp: in_set_conv_nth [of _ "buckets lh"])
  have bs: "length bs = n \<and> placed (hash_fn lh) n bs \<and> mset (concat bs) = items lh"
    using rebucket_foldl [of n "replicate n []" "hash_fn lh" "concat (buckets lh)"] n h
    by (simp add: bs_def items_def lh_sizes)
  have small: "n * sizeof_link < SIZE_MOD" if "(sizeof_link * n) mod SIZE_MOD div sizeof_link = n"
  proof (rule ccontr)
    assume "\<not> n * sizeof_link < SIZE_MOD"
    then have "(sizeof_link * n) mod SIZE_MOD < sizeof_link * n"
      using mod_less_divisor [of SIZE_MOD "sizeof_link * n"] by (simp add: mult.commute)
    then have "(sizeof_link * n) mod SIZE_MOD div sizeof_link < n"
      using less_mult_imp_div_less [of "(sizeof_link * n) mod SIZE_MOD" n sizeof_link] by (simp add: mult.commute)
    with that show False by simp
  qed
  have eq: "lh_rebucket mem lh n = lh \<or>
      n * sizeof_link < SIZE_MOD \<and> lh_rebucket mem lh n = lh\<lparr>num_buckets := n, buckets := bs\<rparr>"
    using small by (simp add: lh_rebucket_def bs_def Let_def)
  define lh' where "lh' = lh\<lparr>num_buckets := n, buckets := bs\<rparr>"
  have f: "same lh' = same lh" "items lh' = items lh" "frame lh' = frame lh" "num_items lh' = num_items lh"
    "num_buckets lh' = n" "buckets lh' = bs" "hash_fn lh' = hash_fn lh" "comp_fn lh' = comp_fn lh"
    using bs by (auto simp: lh'_def same_def items_def frame_def intro!: ext)
  then have "n * sizeof_link < SIZE_MOD \<Longrightarrow> lh_ok lh'"
    using ok bs n unfolding lh_ok_placed by simp
  with eq ok f have "lh_ok (lh_rebucket mem lh n) \<and> items (lh_rebucket mem lh n) = items lh \<and>
      num_items (lh_rebucket mem lh n) = num_items lh \<and> frame (lh_rebucket mem lh n) = frame lh"
    unfolding lh'_def [symmetric] by metis
  then show "lh_ok (lh_rebucket mem lh n)" "items (lh_rebucket mem lh n) = items lh"
    "num_items (lh_rebucket mem lh n) = num_items lh" "frame (lh_rebucket mem lh n) = frame lh"
    by simp_all
qed

lemma lh_maybe_resize_ok:
  assumes "lh_ok lh"
  shows "lh_ok (lh_maybe_resize mem lh)" "items (lh_maybe_resize mem lh) = items lh"
    "num_items (lh_maybe_resize mem lh) = num_items lh" "frame (lh_maybe_resize mem lh) = frame lh"
proof -
  have up: "kMinNumBuckets \<le> (num_buckets lh * 2) mod SIZE_MOD" if "(num_buckets lh * 2) mod SIZE_MOD > num_buckets lh"
    using that assms by (simp add: lh_ok_def)
  obtain n where "lh_maybe_resize mem lh = lh \<or> kMinNumBuckets \<le> n \<and> lh_maybe_resize mem lh = lh_rebucket mem lh n"
    unfolding lh_maybe_resize_def Let_def using up by (smt (verit) order_refl linorder_not_less)
  then show "lh_ok (lh_maybe_resize mem lh)" "items (lh_maybe_resize mem lh) = items lh"
    "num_items (lh_maybe_resize mem lh) = num_items lh" "frame (lh_maybe_resize mem lh) = frame lh"
    using lh_rebucket_ok [OF assms] assms by auto
qed

lemma contents_resize [simp]: "lh_ok lh \<Longrightarrow> contents (lh_maybe_resize mem lh) = contents lh"
  by (simp add: contents_def lh_maybe_resize_ok)

lemma frame_same: "frame lh = frame lh' \<Longrightarrow> same lh = same lh'"
  by (intro ext) (simp add: frame_def same_def)

section \<open>Inserting and deleting\<close>

lemma lh_search:
  assumes ok: "lh_ok lh" and s: "get_next_ptr_and_hash lh x = ((b, k), h)"
  shows "b < length (buckets lh)" "h = hash_fn lh x" "b = unat h mod num_buckets lh"
    "deref lh (b, k) = Some it \<Longrightarrow> k < length (buckets lh ! b) \<and> it = buckets lh ! b ! k"
    "deref lh (b, k) = Some it \<longleftrightarrow> it \<in># items lh \<and> same lh (item_data it) x"
proof -
  have b: "h = hash_fn lh x" "b = unat h mod num_buckets lh"
    using s by (auto simp: get_next_ptr_and_hash_def next_ptr_def Let_def)
  then show "b < length (buckets lh)" "h = hash_fn lh x" "b = unat h mod num_buckets lh"
    using lh_ok_bucket [OF ok] by simp_all
  show "deref lh (b, k) = Some it \<Longrightarrow> k < length (buckets lh ! b) \<and> it = buckets lh ! b ! k"
    by (simp add: deref_def split: if_splits)
  show "deref lh (b, k) = Some it \<longleftrightarrow> it \<in># items lh \<and> same lh (item_data it) x"
    using lh_find [OF ok, of x it] s by simp
qed

lemma same_equiv:
  "lh_ok lh \<Longrightarrow> same lh x x"
  "lh_ok lh \<Longrightarrow> same lh x y \<Longrightarrow> same lh y x"
  "lh_ok lh \<Longrightarrow> same lh x y \<Longrightarrow> same lh y z \<Longrightarrow> same lh x z"
  "lh_ok lh \<Longrightarrow> same lh x y \<Longrightarrow> hash_fn lh x = hash_fn lh y"
  unfolding lh_ok_def lh_functions_def same_def
  by (auto dest: equivp_reflp equivp_symp equivp_transp)

text \<open>Removing the match of a value, and adding a value that matches nothing, keep the invariant.\<close>

lemma at_most_one_add:
  assumes "\<And>x. size (filter_mset (\<lambda>it. R (item_data it) x) M) \<le> 1"
    and "\<And>jt x. jt \<in># M \<Longrightarrow> R (item_data it) x \<Longrightarrow> \<not> R (item_data jt) x"
  shows "size (filter_mset (\<lambda>it. R (item_data it) x) (add_mset it M)) \<le> 1"
proof (cases "R (item_data it) x")
  case True
  then have "filter_mset (\<lambda>it. R (item_data it) x) M = {#}"
    using assms(2) by (metis (mono_tags, lifting) filter_mset_False filter_mset_cong)
  then show ?thesis using True by (simp del: filter_mset_eq_mempty_iff)
next
  case False
  then show ?thesis using assms(1) by simp
qed

lemma at_most_one_sub:
  "size (filter_mset P (add_mset it M)) \<le> 1 \<Longrightarrow> size (filter_mset P M) \<le> (1::nat)"
  by (cases "P it") (simp_all del: filter_mset_eq_mempty_iff)

lemma lh_ok_found:
  fixes lh :: "'a lhash"
  assumes ok: "lh_ok lh" and it: "it \<in># items lh" "same lh (item_data it) x"
    and jt: "jt \<in># items lh - {#it#}" and same: "same lh x z"
  shows "\<not> same lh (item_data jt) z"
proof
  assume "same lh (item_data jt) z"
  then have js: "same lh (item_data jt) x"
    using same same_equiv [OF ok] by blast
  define N where "N = items lh - {#it#}"
  define P where "P = (\<lambda>it :: 'a lhash_item. same lh (item_data it) x)"
  have N: "items lh = add_mset it N"
    using it by (simp add: N_def)
  have "jt \<in># filter_mset P N"
    using jt js unfolding N_def P_def set_mset_filter by blast
  then have "size (filter_mset P N) \<noteq> 0"
    by (metis empty_iff set_mset_empty size_eq_0_iff_empty)
  moreover have "size (filter_mset P (items lh)) = Suc (size (filter_mset P N))"
    using it by (simp add: N P_def)
  moreover have "size (filter_mset P (items lh)) \<le> 1"
    using ok unfolding lh_ok_placed P_def by blast
  ultimately show False
    by linarith
qed

text \<open>A call that changes one bucket and accounts for the items.\<close>

lemma lh_ok_step:
  assumes ok: "lh_ok lh" and b: "b < length (buckets lh)"
    and ys: "\<And>it. it \<in> set ys \<Longrightarrow> item_hash it = hash_fn lh (item_data it) \<and> unat (item_hash it) mod num_buckets lh = b"
    and n: "n = size (mset (concat ((buckets lh)[b := ys])))"
    and one: "\<And>x. size (filter_mset (\<lambda>it. same lh (item_data it) x) (mset (concat ((buckets lh)[b := ys])))) \<le> 1"
  shows "lh_ok (lh\<lparr>buckets := (buckets lh)[b := ys], num_items := n\<rparr>)"
proof -
  define lh' where "lh' = lh\<lparr>buckets := (buckets lh)[b := ys], num_items := n\<rparr>"
  have f: "same lh' = same lh" "items lh' = mset (concat ((buckets lh)[b := ys]))" "num_items lh' = n"
    "num_buckets lh' = num_buckets lh" "buckets lh' = (buckets lh)[b := ys]" "hash_fn lh' = hash_fn lh" "comp_fn lh' = comp_fn lh"
    by (auto simp: lh'_def same_def items_def intro!: ext)
  have "placed (hash_fn lh) (num_buckets lh) ((buckets lh)[b := ys])"
    using ok ys unfolding lh_ok_placed by (intro placed_update) blast+
  then show ?thesis
    using ok n one unfolding lh'_def [symmetric] lh_ok_placed f by simp
qed

text \<open>What an insertion does: replace the match, fail, or add an item.\<close>

definition lh_with :: "'a lhash \<Rightarrow> 'a lhash_item multiset \<Rightarrow> 'a lhash \<Rightarrow> bool" where
  "lh_with lh M lh' \<longleftrightarrow> lh_ok lh' \<and> items lh' = M \<and> frame lh' = frame lh"

lemma lh_with_resize: "lh_with lh M lh' \<Longrightarrow> lh_with lh M (lh_maybe_resize mem lh')"
  by (simp add: lh_with_def lh_maybe_resize_ok)

lemma lh_insert_replaces:
  assumes ok: "lh_ok lh" and it: "it \<in># items lh" "same lh (item_data it) x"
  obtains lh' where "lh_insert mem lh x = ((True, Some (item_data it)), lh')"
    "lh_with lh (add_mset (it\<lparr>item_data := x\<rparr>) (items lh - {#it#})) lh'"
proof -
  obtain b k h where s: "get_next_ptr_and_hash lh x = ((b, k), h)"
    by (metis surj_pair)
  note S = lh_search [OF ok s]
  have d: "deref lh (b, k) = Some it"
    using S(5) it by blast
  define c where "c = buckets lh ! b"
  have k: "k < length c" "it = c ! k" "it \<in> set c"
    using S(4) [OF d] by (auto simp: c_def)
  define M where "M = mset (concat ((buckets lh)[b := take k c @ drop (Suc k) c]))"
  define ys where "ys = c[k := it\<lparr>item_data := x\<rparr>]"
  have M: "items lh = add_mset it M" "mset (concat ((buckets lh)[b := ys])) = add_mset (it\<lparr>item_data := x\<rparr>) M"
    using mset_concat_remove [OF S(1)] mset_concat_replace [OF S(1)] k
    by (simp_all add: items_def M_def ys_def c_def)
  have h: "item_hash it = hash_fn lh (item_data it)" "unat (item_hash it) mod num_buckets lh = b"
    using lh_ok_hash [OF ok S(1), of it] k by (auto simp: c_def)
  have "lh_ok (lh\<lparr>buckets := (buckets lh)[b := ys], num_items := num_items lh\<rparr>)"
  proof (rule lh_ok_step [OF ok S(1)])
    fix jt assume "jt \<in> set ys"
    then have "jt = it\<lparr>item_data := x\<rparr> \<or> jt \<in> set c"
      unfolding ys_def by (meson insertE set_update_subset_insert subsetD)
    then show "item_hash jt = hash_fn lh (item_data jt) \<and> unat (item_hash jt) mod num_buckets lh = b"
      using h same_equiv(4) [OF ok it(2)] lh_ok_hash [OF ok S(1), of jt] by (auto simp: c_def)
  next
    show "num_items lh = size (mset (concat ((buckets lh)[b := ys])))"
      unfolding M using ok by (simp add: lh_ok_placed M)
  next
    fix z
    show "size (filter_mset (\<lambda>it. same lh (item_data it) z) (mset (concat ((buckets lh)[b := ys])))) \<le> 1"
      unfolding M
    proof (rule at_most_one_add [where R = "same lh"])
      show "size (filter_mset (\<lambda>it. same lh (item_data it) w) M) \<le> 1" for w
        using ok unfolding lh_ok_placed M(1) by (metis at_most_one_sub)
      show "\<not> same lh (item_data jt) w" if "jt \<in># M" "same lh (item_data (it\<lparr>item_data := x\<rparr>)) w" for jt w
        using lh_ok_found [OF ok it, of jt w] that unfolding M(1) by simp
    qed
  qed
  moreover have "lh_insert mem lh x = ((True, Some (item_data it)), lh\<lparr>buckets := (buckets lh)[b := ys], num_items := num_items lh\<rparr>)"
    by (simp add: lh_insert_def s d ys_def c_def)
  ultimately show ?thesis
    using M by (intro that) (auto simp: lh_with_def frame_def items_def)
qed

lemma lh_insert_adds:
  assumes ok: "lh_ok lh" and no: "\<And>it. it \<in># items lh \<Longrightarrow> \<not> same lh (item_data it) x" and mem: "mem sizeof_LHASH_ITEM"
  obtains lh' where "lh_insert mem lh x = ((True, None), lh')"
    "lh_with lh (add_mset \<lparr>item_data = x, item_hash = hash_fn lh x\<rparr> (items lh)) lh'"
proof -
  obtain b k h where s: "get_next_ptr_and_hash lh x = ((b, k), h)"
    by (metis surj_pair)
  note S = lh_search [OF ok s]
  have d: "deref lh (b, k) = None"
    using S(5) no by (metis not_None_eq)
  define it where "it = \<lparr>item_data = x, item_hash = hash_fn lh x\<rparr>"
  define bs where "bs = (buckets lh)[b := buckets lh ! b @ [it]]"
  have M: "mset (concat bs) = add_mset it (items lh)"
    using mset_concat_append [OF S(1)] by (simp add: bs_def items_def)
  have "lh_ok (lh\<lparr>buckets := bs, num_items := num_items lh + 1\<rparr>)"
    unfolding bs_def
  proof (rule lh_ok_step [OF ok S(1)])
    fix jt assume "jt \<in> set (buckets lh ! b @ [it])"
    then consider "jt = it" | "jt \<in> set (buckets lh ! b)"
      by auto
    then show "item_hash jt = hash_fn lh (item_data jt) \<and> unat (item_hash jt) mod num_buckets lh = b"
      by (cases, use S(2,3) in \<open>simp add: it_def\<close>, rule lh_ok_hash [OF ok S(1)])
  next
    show "num_items lh + 1 = size (mset (concat ((buckets lh)[b := buckets lh ! b @ [it]])))"
      unfolding bs_def [symmetric] M using ok by (simp add: lh_ok_placed)
  next
    fix z
    show "size (filter_mset (\<lambda>it. same lh (item_data it) z) (mset (concat ((buckets lh)[b := buckets lh ! b @ [it]])))) \<le> 1"
      unfolding bs_def [symmetric] M
    proof (rule at_most_one_add [where R = "same lh"])
      show "size (filter_mset (\<lambda>it. same lh (item_data it) w) (items lh)) \<le> 1" for w
        using ok unfolding lh_ok_placed by blast
      show "\<not> same lh (item_data jt) w" if "jt \<in># items lh" "same lh (item_data it) w" for jt w
        using that no [of jt] same_equiv(2,3) [OF ok] unfolding it_def by (metis lhash_item.select_convs(1))
    qed
  qed
  then have "lh_with lh (add_mset it (items lh)) (lh\<lparr>buckets := bs, num_items := num_items lh + 1\<rparr>)"
    using M by (simp add: lh_with_def frame_def items_def)
  moreover have "lh_insert mem lh x = ((True, None), lh_maybe_resize mem (lh\<lparr>buckets := bs, num_items := num_items lh + 1\<rparr>))"
    using mem S(2) by (simp add: lh_insert_def s d bs_def it_def)
  ultimately show ?thesis
    using that lh_with_resize unfolding it_def by metis
qed

lemma lh_insert_fails:
  assumes ok: "lh_ok lh" and no: "\<And>it. it \<in># items lh \<Longrightarrow> \<not> same lh (item_data it) x" and mem: "\<not> mem sizeof_LHASH_ITEM"
  shows "lh_insert mem lh x = ((False, None), lh)"
proof -
  obtain b k h where s: "get_next_ptr_and_hash lh x = ((b, k), h)"
    by (metis surj_pair)
  have "deref lh (b, k) = None"
    using lh_search(5) [OF ok s] no by (metis not_None_eq)
  then show ?thesis
    using mem by (simp add: lh_insert_def s)
qed

lemma lh_delete_misses:
  assumes ok: "lh_ok lh" and no: "\<And>it. it \<in># items lh \<Longrightarrow> \<not> same lh (item_data it) x"
  shows "lh_delete mem lh x = (None, lh)"
proof -
  obtain b k h where s: "get_next_ptr_and_hash lh x = ((b, k), h)"
    by (metis surj_pair)
  have "deref lh (b, k) = None"
    using lh_search(5) [OF ok s] no by (metis not_None_eq)
  then show ?thesis
    by (simp add: lh_delete_def s)
qed

lemma lh_delete_removes:
  assumes ok: "lh_ok lh" and it: "it \<in># items lh" "same lh (item_data it) x"
  obtains lh' where "lh_delete mem lh x = (Some (item_data it), lh')" "lh_with lh (items lh - {#it#}) lh'"
proof -
  obtain b k h where s: "get_next_ptr_and_hash lh x = ((b, k), h)"
    by (metis surj_pair)
  note S = lh_search [OF ok s]
  have d: "deref lh (b, k) = Some it"
    using S(5) it by blast
  define c where "c = buckets lh ! b"
  have k: "k < length c" "it = c ! k"
    using S(4) [OF d] by (auto simp: c_def)
  define bs where "bs = (buckets lh)[b := take k c @ drop (Suc k) c]"
  have M: "items lh = add_mset it (mset (concat bs))"
    using mset_concat_remove [OF S(1)] k by (simp add: items_def bs_def c_def)
  have "lh_ok (lh\<lparr>buckets := bs, num_items := num_items lh - 1\<rparr>)"
    unfolding bs_def
  proof (rule lh_ok_step [OF ok S(1)])
    fix jt assume "jt \<in> set (take k c @ drop (Suc k) c)"
    then have "jt \<in> set (buckets lh ! b)"
      unfolding c_def by (auto dest: in_set_takeD in_set_dropD)
    then show "item_hash jt = hash_fn lh (item_data jt) \<and> unat (item_hash jt) mod num_buckets lh = b"
      by (rule lh_ok_hash [OF ok S(1)])
  next
    show "num_items lh - 1 = size (mset (concat ((buckets lh)[b := take k c @ drop (Suc k) c])))"
      unfolding bs_def [symmetric] using ok M unfolding lh_ok_placed by simp
  next
    fix z
    show "size (filter_mset (\<lambda>it. same lh (item_data it) z) (mset (concat ((buckets lh)[b := take k c @ drop (Suc k) c])))) \<le> 1"
      unfolding bs_def [symmetric] using ok unfolding lh_ok_placed M by (metis at_most_one_sub)
  qed
  then have "lh_with lh (items lh - {#it#}) (lh\<lparr>buckets := bs, num_items := num_items lh - 1\<rparr>)"
    using M by (simp add: lh_with_def frame_def items_def)
  moreover have "lh_delete mem lh x = (Some (item_data it), lh_maybe_resize mem (lh\<lparr>buckets := bs, num_items := num_items lh - 1\<rparr>))"
    using s d by (simp add: lh_delete_def bs_def c_def Let_def)
  ultimately show ?thesis
    using that lh_with_resize by metis
qed

section \<open>The table as a finite map\<close>

lemma lh_with_ok: "lh_with lh M lh' \<Longrightarrow> lh_ok lh'"
  by (simp add: lh_with_def)

lemma lh_with_retrieve:
  "lh_with lh M lh' \<Longrightarrow> lh_retrieve lh' x = Some y \<longleftrightarrow> (\<exists>it. it \<in># M \<and> item_data it = y) \<and> same lh y x"
  by (subst lh_retrieve_iff) (auto simp: lh_with_def contents_def dest: frame_same)

lemma lh_retrieve_item:
  assumes ok: "lh_ok lh" and y: "lh_retrieve lh x = Some y"
  obtains it where "it \<in># items lh" "item_data it = y" "same lh (item_data it) x"
  using y by (auto simp: lh_retrieve_iff [OF ok] contents_def)

lemma lh_retrieve_no_item:
  "lh_ok lh \<Longrightarrow> lh_retrieve lh x = None \<Longrightarrow> it \<in># items lh \<Longrightarrow> \<not> same lh (item_data it) x"
  by (auto simp: lh_retrieve_none contents_def)

lemma option_eq_SomeI: "(\<And>y. a = Some y \<longleftrightarrow> b = Some y) \<Longrightarrow> a = b"
  by (cases b; cases a) auto

lemma lh_rest_items:
  assumes ok: "lh_ok lh" and it: "it \<in># items lh" "same lh (item_data it) x"
  shows "jt \<in># items lh - {#it#} \<and> same lh (item_data jt) z \<longleftrightarrow>
    \<not> same lh x z \<and> jt \<in># items lh \<and> same lh (item_data jt) z"
proof (cases "same lh x z")
  case True
  then show ?thesis
    using lh_ok_found [OF ok it] by blast
next
  case False
  then have "same lh (item_data jt) z \<Longrightarrow> jt \<noteq> it"
    using it same_equiv [OF ok] by metis
  then show ?thesis
    using False by (metis in_diffD in_diff_count insert_DiffM insert_noteq_member it(1))
qed

lemma lh_insert_spec:
  assumes ok: "lh_ok lh" and i: "lh_insert mem lh x = ((done, old), lh')"
  shows "lh_ok lh' \<and> frame lh' = frame lh \<and> old = lh_retrieve lh x \<and>
    (done \<longrightarrow> (\<forall>z. lh_retrieve lh' z = (if same lh x z then Some x else lh_retrieve lh z)) \<and>
       lh_num_items lh' = lh_num_items lh + (if old = None then 1 else 0)) \<and>
    (\<not> done \<longrightarrow> lh' = lh \<and> old = None)"
proof (cases "lh_retrieve lh x")
  case (Some y)
  then obtain it where it: "it \<in># items lh" "item_data it = y" "same lh (item_data it) x"
    by (rule lh_retrieve_item [OF ok])
  then have w: "done" "old = Some y" "lh_with lh (add_mset (it\<lparr>item_data := x\<rparr>) (items lh - {#it#})) lh'"
    using lh_insert_replaces [OF ok it(1,3), of mem] i by (metis prod.inject)+
  have "lh_retrieve lh' z = (if same lh x z then Some x else lh_retrieve lh z)" for z
  proof (rule option_eq_SomeI)
    fix u
    note rest = lh_rest_items [OF ok it(1,3), of _ z]
    show "lh_retrieve lh' z = Some u \<longleftrightarrow> (if same lh x z then Some x else lh_retrieve lh z) = Some u"
      unfolding lh_with_retrieve [OF w(3)] using rest
      by (auto simp: lh_retrieve_iff [OF ok] contents_def)
  qed
  moreover have "lh_num_items lh' = lh_num_items lh"
    using w(3) ok it(1) unfolding lh_num_items_def lh_with_def lh_ok_placed
    by (metis insert_DiffM size_add_mset)
  ultimately show ?thesis
    using w Some by (simp add: lh_with_def)
next
  case None
  note no = lh_retrieve_no_item [OF ok None]
  show ?thesis
  proof (cases "mem sizeof_LHASH_ITEM")
    case True
    have w: "done" "old = None" "lh_with lh (add_mset \<lparr>item_data = x, item_hash = hash_fn lh x\<rparr> (items lh)) lh'"
      using lh_insert_adds [OF ok no, of mem] True i by (metis prod.inject)+
    have "lh_retrieve lh' z = (if same lh x z then Some x else lh_retrieve lh z)" for z
    proof (rule option_eq_SomeI)
      fix u
      have "\<not> same lh (item_data jt) z" if "same lh x z" "jt \<in># items lh" for jt
        using that no same_equiv [OF ok] by metis
      then show "lh_retrieve lh' z = Some u \<longleftrightarrow> (if same lh x z then Some x else lh_retrieve lh z) = Some u"
        unfolding lh_with_retrieve [OF w(3)] by (auto simp: lh_retrieve_iff [OF ok] contents_def)
    qed
    moreover have "lh_num_items lh' = Suc (lh_num_items lh)"
      using w(3) ok by (simp add: lh_num_items_def lh_with_def lh_ok_placed)
    ultimately show ?thesis
      using w None by (simp add: lh_with_def)
  next
    case False
    then show ?thesis
      using lh_insert_fails [OF ok no, of mem] i None ok by auto
  qed
qed

lemma lh_delete_spec:
  assumes ok: "lh_ok lh" and d: "lh_delete mem lh x = (old, lh')"
  shows "lh_ok lh' \<and> frame lh' = frame lh \<and> old = lh_retrieve lh x \<and>
    (\<forall>z. lh_retrieve lh' z = (if same lh x z then None else lh_retrieve lh z)) \<and>
    lh_num_items lh' = lh_num_items lh - (if old = None then 0 else 1)"
proof (cases "lh_retrieve lh x")
  case (Some y)
  then obtain it where it: "it \<in># items lh" "item_data it = y" "same lh (item_data it) x"
    by (rule lh_retrieve_item [OF ok])
  then have w: "old = Some y" "lh_with lh (items lh - {#it#}) lh'"
    using lh_delete_removes [OF ok it(1,3), of mem] d by (metis prod.inject)+
  have "lh_retrieve lh' z = (if same lh x z then None else lh_retrieve lh z)" for z
  proof (rule option_eq_SomeI)
    fix u
    note rest = lh_rest_items [OF ok it(1,3), of _ z]
    show "lh_retrieve lh' z = Some u \<longleftrightarrow> (if same lh x z then None else lh_retrieve lh z) = Some u"
      unfolding lh_with_retrieve [OF w(2)] using rest
      by (auto simp: lh_retrieve_iff [OF ok] contents_def)
  qed
  moreover have "lh_num_items lh' = lh_num_items lh - 1"
    using w(2) ok it(1) unfolding lh_num_items_def lh_with_def lh_ok_placed by (simp add: size_Diff_singleton)
  ultimately show ?thesis
    using w Some by (simp add: lh_with_def)
next
  case None
  have u: "old = None" "lh' = lh"
    using lh_delete_misses [OF ok lh_retrieve_no_item [OF ok None], of mem] d by auto
  have "lh_retrieve lh z = None" if "same lh x z" for z
    using that None same_equiv [OF ok] unfolding lh_retrieve_none [OF ok] by metis
  with u None ok show ?thesis
    by simp
qed

section \<open>The abstract table\<close>

text \<open>
  The machine a caller has in mind: a finite map from the classes of the comparison to the value
  last stored there. An insertion needs memory only for a class that is not there yet.
\<close>

record 'a table =
  t_cmp :: "'a \<Rightarrow> 'a \<Rightarrow> int"
  t_find :: "'a \<Rightarrow> 'a option"
  t_size :: nat

datatype 'a table_op =
    Insert "nat \<Rightarrow> bool" 'a
  | Delete "nat \<Rightarrow> bool" 'a
  | Retrieve 'a
  | Count
  | Visit "nat \<Rightarrow> bool"

datatype 'a table_result =
    Inserted bool "'a option"
  | Deleted "'a option"
  | Retrieved "'a option"
  | Counted nat
  | Visited "'a multiset"

fun table_step :: "'a table_op \<Rightarrow> 'a table \<Rightarrow> 'a table_result \<times> 'a table" where
  "table_step (Insert mem x) t =
     (if t_find t x = None \<and> \<not> mem sizeof_LHASH_ITEM then (Inserted False None, t)
      else (Inserted True (t_find t x),
        t\<lparr>t_find := \<lambda>z. if t_cmp t x z = 0 then Some x else t_find t z,
          t_size := t_size t + (if t_find t x = None then 1 else 0)\<rparr>))"
| "table_step (Delete mem x) t =
     (Deleted (t_find t x),
      t\<lparr>t_find := \<lambda>z. if t_cmp t x z = 0 then None else t_find t z,
        t_size := t_size t - (if t_find t x = None then 0 else 1)\<rparr>)"
| "table_step (Retrieve x) t = (Retrieved (t_find t x), t)"
| "table_step Count t = (Counted (t_size t), t)"
| "table_step (Visit mem) t = (Visited (mset_set (ran (t_find t))), t)"

fun lh_step :: "'a table_op \<Rightarrow> 'a lhash \<Rightarrow> 'a table_result \<times> 'a lhash" where
  "lh_step (Insert mem x) lh = (case lh_insert mem lh x of ((done, old), lh) \<Rightarrow> (Inserted done old, lh))"
| "lh_step (Delete mem x) lh = (case lh_delete mem lh x of (old, lh) \<Rightarrow> (Deleted old, lh))"
| "lh_step (Retrieve x) lh = (Retrieved (lh_retrieve lh x), lh)"
| "lh_step Count lh = (Counted (lh_num_items lh), lh)"
| "lh_step (Visit mem) lh =
     (case lh_doall_arg mem (Some lh) add_mset {#} of (visited, lh') \<Rightarrow> (Visited visited, the lh'))"

definition lh_table :: "'a lhash \<Rightarrow> 'a table" where
  "lh_table lh = \<lparr>t_cmp = comp_fn lh, t_find = lh_retrieve lh, t_size = lh_num_items lh\<rparr>"

lemma depth_irrelevant [simp]:
  "lh_ok (lh\<lparr>callback_depth := d\<rparr>) = lh_ok lh" "items (lh\<lparr>callback_depth := d\<rparr>) = items lh"
proof -
  show i: "items (lh\<lparr>callback_depth := d\<rparr>) = items lh"
    by (simp add: items_def)
  have "same (lh\<lparr>callback_depth := d\<rparr>) = same lh"
    by (intro ext) (simp add: same_def)
  then show "lh_ok (lh\<lparr>callback_depth := d\<rparr>) = lh_ok lh"
    by (simp add: lh_ok_placed i)
qed

lemma lh_doall_visits:
  assumes "lh_ok lh"
  shows "fst (lh_doall_arg mem (Some lh) func arg) = foldl (\<lambda>arg it. func (item_data it) arg) arg (concat (buckets lh))"
proof -
  have "foldl (\<lambda>a c. foldl g a c) arg cs = foldl g arg (concat cs)" for g :: "'b \<Rightarrow> 'c \<Rightarrow> 'b" and arg cs
    by (induction cs arbitrary: arg) simp_all
  then show ?thesis
    by (simp add: lh_doall_arg_def Let_def)
qed

lemma lh_doall_keeps:
  assumes "lh_ok lh"
  obtains lh' where "snd (lh_doall_arg mem (Some lh) func arg) = Some lh'" "lh_ok lh'" "items lh' = items lh"
    "num_items lh' = num_items lh" "comp_fn lh' = comp_fn lh" "hash_fn lh' = hash_fn lh"
proof -
  obtain d where d: "snd (lh_doall_arg mem (Some lh) func arg) = Some (lh_maybe_resize mem (lh\<lparr>callback_depth := d\<rparr>))"
  proof (cases "callback_depth lh < UINT_MAX")
    case True
    then show ?thesis
      by (cases "callback_depth lh + 1 < UINT_MAX")
        (use that [of "callback_depth lh"] that [of "callback_depth lh + 1"] in \<open>simp_all add: lh_doall_arg_def Let_def\<close>)
  next
    case False
    then show ?thesis
      using that [of "callback_depth lh"] by (simp add: lh_doall_arg_def Let_def)
  qed
  have "lh_ok (lh\<lparr>callback_depth := d\<rparr>)"
    using assms by simp
  from lh_maybe_resize_ok [OF this, of mem] d that show ?thesis
    by (auto simp: frame_def)
qed

lemma count_image_mset_filter: "count (image_mset f M) y = size {#x \<in># M. y = f x#}"
  by (induction M) auto

lemma items_distinct:
  assumes ok: "lh_ok lh"
  shows "image_mset item_data (items lh) = mset_set (ran (lh_retrieve lh))"
proof -
  have ran: "ran (lh_retrieve lh) = set_mset (image_mset item_data (items lh))"
    using same_equiv(1) [OF ok] by (force simp: ran_def lh_retrieve_iff [OF ok] contents_def)
  have "count (image_mset item_data (items lh)) y \<le> 1" for y
  proof -
    have "{#it \<in># items lh. y = item_data it#} \<subseteq># {#it \<in># items lh. same lh (item_data it) y#}"
      using same_equiv(1) [OF ok] by (auto simp: subseteq_mset_def)
    then have "size {#it \<in># items lh. y = item_data it#} \<le> size {#it \<in># items lh. same lh (item_data it) y#}"
      by (rule size_mset_mono)
    also have "\<dots> \<le> 1"
      using ok unfolding lh_ok_placed by blast
    finally show ?thesis
      by (simp only: count_image_mset_filter)
  qed
  then show ?thesis
    unfolding ran by (intro multiset_eqI) (metis count_mset_set(1,3) count_eq_zero_iff finite_set_mset le_less_linear less_one order_antisym)
qed

lemma foldl_add_mset: "foldl (\<lambda>M it. add_mset (f it) M) M xs = M + image_mset f (mset xs)"
  by (induction xs arbitrary: M) simp_all

lemma lh_insert_done:
  assumes ok: "lh_ok lh"
  shows "fst (fst (lh_insert mem lh x)) \<longleftrightarrow> lh_retrieve lh x \<noteq> None \<or> mem sizeof_LHASH_ITEM"
proof (cases "lh_retrieve lh x")
  case None
  note no = lh_retrieve_no_item [OF ok None]
  show ?thesis
    using None lh_insert_fails [OF ok no, of mem] lh_insert_adds [OF ok no, of mem] by (cases "mem sizeof_LHASH_ITEM") force+
next
  case (Some y)
  then obtain it where "it \<in># items lh" "item_data it = y" "same lh (item_data it) x"
    by (rule lh_retrieve_item [OF ok])
  then show ?thesis
    using Some lh_insert_replaces [OF ok, of it x mem] by force
qed

interpretation lh_map: refines lh_ok lh_table "\<lambda>_. True" lh_step table_step
proof unfold_locales
  fix lh :: "'a lhash" and op
  assume ok: "lh_ok lh"
  have abs: "lh_table lh' = lh_table lh" if "lh_ok lh'" "items lh' = items lh" "num_items lh' = num_items lh"
      "comp_fn lh' = comp_fn lh" "hash_fn lh' = hash_fn lh" for lh'
  proof -
    have "same lh' = same lh"
      using that by (intro ext) (simp add: same_def)
    then have "lh_retrieve lh' = lh_retrieve lh"
      using that ok by (intro ext option_eq_SomeI) (simp add: lh_retrieve_iff contents_def)
    then show ?thesis
      using that by (simp add: lh_table_def lh_num_items_def)
  qed
  have "lh_ok (snd (lh_step op lh)) \<and> table_step op (lh_table lh) = map_prod id lh_table (lh_step op lh)"
  proof (cases op)
    case (Insert mem x)
    obtain d old lh' where i: "lh_insert mem lh x = ((d, old), lh')"
      by (metis surj_pair)
    have d: "d \<longleftrightarrow> \<not> (lh_retrieve lh x = None \<and> \<not> mem sizeof_LHASH_ITEM)"
      using lh_insert_done [OF ok, of mem x] i by simp
    show ?thesis
      using lh_insert_spec [OF ok i] i Insert d by (cases d) (auto simp: lh_table_def frame_def same_def intro!: ext)
  next
    case (Delete mem x)
    obtain old lh' where d: "lh_delete mem lh x = (old, lh')"
      by (metis surj_pair)
    from lh_delete_spec [OF ok d] d Delete show ?thesis
      by (auto simp: lh_table_def frame_def same_def intro!: ext)
  next
    case (Visit mem)
    obtain lh' where l: "snd (lh_doall_arg mem (Some lh) add_mset {#}) = Some lh'" "lh_ok lh'" "items lh' = items lh"
      "num_items lh' = num_items lh" "comp_fn lh' = comp_fn lh" "hash_fn lh' = hash_fn lh"
      by (rule lh_doall_keeps [OF ok])
    have "fst (lh_doall_arg mem (Some lh) add_mset {#}) = mset_set (ran (lh_retrieve lh))"
      unfolding lh_doall_visits [OF ok] foldl_add_mset items_distinct [OF ok, symmetric] by (simp add: items_def)
    with l have "lh_doall_arg mem (Some lh) add_mset {#} = (mset_set (ran (lh_retrieve lh)), Some lh')"
      by (metis prod.collapse)
    then show ?thesis
      using abs [OF l(2-)] l(2) Visit by (simp add: lh_table_def)
  qed (use ok in \<open>simp_all add: lh_table_def\<close>)
  then show "lh_ok (snd (lh_step op lh))" "table_step op (lh_table lh) = map_prod id lh_table (lh_step op lh)"
    by simp_all
qed

lemma lh_new_ok:
  assumes "lh_functions hash cmp" and "lh_new mem hash cmp = Some lh"
  shows "lh_ok lh" "lh_table lh = \<lparr>t_cmp = cmp, t_find = \<lambda>_. None, t_size = 0\<rparr>" "num_items lh = 0"
    "num_buckets lh = kMinNumBuckets" "callback_depth lh = 0" "hash_fn lh = hash" "comp_fn lh = cmp"
proof -
  have lh: "lh = \<lparr>num_items = 0, buckets = replicate kMinNumBuckets [], num_buckets = kMinNumBuckets,
       callback_depth = 0, comp_fn = cmp, hash_fn = hash\<rparr>"
    using assms(2) by (simp add: lh_new_def split: if_splits)
  then show "num_items lh = 0" "num_buckets lh = kMinNumBuckets" "callback_depth lh = 0" "hash_fn lh = hash" "comp_fn lh = cmp"
    by simp_all
  have e: "items lh = {#}"
    by (simp add: items_def lh)
  then show ok: "lh_ok lh"
    using assms(1) by (simp add: lh_ok_placed lh lh_sizes)
  show "lh_table lh = \<lparr>t_cmp = cmp, t_find = \<lambda>_. None, t_size = 0\<rparr>"
    using ok e by (auto simp: lh_table_def lh_num_items_def lh lh_retrieve_none contents_def)
qed

text \<open>C19: For a comparison that is an equivalence and a hash that respects it, every result of every sequence of insertions, deletions, lookups, counts and traversals on a fresh table, resizes and failed allocations included, is the result of the abstract map; the table reached satisfies the invariant and stands for the map reached.\<close>

theorem lh_refines_map:
  assumes "lh_functions hash cmp" and "lh_new mem hash cmp = Some lh"
  shows "run table_step ops \<lparr>t_cmp = cmp, t_find = \<lambda>_. None, t_size = 0\<rparr> =
      map_prod id lh_table (run lh_step ops lh) \<and> lh_ok (snd (run lh_step ops lh))"
  using lh_map.run_refines [of lh ops] lh_map.good_run [of lh ops] lh_new_ok [OF assms] by simp

lemma lh_functions_mod: "lh_functions (\<lambda>x :: nat. word_of_nat (x mod 5)) (\<lambda>x y. int (x mod 5) - int (y mod 5))"
  unfolding lh_functions_def by (auto intro!: equivpI reflpI sympI transpI)

theorem lh_refines_map_witness:
  "fst (run lh_step [Insert (\<lambda>_. True) 3, Insert (\<lambda>_. False) 8, Insert (\<lambda>_. False) 4, Retrieve 13, Delete (\<lambda>_. True) 3, Count]
      (the (lh_new (\<lambda>_. True) (\<lambda>x :: nat. word_of_nat (x mod 5)) (\<lambda>x y. int (x mod 5) - int (y mod 5))))) =
    [Inserted True None, Inserted True (Some 3), Inserted False None, Retrieved (Some 8), Deleted (Some 8), Counted 0]"
proof -
  obtain lh where lh: "lh_new (\<lambda>_. True) (\<lambda>x :: nat. word_of_nat (x mod 5)) (\<lambda>x y. int (x mod 5) - int (y mod 5)) = Some lh"
    by (simp add: lh_new_def)
  show ?thesis
    using lh_refines_map [OF lh_functions_mod lh, of "[Insert (\<lambda>_. True) 3, Insert (\<lambda>_. False) 8, Insert (\<lambda>_. False) 4, Retrieve 13, Delete (\<lambda>_. True) 3, Count]"]
    unfolding lh by (simp add: map_prod_def split: prod.splits)
qed

section \<open>The load of the table\<close>



lemma lh_rebucket_num_items [simp]: "num_items (lh_rebucket mem lh n) = num_items lh"
  by (simp add: lh_rebucket_def Let_def)


lemma lh_maybe_resize_frame [simp]:
  "num_items (lh_maybe_resize mem lh) = num_items lh" "callback_depth (lh_maybe_resize mem lh) = callback_depth lh"
  by (simp_all add: lh_maybe_resize_def lh_rebucket_def Let_def)












end
