(* ===== verification/Buf.thy ===== *)
theory Buf
  imports Mem
begin

text \<open>
  The allocation functions of \<^verbatim>\<open>crypto/mem.c\<close> and the growing buffer of \<^verbatim>\<open>crypto/buf/buf.c\<close>.
  The C library's \<open>malloc\<close> is a parameter that returns no block or a block of bytes, of the size
  asked for (\<open>malloc_ok\<close>). Accesses to memory are checked: the result \<open>None\<close> of a function
  that touches a block is an access outside it, which C leaves undefined; \<open>Some r\<close> is the
  result \<open>r\<close> of the C function. The lemmas show that the buffer operations stay inside their
  blocks and are the list operations on the contents, for sizes a machine can have, and
  that a size within eight bytes of the range of \<open>size_t\<close> makes \<open>OPENSSL_malloc\<close> write outside.
\<close>

section \<open>Allocation\<close>

record block =
  block_size :: nat
  block_bytes :: bytes

definition OPENSSL_MALLOC_PREFIX :: nat where
  "OPENSSL_MALLOC_PREFIX = 8"

definition OPENSSL_malloc :: "(nat \<Rightarrow> bytes option) \<Rightarrow> nat \<Rightarrow> block option option" where
  "OPENSSL_malloc malloc sz =
     (case malloc ((sz + OPENSSL_MALLOC_PREFIX) mod SIZE_MOD) of
        None \<Rightarrow> Some None
      | Some ptr \<Rightarrow>
          if length ptr < OPENSSL_MALLOC_PREFIX then None
          else Some (Some \<lparr>block_size = sz, block_bytes = drop OPENSSL_MALLOC_PREFIX ptr\<rparr>))"

definition write_block :: "block \<Rightarrow> nat \<Rightarrow> bytes \<Rightarrow> block option" where
  "write_block b off data =
     (if off + length data \<le> length (block_bytes b)
      then Some (b\<lparr>block_bytes := take off (block_bytes b) @ data @ drop (off + length data) (block_bytes b)\<rparr>)
      else None)"

definition OPENSSL_realloc :: "(nat \<Rightarrow> bytes option) \<Rightarrow> block option \<Rightarrow> nat \<Rightarrow> block option option" where
  "OPENSSL_realloc malloc orig_ptr new_size =
     (case orig_ptr of
        None \<Rightarrow> OPENSSL_malloc malloc new_size
      | Some orig \<Rightarrow>
          let old_size = block_size orig in
          case OPENSSL_malloc malloc new_size of
            None \<Rightarrow> None
          | Some None \<Rightarrow> Some None
          | Some (Some ret) \<Rightarrow>
              let to_copy = (if old_size < new_size then old_size else new_size) in
              if length (block_bytes orig) < to_copy then None
              else map_option Some (write_block ret 0 (take to_copy (block_bytes orig))))"

section \<open>The buffer\<close>

record buf_mem =
  bm_length :: nat
  bm_data :: "block option"
  bm_max :: nat

definition sizeof_BUF_MEM :: nat where
  "sizeof_BUF_MEM = 24"

definition BUF_MEM_new :: "(nat \<Rightarrow> bytes option) \<Rightarrow> buf_mem option option" where
  "BUF_MEM_new malloc =
     map_option (map_option (\<lambda>_. \<lparr>bm_length = 0, bm_data = None, bm_max = 0\<rparr>)) (OPENSSL_malloc malloc sizeof_BUF_MEM)"

definition BUF_MEM_reserve :: "(nat \<Rightarrow> bytes option) \<Rightarrow> buf_mem \<Rightarrow> nat \<Rightarrow> (bool \<times> buf_mem) option" where
  "BUF_MEM_reserve malloc b cap =
    (if bm_max b \<ge> cap then Some (True, b)
     else
       let n = (cap + 3) mod SIZE_MOD in
       if n < cap then Some (False, b)
       else
         let n = n div 3; alloc_size = (n * 4) mod SIZE_MOD in
         if alloc_size div 4 \<noteq> n then Some (False, b)
         else case OPENSSL_realloc malloc (bm_data b) alloc_size of
             None \<Rightarrow> None
           | Some None \<Rightarrow> Some (False, b)
           | Some (Some new_buf) \<Rightarrow> Some (True, b\<lparr>bm_data := Some new_buf, bm_max := alloc_size\<rparr>))"

text \<open>Writing into the buffer; a null pointer has no byte to write to.\<close>

definition bm_write :: "buf_mem \<Rightarrow> nat \<Rightarrow> bytes \<Rightarrow> buf_mem option" where
  "bm_write b off data =
     (case bm_data b of None \<Rightarrow> None
      | Some blk \<Rightarrow> map_option (\<lambda>blk. b\<lparr>bm_data := Some blk\<rparr>) (write_block blk off data))"

definition BUF_MEM_grow :: "(nat \<Rightarrow> bytes option) \<Rightarrow> buf_mem \<Rightarrow> nat \<Rightarrow> (nat \<times> buf_mem) option" where
  "BUF_MEM_grow malloc b len =
     (case BUF_MEM_reserve malloc b len of
        None \<Rightarrow> None
      | Some (False, b) \<Rightarrow> Some (0, b)
      | Some (True, b) \<Rightarrow>
          (case (if bm_length b < len then bm_write b (bm_length b) (replicate (len - bm_length b) 0) else Some b) of
             None \<Rightarrow> None
           | Some b \<Rightarrow> Some (len, b\<lparr>bm_length := len\<rparr>)))"

definition BUF_MEM_grow_clean :: "(nat \<Rightarrow> bytes option) \<Rightarrow> buf_mem \<Rightarrow> nat \<Rightarrow> (nat \<times> buf_mem) option" where
  "BUF_MEM_grow_clean malloc b len = BUF_MEM_grow malloc b len"

definition BUF_MEM_append :: "(nat \<Rightarrow> bytes option) \<Rightarrow> buf_mem \<Rightarrow> bytes \<Rightarrow> (bool \<times> buf_mem) option" where
  "BUF_MEM_append malloc b data =
     (let len = length data in
      if len = 0 then Some (True, b)
      else
        let new_len = (bm_length b + len) mod SIZE_MOD in
        if new_len < len then Some (False, b)
        else case BUF_MEM_reserve malloc b new_len of
            None \<Rightarrow> None
          | Some (False, b) \<Rightarrow> Some (False, b)
          | Some (True, b) \<Rightarrow>
              map_option (\<lambda>b. (True, b\<lparr>bm_length := new_len\<rparr>)) (bm_write b (bm_length b) data))"

definition BUF_strdup :: "(nat \<Rightarrow> bool) \<Rightarrow> bytes option \<Rightarrow> bytes option" where
  "BUF_strdup mem str = OPENSSL_strdup mem str"

definition BUF_strnlen :: "bytes \<Rightarrow> nat \<Rightarrow> nat" where
  "BUF_strnlen str max_len = OPENSSL_strnlen str max_len"

definition BUF_strndup :: "(nat \<Rightarrow> bool) \<Rightarrow> bytes option \<Rightarrow> nat \<Rightarrow> bytes option" where
  "BUF_strndup mem str n = OPENSSL_strndup mem str n"

definition BUF_strlcpy :: "bytes \<Rightarrow> bytes \<Rightarrow> nat \<Rightarrow> bytes \<times> nat" where
  "BUF_strlcpy dst src dst_size = OPENSSL_strlcpy dst src dst_size"

definition BUF_strlcat :: "bytes \<Rightarrow> bytes \<Rightarrow> nat \<Rightarrow> bytes \<times> nat" where
  "BUF_strlcat dst src dst_size = OPENSSL_strlcat dst src dst_size"

definition BUF_memdup :: "(nat \<Rightarrow> bool) \<Rightarrow> bytes \<Rightarrow> nat \<Rightarrow> bytes option" where
  "BUF_memdup mem data n = OPENSSL_memdup mem data n"

section \<open>Contract\<close>

definition malloc_ok :: "(nat \<Rightarrow> bytes option) \<Rightarrow> bool" where
  "malloc_ok malloc \<longleftrightarrow> (\<forall>n ptr. malloc n = Some ptr \<longrightarrow> length ptr = n)"

definition block_ok :: "block \<Rightarrow> bool" where
  "block_ok b \<longleftrightarrow> length (block_bytes b) = block_size b"

definition buf_ok :: "buf_mem \<Rightarrow> bool" where
  "buf_ok b \<longleftrightarrow> bm_length b \<le> bm_max b \<and>
     (case bm_data b of None \<Rightarrow> bm_max b = 0 | Some blk \<Rightarrow> block_ok blk \<and> block_size blk = bm_max b)"

definition bm_contents :: "buf_mem \<Rightarrow> bytes" where
  "bm_contents b = (case bm_data b of None \<Rightarrow> [] | Some blk \<Rightarrow> take (bm_length b) (block_bytes blk))"

lemma OPENSSL_malloc_block:
  assumes "malloc_ok malloc" and "sz + 8 < SIZE_MOD"
  obtains "OPENSSL_malloc malloc sz = Some None"
  | ret where "OPENSSL_malloc malloc sz = Some (Some ret)" "block_size ret = sz" "block_ok ret"
proof (cases "malloc ((sz + OPENSSL_MALLOC_PREFIX) mod SIZE_MOD)")
  case (Some ptr)
  have "length ptr = sz + 8"
    using assms Some by (simp add: malloc_ok_def OPENSSL_MALLOC_PREFIX_def)
  then show ?thesis
    using Some that by (simp add: OPENSSL_malloc_def OPENSSL_MALLOC_PREFIX_def block_ok_def)
qed (use that in \<open>simp add: OPENSSL_malloc_def\<close>)

lemma OPENSSL_realloc_block:
  assumes "malloc_ok malloc" and "sz + 8 < SIZE_MOD" and "case orig of None \<Rightarrow> True | Some b \<Rightarrow> block_ok b \<and> block_size b \<le> sz"
  obtains "OPENSSL_realloc malloc orig sz = Some None"
  | ret where "OPENSSL_realloc malloc orig sz = Some (Some ret)" "block_size ret = sz" "block_ok ret"
    "case orig of None \<Rightarrow> True | Some b \<Rightarrow> take (block_size b) (block_bytes ret) = block_bytes b"
proof (cases orig)
  case None
  then show ?thesis
    using that OPENSSL_malloc_block [OF assms(1,2)] by (simp add: OPENSSL_realloc_def) metis
next
  case (Some b)
  from assms(1,2) show ?thesis
  proof (cases rule: OPENSSL_malloc_block)
    case 1
    then show ?thesis
      using that Some by (simp add: OPENSSL_realloc_def Let_def)
  next
    case (2 ret)
    define ret' where "ret' = ret\<lparr>block_bytes := block_bytes b @ drop (block_size b) (block_bytes ret)\<rparr>"
    have b: "block_ok b" "block_size b \<le> sz"
      using assms(3) Some by simp_all
    then have "OPENSSL_realloc malloc orig sz = Some (Some ret')"
      using 2 by (auto simp: OPENSSL_realloc_def Some write_block_def block_ok_def ret'_def Let_def)
    then show ?thesis
      using that 2 b by (simp add: Some block_ok_def ret'_def)
  qed
qed

text \<open>Reserving capacity: refused or granted, it leaves the contents alone.\<close>

lemma BUF_MEM_reserve_ok:
  assumes m: "malloc_ok malloc" and b: "buf_ok b" and cap: "cap \<le> 2 ^ 62"
  obtains "BUF_MEM_reserve malloc b cap = Some (False, b)"
  | b' where "BUF_MEM_reserve malloc b cap = Some (True, b')" "buf_ok b'" "cap \<le> bm_max b'"
    "bm_contents b' = bm_contents b" "bm_length b' = bm_length b"
proof (cases "cap \<le> bm_max b")
  case True
  then show ?thesis
    using that b by (simp add: BUF_MEM_reserve_def)
next
  case False
  define n where "n = (cap + 3) div 3 * 4"
  have n: "(cap + 3) mod SIZE_MOD = cap + 3" "n mod SIZE_MOD = n" "n + 8 < SIZE_MOD" "cap \<le> n" "n div 4 = (cap + 3) div 3"
    using cap by (auto simp: n_def)
  have "case bm_data b of None \<Rightarrow> True | Some blk \<Rightarrow> block_ok blk \<and> block_size blk \<le> n"
    using b False n(4) by (auto simp: buf_ok_def split: option.splits)
  with m n(3) show ?thesis
  proof (cases rule: OPENSSL_realloc_block)
    case 1
    then show ?thesis
      using that False n by (simp add: BUF_MEM_reserve_def Let_def n_def [symmetric])
  next
    case (2 ret)
    define b' where "b' = b\<lparr>bm_data := Some ret, bm_max := n\<rparr>"
    have "BUF_MEM_reserve malloc b cap = Some (True, b')"
      using 2 False n by (simp add: BUF_MEM_reserve_def Let_def n_def [symmetric] b'_def)
    moreover have "buf_ok b'"
      using b False 2 n(4) by (auto simp: buf_ok_def b'_def)
    moreover have "bm_contents b' = bm_contents b"
    proof (cases "bm_data b")
      case None
      then show ?thesis using b by (simp add: bm_contents_def b'_def buf_ok_def)
    next
      case (Some blk)
      then have "take (bm_length b) (block_bytes ret) = take (bm_length b) (take (block_size blk) (block_bytes ret))"
        using b by (simp add: buf_ok_def min_absorb1)
      also have "take (block_size blk) (block_bytes ret) = block_bytes blk"
        using 2 Some by simp
      finally show ?thesis using Some by (simp add: bm_contents_def b'_def)
    qed
    ultimately show ?thesis
      using that n by (simp add: b'_def)
  qed
qed

lemma bm_write_ok:
  assumes "buf_ok b" and "bm_length b + length data \<le> bm_max b" and "data \<noteq> []"
  obtains b' where "bm_write b (bm_length b) data = Some b'"
    "buf_ok (b'\<lparr>bm_length := bm_length b + length data\<rparr>)"
    "bm_contents (b'\<lparr>bm_length := bm_length b + length data\<rparr>) = bm_contents b @ data"
  using assms that
  by (cases "bm_data b") (auto simp: bm_write_def write_block_def buf_ok_def bm_contents_def block_ok_def)

lemma bm_contents_shrink:
  "buf_ok b \<Longrightarrow> len \<le> bm_length b \<Longrightarrow> buf_ok (b\<lparr>bm_length := len\<rparr>) \<and> bm_contents (b\<lparr>bm_length := len\<rparr>) = take len (bm_contents b)"
  by (auto simp: buf_ok_def bm_contents_def min_absorb1 split: option.splits)

lemma length_bm_contents: "buf_ok b \<Longrightarrow> length (bm_contents b) = bm_length b"
  by (auto simp: buf_ok_def bm_contents_def block_ok_def split: option.splits)

lemma BUF_MEM_grow_ok:
  assumes m: "malloc_ok malloc" and b: "buf_ok b" and len: "len \<le> 2 ^ 62"
  shows "\<exists>r b'. BUF_MEM_grow malloc b len = Some (r, b') \<and>
      (b' = b \<and> r = 0 \<or> r = len \<and> buf_ok b' \<and>
       bm_contents b' = take len (bm_contents b) @ replicate (len - bm_length b) 0)"
  using m b len
proof (cases rule: BUF_MEM_reserve_ok)
  case 1
  then show ?thesis by (simp add: BUF_MEM_grow_def)
next
  case (2 t)
  show ?thesis
  proof (cases "bm_length b < len")
    case True
    have "bm_length t + length (replicate (len - bm_length b) (0 :: u8)) \<le> bm_max t" "replicate (len - bm_length b) (0 :: u8) \<noteq> []"
      using 2 True by auto
    from bm_write_ok [OF 2(2) this] obtain t' where "bm_write t (bm_length t) (replicate (len - bm_length b) 0) = Some t'"
      "buf_ok (t'\<lparr>bm_length := len\<rparr>)" "bm_contents (t'\<lparr>bm_length := len\<rparr>) = bm_contents t @ replicate (len - bm_length b) 0"
      using 2 True by auto
    then show ?thesis
      using 2 True length_bm_contents [OF b] by (simp add: BUF_MEM_grow_def)
  next
    case False
    then show ?thesis
      using 2 bm_contents_shrink [OF 2(2), of len] by (simp add: BUF_MEM_grow_def)
  qed
qed

lemma BUF_MEM_append_ok:
  assumes m: "malloc_ok malloc" and b: "buf_ok b" and len: "bm_length b + length data \<le> 2 ^ 62"
  shows "\<exists>r b'. BUF_MEM_append malloc b data = Some (r, b') \<and>
      (if r then buf_ok b' \<and> bm_contents b' = bm_contents b @ data else b' = b)"
proof -
  have n: "(bm_length b + length data) mod SIZE_MOD = bm_length b + length data"
    using len by simp
  show ?thesis
  proof (cases "data = []")
    case True
    then show ?thesis using b by (intro exI [of _ True] exI [of _ b]) (simp add: BUF_MEM_append_def)
  next
    case False
    from m b len show ?thesis
    proof (cases rule: BUF_MEM_reserve_ok)
      case 1
      then show ?thesis using n False by (intro exI [of _ False] exI [of _ b]) (simp add: BUF_MEM_append_def Let_def)
    next
      case (2 t)
      from bm_write_ok [OF 2(2), of data] obtain t' where "bm_write t (bm_length t) data = Some t'"
        "buf_ok (t'\<lparr>bm_length := bm_length b + length data\<rparr>)"
        "bm_contents (t'\<lparr>bm_length := bm_length b + length data\<rparr>) = bm_contents b @ data"
        using 2 False by auto
      then show ?thesis
        using 2 n False by (intro exI [of _ True] exI [of _ "t'\<lparr>bm_length := bm_length b + length data\<rparr>"]) (simp add: BUF_MEM_append_def Let_def)
    qed
  qed
qed

text \<open>C21: With a C library allocator and sizes up to two to the 62, growing and appending never touch memory outside their blocks. An append adds the bytes to the contents, a grow cuts the contents or extends them with zeros, and a refused request changes nothing.\<close>

theorem BUF_MEM_is_a_byte_string:
  assumes "malloc_ok malloc" and "buf_ok b"
  shows "(len \<le> 2 ^ 62 \<longrightarrow> (\<exists>r b'. BUF_MEM_grow malloc b len = Some (r, b') \<and>
      (b' = b \<and> r = 0 \<or> r = len \<and> buf_ok b' \<and>
       bm_contents b' = take len (bm_contents b) @ replicate (len - bm_length b) 0))) \<and>
    (bm_length b + length data \<le> 2 ^ 62 \<longrightarrow> (\<exists>r b'. BUF_MEM_append malloc b data = Some (r, b') \<and>
      (if r then buf_ok b' \<and> bm_contents b' = bm_contents b @ data else b' = b)))"
  using BUF_MEM_grow_ok [OF assms] BUF_MEM_append_ok [OF assms] by blast

theorem BUF_MEM_is_a_byte_string_witness:
  "\<exists>r b. BUF_MEM_append (\<lambda>n. Some (replicate n 0)) \<lparr>bm_length = 0, bm_data = None, bm_max = 0\<rparr> [1, 2] = Some (r, b) \<and>
    (r \<longrightarrow> bm_contents b = [1, 2])"
proof -
  have "malloc_ok (\<lambda>n. Some (replicate n 0))" "buf_ok \<lparr>bm_length = 0, bm_data = None, bm_max = 0\<rparr>"
    by (simp_all add: malloc_ok_def buf_ok_def)
  from BUF_MEM_is_a_byte_string [OF this, of 0 "[1, 2]"]
  obtain r b where "BUF_MEM_append (\<lambda>n. Some (replicate n 0)) \<lparr>bm_length = 0, bm_data = None, bm_max = 0\<rparr> [1, 2] = Some (r, b)"
    "r \<longrightarrow> bm_contents b = [1, 2]"
    by (auto simp: bm_contents_def split: if_splits)
  then show ?thesis by blast
qed

text \<open>C22: A request within eight bytes of the range of size_t wraps round to a block too small for its own header: when the C library grants it, OPENSSL_malloc writes outside the block, and BUF_MEM_reserve passes such a request on although it checks its own arithmetic.\<close>

theorem OPENSSL_malloc_header_overflow:
  assumes "malloc_ok malloc" and "\<And>n. n < 8 \<Longrightarrow> malloc n \<noteq> None"
  shows "(\<forall>sz \<in> {SIZE_MOD - 8 ..< SIZE_MOD}. OPENSSL_malloc malloc sz = None) \<and>
    BUF_MEM_reserve malloc \<lparr>bm_length = 0, bm_data = None, bm_max = 0\<rparr> (3 * 2 ^ 62 - 6) = None"
proof -
  have *: "\<forall>sz \<in> {SIZE_MOD - 8 ..< SIZE_MOD}. OPENSSL_malloc malloc sz = None"
  proof
    fix sz assume sz: "sz \<in> {SIZE_MOD - 8 ..< SIZE_MOD}"
    then have "(sz + 8) mod SIZE_MOD = sz + 8 - SIZE_MOD"
      by (auto simp: le_mod_geq)
    then have small: "(sz + 8) mod SIZE_MOD < 8"
      using sz by auto
    then obtain ptr where "malloc ((sz + 8) mod SIZE_MOD) = Some ptr"
      using assms(2) by blast
    with small assms(1) show "OPENSSL_malloc malloc sz = None"
      by (simp add: OPENSSL_malloc_def OPENSSL_MALLOC_PREFIX_def malloc_ok_def)
  qed
  have "OPENSSL_malloc malloc 18446744073709551612 = None"
    using * by simp
  then have "BUF_MEM_reserve malloc \<lparr>bm_length = 0, bm_data = None, bm_max = 0\<rparr> (3 * 2 ^ 62 - 6) = None"
    by (simp add: BUF_MEM_reserve_def OPENSSL_realloc_def)
  with * show ?thesis by blast
qed

theorem OPENSSL_malloc_header_overflow_witness:
  "OPENSSL_malloc (\<lambda>n. if n \<le> 100 then Some (replicate n 0) else None) 18446744073709551615 = None"
  by (rule bspec [OF conjunct1 [OF OPENSSL_malloc_header_overflow]]) (auto simp: malloc_ok_def)

end
