(* ===== verification/Md32.thy ===== *)
theory Md32
  imports Blocks
begin

text \<open>
  The collector shared by the 32-bit message digests, \<^verbatim>\<open>crypto/fipsmodule/digest/md32_common.h\<close>:
  update and final for a block function that is a parameter, with the byte order as a flag. The
  result is characterised by the reference \<open>md_chain\<close>: the fold of the block function over the
  padded message. An update is a \<open>block_stream\<close>, whatever the block function.
\<close>

section \<open>Bytes and words\<close>

definition ROTATE :: "u32 \<Rightarrow> nat \<Rightarrow> u32" where
  "ROTATE a n = push_bit n a OR drop_bit (32 - n) a"

lemma ROTATE_rotl:
  assumes "0 < n" and "n < 32"
  shows "ROTATE a n = word_rotl n a"
proof (rule bit_word_eqI)
  fix k assume "k < LENGTH(32)"
  then have k: "k < 32" by simp
  have rotl: "bit (word_rotl n a) k \<longleftrightarrow> bit a ((k + (32 - n)) mod 32)"
    unfolding bit_word_rotl_iff using k assms by simp
  have rot: "bit (ROTATE a n) k \<longleftrightarrow> n \<le> k \<and> bit a (k - n) \<or> bit a (32 - n + k)"
    using k by (simp add: ROTATE_def bit_simps)
  show "bit (ROTATE a n) k \<longleftrightarrow> bit (word_rotl n a) k"
  proof (cases "n \<le> k")
    case True
    have "k + (32 - n) = (k - n) + 32"
      using True assms by simp
    then have "(k + (32 - n)) mod 32 = (k - n) mod 32"
      by (simp only: mod_add_self2)
    moreover have "\<not> bit a (32 - n + k)"
      using True assms bit_imp_possible_bit [of a "32 - n + k"] by auto
    ultimately show ?thesis
      unfolding rot rotl using True k by simp
  next
    case False
    then show ?thesis
      unfolding rot rotl using k by (simp add: add.commute)
  qed
qed

definition HOST_c2l :: "bool \<Rightarrow> bytes \<Rightarrow> u32" where
  "HOST_c2l big c =
     (if big then push_bit 24 (ucast (c ! 0)) OR push_bit 16 (ucast (c ! 1)) OR push_bit 8 (ucast (c ! 2)) OR ucast (c ! 3)
      else ucast (c ! 0) OR push_bit 8 (ucast (c ! 1)) OR push_bit 16 (ucast (c ! 2)) OR push_bit 24 (ucast (c ! 3)))"

definition HOST_l2c :: "bool \<Rightarrow> u32 \<Rightarrow> bytes" where
  "HOST_l2c big l =
     (let c = [ucast (drop_bit 24 l AND 0xff), ucast (drop_bit 16 l AND 0xff), ucast (drop_bit 8 l AND 0xff), ucast (l AND 0xff)]
      in if big then c else rev c)"

text \<open>The words of a block, in the order in which \<open>HOST_c2l\<close> reads them.\<close>

definition block_words :: "bool \<Rightarrow> bytes \<Rightarrow> u32 list" where
  "block_words big data = map (\<lambda>i. HOST_c2l big (drop (4 * i) data)) [0..<16]"

section \<open>The collector\<close>

definition HASH_CBLOCK :: nat where
  "HASH_CBLOCK = 64"

record md32 =
  md_h :: "u32 list"
  md_Nl :: u32
  md_Nh :: u32
  md_data :: bytes
  md_num :: nat

definition HASH_BLOCK_DATA_ORDER :: "(u32 list \<Rightarrow> bytes \<Rightarrow> u32 list) \<Rightarrow> u32 list \<Rightarrow> bytes \<Rightarrow> nat \<Rightarrow> u32 list" where
  "HASH_BLOCK_DATA_ORDER block state data num =
     foldl (\<lambda>state i. block state (take HASH_CBLOCK (drop (i * HASH_CBLOCK) data))) state [0..<num]"

definition hash_whole_blocks :: "(u32 list \<Rightarrow> bytes \<Rightarrow> u32 list) \<Rightarrow> 'x md32_scheme \<Rightarrow> bytes \<Rightarrow> 'x md32_scheme" where
  "hash_whole_blocks block c data =
     (let n = length data div HASH_CBLOCK;
          c = (if n > 0 then c\<lparr>md_h := HASH_BLOCK_DATA_ORDER block (md_h c) data n\<rparr> else c);
          data = drop (n * HASH_CBLOCK) data
      in if length data \<noteq> 0 then c\<lparr>md_num := length data, md_data := write_at 0 data (md_data c)\<rparr> else c)"

definition HASH_UPDATE :: "(u32 list \<Rightarrow> bytes \<Rightarrow> u32 list) \<Rightarrow> 'x md32_scheme \<Rightarrow> bytes \<Rightarrow> 'x md32_scheme" where
  "HASH_UPDATE block c data =
    (let len = length data in
     if len = 0 then c
     else
       let l = md_Nl c + push_bit 3 (word_of_nat len);
           Nh = (if l < md_Nl c then md_Nh c + 1 else md_Nh c) + word_of_nat (drop_bit 29 len);
           c = c\<lparr>md_Nl := l, md_Nh := Nh\<rparr>;
           n = md_num c
       in
       if n \<noteq> 0 then
         if len \<ge> HASH_CBLOCK \<or> len + n \<ge> HASH_CBLOCK then
           let full = write_at n (take (HASH_CBLOCK - n) data) (md_data c);
               c = c\<lparr>md_h := HASH_BLOCK_DATA_ORDER block (md_h c) full 1, md_num := 0, md_data := replicate HASH_CBLOCK 0\<rparr>
           in hash_whole_blocks block c (drop (HASH_CBLOCK - n) data)
         else c\<lparr>md_data := write_at n data (md_data c), md_num := n + len\<rparr>
       else hash_whole_blocks block c data)"

definition HASH_TRANSFORM :: "(u32 list \<Rightarrow> bytes \<Rightarrow> u32 list) \<Rightarrow> 'x md32_scheme \<Rightarrow> bytes \<Rightarrow> 'x md32_scheme" where
  "HASH_TRANSFORM block c data = c\<lparr>md_h := HASH_BLOCK_DATA_ORDER block (md_h c) data 1\<rparr>"

text \<open>\<open>HASH_MAKE_STRING\<close> reads the digest off the context; \<open>None\<close> is its failing return.\<close>

definition HASH_FINAL ::
  "(u32 list \<Rightarrow> bytes \<Rightarrow> u32 list) \<Rightarrow> bool \<Rightarrow> ('x md32_scheme \<Rightarrow> bytes option) \<Rightarrow> 'x md32_scheme \<Rightarrow> bytes option \<times> 'x md32_scheme" where
  "HASH_FINAL block big make_string c =
    (let n = md_num c;
         data = (md_data c)[n := 0x80];
         n = n + 1;
         (c, data, n) =
           (if n > HASH_CBLOCK - 8 then
              let data = write_at n (replicate (HASH_CBLOCK - n) 0) data
              in (c\<lparr>md_h := HASH_BLOCK_DATA_ORDER block (md_h c) data 1\<rparr>, data, 0)
            else (c, data, n));
         data = write_at n (replicate (HASH_CBLOCK - 8 - n) 0) data;
         data = write_at (HASH_CBLOCK - 8)
           (if big then HOST_l2c big (md_Nh c) @ HOST_l2c big (md_Nl c)
            else HOST_l2c big (md_Nl c) @ HOST_l2c big (md_Nh c)) data;
         c = c\<lparr>md_h := HASH_BLOCK_DATA_ORDER block (md_h c) data 1, md_num := 0, md_data := replicate HASH_CBLOCK 0\<rparr>
     in (make_string c, c))"

section \<open>The reference\<close>

definition md_length_bytes :: "bool \<Rightarrow> nat \<Rightarrow> bytes" where
  "md_length_bytes big n = (let c = be_bytes 8 (8 * n) in if big then c else rev c)"

definition md_pad :: "bool \<Rightarrow> bytes \<Rightarrow> bytes" where
  "md_pad big msg = msg @ 0x80 # replicate ((119 - length msg mod 64) mod 64) 0 @ md_length_bytes big (length msg)"

definition md_chain :: "(u32 list \<Rightarrow> bytes \<Rightarrow> u32 list) \<Rightarrow> bool \<Rightarrow> u32 list \<Rightarrow> bytes \<Rightarrow> u32 list" where
  "md_chain block big h msg = fst (absorb 64 block h (md_pad big msg))"

definition md32_ok :: "'x md32_scheme \<Rightarrow> bool" where
  "md32_ok c \<longleftrightarrow> length (md_data c) = 64 \<and> md_num c < 64 \<and> drop (md_num c) (md_data c) = replicate (64 - md_num c) 0"

definition md_pending :: "'x md32_scheme \<Rightarrow> bytes" where
  "md_pending c = take (md_num c) (md_data c)"

definition md_bits :: "'x md32_scheme \<Rightarrow> nat" where
  "md_bits c = unat (md_Nh c) * 2 ^ 32 + unat (md_Nl c)"

lemma length_md_pad: "64 dvd length (md_pad big msg)"
proof -
  obtain q r where m: "length msg = 64 * q + r" "r < 64"
    using mult_div_mod_eq [of 64 "length msg"] mod_less_divisor [of 64 "length msg"] by (metis zero_less_numeral)
  show ?thesis
  proof (cases "r < 56")
    case True
    then have "(119 - r) mod 64 = 55 - r"
      using mod_add_self2 [of "55 - r" 64] by simp
    then show ?thesis
      using m True by (simp add: md_pad_def md_length_bytes_def Let_def)
  next
    case False
    then show ?thesis
      using m by (simp add: md_pad_def md_length_bytes_def Let_def)
  qed
qed

section \<open>Updating\<close>

lemma HASH_BLOCK_one: "length data = 64 \<Longrightarrow> HASH_BLOCK_DATA_ORDER block h data 1 = block h data"
  by (simp add: HASH_BLOCK_DATA_ORDER_def HASH_CBLOCK_def)

lemma HASH_BLOCKs_absorb:
  "absorb 64 block h xs = (HASH_BLOCK_DATA_ORDER block h xs (length xs div 64), drop (length xs div 64 * 64) xs)"
  using absorb_foldl [of 64 block h xs] by (simp add: HASH_BLOCK_DATA_ORDER_def HASH_CBLOCK_def)

lemma write_at_pending:
  assumes "length data = 64" "n + length xs \<le> 64" "drop n data = replicate (64 - n) 0"
  shows "take (n + length xs) (write_at n xs data) = take n data @ xs"
    and "drop (n + length xs) (write_at n xs data) = replicate (64 - (n + length xs)) 0"
proof -
  have "drop (n + length xs) data = drop (length xs) (drop n data)"
    by (simp add: add.commute)
  then show "drop (n + length xs) (write_at n xs data) = replicate (64 - (n + length xs)) 0"
    using assms by (simp add: write_at_def)
qed (use assms in \<open>simp add: write_at_def\<close>)

lemma hash_whole_blocks_ok:
  assumes "md32_ok c" and "md_num c = 0"
  shows "md32_ok (hash_whole_blocks block c xs) \<and>
    (md_h (hash_whole_blocks block c xs), md_pending (hash_whole_blocks block c xs)) = absorb 64 block (md_h c) xs \<and>
    md_Nl (hash_whole_blocks block c xs) = md_Nl c \<and> md_Nh (hash_whole_blocks block c xs) = md_Nh c"
proof -
  define n where "n = length xs div 64"
  define ys where "ys = drop (n * 64) xs"
  have ys: "length ys < 64"
    by (simp add: ys_def n_def)
  have z: "HASH_BLOCK_DATA_ORDER block (md_h c) xs 0 = md_h c"
    by (simp add: HASH_BLOCK_DATA_ORDER_def)
  have w: "length (write_at 0 ys (md_data c)) = 64" "take (length ys) (write_at 0 ys (md_data c)) = ys"
    "drop (length ys) (write_at 0 ys (md_data c)) = replicate (64 - length ys) 0"
    using write_at_pending [of "md_data c" 0 ys] assms ys by (simp_all add: md32_ok_def)
  show ?thesis
    using assms ys w z
    unfolding HASH_BLOCKs_absorb hash_whole_blocks_def HASH_CBLOCK_def Let_def n_def [symmetric] ys_def [symmetric]
    by (cases "n = 0"; cases "ys = []") (simp_all add: md32_ok_def md_pending_def)
qed

lemma HASH_UPDATE_stream:
  assumes ok: "md32_ok c"
  shows "md32_ok (HASH_UPDATE block c xs) \<and>
    (md_h (HASH_UPDATE block c xs), md_pending (HASH_UPDATE block c xs)) = absorb 64 block (md_h c) (md_pending c @ xs)"
proof (cases "xs = []")
  case True
  have "length (md_pending c) < 64"
    using ok by (simp add: md32_ok_def md_pending_def)
  then show ?thesis
    using True ok by (simp add: HASH_UPDATE_def absorb_short)
next
  case False
  obtain Nl Nh where N: "Nl = md_Nl c + push_bit 3 (word_of_nat (length xs))"
    "Nh = (if Nl < md_Nl c then md_Nh c + 1 else md_Nh c) + word_of_nat (drop_bit 29 (length xs))"
    by blast
  define t where "t = c\<lparr>md_Nl := Nl, md_Nh := Nh\<rparr>"
  have t: "md32_ok t" "md_h t = md_h c" "md_num t = md_num c" "md_data t = md_data c" "md_pending t = md_pending c"
    using ok by (simp_all add: t_def md32_ok_def md_pending_def)
  define n where "n = md_num c"
  have n: "n < 64" "length (md_data c) = 64" "drop n (md_data c) = replicate (64 - n) 0"
    using ok by (simp_all add: md32_ok_def n_def)
  have U: "HASH_UPDATE block c xs =
    (if n \<noteq> 0 then
       if length xs \<ge> 64 \<or> length xs + n \<ge> 64 then
         hash_whole_blocks block
           (t\<lparr>md_h := HASH_BLOCK_DATA_ORDER block (md_h c) (write_at n (take (64 - n) xs) (md_data c)) 1, md_num := 0, md_data := replicate 64 0\<rparr>)
           (drop (64 - n) xs)
       else t\<lparr>md_data := write_at n xs (md_data c), md_num := n + length xs\<rparr>
     else hash_whole_blocks block t xs)"
    unfolding HASH_UPDATE_def Let_def HASH_CBLOCK_def N(1) [symmetric] N(2) [symmetric] t_def [symmetric] t n_def [symmetric]
    using False by simp
  consider "n = 0" | "n \<noteq> 0" "length xs + n < 64" | "n \<noteq> 0" "64 \<le> length xs + n"
    by linarith
  then show ?thesis
  proof cases
    case 1
    then have "md_pending c = []" "md_num t = 0"
      using t by (simp_all add: n_def md_pending_def)
    with 1 show ?thesis
      unfolding U using hash_whole_blocks_ok [OF t(1), of block xs] t by simp
  next
    case 2
    then have "md32_ok (t\<lparr>md_data := write_at n xs (md_data c), md_num := n + length xs\<rparr>)"
      "md_pending (t\<lparr>md_data := write_at n xs (md_data c), md_num := n + length xs\<rparr>) = md_pending c @ xs"
      using write_at_pending [of "md_data c" n xs] n by (simp_all add: md32_ok_def md_pending_def n_def)
    moreover have "length (md_pending c @ xs) < 64"
      using 2 n by (simp add: md_pending_def n_def)
    ultimately show ?thesis
      unfolding U using 2 t by (simp add: absorb_short)
  next
    case 3
    define full where "full = write_at n (take (64 - n) xs) (md_data c)"
    have len: "length full = 64"
      using n 3 by (simp add: full_def)
    moreover have "take 64 full = md_pending c @ take (64 - n) xs"
      using write_at_pending(1) [of "md_data c" n "take (64 - n) xs"] n 3
      by (simp add: full_def md_pending_def n_def)
    ultimately have full: "full = md_pending c @ take (64 - n) xs"
      by simp
    define u where "u = t\<lparr>md_h := HASH_BLOCK_DATA_ORDER block (md_h c) full 1, md_num := 0, md_data := replicate 64 0\<rparr>"
    have u: "md32_ok u" "md_num u = 0" "md_h u = block (md_h c) full"
      using HASH_BLOCK_one [OF len] by (simp_all add: u_def md32_ok_def)
    have "md_pending c @ xs = full @ drop (64 - n) xs"
      by (simp add: full)
    then have "absorb 64 block (md_h c) (md_pending c @ xs) = absorb 64 block (md_h u) (drop (64 - n) xs)"
      using absorb_block [of 64 full block "md_h c"] len u by simp
    with 3 show ?thesis
      unfolding U full_def [symmetric] u_def [symmetric]
      using hash_whole_blocks_ok [OF u(1,2), of block "drop (64 - n) xs"] by auto
  qed
qed

lemma hash_whole_blocks_bits [simp]:
  "md_Nl (hash_whole_blocks block c xs) = md_Nl c" "md_Nh (hash_whole_blocks block c xs) = md_Nh c"
  by (simp_all add: hash_whole_blocks_def Let_def)

lemma HASH_UPDATE_counters:
  assumes "xs \<noteq> []"
  shows "md_Nl (HASH_UPDATE block c xs) = md_Nl c + push_bit 3 (word_of_nat (length xs))"
    "md_Nh (HASH_UPDATE block c xs) =
      (if md_Nl c + push_bit 3 (word_of_nat (length xs)) < md_Nl c then md_Nh c + 1 else md_Nh c) + word_of_nat (drop_bit 29 (length xs))"
  using assms by (simp_all add: HASH_UPDATE_def Let_def)

text \<open>
  A counter of bits in two words: the low word takes eight times the length, its carry and the
  part of the length that does not fit go to the high word.
\<close>

lemma word_add_carry:
  fixes a b :: "'a::len word"
  shows "unat (a + b) + 2 ^ LENGTH('a) * (if a + b < a then 1 else 0) = unat a + unat b"
proof -
  have lt: "unat a < 2 ^ LENGTH('a)" "unat b < 2 ^ LENGTH('a)"
    by (rule unsigned_less)+
  have s: "unat (a + b) = (unat a + unat b) mod 2 ^ LENGTH('a)"
    by (simp add: unat_word_ariths)
  show ?thesis
  proof (cases "unat a + unat b < 2 ^ LENGTH('a)")
    case True
    then show ?thesis by (simp add: word_less_nat_alt s)
  next
    case False
    moreover have "unat a + unat b - 2 ^ LENGTH('a) < 2 ^ LENGTH('a)"
      using lt by linarith
    ultimately have "(unat a + unat b) mod 2 ^ LENGTH('a) = unat a + unat b - 2 ^ LENGTH('a)"
      by (simp add: le_mod_geq)
    moreover have "unat a + unat b - 2 ^ LENGTH('a) < unat a"
      using lt False by linarith
    ultimately show ?thesis using False by (simp add: word_less_nat_alt s)
  qed
qed

lemma two_word_counter:
  fixes hi lo :: "'a::len word"
  assumes k: "LENGTH('a) = 3 + k"
    and lo': "lo' = lo + push_bit 3 (word_of_nat n)"
    and hi': "hi' = (if lo' < lo then hi + 1 else hi) + word_of_nat (drop_bit k n)"
  shows "unat hi' * 2 ^ LENGTH('a) + unat lo' = (unat hi * 2 ^ LENGTH('a) + unat lo + 8 * n) mod 2 ^ (2 * LENGTH('a))"
proof -
  let ?M = "2 ^ LENGTH('a) :: nat"
  define d where "d = (push_bit 3 (word_of_nat n) :: 'a word)"
  define c :: nat where "c = (if lo' < lo then 1 else 0)"
  define q where "q = n div 2 ^ k"
  have "unat d = 8 * n mod ?M"
    by (simp add: d_def push_bit_eq_mult unat_word_ariths unat_of_nat take_bit_eq_mod mod_simps mult.commute)
  moreover have "8 * n div ?M = q"
    using k by (simp add: q_def power_add div_mult_mult1)
  ultimately have d: "unat d + ?M * q = 8 * n"
    using mod_mult_div_eq [of "8 * n" ?M] by simp
  have hi: "unat hi' = (unat hi + c + q) mod ?M"
    unfolding hi' c_def q_def drop_bit_eq_div by (simp add: unat_word_ariths unat_of_nat mod_simps)
  have lo: "unat lo' + ?M * c = unat lo + unat d"
    unfolding lo' d_def [symmetric] c_def using word_add_carry [of lo d] by simp
  have l: "unat lo' < ?M"
    by (rule unsigned_less)
  have split: "(unat lo' + ?M * m) mod 2 ^ (2 * LENGTH('a)) = unat lo' + ?M * (m mod ?M)" for m
    using l mod_mult2_eq [of "unat lo' + ?M * m" ?M ?M] by (simp add: mult_2 power_add)
  have "unat hi * ?M + unat lo + 8 * n = unat lo' + ?M * (unat hi + c + q)"
    using d lo by (simp add: algebra_simps)
  then have "(unat hi * ?M + unat lo + 8 * n) mod 2 ^ (2 * LENGTH('a)) = unat lo' + ?M * ((unat hi + c + q) mod ?M)"
    by (simp only: split)
  then show ?thesis
    by (simp add: hi)
qed

lemma HASH_UPDATE_bits:
  "md_bits (HASH_UPDATE block c xs) = (md_bits c + 8 * length xs) mod 2 ^ 64"
proof (cases "xs = []")
  case True
  have "unat (md_Nl c) < 2 ^ 32" "unat (md_Nh c) < 2 ^ 32"
    using unsigned_less [of "md_Nl c"] unsigned_less [of "md_Nh c"] by simp_all
  then have "md_bits c < 2 ^ 64"
    by (simp add: md_bits_def)
  then show ?thesis
    using True by (simp add: HASH_UPDATE_def)
next
  case False
  show ?thesis
    using two_word_counter [of 29 _ "md_Nl c" "length xs" _ "md_Nh c", OF _ HASH_UPDATE_counters(1) [OF False, of block c]
        HASH_UPDATE_counters(2) [OF False, of block c, folded HASH_UPDATE_counters(1) [OF False, of block c]]]
    by (simp add: md_bits_def)
qed

interpretation md32_stream: block_stream 64 block md_h md_pending "HASH_UPDATE block" md32_ok "\<lambda>_. True"
  for block :: "u32 list \<Rightarrow> bytes \<Rightarrow> u32 list"
  by unfold_locales (use HASH_UPDATE_stream in \<open>auto simp: md32_ok_def md_pending_def\<close>)

lemma HASH_UPDATE_more [simp]: "md32.more (HASH_UPDATE block c xs) = md32.more c"
  by (simp add: HASH_UPDATE_def hash_whole_blocks_def Let_def)

lemma HASH_UPDATEs_more: "md32.more (foldl (HASH_UPDATE block) c xss) = md32.more c"
  by (induction xss arbitrary: c) simp_all

lemma HASH_UPDATEs_bits:
  "md_bits c < 2 ^ 64 \<Longrightarrow> md_bits (foldl (HASH_UPDATE block) c xss) = (md_bits c + 8 * length (concat xss)) mod 2 ^ 64"
proof (induction xss arbitrary: c)
  case (Cons xs xss)
  have "md_bits (HASH_UPDATE block c xs) < 2 ^ 64"
    unfolding HASH_UPDATE_bits by simp
  from Cons.IH [OF this] show ?case
    by (simp add: HASH_UPDATE_bits mod_simps algebra_simps)
qed simp

section \<open>Finishing\<close>

lemma unat_bytes4:
  fixes l :: u32
  shows "be_nat (HOST_l2c True l) = unat l"
proof -
  have l: "unat l < 256 ^ 4"
    using unsigned_less [of l] by simp
  have byte: "unat (ucast (drop_bit k l AND 0xff) :: u8) = unat l div 2 ^ k mod 256" for k
  proof -
    have "unat (drop_bit k l AND 0xff) = unat l div 2 ^ k mod 256"
      using unat_shift_right [of k l] take_bit_eq_mask [of 8 "drop_bit k l"] unsigned_take_bit_eq [of 8 "drop_bit k l", where 'a = nat]
      by (simp add: mask_eq_exp_minus_1 take_bit_eq_mod)
    then show ?thesis
      by (simp add: unsigned_ucast_eq take_bit_eq_mod)
  qed
  have sum: "256 * (256 * (256 * (n div 2 ^ 24 mod 256) + n div 2 ^ 16 mod 256) + n div 2 ^ 8 mod 256) + n div 2 ^ 0 mod 256 = n"
    if "n < 256 ^ 4" for n :: nat
  proof -
    have "n div 2 ^ 16 = n div 2 ^ 8 div 256" "n div 2 ^ 24 = n div 2 ^ 16 div 256"
      by (simp_all add: div_mult2_eq [symmetric])
    moreover have "n div 2 ^ 24 < 256"
      using that by (simp add: less_mult_imp_div_less)
    ultimately show ?thesis
      by (simp del: div_mult2_eq)
  qed
  have four: "be_nat [a, b, c, d] = 256 * (256 * (256 * unat a + unat b) + unat c) + unat d" for a b c d
    by (simp add: be_nat_def)
  have "HOST_l2c True l = [ucast (drop_bit 24 l AND 0xff), ucast (drop_bit 16 l AND 0xff), ucast (drop_bit 8 l AND 0xff), ucast (drop_bit 0 l AND 0xff)]"
    by (simp add: HOST_l2c_def Let_def)
  then show ?thesis
    unfolding four byte by (simp only: four byte sum [OF l])
qed

lemma length_HOST_l2c [simp]: "length (HOST_l2c big l) = 4"
  by (simp add: HOST_l2c_def Let_def)

lemma HOST_l2c_little: "HOST_l2c False l = rev (HOST_l2c True l)"
  by (simp add: HOST_l2c_def Let_def)

lemma length_bytes_eq:
  assumes "md_bits c = (8 * n) mod 2 ^ 64"
  shows "(if big then HOST_l2c big (md_Nh c) @ HOST_l2c big (md_Nl c) else HOST_l2c big (md_Nl c) @ HOST_l2c big (md_Nh c)) =
    md_length_bytes big n"
proof -
  have "HOST_l2c True (md_Nh c) @ HOST_l2c True (md_Nl c) = be_bytes 8 (8 * n)"
    by (rule be_nat_inj) (use assms in \<open>simp_all add: be_nat_append unat_bytes4 be_nat_be_bytes md_bits_def del: be_bytes.simps\<close>)
  then have big: "be_bytes 8 (8 * n) = HOST_l2c True (md_Nh c) @ HOST_l2c True (md_Nl c)"
    by (rule sym)
  then show ?thesis
    by (cases big) (simp_all only: md_length_bytes_def Let_def if_True if_False big HOST_l2c_little rev_append)
qed

lemma HASH_FINAL_chain:
  assumes ok: "md32_ok c" and len: "md_bits c = (8 * n) mod 2 ^ 64"
  obtains t where "HASH_FINAL block big mk c = (mk t, t)" "md32.more t = md32.more c" "md32_ok t"
    "md_h t = fst (absorb 64 block (md_h c) (md_pending c @ 0x80 # replicate ((119 - md_num c) mod 64) 0 @ md_length_bytes big n))"
proof -
  define k where "k = md_num c"
  define p where "p = md_pending c"
  define lb where "lb = md_length_bytes big n"
  have k: "k < 64" "length p = k" "md_data c = p @ replicate (64 - k) 0"
    using ok append_take_drop_id [of k "md_data c"] by (auto simp: md32_ok_def k_def p_def md_pending_def)
  have lb: "length lb = 8"
    unfolding lb_def length_bytes_eq [OF len, of big, symmetric] by simp
  have L: "big \<Longrightarrow> HOST_l2c True (md_Nh c) @ HOST_l2c True (md_Nl c) = lb"
    "\<not> big \<Longrightarrow> HOST_l2c False (md_Nl c) @ HOST_l2c False (md_Nh c) = lb"
    using length_bytes_eq [OF len, of big] by (simp_all add: lb_def)
  define d where "d = p @ 0x80 # replicate (63 - k) 0"
  have "replicate (64 - k) (0 :: u8) = 0 # replicate (63 - k) 0"
    using k by (simp add: Suc_diff_Suc flip: replicate_Suc)
  then have d: "(md_data c)[k := 0x80] = d" "length d = 64"
    using k by (simp_all add: d_def list_update_append)
  show thesis
  proof (cases "k + 1 > 56")
    case True
    define e where "e = replicate 56 0 @ lb"
    have "write_at (k + 1) (replicate (64 - (k + 1)) 0) d = d"
      using k by (simp add: d_def write_at_def)
    moreover have "write_at 56 lb (write_at 0 (replicate 56 0) d) = e"
      using d(2) lb by (simp add: e_def write_at_def)
    moreover have "length e = 64"
      using lb by (simp add: e_def)
    ultimately have F: "HASH_FINAL block big mk c =
        (mk (c\<lparr>md_h := block (block (md_h c) d) e, md_num := 0, md_data := replicate 64 0\<rparr>),
         c\<lparr>md_h := block (block (md_h c) d) e, md_num := 0, md_data := replicate 64 0\<rparr>)"
      unfolding HASH_FINAL_def Let_def HASH_CBLOCK_def k_def [symmetric] d
      using True d(2) L by (cases big) (simp_all add: HASH_BLOCK_one [unfolded One_nat_def])
    have z: "(119 - k) mod 64 = (63 - k) + 56"
      using True k by simp
    have "p @ 0x80 # replicate ((119 - k) mod 64) 0 @ lb = d @ e @ []"
      unfolding z replicate_add d_def e_def by simp
    moreover have "fst (absorb 64 block (md_h c) (d @ e @ [])) = block (block (md_h c) d) e"
      using absorb_block [of 64 d block "md_h c" "e @ []"] absorb_block [of 64 e block "block (md_h c) d" "[]"] d(2) lb
      by (simp add: e_def absorb_short)
    ultimately have "fst (absorb 64 block (md_h c) (p @ 0x80 # replicate ((119 - k) mod 64) 0 @ lb)) = block (block (md_h c) d) e"
      by (simp only:)
    with F show thesis
      using that by (simp add: p_def k_def lb_def md32_ok_def)
  next
    case False
    define e where "e = p @ 0x80 # replicate (55 - k) 0 @ lb"
    have "replicate (63 - k) (0 :: u8) = replicate (55 - k) 0 @ replicate 8 0" "56 - k = Suc (55 - k)"
      using False by (simp_all flip: replicate_add)
    then have sp: "replicate (63 - k) (0 :: u8) = replicate (55 - k) 0 @ replicate 8 0"
      "drop (56 - k) (0x80 # replicate (55 - k) (0 :: u8) @ replicate 8 0) = replicate 8 0"
      "take (56 - k) (0x80 # replicate (55 - k) (0 :: u8) @ replicate 8 0) = 0x80 # replicate (55 - k) 0"
      by simp_all
    have "write_at (k + 1) (replicate (56 - (k + 1)) 0) d = d"
      using k False by (simp add: d_def write_at_def sp)
    moreover have "write_at 56 lb d = e"
      using k lb False by (simp add: d_def e_def write_at_def sp)
    moreover have "length e = 64"
      using lb k False by (simp add: e_def)
    ultimately have F: "HASH_FINAL block big mk c =
        (mk (c\<lparr>md_h := block (md_h c) e, md_num := 0, md_data := replicate 64 0\<rparr>),
         c\<lparr>md_h := block (md_h c) e, md_num := 0, md_data := replicate 64 0\<rparr>)"
      unfolding HASH_FINAL_def Let_def HASH_CBLOCK_def k_def [symmetric] d
      using False L by (cases big) (simp_all add: HASH_BLOCK_one [unfolded One_nat_def])
    have z: "(119 - k) mod 64 = 55 - k"
      using False mod_add_self2 [of "55 - k" 64] by simp
    have "fst (absorb 64 block (md_h c) e) = block (md_h c) e"
      using absorb_block [of 64 e block "md_h c" "[]"] \<open>length e = 64\<close> by (simp add: absorb_short)
    with F z show thesis
      using that by (simp add: p_def k_def lb_def e_def md32_ok_def)
  qed
qed

text \<open>Any number of updates and a final, on a fresh context, are the reference on the data joined.\<close>

definition md32_fresh :: "'x md32_scheme \<Rightarrow> bool" where
  "md32_fresh c \<longleftrightarrow> md_Nl c = 0 \<and> md_Nh c = 0 \<and> md_num c = 0 \<and> md_data c = replicate 64 0"

lemma md32_digest:
  assumes "md32_fresh c"
  obtains t where "HASH_FINAL block big mk (foldl (HASH_UPDATE block) c xss) = (mk t, t)" "md32.more t = md32.more c"
    "md_h t = md_chain block big (md_h c) (concat xss)"
proof -
  define u where "u = foldl (HASH_UPDATE block) c xss"
  have c: "md32_ok c" "md_pending c = []" "md_bits c = 0"
    using assms by (simp_all add: md32_fresh_def md32_ok_def md_pending_def md_bits_def)
  have u: "md32_ok u" "(md_h u, md_pending u) = absorb 64 block (md_h c) (concat xss)"
    using md32_stream.updates [OF c(1), of xss block] c(2) by (simp_all add: u_def list_all_iff)
  have bits: "md_bits u = (8 * length (concat xss)) mod 2 ^ 64"
    unfolding u_def using HASH_UPDATEs_bits [of c block xss] c(3) by simp
  have "length (md_pending u) = md_num u"
    using u(1) by (simp add: md32_ok_def md_pending_def)
  then have num: "md_num u = length (concat xss) mod 64"
    using absorb_left_length [of 64 block "md_h c" "concat xss"] u(2) by (metis snd_conv zero_less_numeral)
  have "absorb 64 block (md_h c) (concat xss @ ys) = absorb 64 block (md_h u) (md_pending u @ ys)" for ys
    using absorb_append [of 64 block "md_h c" "concat xss" ys] u(2) [symmetric] by simp
  then have "fst (absorb 64 block (md_h u) (md_pending u @ 0x80 # replicate ((119 - md_num u) mod 64) 0 @ md_length_bytes big (length (concat xss)))) =
      md_chain block big (md_h c) (concat xss)"
    unfolding md_chain_def md_pad_def num [symmetric] by simp
  moreover obtain t where "HASH_FINAL block big mk u = (mk t, t)" "md32.more t = md32.more u"
    "md_h t = fst (absorb 64 block (md_h u) (md_pending u @ 0x80 # replicate ((119 - md_num u) mod 64) 0 @ md_length_bytes big (length (concat xss))))"
    using HASH_FINAL_chain [OF u(1) bits] by metis
  ultimately show thesis
    using that HASH_UPDATEs_more [of block c xss] by (simp add: u_def)
qed

end
