(* ===== verification/Md45.thy ===== *)
theory Md45
  imports Md32
begin

text \<open>
  MD4 and MD5: the block functions of \<^verbatim>\<open>crypto/fipsmodule/md4/md4.c\<close> and \<^verbatim>\<open>md5/md5.c\<close> on the
  collector of theory Md32, and the algorithms of RFC 1320 and RFC 1321 they implement. The
  rounds are the code's unrolled steps in order: which word of the block, the rotation, the
  constant. A step writes the first register; the calls of the code name the registers turned by
  one place each time, so the step returns them turned.
\<close>

type_synonym regs4 = "u32 \<times> u32 \<times> u32 \<times> u32"

definition digest4 :: "'x md32_scheme \<Rightarrow> bytes option" where
  "digest4 c = Some (HOST_l2c False (md_h c ! 0) @ HOST_l2c False (md_h c ! 1) @
     HOST_l2c False (md_h c ! 2) @ HOST_l2c False (md_h c ! 3))"

definition add_regs4 :: "u32 list \<Rightarrow> regs4 \<Rightarrow> u32 list" where
  "add_regs4 state = (\<lambda>(A, B, C, D). [state ! 0 + A, state ! 1 + B, state ! 2 + C, state ! 3 + D])"

section \<open>MD4\<close>

definition md4_F :: "u32 \<Rightarrow> u32 \<Rightarrow> u32 \<Rightarrow> u32" where
  "md4_F b c d = ((c XOR d) AND b) XOR d"

definition md4_G :: "u32 \<Rightarrow> u32 \<Rightarrow> u32 \<Rightarrow> u32" where
  "md4_G b c d = (b AND c) OR (b AND d) OR (c AND d)"

definition md4_H :: "u32 \<Rightarrow> u32 \<Rightarrow> u32 \<Rightarrow> u32" where
  "md4_H b c d = b XOR c XOR d"

definition md4_R :: "(u32 \<Rightarrow> u32 \<Rightarrow> u32 \<Rightarrow> u32) \<Rightarrow> u32 list \<Rightarrow> regs4 \<Rightarrow> nat \<times> nat \<times> u32 \<Rightarrow> regs4" where
  "md4_R f X = (\<lambda>(a, b, c, d) (k, s, t).
     let a = a + (X ! k + t + f b c d); a = ROTATE a s in (d, a, b, c))"

definition md4_round0 :: "(nat \<times> nat \<times> u32) list" where
  "md4_round0 =
   [(0, 3, 0), (1, 7, 0), (2, 11, 0), (3, 19, 0),
    (4, 3, 0), (5, 7, 0), (6, 11, 0), (7, 19, 0),
    (8, 3, 0), (9, 7, 0), (10, 11, 0), (11, 19, 0),
    (12, 3, 0), (13, 7, 0), (14, 11, 0), (15, 19, 0)]"

definition md4_round1 :: "(nat \<times> nat \<times> u32) list" where
  "md4_round1 =
   [(0, 3, 0x5A827999), (4, 5, 0x5A827999), (8, 9, 0x5A827999), (12, 13, 0x5A827999),
    (1, 3, 0x5A827999), (5, 5, 0x5A827999), (9, 9, 0x5A827999), (13, 13, 0x5A827999),
    (2, 3, 0x5A827999), (6, 5, 0x5A827999), (10, 9, 0x5A827999), (14, 13, 0x5A827999),
    (3, 3, 0x5A827999), (7, 5, 0x5A827999), (11, 9, 0x5A827999), (15, 13, 0x5A827999)]"

definition md4_round2 :: "(nat \<times> nat \<times> u32) list" where
  "md4_round2 =
   [(0, 3, 0x6ED9EBA1), (8, 9, 0x6ED9EBA1), (4, 11, 0x6ED9EBA1), (12, 15, 0x6ED9EBA1),
    (2, 3, 0x6ED9EBA1), (10, 9, 0x6ED9EBA1), (6, 11, 0x6ED9EBA1), (14, 15, 0x6ED9EBA1),
    (1, 3, 0x6ED9EBA1), (9, 9, 0x6ED9EBA1), (5, 11, 0x6ED9EBA1), (13, 15, 0x6ED9EBA1),
    (3, 3, 0x6ED9EBA1), (11, 9, 0x6ED9EBA1), (7, 11, 0x6ED9EBA1), (15, 15, 0x6ED9EBA1)]"

definition md4_block :: "u32 list \<Rightarrow> bytes \<Rightarrow> u32 list" where
  "md4_block state data =
     (let X = block_words False data;
          r = (state ! 0, state ! 1, state ! 2, state ! 3);
          r = foldl (md4_R md4_F X) r md4_round0;
          r = foldl (md4_R md4_G X) r md4_round1;
          r = foldl (md4_R md4_H X) r md4_round2
      in add_regs4 state r)"

definition MD4_Init :: md32 where
  "MD4_Init = \<lparr>md_h = [0x67452301, 0xefcdab89, 0x98badcfe, 0x10325476], md_Nl = 0, md_Nh = 0,
     md_data = replicate 64 0, md_num = 0\<rparr>"

definition MD4_Update :: "md32 \<Rightarrow> bytes \<Rightarrow> md32" where
  "MD4_Update = HASH_UPDATE md4_block"

definition MD4_Transform :: "md32 \<Rightarrow> bytes \<Rightarrow> md32" where
  "MD4_Transform = HASH_TRANSFORM md4_block"

definition MD4_Final :: "md32 \<Rightarrow> bytes option \<times> md32" where
  "MD4_Final = HASH_FINAL md4_block False digest4"

definition MD4 :: "bytes \<Rightarrow> bytes option" where
  "MD4 data = (let ctx = MD4_Init; ctx = MD4_Update ctx data in fst (MD4_Final ctx))"

section \<open>MD5\<close>

definition md5_F :: "u32 \<Rightarrow> u32 \<Rightarrow> u32 \<Rightarrow> u32" where
  "md5_F b c d = ((c XOR d) AND b) XOR d"

definition md5_G :: "u32 \<Rightarrow> u32 \<Rightarrow> u32 \<Rightarrow> u32" where
  "md5_G b c d = ((b XOR c) AND d) XOR c"

definition md5_H :: "u32 \<Rightarrow> u32 \<Rightarrow> u32 \<Rightarrow> u32" where
  "md5_H b c d = b XOR c XOR d"

definition md5_I :: "u32 \<Rightarrow> u32 \<Rightarrow> u32 \<Rightarrow> u32" where
  "md5_I b c d = (NOT d OR b) XOR c"

definition md5_R :: "(u32 \<Rightarrow> u32 \<Rightarrow> u32 \<Rightarrow> u32) \<Rightarrow> u32 list \<Rightarrow> regs4 \<Rightarrow> nat \<times> nat \<times> u32 \<Rightarrow> regs4" where
  "md5_R f X = (\<lambda>(a, b, c, d) (k, s, t).
     let a = a + (X ! k + t + f b c d); a = ROTATE a s; a = a + b in (d, a, b, c))"

definition md5_round0 :: "(nat \<times> nat \<times> u32) list" where
  "md5_round0 =
   [(0, 7, 0xd76aa478), (1, 12, 0xe8c7b756), (2, 17, 0x242070db), (3, 22, 0xc1bdceee),
    (4, 7, 0xf57c0faf), (5, 12, 0x4787c62a), (6, 17, 0xa8304613), (7, 22, 0xfd469501),
    (8, 7, 0x698098d8), (9, 12, 0x8b44f7af), (10, 17, 0xffff5bb1), (11, 22, 0x895cd7be),
    (12, 7, 0x6b901122), (13, 12, 0xfd987193), (14, 17, 0xa679438e), (15, 22, 0x49b40821)]"

definition md5_round1 :: "(nat \<times> nat \<times> u32) list" where
  "md5_round1 =
   [(1, 5, 0xf61e2562), (6, 9, 0xc040b340), (11, 14, 0x265e5a51), (0, 20, 0xe9b6c7aa),
    (5, 5, 0xd62f105d), (10, 9, 0x02441453), (15, 14, 0xd8a1e681), (4, 20, 0xe7d3fbc8),
    (9, 5, 0x21e1cde6), (14, 9, 0xc33707d6), (3, 14, 0xf4d50d87), (8, 20, 0x455a14ed),
    (13, 5, 0xa9e3e905), (2, 9, 0xfcefa3f8), (7, 14, 0x676f02d9), (12, 20, 0x8d2a4c8a)]"

definition md5_round2 :: "(nat \<times> nat \<times> u32) list" where
  "md5_round2 =
   [(5, 4, 0xfffa3942), (8, 11, 0x8771f681), (11, 16, 0x6d9d6122), (14, 23, 0xfde5380c),
    (1, 4, 0xa4beea44), (4, 11, 0x4bdecfa9), (7, 16, 0xf6bb4b60), (10, 23, 0xbebfbc70),
    (13, 4, 0x289b7ec6), (0, 11, 0xeaa127fa), (3, 16, 0xd4ef3085), (6, 23, 0x04881d05),
    (9, 4, 0xd9d4d039), (12, 11, 0xe6db99e5), (15, 16, 0x1fa27cf8), (2, 23, 0xc4ac5665)]"

definition md5_round3 :: "(nat \<times> nat \<times> u32) list" where
  "md5_round3 =
   [(0, 6, 0xf4292244), (7, 10, 0x432aff97), (14, 15, 0xab9423a7), (5, 21, 0xfc93a039),
    (12, 6, 0x655b59c3), (3, 10, 0x8f0ccc92), (10, 15, 0xffeff47d), (1, 21, 0x85845dd1),
    (8, 6, 0x6fa87e4f), (15, 10, 0xfe2ce6e0), (6, 15, 0xa3014314), (13, 21, 0x4e0811a1),
    (4, 6, 0xf7537e82), (11, 10, 0xbd3af235), (2, 15, 0x2ad7d2bb), (9, 21, 0xeb86d391)]"

definition md5_block :: "u32 list \<Rightarrow> bytes \<Rightarrow> u32 list" where
  "md5_block state data =
     (let X = block_words False data;
          r = (state ! 0, state ! 1, state ! 2, state ! 3);
          r = foldl (md5_R md5_F X) r md5_round0;
          r = foldl (md5_R md5_G X) r md5_round1;
          r = foldl (md5_R md5_H X) r md5_round2;
          r = foldl (md5_R md5_I X) r md5_round3
      in add_regs4 state r)"

definition MD5_Init :: md32 where
  "MD5_Init = \<lparr>md_h = [0x67452301, 0xefcdab89, 0x98badcfe, 0x10325476], md_Nl = 0, md_Nh = 0,
     md_data = replicate 64 0, md_num = 0\<rparr>"

definition MD5_Update :: "md32 \<Rightarrow> bytes \<Rightarrow> md32" where
  "MD5_Update = HASH_UPDATE md5_block"

definition MD5_Transform :: "md32 \<Rightarrow> bytes \<Rightarrow> md32" where
  "MD5_Transform = HASH_TRANSFORM md5_block"

definition MD5_Final :: "md32 \<Rightarrow> bytes option \<times> md32" where
  "MD5_Final = HASH_FINAL md5_block False digest4"

definition MD5 :: "bytes \<Rightarrow> bytes option" where
  "MD5 data = (let ctx = MD5_Init; ctx = MD5_Update ctx data in fst (MD5_Final ctx))"

section \<open>The algorithms of the RFCs\<close>

text \<open>
  RFC 1320, section 3.4, and RFC 1321, section 3.4: three (four) rounds of sixteen operations.
  Operation \<open>i\<close> of the whole block uses the word and the rotation that a pattern in \<open>i\<close> gives.
  The additive constants of MD5 are the table \<open>T\<close> of the RFC, written out as it is there.
\<close>

definition rfc_F :: "u32 \<Rightarrow> u32 \<Rightarrow> u32 \<Rightarrow> u32" where
  "rfc_F x y z = (x AND y) OR (NOT x AND z)"

definition rfc1320_G :: "u32 \<Rightarrow> u32 \<Rightarrow> u32 \<Rightarrow> u32" where
  "rfc1320_G x y z = (x AND y) OR (x AND z) OR (y AND z)"

definition rfc1321_G :: "u32 \<Rightarrow> u32 \<Rightarrow> u32 \<Rightarrow> u32" where
  "rfc1321_G x y z = (x AND z) OR (y AND NOT z)"

definition rfc_H :: "u32 \<Rightarrow> u32 \<Rightarrow> u32 \<Rightarrow> u32" where
  "rfc_H x y z = x XOR y XOR z"

definition rfc1321_I :: "u32 \<Rightarrow> u32 \<Rightarrow> u32 \<Rightarrow> u32" where
  "rfc1321_I x y z = y XOR (x OR NOT z)"

definition rfc1320_params :: "nat \<Rightarrow> nat \<times> nat \<times> u32" where
  "rfc1320_params i =
     (if i < 16 then (i, [3, 7, 11, 19] ! (i mod 4), 0)
      else if i < 32 then (4 * (i mod 4) + i mod 16 div 4, [3, 5, 9, 13] ! (i mod 4), 0x5A827999)
      else ([0, 8, 4, 12] ! (i mod 4) + [0, 2, 1, 3] ! (i mod 16 div 4), [3, 9, 11, 15] ! (i mod 4), 0x6ED9EBA1))"

definition rfc1320_op :: "u32 list \<Rightarrow> regs4 \<Rightarrow> nat \<Rightarrow> regs4" where
  "rfc1320_op X = (\<lambda>(a, b, c, d) i.
     let (k, s, t) = rfc1320_params i;
         f = (if i < 16 then rfc_F else if i < 32 then rfc1320_G else rfc_H)
     in (d, word_rotl s (a + f b c d + X ! k + t), b, c))"

definition rfc1320_block :: "u32 list \<Rightarrow> bytes \<Rightarrow> u32 list" where
  "rfc1320_block h m = add_regs4 h (foldl (rfc1320_op (block_words False m)) (h ! 0, h ! 1, h ! 2, h ! 3) [0..<48])"

definition rfc1321_T :: "u32 list" where
  "rfc1321_T =
   [0xd76aa478, 0xe8c7b756, 0x242070db, 0xc1bdceee, 0xf57c0faf, 0x4787c62a, 0xa8304613, 0xfd469501,
    0x698098d8, 0x8b44f7af, 0xffff5bb1, 0x895cd7be, 0x6b901122, 0xfd987193, 0xa679438e, 0x49b40821,
    0xf61e2562, 0xc040b340, 0x265e5a51, 0xe9b6c7aa, 0xd62f105d, 0x02441453, 0xd8a1e681, 0xe7d3fbc8,
    0x21e1cde6, 0xc33707d6, 0xf4d50d87, 0x455a14ed, 0xa9e3e905, 0xfcefa3f8, 0x676f02d9, 0x8d2a4c8a,
    0xfffa3942, 0x8771f681, 0x6d9d6122, 0xfde5380c, 0xa4beea44, 0x4bdecfa9, 0xf6bb4b60, 0xbebfbc70,
    0x289b7ec6, 0xeaa127fa, 0xd4ef3085, 0x04881d05, 0xd9d4d039, 0xe6db99e5, 0x1fa27cf8, 0xc4ac5665,
    0xf4292244, 0x432aff97, 0xab9423a7, 0xfc93a039, 0x655b59c3, 0x8f0ccc92, 0xffeff47d, 0x85845dd1,
    0x6fa87e4f, 0xfe2ce6e0, 0xa3014314, 0x4e0811a1, 0xf7537e82, 0xbd3af235, 0x2ad7d2bb, 0xeb86d391]"

definition rfc1321_params :: "nat \<Rightarrow> nat \<times> nat \<times> u32" where
  "rfc1321_params i =
     (if i < 16 then (i, [7, 12, 17, 22] ! (i mod 4), rfc1321_T ! i)
      else if i < 32 then ((5 * i + 1) mod 16, [5, 9, 14, 20] ! (i mod 4), rfc1321_T ! i)
      else if i < 48 then ((3 * i + 5) mod 16, [4, 11, 16, 23] ! (i mod 4), rfc1321_T ! i)
      else ((7 * i) mod 16, [6, 10, 15, 21] ! (i mod 4), rfc1321_T ! i))"

definition rfc1321_op :: "u32 list \<Rightarrow> regs4 \<Rightarrow> nat \<Rightarrow> regs4" where
  "rfc1321_op X = (\<lambda>(a, b, c, d) i.
     let (k, s, t) = rfc1321_params i;
         f = (if i < 16 then rfc_F else if i < 32 then rfc1321_G else if i < 48 then rfc_H else rfc1321_I)
     in (d, b + word_rotl s (a + f b c d + X ! k + t), b, c))"

definition rfc1321_block :: "u32 list \<Rightarrow> bytes \<Rightarrow> u32 list" where
  "rfc1321_block h m = add_regs4 h (foldl (rfc1321_op (block_words False m)) (h ! 0, h ! 1, h ! 2, h ! 3) [0..<64])"

definition rfc_digest :: "(u32 list \<Rightarrow> bytes \<Rightarrow> u32 list) \<Rightarrow> bytes \<Rightarrow> bytes" where
  "rfc_digest block msg =
     concat (map (\<lambda>i. HOST_l2c False (md_chain block False [0x67452301, 0xefcdab89, 0x98badcfe, 0x10325476] msg ! i)) [0..<4])"

section \<open>The code implements them\<close>

lemma md4_functions: "md4_F = rfc_F" "md4_G = rfc1320_G" "md4_H = rfc_H"
  by (intro ext bit_word_eqI, auto simp: md4_F_def rfc_F_def md4_G_def rfc1320_G_def md4_H_def rfc_H_def bit_simps)+

lemma md5_functions: "md5_F = rfc_F" "md5_G = rfc1321_G" "md5_H = rfc_H" "md5_I = rfc1321_I"
  by (intro ext bit_word_eqI, auto simp: md5_F_def rfc_F_def md5_G_def rfc1321_G_def md5_H_def rfc_H_def md5_I_def rfc1321_I_def bit_simps)+

lemma md4_rounds:
  "md4_round0 = map rfc1320_params [0..<16]" "md4_round1 = map rfc1320_params [16..<32]"
  "md4_round2 = map rfc1320_params [32..<48]"
  by code_simp+

lemma md5_rounds:
  "md5_round0 = map rfc1321_params [0..<16]" "md5_round1 = map rfc1321_params [16..<32]"
  "md5_round2 = map rfc1321_params [32..<48]" "md5_round3 = map rfc1321_params [48..<64]"
  by code_simp+

lemma params_rotation:
  "\<forall>i \<in> set [0..<48]. 0 < fst (snd (rfc1320_params i)) \<and> fst (snd (rfc1320_params i)) < 32"
  "\<forall>i \<in> set [0..<64]. 0 < fst (snd (rfc1321_params i)) \<and> fst (snd (rfc1321_params i)) < 32"
  by code_simp+

lemma foldl_upt_cong: "(\<And>r i. m \<le> i \<Longrightarrow> i < n \<Longrightarrow> f r i = g r i) \<Longrightarrow> foldl f r [m..<n] = foldl g r [m..<n]"
  by (rule foldl_cong) auto

lemma md4_block_eq: "md4_block = rfc1320_block"
proof (intro ext)
  fix h m
  define X where "X = block_words False m"
  have rot: "ROTATE x (fst (snd (rfc1320_params i))) = word_rotl (fst (snd (rfc1320_params i))) x" if "i < 48" for x i
    using that params_rotation(1) by (intro ROTATE_rotl) auto
  have step: "md4_R f X r (rfc1320_params i) = rfc1320_op X r i"
    if "i < 48" "f = (if i < 16 then rfc_F else if i < 32 then rfc1320_G else rfc_H)" for f r i
  proof -
    obtain k s t where p: "rfc1320_params i = (k, s, t)"
      by (rule prod_cases3)
    obtain a b c d where r: "r = (a, b, c, d)"
      by (rule prod_cases4)
    show ?thesis
      using rot [OF that(1)] by (simp add: md4_R_def rfc1320_op_def p r that(2) Let_def add_ac)
  qed
  have r0: "foldl (md4_R md4_F X) r md4_round0 = foldl (rfc1320_op X) r [0..<16]" for r
    unfolding md4_rounds foldl_map md4_functions by (intro foldl_upt_cong step) auto
  have r1: "foldl (md4_R md4_G X) r md4_round1 = foldl (rfc1320_op X) r [16..<32]" for r
    unfolding md4_rounds foldl_map md4_functions by (intro foldl_upt_cong step) auto
  have r2: "foldl (md4_R md4_H X) r md4_round2 = foldl (rfc1320_op X) r [32..<48]" for r
    unfolding md4_rounds foldl_map md4_functions by (intro foldl_upt_cong step) auto
  have "[0..<48] = [0..<16] @ [16..<32] @ [32..<48]"
    using upt_add_eq_append [of 0 16 32] upt_add_eq_append [of 16 32 16] by simp
  then show "md4_block h m = rfc1320_block h m"
    by (simp only: md4_block_def rfc1320_block_def Let_def X_def [symmetric] r0 r1 r2 foldl_append)
qed

lemma md5_block_eq: "md5_block = rfc1321_block"
proof (intro ext)
  fix h m
  define X where "X = block_words False m"
  have rot: "ROTATE x (fst (snd (rfc1321_params i))) = word_rotl (fst (snd (rfc1321_params i))) x" if "i < 64" for x i
    using that params_rotation(2) by (intro ROTATE_rotl) auto
  have step: "md5_R f X r (rfc1321_params i) = rfc1321_op X r i"
    if "i < 64" "f = (if i < 16 then rfc_F else if i < 32 then rfc1321_G else if i < 48 then rfc_H else rfc1321_I)" for f r i
  proof -
    obtain k s t where p: "rfc1321_params i = (k, s, t)"
      by (rule prod_cases3)
    obtain a b c d where r: "r = (a, b, c, d)"
      by (rule prod_cases4)
    show ?thesis
      using rot [OF that(1)] by (simp add: md5_R_def rfc1321_op_def p r that(2) Let_def add_ac)
  qed
  have r0: "foldl (md5_R md5_F X) r md5_round0 = foldl (rfc1321_op X) r [0..<16]" for r
    unfolding md5_rounds foldl_map md5_functions by (intro foldl_upt_cong step) auto
  have r1: "foldl (md5_R md5_G X) r md5_round1 = foldl (rfc1321_op X) r [16..<32]" for r
    unfolding md5_rounds foldl_map md5_functions by (intro foldl_upt_cong step) auto
  have r2: "foldl (md5_R md5_H X) r md5_round2 = foldl (rfc1321_op X) r [32..<48]" for r
    unfolding md5_rounds foldl_map md5_functions by (intro foldl_upt_cong step) auto
  have r3: "foldl (md5_R md5_I X) r md5_round3 = foldl (rfc1321_op X) r [48..<64]" for r
    unfolding md5_rounds foldl_map md5_functions by (intro foldl_upt_cong step) auto
  have "[0..<64] = [0..<16] @ [16..<32] @ [32..<48] @ [48..<64]"
    using upt_add_eq_append [of 0 16 48] upt_add_eq_append [of 16 32 32] upt_add_eq_append [of 32 48 16] by simp
  then show "md5_block h m = rfc1321_block h m"
    by (simp only: md5_block_def rfc1321_block_def Let_def X_def [symmetric] r0 r1 r2 r3 foldl_append)
qed

lemma digest4_rfc:
  "md_h t = md_chain block False [0x67452301, 0xefcdab89, 0x98badcfe, 0x10325476] msg \<Longrightarrow> digest4 t = Some (rfc_digest block msg)"
  by (simp add: digest4_def rfc_digest_def eval_nat_numeral)

lemma md45_digests:
  "fst (MD4_Final (foldl MD4_Update MD4_Init pieces)) = Some (rfc_digest rfc1320_block (concat pieces)) \<and>
   fst (MD5_Final (foldl MD5_Update MD5_Init pieces)) = Some (rfc_digest rfc1321_block (concat pieces)) \<and>
   MD4 msg = Some (rfc_digest rfc1320_block msg) \<and> MD5 msg = Some (rfc_digest rfc1321_block msg)"
proof -
  have fresh: "md32_fresh MD4_Init" "md32_fresh MD5_Init"
    by (simp_all add: md32_fresh_def MD4_Init_def MD5_Init_def)
  have a: "fst (MD4_Final (foldl MD4_Update MD4_Init xss)) = Some (rfc_digest rfc1320_block (concat xss))" for xss
  proof -
    obtain t where "HASH_FINAL md4_block False digest4 (foldl (HASH_UPDATE md4_block) MD4_Init xss) = (digest4 t, t)"
      "md_h t = md_chain md4_block False (md_h MD4_Init) (concat xss)"
      by (rule md32_digest [OF fresh(1)])
    then show ?thesis
      using digest4_rfc [of t md4_block "concat xss"] by (simp add: MD4_Final_def MD4_Update_def MD4_Init_def md4_block_eq)
  qed
  have b: "fst (MD5_Final (foldl MD5_Update MD5_Init xss)) = Some (rfc_digest rfc1321_block (concat xss))" for xss
  proof -
    obtain t where "HASH_FINAL md5_block False digest4 (foldl (HASH_UPDATE md5_block) MD5_Init xss) = (digest4 t, t)"
      "md_h t = md_chain md5_block False (md_h MD5_Init) (concat xss)"
      by (rule md32_digest [OF fresh(2)])
    then show ?thesis
      using digest4_rfc [of t md5_block "concat xss"] by (simp add: MD5_Final_def MD5_Update_def MD5_Init_def md5_block_eq)
  qed
  show ?thesis
    using a [of pieces] b [of pieces] a [of "[msg]"] b [of "[msg]"] by (simp add: MD4_def MD5_def)
qed

end
