(* ===== verification/Sha.thy ===== *)
theory Sha
  imports Md32
begin

text \<open>
  SHA-1 and SHA-256 (with SHA-224): the C block functions of \<^verbatim>\<open>crypto/fipsmodule/sha/sha1.c\<close> and
  \<^verbatim>\<open>sha256.c\<close> on the collector of theory Md32, and the functions of FIPS 180-4 they implement.
  The code keeps the last sixteen words of the message schedule in a circular buffer; the standard
  defines the whole schedule by recursion. \<open>circular_rounds\<close> relates the two once, for any
  expansion function and word width; SHA-512 (theory Sha512) uses it as well.
\<close>

section \<open>Message schedules\<close>

text \<open>Word \<open>i\<close> of a schedule whose words after the first sixteen depend on the sixteen before them.\<close>

function schedule :: "('w list \<Rightarrow> 'w) \<Rightarrow> 'w list \<Rightarrow> nat \<Rightarrow> 'w" where
  "schedule g M i = (if i < 16 then M ! i else g (map (schedule g M) [i - 16..<i]))"
  by pat_completeness auto
termination
  by (relation "measure (\<lambda>(g, M, i). i)") auto

declare schedule.simps [simp del]

text \<open>The circular buffer: round \<open>i\<close> replaces the word of round \<open>i - 16\<close>, then uses it.\<close>

definition circular :: "('w list \<Rightarrow> 'w) \<Rightarrow> nat \<Rightarrow> 'w list \<Rightarrow> 'w list" where
  "circular g i X = (if i < 16 then X else X[i mod 16 := g (map (\<lambda>j. X ! ((i + j) mod 16)) [0..<16])])"

definition window_ok :: "('w list \<Rightarrow> 'w) \<Rightarrow> 'w list \<Rightarrow> nat \<Rightarrow> 'w list \<Rightarrow> bool" where
  "window_ok g M i X \<longleftrightarrow> length X = 16 \<and> (\<forall>t. t < max 16 i \<longrightarrow> max 16 i \<le> t + 16 \<longrightarrow> X ! (t mod 16) = schedule g M t)"

lemma window_start: "length M = 16 \<Longrightarrow> window_ok g M 0 M"
  by (simp add: window_ok_def schedule.simps)

lemma window_step:
  assumes w: "window_ok g M i X"
  shows "window_ok g M (Suc i) (circular g i X)" and "circular g i X ! (i mod 16) = schedule g M i"
proof -
  have "window_ok g M (Suc i) (circular g i X) \<and> circular g i X ! (i mod 16) = schedule g M i"
  proof (cases "i < 16")
    case True
    then have "max 16 i = 16" "max 16 (Suc i) = 16"
      by simp_all
    then show ?thesis
      using w True by (simp add: window_ok_def circular_def)
  next
    case False
    have X: "X ! ((i + j) mod 16) = schedule g M (i - 16 + j)" if "j < 16" for j
    proof -
      have "(i + j) mod 16 = (i - 16 + j) mod 16"
        using False mod_add_self2 [of "i - 16 + j" 16] by simp
      then show ?thesis
        using w that False by (simp add: window_ok_def)
    qed
    have "map (\<lambda>j. X ! ((i + j) mod 16)) [0..<16] = map (schedule g M) [i - 16..<i]"
      using False by (intro nth_equalityI) (simp_all add: X)
    then have v: "g (map (\<lambda>j. X ! ((i + j) mod 16)) [0..<16]) = schedule g M i"
      using False by (simp add: schedule.simps [of g M i])
    have len: "length X = 16"
      using w by (simp add: window_ok_def)
    have c: "circular g i X = X[i mod 16 := schedule g M i]"
      using False by (simp only: circular_def v if_False)
    have "X[i mod 16 := schedule g M i] ! (t mod 16) = schedule g M t" if t: "t < Suc i" "Suc i \<le> t + 16" for t
    proof (cases "t = i")
      case False
      then have "t < i" "i < t + 16"
        using t by simp_all
      then have "t mod 16 \<noteq> i mod 16"
        using mod_eq_dvd_iff_nat [of t i 16] by (auto dest!: dvd_imp_le)
      then show ?thesis
        using w t False \<open>\<not> i < 16\<close> len by (simp add: window_ok_def)
    qed (simp add: len)
    then show ?thesis
      using False len by (simp add: window_ok_def c)
  qed
  then show "window_ok g M (Suc i) (circular g i X)" "circular g i X ! (i mod 16) = schedule g M i"
    by simp_all
qed

lemma circular_rounds:
  assumes step: "\<And>i X r. i < n \<Longrightarrow> length X = 16 \<Longrightarrow> step (X, r) i = (circular g i X, rnd r i (circular g i X ! (i mod 16)))"
    and M: "length M = 16"
  shows "snd (foldl step (M, r) [0..<n]) = foldl (\<lambda>r i. rnd r i (schedule g M i)) r [0..<n]"
proof -
  have "window_ok g M m (fst (foldl step (M, r) [0..<m])) \<and>
      snd (foldl step (M, r) [0..<m]) = foldl (\<lambda>r i. rnd r i (schedule g M i)) r [0..<m]" if "m \<le> n" for m
    using that
  proof (induction m)
    case 0
    then show ?case by (simp add: window_start M)
  next
    case (Suc m)
    obtain X s where s: "foldl step (M, r) [0..<m] = (X, s)"
      by fastforce
    have w: "window_ok g M m X"
      using Suc s by simp
    then have "step (X, s) m = (circular g m X, rnd s m (circular g m X ! (m mod 16)))"
      using step Suc.prems by (simp add: window_ok_def)
    then show ?case
      using window_step [OF w] Suc s by simp
  qed
  then show ?thesis by blast
qed

section \<open>SHA-1: the code\<close>

type_synonym regs5 = "u32 \<times> u32 \<times> u32 \<times> u32 \<times> u32"

definition K_00_19 :: u32 where "K_00_19 = 0x5a827999"
definition K_20_39 :: u32 where "K_20_39 = 0x6ed9eba1"
definition K_40_59 :: u32 where "K_40_59 = 0x8f1bbcdc"
definition K_60_79 :: u32 where "K_60_79 = 0xca62c1d6"

definition F_00_19 :: "u32 \<Rightarrow> u32 \<Rightarrow> u32 \<Rightarrow> u32" where
  "F_00_19 b c d = ((c XOR d) AND b) XOR d"

definition F_20_39 :: "u32 \<Rightarrow> u32 \<Rightarrow> u32 \<Rightarrow> u32" where
  "F_20_39 b c d = b XOR c XOR d"

definition F_40_59 :: "u32 \<Rightarrow> u32 \<Rightarrow> u32 \<Rightarrow> u32" where
  "F_40_59 b c d = (b AND c) OR ((b OR c) AND d)"

definition F_60_79 :: "u32 \<Rightarrow> u32 \<Rightarrow> u32 \<Rightarrow> u32" where
  "F_60_79 b c d = F_20_39 b c d"

text \<open>
  The macros on the buffer and the five registers that hold a value; the sixth of the code, which
  a step writes, comes first in the result, as the next call names it.
\<close>

definition Xupdate :: "u32 list \<Rightarrow> nat \<Rightarrow> nat \<Rightarrow> nat \<Rightarrow> nat \<Rightarrow> nat \<Rightarrow> u32 \<times> u32 list" where
  "Xupdate X ix ia ib ic idx =
     (let a = X ! ia XOR X ! ib XOR X ! ic XOR X ! idx; a = ROTATE a 1 in (a, X[ix := a]))"

definition BODY_00_15 :: "u32 list \<Rightarrow> regs5 \<Rightarrow> nat \<Rightarrow> u32 list \<times> regs5" where
  "BODY_00_15 X = (\<lambda>(a, b, c, d, e) xi.
     let f = X ! xi + e + K_00_19 + ROTATE a 5 + F_00_19 b c d; b = ROTATE b 30 in (X, f, a, b, c, d))"

definition BODY_16_19 :: "u32 list \<Rightarrow> regs5 \<Rightarrow> nat \<Rightarrow> nat \<Rightarrow> nat \<Rightarrow> nat \<Rightarrow> nat \<Rightarrow> u32 list \<times> regs5" where
  "BODY_16_19 X = (\<lambda>(a, b, c, d, e) xi xa xb xc xd.
     let (f, X) = Xupdate X xi xa xb xc xd;
         f = f + (e + K_00_19 + ROTATE a 5 + F_00_19 b c d); b = ROTATE b 30 in (X, f, a, b, c, d))"

definition BODY_20_31 :: "u32 list \<Rightarrow> regs5 \<Rightarrow> nat \<Rightarrow> nat \<Rightarrow> nat \<Rightarrow> nat \<Rightarrow> nat \<Rightarrow> u32 list \<times> regs5" where
  "BODY_20_31 X = (\<lambda>(a, b, c, d, e) xi xa xb xc xd.
     let (f, X) = Xupdate X xi xa xb xc xd;
         f = f + (e + K_20_39 + ROTATE a 5 + F_20_39 b c d); b = ROTATE b 30 in (X, f, a, b, c, d))"

definition BODY_32_39 :: "u32 list \<Rightarrow> regs5 \<Rightarrow> nat \<Rightarrow> nat \<Rightarrow> nat \<Rightarrow> nat \<Rightarrow> u32 list \<times> regs5" where
  "BODY_32_39 X = (\<lambda>(a, b, c, d, e) xa xb xc xd.
     let (f, X) = Xupdate X xa xa xb xc xd;
         f = f + (e + K_20_39 + ROTATE a 5 + F_20_39 b c d); b = ROTATE b 30 in (X, f, a, b, c, d))"

definition BODY_40_59 :: "u32 list \<Rightarrow> regs5 \<Rightarrow> nat \<Rightarrow> nat \<Rightarrow> nat \<Rightarrow> nat \<Rightarrow> u32 list \<times> regs5" where
  "BODY_40_59 X = (\<lambda>(a, b, c, d, e) xa xb xc xd.
     let (f, X) = Xupdate X xa xa xb xc xd;
         f = f + (e + K_40_59 + ROTATE a 5 + F_40_59 b c d); b = ROTATE b 30 in (X, f, a, b, c, d))"

definition BODY_60_79 :: "u32 list \<Rightarrow> regs5 \<Rightarrow> nat \<Rightarrow> nat \<Rightarrow> nat \<Rightarrow> nat \<Rightarrow> u32 list \<times> regs5" where
  "BODY_60_79 X = (\<lambda>(a, b, c, d, e) xa xb xc xd.
     let (f, X) = Xupdate X xa xa xb xc xd;
         f = X ! xa + e + K_60_79 + ROTATE a 5 + F_60_79 b c d; b = ROTATE b 30 in (X, f, a, b, c, d))"

text \<open>The eighty unrolled calls: call \<open>i\<close> and the indices it passes.\<close>

definition sha1_call :: "u32 list \<times> regs5 \<Rightarrow> nat \<Rightarrow> u32 list \<times> regs5" where
  "sha1_call = (\<lambda>(X, r) i.
     let x = i mod 16; xb = (i + 2) mod 16; xc = (i + 8) mod 16; xd = (i + 13) mod 16 in
     if i < 16 then BODY_00_15 X r x
     else if i < 20 then BODY_16_19 X r x x xb xc xd
     else if i < 32 then BODY_20_31 X r x x xb xc xd
     else if i < 40 then BODY_32_39 X r x xb xc xd
     else if i < 60 then BODY_40_59 X r x xb xc xd
     else BODY_60_79 X r x xb xc xd)"

definition add_regs5 :: "u32 list \<Rightarrow> regs5 \<Rightarrow> u32 list" where
  "add_regs5 state = (\<lambda>(A, B, C, D, E). [state ! 0 + A, state ! 1 + B, state ! 2 + C, state ! 3 + D, state ! 4 + E])"

definition sha1_block :: "u32 list \<Rightarrow> bytes \<Rightarrow> u32 list" where
  "sha1_block state data =
     add_regs5 state (snd (foldl sha1_call
       (block_words True data, (state ! 0, state ! 1, state ! 2, state ! 3, state ! 4)) [0..<80]))"

definition sha1_string :: "'x md32_scheme \<Rightarrow> bytes option" where
  "sha1_string c = Some (HOST_l2c True (md_h c ! 0) @ HOST_l2c True (md_h c ! 1) @ HOST_l2c True (md_h c ! 2) @
     HOST_l2c True (md_h c ! 3) @ HOST_l2c True (md_h c ! 4))"

definition SHA1_Init :: md32 where
  "SHA1_Init = \<lparr>md_h = [0x67452301, 0xefcdab89, 0x98badcfe, 0x10325476, 0xc3d2e1f0], md_Nl = 0, md_Nh = 0,
     md_data = replicate 64 0, md_num = 0\<rparr>"

definition SHA1_Update :: "md32 \<Rightarrow> bytes \<Rightarrow> md32" where
  "SHA1_Update = HASH_UPDATE sha1_block"

definition SHA1_Transform :: "md32 \<Rightarrow> bytes \<Rightarrow> md32" where
  "SHA1_Transform = HASH_TRANSFORM sha1_block"

definition SHA1_Final :: "md32 \<Rightarrow> bytes option \<times> md32" where
  "SHA1_Final = HASH_FINAL sha1_block True sha1_string"

definition SHA1 :: "bytes \<Rightarrow> bytes option" where
  "SHA1 data = (let ctx = SHA1_Init; ctx = SHA1_Update ctx data in fst (SHA1_Final ctx))"

section \<open>SHA-256 and SHA-224: the code\<close>

type_synonym 'w regs8 = "'w \<times> 'w \<times> 'w \<times> 'w \<times> 'w \<times> 'w \<times> 'w \<times> 'w"

record sha256_ctx = md32 +
  md_len :: nat

definition SHA224_DIGEST_LENGTH :: nat where "SHA224_DIGEST_LENGTH = 28"
definition SHA256_DIGEST_LENGTH :: nat where "SHA256_DIGEST_LENGTH = 32"

definition K256 :: "u32 list" where
  "K256 = concat
   [[0x428a2f98, 0x71374491, 0xb5c0fbcf, 0xe9b5dba5],
    [0x3956c25b, 0x59f111f1, 0x923f82a4, 0xab1c5ed5],
    [0xd807aa98, 0x12835b01, 0x243185be, 0x550c7dc3],
    [0x72be5d74, 0x80deb1fe, 0x9bdc06a7, 0xc19bf174],
    [0xe49b69c1, 0xefbe4786, 0x0fc19dc6, 0x240ca1cc],
    [0x2de92c6f, 0x4a7484aa, 0x5cb0a9dc, 0x76f988da],
    [0x983e5152, 0xa831c66d, 0xb00327c8, 0xbf597fc7],
    [0xc6e00bf3, 0xd5a79147, 0x06ca6351, 0x14292967],
    [0x27b70a85, 0x2e1b2138, 0x4d2c6dfc, 0x53380d13],
    [0x650a7354, 0x766a0abb, 0x81c2c92e, 0x92722c85],
    [0xa2bfe8a1, 0xa81a664b, 0xc24b8b70, 0xc76c51a3],
    [0xd192e819, 0xd6990624, 0xf40e3585, 0x106aa070],
    [0x19a4c116, 0x1e376c08, 0x2748774c, 0x34b0bcb5],
    [0x391c0cb3, 0x4ed8aa4a, 0x5b9cca4f, 0x682e6ff3],
    [0x748f82ee, 0x78a5636f, 0x84c87814, 0x8cc70208],
    [0x90befffa, 0xa4506ceb, 0xbef9a3f7, 0xc67178f2]]"

definition sha256_Sigma0 :: "u32 \<Rightarrow> u32" where
  "sha256_Sigma0 x = ROTATE x 30 XOR ROTATE x 19 XOR ROTATE x 10"

definition sha256_Sigma1 :: "u32 \<Rightarrow> u32" where
  "sha256_Sigma1 x = ROTATE x 26 XOR ROTATE x 21 XOR ROTATE x 7"

definition sha256_sigma0 :: "u32 \<Rightarrow> u32" where
  "sha256_sigma0 x = ROTATE x 25 XOR ROTATE x 14 XOR drop_bit 3 x"

definition sha256_sigma1 :: "u32 \<Rightarrow> u32" where
  "sha256_sigma1 x = ROTATE x 15 XOR ROTATE x 13 XOR drop_bit 10 x"

definition Ch :: "'a::len word \<Rightarrow> 'a word \<Rightarrow> 'a word \<Rightarrow> 'a word" where
  "Ch x y z = (x AND y) XOR (NOT x AND z)"

definition Maj :: "'a::len word \<Rightarrow> 'a word \<Rightarrow> 'a word \<Rightarrow> 'a word" where
  "Maj x y z = (x AND y) XOR (x AND z) XOR (y AND z)"

definition sha256_ROUND_00_15 :: "u32 \<Rightarrow> nat \<Rightarrow> u32 regs8 \<Rightarrow> u32 regs8" where
  "sha256_ROUND_00_15 T1 i = (\<lambda>(a, b, c, d, e, f, g, h).
     let T1 = T1 + (h + sha256_Sigma1 e + Ch e f g + K256 ! i);
         h = sha256_Sigma0 a + Maj a b c;
         d = d + T1;
         h = h + T1
     in (h, a, b, c, d, e, f, g))"

definition sha256_ROUND_16_63 :: "nat \<Rightarrow> u32 list \<times> u32 regs8 \<Rightarrow> u32 list \<times> u32 regs8" where
  "sha256_ROUND_16_63 i = (\<lambda>(X, r).
     let s0 = X ! ((i + 1) AND 0x0f);
         s0 = sha256_sigma0 s0;
         s1 = X ! ((i + 14) AND 0x0f);
         s1 = sha256_sigma1 s1;
         T1 = X ! (i AND 0x0f) + (s0 + s1 + X ! ((i + 9) AND 0x0f));
         X = X[i AND 0x0f := T1]
     in (X, sha256_ROUND_00_15 T1 i r))"

definition sha256_call :: "u32 list \<times> u32 regs8 \<Rightarrow> nat \<Rightarrow> u32 list \<times> u32 regs8" where
  "sha256_call = (\<lambda>(X, r) i. if i < 16 then (X, sha256_ROUND_00_15 (X ! i) i r) else sha256_ROUND_16_63 i (X, r))"

definition regs8 :: "'w list \<Rightarrow> 'w regs8" where
  "regs8 s = (s ! 0, s ! 1, s ! 2, s ! 3, s ! 4, s ! 5, s ! 6, s ! 7)"

definition add_regs8 :: "'a::len word list \<Rightarrow> 'a word regs8 \<Rightarrow> 'a word list" where
  "add_regs8 s = (\<lambda>(a, b, c, d, e, f, g, h).
     [s ! 0 + a, s ! 1 + b, s ! 2 + c, s ! 3 + d, s ! 4 + e, s ! 5 + f, s ! 6 + g, s ! 7 + h])"

definition sha256_block :: "u32 list \<Rightarrow> bytes \<Rightarrow> u32 list" where
  "sha256_block state data =
     add_regs8 state (snd (foldl sha256_call (block_words True data, regs8 state) [0..<64]))"

definition SHA256_TransformBlocks :: "u32 list \<Rightarrow> bytes \<Rightarrow> nat \<Rightarrow> u32 list" where
  "SHA256_TransformBlocks state data num_blocks = HASH_BLOCK_DATA_ORDER sha256_block state data num_blocks"

definition sha256_string :: "sha256_ctx \<Rightarrow> bytes option" where
  "sha256_string c =
    (let words = (\<lambda>n. concat (map (\<lambda>nn. HOST_l2c True (md_h c ! nn)) [0..<n])) in
     if md_len c = SHA224_DIGEST_LENGTH then Some (words (SHA224_DIGEST_LENGTH div 4))
     else if md_len c = SHA256_DIGEST_LENGTH then Some (words (SHA256_DIGEST_LENGTH div 4))
     else if md_len c > SHA256_DIGEST_LENGTH then None
     else Some (words (md_len c div 4)))"

definition SHA224_Init :: sha256_ctx where
  "SHA224_Init = \<lparr>md_h = [0xc1059ed8, 0x367cd507, 0x3070dd17, 0xf70e5939, 0xffc00b31, 0x68581511, 0x64f98fa7, 0xbefa4fa4],
     md_Nl = 0, md_Nh = 0, md_data = replicate 64 0, md_num = 0, md_len = SHA224_DIGEST_LENGTH\<rparr>"

definition SHA256_Init :: sha256_ctx where
  "SHA256_Init = \<lparr>md_h = [0x6a09e667, 0xbb67ae85, 0x3c6ef372, 0xa54ff53a, 0x510e527f, 0x9b05688c, 0x1f83d9ab, 0x5be0cd19],
     md_Nl = 0, md_Nh = 0, md_data = replicate 64 0, md_num = 0, md_len = SHA256_DIGEST_LENGTH\<rparr>"

definition SHA256_Update :: "sha256_ctx \<Rightarrow> bytes \<Rightarrow> sha256_ctx" where
  "SHA256_Update = HASH_UPDATE sha256_block"

definition SHA256_Transform :: "sha256_ctx \<Rightarrow> bytes \<Rightarrow> sha256_ctx" where
  "SHA256_Transform = HASH_TRANSFORM sha256_block"

definition SHA256_Final :: "sha256_ctx \<Rightarrow> bytes option \<times> sha256_ctx" where
  "SHA256_Final = HASH_FINAL sha256_block True sha256_string"

definition SHA224_Update :: "sha256_ctx \<Rightarrow> bytes \<Rightarrow> sha256_ctx" where
  "SHA224_Update ctx data = SHA256_Update ctx data"

definition SHA224_Final :: "sha256_ctx \<Rightarrow> bytes option \<times> sha256_ctx" where
  "SHA224_Final ctx = SHA256_Final ctx"

definition SHA224 :: "bytes \<Rightarrow> bytes option" where
  "SHA224 data = (let ctx = SHA224_Init; ctx = SHA224_Update ctx data in fst (SHA224_Final ctx))"

definition SHA256 :: "bytes \<Rightarrow> bytes option" where
  "SHA256 data = (let ctx = SHA256_Init; ctx = SHA256_Update ctx data in fst (SHA256_Final ctx))"

section \<open>The standard\<close>

text \<open>FIPS 180-4: the functions of section 4.1, the schedules and rounds of sections 6.1.2 and 6.2.2.\<close>

definition fips_Parity :: "u32 \<Rightarrow> u32 \<Rightarrow> u32 \<Rightarrow> u32" where
  "fips_Parity x y z = x XOR y XOR z"

definition fips_f :: "nat \<Rightarrow> u32 \<Rightarrow> u32 \<Rightarrow> u32 \<Rightarrow> u32" where
  "fips_f t = (if t < 20 then Ch else if t < 40 then fips_Parity else if t < 60 then Maj else fips_Parity)"

definition fips_K1 :: "nat \<Rightarrow> u32" where
  "fips_K1 t = (if t < 20 then 0x5a827999 else if t < 40 then 0x6ed9eba1 else if t < 60 then 0x8f1bbcdc else 0xca62c1d6)"

definition fips_sha1_word :: "u32 list \<Rightarrow> u32" where
  "fips_sha1_word w = word_rotl 1 (w ! 13 XOR w ! 8 XOR w ! 2 XOR w ! 0)"

definition fips_sha1_round :: "regs5 \<Rightarrow> nat \<Rightarrow> u32 \<Rightarrow> regs5" where
  "fips_sha1_round = (\<lambda>(a, b, c, d, e) t w.
     (word_rotl 5 a + fips_f t b c d + e + fips_K1 t + w, a, word_rotl 30 b, c, d))"

definition fips_sha1_block :: "u32 list \<Rightarrow> bytes \<Rightarrow> u32 list" where
  "fips_sha1_block h m =
     add_regs5 h (foldl (\<lambda>r t. fips_sha1_round r t (schedule fips_sha1_word (block_words True m) t))
       (h ! 0, h ! 1, h ! 2, h ! 3, h ! 4) [0..<80])"

definition fips_Sigma0 :: "u32 \<Rightarrow> u32" where
  "fips_Sigma0 x = word_rotr 2 x XOR word_rotr 13 x XOR word_rotr 22 x"

definition fips_Sigma1 :: "u32 \<Rightarrow> u32" where
  "fips_Sigma1 x = word_rotr 6 x XOR word_rotr 11 x XOR word_rotr 25 x"

definition fips_sigma0 :: "u32 \<Rightarrow> u32" where
  "fips_sigma0 x = word_rotr 7 x XOR word_rotr 18 x XOR drop_bit 3 x"

definition fips_sigma1 :: "u32 \<Rightarrow> u32" where
  "fips_sigma1 x = word_rotr 17 x XOR word_rotr 19 x XOR drop_bit 10 x"

definition fips_sha256_word :: "u32 list \<Rightarrow> u32" where
  "fips_sha256_word w = fips_sigma1 (w ! 14) + w ! 9 + fips_sigma0 (w ! 1) + w ! 0"

definition fips_sha256_round :: "u32 regs8 \<Rightarrow> nat \<Rightarrow> u32 \<Rightarrow> u32 regs8" where
  "fips_sha256_round = (\<lambda>(a, b, c, d, e, f, g, h) t w.
     let T1 = h + fips_Sigma1 e + Ch e f g + K256 ! t + w; T2 = fips_Sigma0 a + Maj a b c
     in (T1 + T2, a, b, c, d + T1, e, f, g))"

definition fips_sha256_block :: "u32 list \<Rightarrow> bytes \<Rightarrow> u32 list" where
  "fips_sha256_block h m =
     add_regs8 h (foldl (\<lambda>r t. fips_sha256_round r t (schedule fips_sha256_word (block_words True m) t)) (regs8 h) [0..<64])"

definition fips_digest :: "(u32 list \<Rightarrow> bytes \<Rightarrow> u32 list) \<Rightarrow> u32 list \<Rightarrow> nat \<Rightarrow> bytes \<Rightarrow> bytes" where
  "fips_digest block h n msg = concat (map (\<lambda>i. HOST_l2c True (md_chain block True h msg ! i)) [0..<n])"

section \<open>The code implements the standard\<close>

lemma sha1_functions: "F_00_19 = Ch" "F_20_39 = fips_Parity" "F_40_59 = Maj" "F_60_79 = fips_Parity"
  by (intro ext bit_word_eqI, auto simp: F_00_19_def F_20_39_def F_40_59_def F_60_79_def fips_Parity_def Ch_def Maj_def bit_simps)+

lemma Xupdate_circular:
  assumes "16 \<le> i" "length X = 16"
  shows "Xupdate X (i mod 16) (i mod 16) ((i + 2) mod 16) ((i + 8) mod 16) ((i + 13) mod 16) =
    (circular fips_sha1_word i X ! (i mod 16), circular fips_sha1_word i X)"
  using assms by (simp add: Xupdate_def circular_def fips_sha1_word_def ROTATE_rotl ac_simps Let_def)

lemma sha1_call_circular:
  assumes "i < 80" and "length X = 16"
  shows "sha1_call (X, r) i = (circular fips_sha1_word i X, fips_sha1_round r i (circular fips_sha1_word i X ! (i mod 16)))"
proof -
  obtain a b c d e where r: "r = (a, b, c, d, e)"
    by (rule prod_cases5)
  note defs = sha1_call_def fips_sha1_round_def fips_f_def fips_K1_def K_00_19_def K_20_39_def K_40_59_def K_60_79_def
    sha1_functions ROTATE_rotl
  consider "i < 16" | "16 \<le> i" "i < 20" | "20 \<le> i" "i < 32" | "32 \<le> i" "i < 40" | "40 \<le> i" "i < 60" | "60 \<le> i"
    by linarith
  then show ?thesis
  proof cases
    case 1
    then show ?thesis by (simp add: r defs BODY_00_15_def circular_def add_ac Let_def)
  next
    case 2
    then show ?thesis by (simp add: r defs BODY_16_19_def Xupdate_circular assms add_ac Let_def del: add_2_eq_Suc')
  next
    case 3
    then show ?thesis by (simp add: r defs BODY_20_31_def Xupdate_circular assms add_ac Let_def del: add_2_eq_Suc')
  next
    case 4
    then show ?thesis by (simp add: r defs BODY_32_39_def Xupdate_circular assms add_ac Let_def del: add_2_eq_Suc')
  next
    case 5
    then show ?thesis by (simp add: r defs BODY_40_59_def Xupdate_circular assms add_ac Let_def del: add_2_eq_Suc')
  next
    case 6
    then show ?thesis by (simp add: r defs BODY_60_79_def Xupdate_circular assms add_ac Let_def del: add_2_eq_Suc')
  qed
qed

lemma length_block_words [simp]: "length (block_words big m) = 16"
  by (simp add: block_words_def)

lemma sha1_block_eq: "sha1_block = fips_sha1_block"
proof (intro ext)
  fix h m
  have "snd (foldl sha1_call (block_words True m, r) [0..<80]) =
      foldl (\<lambda>r t. fips_sha1_round r t (schedule fips_sha1_word (block_words True m) t)) r [0..<80]" for r
    by (rule circular_rounds [OF sha1_call_circular]) simp_all
  then show "sha1_block h m = fips_sha1_block h m"
    by (simp only: sha1_block_def fips_sha1_block_def)
qed

lemma rotr_rotl: "0 < n \<Longrightarrow> n < 32 \<Longrightarrow> word_rotr n (x :: u32) = word_rotl (32 - n) x"
  by (simp add: word_rotl_eq_word_rotr)

lemma sha256_functions:
  "sha256_Sigma0 = fips_Sigma0" "sha256_Sigma1 = fips_Sigma1" "sha256_sigma0 = fips_sigma0" "sha256_sigma1 = fips_sigma1"
  by (intro ext, simp add: sha256_Sigma0_def sha256_Sigma1_def sha256_sigma0_def sha256_sigma1_def fips_Sigma0_def fips_Sigma1_def
      fips_sigma0_def fips_sigma1_def rotr_rotl ROTATE_rotl)+

lemma and_0x0f: "(i :: nat) AND 0x0f = i mod 16"
  using take_bit_eq_mask [of 4 i] by (simp add: take_bit_eq_mod mask_eq_exp_minus_1)

lemma sha256_call_circular:
  assumes "length X = 16"
  shows "sha256_call (X, r) i = (circular fips_sha256_word i X, fips_sha256_round r i (circular fips_sha256_word i X ! (i mod 16)))"
proof -
  obtain a b c d e f g h where r: "r = (a, b, c, d, e, f, g, h)"
    by (metis surj_pair)
  have round: "sha256_ROUND_00_15 w i r = fips_sha256_round r i w" for w
    by (simp add: r sha256_ROUND_00_15_def fips_sha256_round_def Let_def sha256_functions add_ac)
  show ?thesis
  proof (cases "i < 16")
    case True
    then show ?thesis by (simp add: sha256_call_def circular_def round)
  next
    case False
    have "X ! (i mod 16) + (fips_sigma0 (X ! ((i + 1) mod 16)) + fips_sigma1 (X ! ((i + 14) mod 16)) + X ! ((i + 9) mod 16)) =
        fips_sha256_word (map (\<lambda>j. X ! ((i + j) mod 16)) [0..<16])"
      by (simp add: fips_sha256_word_def add_ac)
    then have "X[i mod 16 := X ! (i mod 16) + (fips_sigma0 (X ! ((i + 1) mod 16)) + fips_sigma1 (X ! ((i + 14) mod 16)) + X ! ((i + 9) mod 16))] =
        circular fips_sha256_word i X"
      using False by (simp only: circular_def if_False)
    with False assms show ?thesis
      by (simp add: sha256_call_def sha256_ROUND_16_63_def Let_def and_0x0f sha256_functions round)
        (metis length_list_update mod_less_divisor nth_list_update_eq zero_less_numeral)
  qed
qed

lemma sha256_block_eq: "sha256_block = fips_sha256_block"
proof (intro ext)
  fix h m
  have "snd (foldl sha256_call (block_words True m, r) [0..<64]) =
      foldl (\<lambda>r t. fips_sha256_round r t (schedule fips_sha256_word (block_words True m) t)) r [0..<64]" for r
    by (rule circular_rounds [OF sha256_call_circular]) simp_all
  then show "sha256_block h m = fips_sha256_block h m"
    by (simp only: sha256_block_def fips_sha256_block_def)
qed

section \<open>Digests\<close>

lemma sha1_string_fips: "md_h t = md_chain block True h msg \<Longrightarrow> sha1_string t = Some (fips_digest block h 5 msg)"
  by (simp add: sha1_string_def fips_digest_def eval_nat_numeral)

lemma sha256_string_fips:
  "md_h t = md_chain block True h msg \<Longrightarrow> md_len t = SHA256_DIGEST_LENGTH \<Longrightarrow> sha256_string t = Some (fips_digest block h 8 msg)"
  "md_h t = md_chain block True h msg \<Longrightarrow> md_len t = SHA224_DIGEST_LENGTH \<Longrightarrow> sha256_string t = Some (fips_digest block h 7 msg)"
  by (simp_all add: sha256_string_def fips_digest_def SHA224_DIGEST_LENGTH_def SHA256_DIGEST_LENGTH_def)

text \<open>Fed in pieces of any sizes, and by the one-shot call, SHA-1 gives the digest FIPS 180-4 defines for the whole message, with its full schedule of eighty words where the code keeps sixteen.\<close>

theorem sha1_is_fips:
  "fst (SHA1_Final (foldl SHA1_Update SHA1_Init pieces)) = Some (fips_digest fips_sha1_block (md_h SHA1_Init) 5 (concat pieces)) \<and>
   SHA1 msg = Some (fips_digest fips_sha1_block (md_h SHA1_Init) 5 msg)"
proof -
  have fresh: "md32_fresh SHA1_Init"
    by (simp add: md32_fresh_def SHA1_Init_def)
  have a: "fst (SHA1_Final (foldl SHA1_Update SHA1_Init xss)) = Some (fips_digest fips_sha1_block (md_h SHA1_Init) 5 (concat xss))" for xss
  proof -
    obtain t where "HASH_FINAL sha1_block True sha1_string (foldl (HASH_UPDATE sha1_block) SHA1_Init xss) = (sha1_string t, t)"
      "md_h t = md_chain sha1_block True (md_h SHA1_Init) (concat xss)"
      by (rule md32_digest [OF fresh])
    then show ?thesis
      using sha1_string_fips [of t] by (simp add: SHA1_Final_def SHA1_Update_def sha1_block_eq)
  qed
  show ?thesis
    using a [of pieces] a [of "[msg]"] by (simp add: SHA1_def)
qed

lemma sha256_pieces:
  assumes "md32_fresh c" "md_len c = SHA256_DIGEST_LENGTH \<and> n = 8 \<or> md_len c = SHA224_DIGEST_LENGTH \<and> n = 7"
  shows "fst (SHA256_Final (foldl SHA256_Update c xss)) = Some (fips_digest fips_sha256_block (md_h c) n (concat xss))"
proof -
  obtain t where t: "HASH_FINAL sha256_block True sha256_string (foldl (HASH_UPDATE sha256_block) c xss) = (sha256_string t, t)"
    "md32.more t = md32.more c" "md_h t = md_chain sha256_block True (md_h c) (concat xss)"
    by (rule md32_digest [OF assms(1)])
  have "md_len t = md_len c"
    using t(2) by (cases t; cases c) simp
  then show ?thesis
    using sha256_string_fips [OF t(3)] t(1) assms(2) by (auto simp: SHA256_Final_def SHA256_Update_def sha256_block_eq)
qed

text \<open>The same for SHA-256 and SHA-224, which differ in the initial value and in how much of the result is written out.\<close>

theorem sha256_is_fips:
  "fst (SHA256_Final (foldl SHA256_Update SHA256_Init pieces)) = Some (fips_digest fips_sha256_block (md_h SHA256_Init) 8 (concat pieces)) \<and>
   fst (SHA224_Final (foldl SHA224_Update SHA224_Init pieces)) = Some (fips_digest fips_sha256_block (md_h SHA224_Init) 7 (concat pieces)) \<and>
   SHA256 msg = Some (fips_digest fips_sha256_block (md_h SHA256_Init) 8 msg) \<and>
   SHA224 msg = Some (fips_digest fips_sha256_block (md_h SHA224_Init) 7 msg)"
proof -
  have "md32_fresh SHA256_Init" "md_len SHA256_Init = SHA256_DIGEST_LENGTH"
    "md32_fresh SHA224_Init" "md_len SHA224_Init = SHA224_DIGEST_LENGTH"
    by (simp_all add: md32_fresh_def SHA256_Init_def SHA224_Init_def)
  moreover have "SHA224_Update = SHA256_Update" "SHA224_Final = SHA256_Final"
    by (intro ext, simp add: SHA224_Update_def SHA224_Final_def)+
  ultimately show ?thesis
    using sha256_pieces [of SHA256_Init 8 pieces] sha256_pieces [of SHA224_Init 7 pieces]
      sha256_pieces [of SHA256_Init 8 "[msg]"] sha256_pieces [of SHA224_Init 7 "[msg]"]
    by (simp add: SHA256_def SHA224_def)
qed

end
