(* ===== verification/Sha512.thy ===== *)
theory Sha512
  imports Sha Cbs
begin

text \<open>
  SHA-512 and SHA-384, \<^verbatim>\<open>crypto/fipsmodule/sha/sha512.c\<close>: the C block function for 64-bit
  machines and the collector, which is its own because its blocks are 128 bytes and its counters
  64 bits wide, and the functions of FIPS 180-4 they implement. The rotations are the ones the
  code takes from the processor where it can.
\<close>

section \<open>The block function\<close>

definition K512 :: "u64 list" where
  "K512 = concat
   [[0x428a2f98d728ae22, 0x7137449123ef65cd, 0xb5c0fbcfec4d3b2f, 0xe9b5dba58189dbbc],
    [0x3956c25bf348b538, 0x59f111f1b605d019, 0x923f82a4af194f9b, 0xab1c5ed5da6d8118],
    [0xd807aa98a3030242, 0x12835b0145706fbe, 0x243185be4ee4b28c, 0x550c7dc3d5ffb4e2],
    [0x72be5d74f27b896f, 0x80deb1fe3b1696b1, 0x9bdc06a725c71235, 0xc19bf174cf692694],
    [0xe49b69c19ef14ad2, 0xefbe4786384f25e3, 0x0fc19dc68b8cd5b5, 0x240ca1cc77ac9c65],
    [0x2de92c6f592b0275, 0x4a7484aa6ea6e483, 0x5cb0a9dcbd41fbd4, 0x76f988da831153b5],
    [0x983e5152ee66dfab, 0xa831c66d2db43210, 0xb00327c898fb213f, 0xbf597fc7beef0ee4],
    [0xc6e00bf33da88fc2, 0xd5a79147930aa725, 0x06ca6351e003826f, 0x142929670a0e6e70],
    [0x27b70a8546d22ffc, 0x2e1b21385c26c926, 0x4d2c6dfc5ac42aed, 0x53380d139d95b3df],
    [0x650a73548baf63de, 0x766a0abb3c77b2a8, 0x81c2c92e47edaee6, 0x92722c851482353b],
    [0xa2bfe8a14cf10364, 0xa81a664bbc423001, 0xc24b8b70d0f89791, 0xc76c51a30654be30],
    [0xd192e819d6ef5218, 0xd69906245565a910, 0xf40e35855771202a, 0x106aa07032bbd1b8],
    [0x19a4c116b8d2d0c8, 0x1e376c085141ab53, 0x2748774cdf8eeb99, 0x34b0bcb5e19b48a8],
    [0x391c0cb3c5c95a63, 0x4ed8aa4ae3418acb, 0x5b9cca4f7763e373, 0x682e6ff3d6b2b8a3],
    [0x748f82ee5defb2fc, 0x78a5636f43172f60, 0x84c87814a1f0ab72, 0x8cc702081a6439ec],
    [0x90befffa23631e28, 0xa4506cebde82bde9, 0xbef9a3f7b2c67915, 0xc67178f2e372532b],
    [0xca273eceea26619c, 0xd186b8c721c0c207, 0xeada7dd6cde0eb1e, 0xf57d4f7fee6ed178],
    [0x06f067aa72176fba, 0x0a637dc5a2c898a6, 0x113f9804bef90dae, 0x1b710b35131c471b],
    [0x28db77f523047d84, 0x32caab7b40c72493, 0x3c9ebe0a15c9bebc, 0x431d67c49c100d4c],
    [0x4cc5d4becb3e42b6, 0x597f299cfc657e2a, 0x5fcb6fab3ad6faec, 0x6c44198c4a475817]]"

definition ROTR :: "u64 \<Rightarrow> nat \<Rightarrow> u64" where
  "ROTR x s = drop_bit s x OR push_bit (64 - s) x"

text \<open>Eight bytes as the little-endian machine loads them.\<close>

definition load_u64 :: "bytes \<Rightarrow> u64" where
  "load_u64 ptr = ucast (HOST_c2l False ptr) OR push_bit 32 (ucast (HOST_c2l False (drop 4 ptr)))"

definition load_u64_be :: "bytes \<Rightarrow> u64" where
  "load_u64_be ptr = CRYPTO_bswap8 (load_u64 ptr)"

definition sha512_Sigma0 :: "u64 \<Rightarrow> u64" where
  "sha512_Sigma0 x = ROTR x 28 XOR ROTR x 34 XOR ROTR x 39"

definition sha512_Sigma1 :: "u64 \<Rightarrow> u64" where
  "sha512_Sigma1 x = ROTR x 14 XOR ROTR x 18 XOR ROTR x 41"

definition sha512_sigma0 :: "u64 \<Rightarrow> u64" where
  "sha512_sigma0 x = ROTR x 1 XOR ROTR x 8 XOR drop_bit 7 x"

definition sha512_sigma1 :: "u64 \<Rightarrow> u64" where
  "sha512_sigma1 x = ROTR x 19 XOR ROTR x 61 XOR drop_bit 6 x"

definition sha512_ROUND_00_15 :: "u64 \<Rightarrow> nat \<Rightarrow> u64 regs8 \<Rightarrow> u64 regs8" where
  "sha512_ROUND_00_15 T1 i = (\<lambda>(a, b, c, d, e, f, g, h).
     let T1 = T1 + (h + sha512_Sigma1 e + Ch e f g + K512 ! i);
         h = sha512_Sigma0 a + Maj a b c;
         d = d + T1;
         h = h + T1
     in (h, a, b, c, d, e, f, g))"

definition sha512_ROUND_16_80 :: "nat \<Rightarrow> nat \<Rightarrow> u64 list \<times> u64 regs8 \<Rightarrow> u64 list \<times> u64 regs8" where
  "sha512_ROUND_16_80 i j = (\<lambda>(X, r).
     let s0 = X ! ((j + 1) AND 0x0f);
         s0 = sha512_sigma0 s0;
         s1 = X ! ((j + 14) AND 0x0f);
         s1 = sha512_sigma1 s1;
         T1 = X ! (j AND 0x0f) + (s0 + s1 + X ! ((j + 9) AND 0x0f));
         X = X[j AND 0x0f := T1]
     in (X, sha512_ROUND_00_15 T1 (i + j) r))"

text \<open>The unrolled first sixteen calls, and the loop over \<open>i = 16, 32, 48, 64\<close> with sixteen calls in its body.\<close>

definition sha512_block :: "u64 list \<Rightarrow> bytes \<Rightarrow> u64 list" where
  "sha512_block state data =
     (let X = map (\<lambda>i. load_u64_be (drop (i * 8) data)) [0..<16];
          r = foldl (\<lambda>r i. sha512_ROUND_00_15 (X ! i) i r) (regs8 state) [0..<16];
          (X, r) = foldl (\<lambda>s i. foldl (\<lambda>s j. sha512_ROUND_16_80 i j s) s [0..<16]) (X, r) [16, 32, 48, 64]
      in add_regs8 state r)"

definition sha512_block_data_order :: "u64 list \<Rightarrow> bytes \<Rightarrow> nat \<Rightarrow> u64 list" where
  "sha512_block_data_order state data num =
     foldl (\<lambda>state i. sha512_block state (take (16 * 8) (drop (i * (16 * 8)) data))) state [0..<num]"

section \<open>The collector\<close>

definition SHA384_DIGEST_LENGTH :: nat where "SHA384_DIGEST_LENGTH = 48"
definition SHA512_DIGEST_LENGTH :: nat where "SHA512_DIGEST_LENGTH = 64"
definition sizeof_p :: nat where "sizeof_p = 128"

record sha512_ctx =
  s_h :: "u64 list"
  s_Nl :: u64
  s_Nh :: u64
  s_p :: bytes
  s_num :: nat
  s_md_len :: nat

definition SHA384_Init :: "sha512_ctx \<Rightarrow> sha512_ctx" where
  "SHA384_Init sha = sha\<lparr>s_h := [0xcbbb9d5dc1059ed8, 0x629a292a367cd507, 0x9159015a3070dd17, 0x152fecd8f70e5939,
     0x67332667ffc00b31, 0x8eb44a8768581511, 0xdb0c2e0d64f98fa7, 0x47b5481dbefa4fa4],
     s_Nl := 0, s_Nh := 0, s_num := 0, s_md_len := SHA384_DIGEST_LENGTH\<rparr>"

definition SHA512_Init :: "sha512_ctx \<Rightarrow> sha512_ctx" where
  "SHA512_Init sha = sha\<lparr>s_h := [0x6a09e667f3bcc908, 0xbb67ae8584caa73b, 0x3c6ef372fe94f82b, 0xa54ff53a5f1d36f1,
     0x510e527fade682d1, 0x9b05688c2b3e6c1f, 0x1f83d9abfb41bd6b, 0x5be0cd19137e2179],
     s_Nl := 0, s_Nh := 0, s_num := 0, s_md_len := SHA512_DIGEST_LENGTH\<rparr>"

definition SHA512_Transform :: "sha512_ctx \<Rightarrow> bytes \<Rightarrow> sha512_ctx" where
  "SHA512_Transform c block = c\<lparr>s_h := sha512_block_data_order (s_h c) block 1\<rparr>"

text \<open>The part of \<open>SHA512_Update\<close> that runs with nothing buffered.\<close>

definition sha512_whole_blocks :: "sha512_ctx \<Rightarrow> bytes \<Rightarrow> sha512_ctx" where
  "sha512_whole_blocks c data =
     (let len = length data;
          (c, data) =
            (if len \<ge> sizeof_p then
               (c\<lparr>s_h := sha512_block_data_order (s_h c) data (len div sizeof_p)\<rparr>, drop (len - len mod sizeof_p) data)
             else (c, data))
      in if length data \<noteq> 0 then c\<lparr>s_p := write_at 0 data (s_p c), s_num := length data\<rparr> else c)"

definition SHA512_Update :: "sha512_ctx \<Rightarrow> bytes \<Rightarrow> sha512_ctx" where
  "SHA512_Update c data =
    (let len = length data in
     if len = 0 then c
     else
       let l = (s_Nl c + push_bit 3 (word_of_nat len)) AND 0xffffffffffffffff;
           Nh = (if l < s_Nl c then s_Nh c + 1 else s_Nh c);
           Nh = Nh + word_of_nat (drop_bit 61 len);
           c = c\<lparr>s_Nh := Nh, s_Nl := l\<rparr>
       in
       if s_num c \<noteq> 0 then
         let n = sizeof_p - s_num c in
         if len < n then c\<lparr>s_p := write_at (s_num c) data (s_p c), s_num := s_num c + len\<rparr>
         else
           let c = c\<lparr>s_p := write_at (s_num c) (take n data) (s_p c), s_num := 0\<rparr>;
               c = c\<lparr>s_h := sha512_block_data_order (s_h c) (s_p c) 1\<rparr>
           in sha512_whole_blocks c (drop n data)
       else sha512_whole_blocks c data)"

definition SHA384_Update :: "sha512_ctx \<Rightarrow> bytes \<Rightarrow> sha512_ctx" where
  "SHA384_Update sha data = SHA512_Update sha data"

text \<open>The bytes of a word, most significant first.\<close>

definition u64_bytes :: "u64 \<Rightarrow> bytes" where
  "u64_bytes t = [ucast (drop_bit 56 t), ucast (drop_bit 48 t), ucast (drop_bit 40 t), ucast (drop_bit 32 t),
     ucast (drop_bit 24 t), ucast (drop_bit 16 t), ucast (drop_bit 8 t), ucast t]"

text \<open>The switch over the digest length.\<close>

definition sha512_string :: "sha512_ctx \<Rightarrow> bytes option" where
  "sha512_string sha =
     (if s_md_len sha = SHA384_DIGEST_LENGTH then
        Some (concat (map (\<lambda>n. u64_bytes (s_h sha ! n)) [0..<SHA384_DIGEST_LENGTH div 8]))
      else if s_md_len sha = SHA512_DIGEST_LENGTH then
        Some (concat (map (\<lambda>n. u64_bytes (s_h sha ! n)) [0..<SHA512_DIGEST_LENGTH div 8]))
      else None)"

text \<open>\<open>out\<close> tells whether the output pointer is non-null.\<close>

definition SHA512_Final :: "bool \<Rightarrow> sha512_ctx \<Rightarrow> bytes option \<times> sha512_ctx" where
  "SHA512_Final out sha =
    (let n = s_num sha;
         p = (s_p sha)[n := 0x80];
         n = n + 1;
         (sha, p, n) =
           (if n > sizeof_p - 16 then
              let p = write_at n (replicate (sizeof_p - n) 0) p
              in (sha\<lparr>s_h := sha512_block_data_order (s_h sha) p 1\<rparr>, p, 0)
            else (sha, p, n));
         p = write_at n (replicate (sizeof_p - 16 - n) 0) p;
         p = write_at (sizeof_p - 16) (u64_bytes (s_Nh sha) @ u64_bytes (s_Nl sha)) p;
         sha = sha\<lparr>s_h := sha512_block_data_order (s_h sha) p 1, s_p := p\<rparr>
     in (if out then sha512_string sha else None, sha))"

definition SHA384_Final :: "bool \<Rightarrow> sha512_ctx \<Rightarrow> bytes option \<times> sha512_ctx" where
  "SHA384_Final out sha = SHA512_Final out sha"

text \<open>The one-shot functions start from a context on the stack, of any contents.\<close>

definition SHA384 :: "sha512_ctx \<Rightarrow> bytes \<Rightarrow> bytes option" where
  "SHA384 ctx data = (let ctx = SHA384_Init ctx; ctx = SHA384_Update ctx data in fst (SHA384_Final True ctx))"

definition SHA512 :: "sha512_ctx \<Rightarrow> bytes \<Rightarrow> bytes option" where
  "SHA512 ctx data = (let ctx = SHA512_Init ctx; ctx = SHA512_Update ctx data in fst (SHA512_Final True ctx))"

section \<open>The standard\<close>

text \<open>FIPS 180-4, sections 4.1.3 and 6.4, and the padding of section 5.1.2.\<close>

definition fips512_Sigma0 :: "u64 \<Rightarrow> u64" where
  "fips512_Sigma0 x = word_rotr 28 x XOR word_rotr 34 x XOR word_rotr 39 x"

definition fips512_Sigma1 :: "u64 \<Rightarrow> u64" where
  "fips512_Sigma1 x = word_rotr 14 x XOR word_rotr 18 x XOR word_rotr 41 x"

definition fips512_sigma0 :: "u64 \<Rightarrow> u64" where
  "fips512_sigma0 x = word_rotr 1 x XOR word_rotr 8 x XOR drop_bit 7 x"

definition fips512_sigma1 :: "u64 \<Rightarrow> u64" where
  "fips512_sigma1 x = word_rotr 19 x XOR word_rotr 61 x XOR drop_bit 6 x"

definition fips_sha512_word :: "u64 list \<Rightarrow> u64" where
  "fips_sha512_word w = fips512_sigma1 (w ! 14) + w ! 9 + fips512_sigma0 (w ! 1) + w ! 0"

definition fips_sha512_round :: "u64 regs8 \<Rightarrow> nat \<Rightarrow> u64 \<Rightarrow> u64 regs8" where
  "fips_sha512_round = (\<lambda>(a, b, c, d, e, f, g, h) t w.
     let T1 = h + fips512_Sigma1 e + Ch e f g + K512 ! t + w; T2 = fips512_Sigma0 a + Maj a b c
     in (T1 + T2, a, b, c, d + T1, e, f, g))"

definition fips_words512 :: "bytes \<Rightarrow> u64 list" where
  "fips_words512 m = map (\<lambda>i. word_of_nat (be_nat (take 8 (drop (8 * i) m)))) [0..<16]"

definition fips_sha512_block :: "u64 list \<Rightarrow> bytes \<Rightarrow> u64 list" where
  "fips_sha512_block h m =
     add_regs8 h (foldl (\<lambda>r t. fips_sha512_round r t (schedule fips_sha512_word (fips_words512 m) t)) (regs8 h) [0..<80])"

definition pad512 :: "bytes \<Rightarrow> bytes" where
  "pad512 msg = msg @ 0x80 # replicate ((239 - length msg mod 128) mod 128) 0 @ be_bytes 16 (8 * length msg)"

definition fips_digest512 :: "u64 list \<Rightarrow> nat \<Rightarrow> bytes \<Rightarrow> bytes" where
  "fips_digest512 h n msg = concat (map (\<lambda>i. be_bytes 8 (unat (fst (absorb 128 fips_sha512_block h (pad512 msg)) ! i))) [0..<n])"

section \<open>The block function implements the standard\<close>

lemma not_bit_u8: "8 \<le> n \<Longrightarrow> bit (x :: u8) n = False"
  by (auto dest: bit_imp_possible_bit)

lemma unat_c2l_big:
  assumes "4 \<le> length p"
  shows "unat (HOST_c2l True p) = be_nat (take 4 p)"
proof -
  have p: "take 4 p = [p ! 0, p ! 1, p ! 2, p ! 3]"
    using assms by (intro nth_equalityI) (auto simp: less_Suc_eq numeral_eq_Suc)
  define l where "l = HOST_c2l True p"
  have b: "HOST_l2c True l = take 4 p"
  proof -
    have ff: "(0xff :: u32) = mask 8"
      by (simp add: mask_eq_exp_minus_1)
    show ?thesis
      unfolding p l_def HOST_l2c_def HOST_c2l_def Let_def if_True list.inject ff
      by (intro conjI refl bit_word_eqI) (auto simp: bit_simps not_bit_u8)
  qed
  show ?thesis
    using unat_bytes4 [of l, unfolded b] unfolding l_def by (rule sym)
qed

lemma bswap4_c2l: "CRYPTO_bswap4 (HOST_c2l False p) = HOST_c2l True p"
proof (rule bit_word_eqI)
  fix n assume "n < LENGTH(32)"
  then have "n < 32" by simp
  moreover have "\<forall>n<32. bit (CRYPTO_bswap4 (HOST_c2l False p)) n \<longleftrightarrow> bit (HOST_c2l True p) n"
    unfolding all_below_32 by (simp add: bit_bswap4 HOST_c2l_def bit_simps not_bit_u8) (simp add: numeral_2_eq_2)
  ultimately show "bit (CRYPTO_bswap4 (HOST_c2l False p)) n \<longleftrightarrow> bit (HOST_c2l True p) n"
    by blast
qed

lemma load_u64_be_eq:
  assumes "8 \<le> length p"
  shows "load_u64_be p = word_of_nat (be_nat (take 8 p))"
proof -
  let ?l = "HOST_c2l False p" and ?h = "HOST_c2l False (drop 4 p)"
  have "(ucast (ucast ?l OR push_bit 32 (ucast ?h) :: u64) :: u32) = ?l"
    by (rule bit_word_eqI) (auto simp: bit_simps)
  moreover have "(ucast (drop_bit 32 (ucast ?l OR push_bit 32 (ucast ?h) :: u64)) :: u32) = ?h"
    by (rule bit_word_eqI) (auto simp: bit_simps dest: bit_imp_possible_bit)
  ultimately have "load_u64_be p = push_bit 32 (ucast (HOST_c2l True p)) OR ucast (HOST_c2l True (drop 4 p))"
    by (simp only: load_u64_be_def load_u64_def CRYPTO_bswap8_def bswap4_c2l or.commute)
  moreover have "unat (push_bit 32 (ucast (HOST_c2l True p) :: u64) OR ucast (HOST_c2l True (drop 4 p))) =
      unat (HOST_c2l True p) * 2 ^ 32 + unat (HOST_c2l True (drop 4 p))"
    using unsigned_less [of "HOST_c2l True p", where 'a = nat] unsigned_less [of "HOST_c2l True (drop 4 p)", where 'a = nat]
    by (subst unat_push_or) (simp_all add: unsigned_ucast_eq take_bit_nat_eq_self)
  moreover have "be_nat (take 8 p) = be_nat (take 4 p) * 2 ^ 32 + be_nat (take 4 (drop 4 p))"
  proof -
    have "take 8 p = take 4 p @ take 4 (drop 4 p)"
      using take_add [of 4 4 p] by simp
    then show ?thesis
      using assms by (simp add: be_nat_append)
  qed
  moreover have "unat (HOST_c2l True p) = be_nat (take 4 p)" "unat (HOST_c2l True (drop 4 p)) = be_nat (take 4 (drop 4 p))"
    using assms by (simp_all add: unat_c2l_big)
  ultimately have "unat (load_u64_be p) = be_nat (take 8 p)"
    by (simp only:)
  from this [symmetric] show ?thesis
    by simp
qed

lemma ROTR_rotr:
  assumes "0 < n" and "n < 64"
  shows "ROTR a n = word_rotr n a"
proof (rule bit_word_eqI)
  fix k assume "k < LENGTH(64)"
  then have k: "k < 64" by simp
  have rotr: "bit (word_rotr n a) k \<longleftrightarrow> bit a ((k + n) mod 64)"
    unfolding bit_word_rotr_iff using k assms by simp
  have rot: "bit (ROTR a n) k \<longleftrightarrow> bit a (n + k) \<or> 64 - n \<le> k \<and> bit a (k - (64 - n))"
    using k by (simp add: ROTR_def bit_simps)
  show "bit (ROTR a n) k \<longleftrightarrow> bit (word_rotr n a) k"
  proof (cases "64 - n \<le> k")
    case True
    have "k + n = (k - (64 - n)) + 64"
      using True assms by simp
    then have "(k + n) mod 64 = (k - (64 - n)) mod 64"
      by (simp only: mod_add_self2)
    moreover have "\<not> bit a (n + k)"
      using True assms bit_imp_possible_bit [of a "n + k"] by auto
    ultimately show ?thesis
      unfolding rot rotr using True k assms by simp
  next
    case False
    then show ?thesis
      unfolding rot rotr using k assms by (simp add: add.commute)
  qed
qed

lemma sha512_functions:
  "sha512_Sigma0 = fips512_Sigma0" "sha512_Sigma1 = fips512_Sigma1" "sha512_sigma0 = fips512_sigma0" "sha512_sigma1 = fips512_sigma1"
  by (intro ext, simp add: sha512_Sigma0_def sha512_Sigma1_def sha512_sigma0_def sha512_sigma1_def fips512_Sigma0_def
      fips512_Sigma1_def fips512_sigma0_def fips512_sigma1_def ROTR_rotr)+

definition sha512_call :: "u64 list \<times> u64 regs8 \<Rightarrow> nat \<Rightarrow> u64 list \<times> u64 regs8" where
  "sha512_call = (\<lambda>(X, r) t. if t < 16 then (X, sha512_ROUND_00_15 (X ! t) t r) else sha512_ROUND_16_80 0 t (X, r))"

lemma sha512_call_circular:
  assumes "length X = 16"
  shows "sha512_call (X, r) i = (circular fips_sha512_word i X, fips_sha512_round r i (circular fips_sha512_word i X ! (i mod 16)))"
proof -
  obtain a b c d e f g h where r: "r = (a, b, c, d, e, f, g, h)"
    by (metis surj_pair)
  have round: "sha512_ROUND_00_15 w i r = fips_sha512_round r i w" for w
    by (simp add: r sha512_ROUND_00_15_def fips_sha512_round_def Let_def sha512_functions add_ac)
  show ?thesis
  proof (cases "i < 16")
    case True
    then show ?thesis by (simp add: sha512_call_def circular_def round)
  next
    case False
    have "X ! (i mod 16) + (fips512_sigma0 (X ! ((i + 1) mod 16)) + fips512_sigma1 (X ! ((i + 14) mod 16)) + X ! ((i + 9) mod 16)) =
        fips_sha512_word (map (\<lambda>j. X ! ((i + j) mod 16)) [0..<16])"
      by (simp add: fips_sha512_word_def add_ac)
    then have "X[i mod 16 := X ! (i mod 16) + (fips512_sigma0 (X ! ((i + 1) mod 16)) + fips512_sigma1 (X ! ((i + 14) mod 16)) + X ! ((i + 9) mod 16))] =
        circular fips_sha512_word i X"
      using False by (simp only: circular_def if_False)
    with False assms show ?thesis
      by (simp add: sha512_call_def sha512_ROUND_16_80_def Let_def and_0x0f sha512_functions round)
        (metis length_list_update mod_less_divisor nth_list_update_eq zero_less_numeral)
  qed
qed

lemma sha512_block_calls:
  "sha512_block h m = add_regs8 h (snd (foldl sha512_call (map (\<lambda>i. load_u64_be (drop (i * 8) m)) [0..<16], regs8 h) [0..<80]))"
proof -
  define X where "X = map (\<lambda>i. load_u64_be (drop (i * 8) m)) [0..<16]"
  have first: "foldl sha512_call (X, r) [0..<n] = (X, foldl (\<lambda>r i. sha512_ROUND_00_15 (X ! i) i r) r [0..<n])" if "n \<le> 16" for n r
    using that by (induction n) (simp_all add: sha512_call_def)
  have R: "sha512_ROUND_16_80 i j s = sha512_call s (i + j)" if "16 dvd i" "0 < i" for i j s
  proof -
    from that(1) obtain k where k: "i = 16 * k"
      by (rule dvdE)
    then have pos: "0 < k"
      using that(2) by simp
    have "(i + j) AND 0x0f = j AND 0x0f" "(i + j + 1) AND 0x0f = (j + 1) AND 0x0f"
      "(i + j + 14) AND 0x0f = (j + 14) AND 0x0f" "(i + j + 9) AND 0x0f = (j + 9) AND 0x0f"
      by (simp_all only: and_0x0f k add.assoc mod_mult_self4)
    then show ?thesis
      using k pos by (cases s) (simp add: sha512_call_def sha512_ROUND_16_80_def Let_def)
  qed
  have inner: "foldl (\<lambda>s j. sha512_ROUND_16_80 i j s) s [0..<16] = foldl sha512_call s [i..<i + 16]" if "16 dvd i" "0 < i" for i s
  proof -
    have "[i..<i + 16] = map (\<lambda>j. i + j) [0..<16]"
      using map_add_upt [of i 16] by (simp add: add.commute)
    then show ?thesis
      by (simp only: foldl_map R [OF that])
  qed
  have split: "[0..<80] = [0..<16] @ [16..<16 + 16] @ [32..<32 + 16] @ [48..<48 + 16] @ [64..<64 + 16]"
    using upt_add_eq_append [of 0 16 64] upt_add_eq_append [of 16 32 48] upt_add_eq_append [of 32 48 32] upt_add_eq_append [of 48 64 16]
    by simp
  have "foldl (\<lambda>s i. foldl (\<lambda>s j. sha512_ROUND_16_80 i j s) s [0..<16]) s [16, 32, 48, 64] =
      foldl sha512_call s ([16..<16 + 16] @ [32..<32 + 16] @ [48..<48 + 16] @ [64..<64 + 16])" for s
    by (simp only: foldl_Cons foldl_Nil foldl_append) (simp add: inner del: upt_Suc)
  then show ?thesis
    unfolding sha512_block_def Let_def X_def [symmetric] split foldl_append [of _ _ "[0..<16]"] first [OF order_refl]
    by (simp only: split_beta)
qed

lemma sha512_block_eq:
  assumes "length m = 128"
  shows "sha512_block h m = fips_sha512_block h m"
proof -
  have "map (\<lambda>i. load_u64_be (drop (i * 8) m)) [0..<16] = fips_words512 m"
    using assms by (auto simp: fips_words512_def load_u64_be_eq mult.commute)
  moreover have "snd (foldl sha512_call (fips_words512 m, r) [0..<80]) =
      foldl (\<lambda>r t. fips_sha512_round r t (schedule fips_sha512_word (fips_words512 m) t)) r [0..<80]" for r
    by (rule circular_rounds [OF sha512_call_circular]) (simp_all add: fips_words512_def)
  ultimately show ?thesis
    by (simp only: sha512_block_calls fips_sha512_block_def)
qed

section \<open>The collector\<close>

definition sha512_ok :: "sha512_ctx \<Rightarrow> bool" where
  "sha512_ok c \<longleftrightarrow> length (s_p c) = 128 \<and> s_num c < 128"

definition s_pending :: "sha512_ctx \<Rightarrow> bytes" where
  "s_pending c = take (s_num c) (s_p c)"

definition s_bits :: "sha512_ctx \<Rightarrow> nat" where
  "s_bits c = unat (s_Nh c) * 2 ^ 64 + unat (s_Nl c)"

lemma sha512_blocks_one: "length m = 128 \<Longrightarrow> sha512_block_data_order h m 1 = sha512_block h m"
  by (simp add: sha512_block_data_order_def)

lemma sha512_blocks_absorb:
  "absorb 128 sha512_block h xs = (sha512_block_data_order h xs (length xs div 128), drop (length xs div 128 * 128) xs)"
  using absorb_foldl [of 128 sha512_block h xs] by (simp add: sha512_block_data_order_def)

lemma take_write_at_end:
  "length data = 128 \<Longrightarrow> n + length xs \<le> 128 \<Longrightarrow> take (n + length xs) (write_at n xs data) = take n data @ xs"
  by (simp add: write_at_def)

lemma sha512_whole_blocks_ok:
  assumes "length (s_p c) = 128" and "s_num c = 0"
  shows "sha512_ok (sha512_whole_blocks c xs) \<and>
    (s_h (sha512_whole_blocks c xs), s_pending (sha512_whole_blocks c xs)) = absorb 128 sha512_block (s_h c) xs \<and>
    s_Nl (sha512_whole_blocks c xs) = s_Nl c \<and> s_Nh (sha512_whole_blocks c xs) = s_Nh c \<and>
    s_md_len (sha512_whole_blocks c xs) = s_md_len c"
proof -
  define ys where "ys = drop (length xs div 128 * 128) xs"
  have ys: "length ys < 128"
    by (simp add: ys_def minus_div_mult_eq_mod)
  have d: "length xs - length xs mod 128 = length xs div 128 * 128"
    by (rule minus_mod_eq_div_mult)
  define h where "h = (if 128 \<le> length xs then sha512_block_data_order (s_h c) xs (length xs div 128) else s_h c)"
  have "h = sha512_block_data_order (s_h c) xs (length xs div 128)"
    by (simp add: h_def sha512_block_data_order_def)
  then have a: "absorb 128 sha512_block (s_h c) xs = (h, ys)"
    by (simp only: sha512_blocks_absorb ys_def)
  have w: "sha512_whole_blocks c xs =
      (if ys = [] then c\<lparr>s_h := h\<rparr> else c\<lparr>s_h := h, s_p := write_at 0 ys (s_p c), s_num := length ys\<rparr>)"
    by (simp add: sha512_whole_blocks_def Let_def sizeof_p_def d h_def ys_def)
  have "take (length ys) (write_at 0 ys (s_p c)) = ys"
    using take_write_at_end [of "s_p c" 0 ys] assms ys by simp
  then show ?thesis
    using assms ys unfolding a w by (simp add: sha512_ok_def s_pending_def)
qed

lemma all_ones: "(x :: u64) AND 0xffffffffffffffff = x"
proof -
  have "(0xffffffffffffffff :: u64) = - 1" by simp
  then show ?thesis by (simp only: and.right_neutral)
qed

lemma SHA512_Update_stream:
  assumes ok: "sha512_ok c"
  shows "sha512_ok (SHA512_Update c xs) \<and>
    (s_h (SHA512_Update c xs), s_pending (SHA512_Update c xs)) = absorb 128 sha512_block (s_h c) (s_pending c @ xs)"
proof (cases "xs = []")
  case True
  have "length (s_pending c) < 128"
    using ok by (simp add: sha512_ok_def s_pending_def)
  then show ?thesis
    using True ok by (simp add: SHA512_Update_def absorb_short)
next
  case False
  obtain Nl Nh where N: "Nl = (s_Nl c + push_bit 3 (word_of_nat (length xs))) AND 0xffffffffffffffff"
    "Nh = (if Nl < s_Nl c then s_Nh c + 1 else s_Nh c) + word_of_nat (drop_bit 61 (length xs))"
    by blast
  define t where "t = c\<lparr>s_Nh := Nh, s_Nl := Nl\<rparr>"
  have t: "s_h t = s_h c" "s_num t = s_num c" "s_p t = s_p c" "s_pending t = s_pending c"
    by (simp_all add: t_def s_pending_def)
  define n where "n = s_num c"
  have n: "n < 128" "length (s_p c) = 128"
    using ok by (simp_all add: sha512_ok_def n_def)
  have U: "SHA512_Update c xs =
    (if n \<noteq> 0 then
       if length xs < 128 - n then t\<lparr>s_p := write_at n xs (s_p c), s_num := n + length xs\<rparr>
       else sha512_whole_blocks
         (t\<lparr>s_p := write_at n (take (128 - n) xs) (s_p c), s_num := 0,
            s_h := sha512_block_data_order (s_h c) (write_at n (take (128 - n) xs) (s_p c)) 1\<rparr>) (drop (128 - n) xs)
     else sha512_whole_blocks t xs)"
    unfolding SHA512_Update_def Let_def sizeof_p_def N(1) [symmetric] N(2) [symmetric] t_def [symmetric]
    using False by (simp add: t n_def)
  consider "n = 0" | "n \<noteq> 0" "length xs < 128 - n" | "n \<noteq> 0" "128 - n \<le> length xs"
    by linarith
  then show ?thesis
  proof cases
    case 1
    then have "s_pending c = []"
      by (simp add: s_pending_def n_def)
    with 1 show ?thesis
      unfolding U using sha512_whole_blocks_ok [of t xs] t n by (simp add: n_def)
  next
    case 2
    then have "s_pending (t\<lparr>s_p := write_at n xs (s_p c), s_num := n + length xs\<rparr>) = s_pending c @ xs"
      using take_write_at_end [of "s_p c" n xs] n by (simp add: s_pending_def n_def)
    moreover have "length (s_pending c @ xs) < 128"
      using 2 n by (simp add: s_pending_def n_def)
    ultimately show ?thesis
      unfolding U using 2 n t by (simp add: absorb_short sha512_ok_def)
  next
    case 3
    define full where "full = write_at n (take (128 - n) xs) (s_p c)"
    have len: "length full = 128"
      using n 3 by (simp add: full_def)
    moreover have "take 128 full = s_pending c @ take (128 - n) xs"
      using take_write_at_end [of "s_p c" n "take (128 - n) xs"] n 3 by (simp add: full_def s_pending_def n_def)
    ultimately have full: "full = s_pending c @ take (128 - n) xs"
      by simp
    define u where "u = t\<lparr>s_p := full, s_num := 0, s_h := sha512_block_data_order (s_h c) full 1\<rparr>"
    have u: "length (s_p u) = 128" "s_num u = 0" "s_h u = sha512_block (s_h c) full"
      using sha512_blocks_one [OF len] len by (simp_all add: u_def)
    have "s_pending c @ xs = full @ drop (128 - n) xs"
      by (simp add: full)
    then have "absorb 128 sha512_block (s_h c) (s_pending c @ xs) = absorb 128 sha512_block (s_h u) (drop (128 - n) xs)"
      using absorb_block [of 128 full sha512_block "s_h c"] len u by simp
    with 3 show ?thesis
      unfolding U full_def [symmetric] u_def [symmetric]
      using sha512_whole_blocks_ok [OF u(1,2), of "drop (128 - n) xs"] by simp
  qed
qed

interpretation sha512_stream: block_stream 128 sha512_block s_h s_pending SHA512_Update sha512_ok "\<lambda>_. True"
  by unfold_locales (use SHA512_Update_stream in \<open>auto simp: sha512_ok_def s_pending_def\<close>)

lemma sha512_whole_blocks_frame [simp]:
  "s_Nl (sha512_whole_blocks c xs) = s_Nl c" "s_Nh (sha512_whole_blocks c xs) = s_Nh c"
  "s_md_len (sha512_whole_blocks c xs) = s_md_len c"
  by (simp_all add: sha512_whole_blocks_def Let_def)

lemma SHA512_Update_md_len [simp]: "s_md_len (SHA512_Update c xs) = s_md_len c"
  by (simp add: SHA512_Update_def Let_def)

lemma SHA512_Updates_md_len: "s_md_len (foldl SHA512_Update c xss) = s_md_len c"
  by (induction xss arbitrary: c) simp_all

lemma s_bits_less: "s_bits c < 2 ^ 128"
proof -
  have "unat (s_Nh c) * SIZE_MOD + unat (s_Nl c) < SIZE_MOD * SIZE_MOD"
    by (rule digit_less) (rule unat_u64_less)+
  then show ?thesis
    by (simp add: s_bits_def)
qed

lemma SHA512_Update_bits: "s_bits (SHA512_Update c xs) = (s_bits c + 8 * length xs) mod 2 ^ 128"
proof (cases "xs = []")
  case True
  then show ?thesis
    using s_bits_less [of c] by (simp add: SHA512_Update_def)
next
  case False
  have lo: "s_Nl (SHA512_Update c xs) = s_Nl c + push_bit 3 (word_of_nat (length xs))"
    using False by (simp add: SHA512_Update_def Let_def all_ones)
  have hi: "s_Nh (SHA512_Update c xs) = (if s_Nl (SHA512_Update c xs) < s_Nl c then s_Nh c + 1 else s_Nh c) + word_of_nat (drop_bit 61 (length xs))"
    unfolding lo using False by (simp add: SHA512_Update_def Let_def all_ones)
  show ?thesis
    using two_word_counter [OF _ lo hi] by (simp add: s_bits_def)
qed

lemma SHA512_Updates_bits: "s_bits (foldl SHA512_Update c xss) = (s_bits c + 8 * length (concat xss)) mod 2 ^ 128"
proof (induction xss arbitrary: c)
  case Nil
  then show ?case using s_bits_less [of c] by simp
next
  case (Cons xs xss)
  show ?case
    by (simp add: Cons.IH SHA512_Update_bits mod_simps algebra_simps)
qed

section \<open>Digests\<close>

lemma u64_bytes_eq: "u64_bytes t = be_bytes 8 (unat t)"
  using ucast_drop_byte [of 7 t] ucast_drop_byte [of 6 t] ucast_drop_byte [of 5 t] ucast_drop_byte [of 4 t]
    ucast_drop_byte [of 3 t] ucast_drop_byte [of 2 t] ucast_drop_byte [of 1 t] ucast_drop_byte [of 0 t]
  unfolding be_bytes_upt by (simp add: u64_bytes_def upt_conv_Cons)

lemma absorb_cong:
  assumes "\<And>c b. length b = n \<Longrightarrow> f c b = g c b"
  shows "absorb n f c xs = absorb n g c xs"
proof (induction "length xs" arbitrary: xs c rule: less_induct)
  case less
  have "absorb n f c' (drop n xs) = absorb n g c' (drop n xs)" if "0 < n" "n \<le> length xs" for c'
    using that less [of "drop n xs" c'] by auto
  then show ?case
    using assms [of "take n xs" c] by (simp add: absorb.simps [of n f c xs] absorb.simps [of n g c xs])
qed

lemma SHA512_Final_chain:
  assumes ok: "sha512_ok c" and len: "s_bits c = (8 * n) mod 2 ^ 128"
  obtains t where "SHA512_Final out c = (if out then sha512_string t else None, t)" "s_md_len t = s_md_len c"
    "s_h t = fst (absorb 128 sha512_block (s_h c) (s_pending c @ 0x80 # replicate ((239 - s_num c) mod 128) 0 @ be_bytes 16 (8 * n)))"
proof -
  define k where "k = s_num c"
  define p where "p = s_pending c"
  define lb where "lb = u64_bytes (s_Nh c) @ u64_bytes (s_Nl c)"
  have k: "k < 128" "length p = k" "length (s_p c) = 128"
    using ok by (simp_all add: sha512_ok_def k_def p_def s_pending_def)
  have lb: "length lb = 16"
    by (simp add: lb_def u64_bytes_def)
  have "be_bytes 16 (8 * n) = lb"
    by (rule be_nat_inj) (use lb len in \<open>simp_all add: lb_def u64_bytes_eq be_nat_append be_nat_be_bytes s_bits_def del: be_bytes.simps\<close>)
  note goal = that [unfolded this k_def [symmetric] p_def [symmetric]]
  define d where "d = (s_p c)[k := 0x80]"
  have d: "length d = 128" "take (k + 1) d = p @ [0x80]"
    using k take_Suc_conv_app_nth [of k d] by (simp_all add: d_def p_def s_pending_def k_def)
  show thesis
  proof (cases "k + 1 > 112")
    case True
    define e where "e = p @ 0x80 # replicate (127 - k) 0"
    define f where "f = replicate 112 0 @ lb"
    have e: "write_at (k + 1) (replicate (128 - (k + 1)) 0) d = e"
      using k d by (simp add: write_at_def e_def)
    have f: "write_at 112 lb (write_at 0 (replicate 112 0) e) = f"
      using k lb by (simp add: write_at_def e_def f_def)
    have len2: "length e = 128" "length f = 128"
      using k lb by (simp_all add: e_def f_def)
    define t where "t = c\<lparr>s_h := sha512_block (sha512_block (s_h c) e) f, s_p := f\<rparr>"
    have F: "SHA512_Final out c = (if out then sha512_string t else None, t)"
      unfolding SHA512_Final_def Let_def sizeof_p_def k_def [symmetric] d_def [symmetric] t_def
      using True e f len2 by (simp add: sha512_blocks_one [unfolded One_nat_def] lb_def)
    have z: "(239 - k) mod 128 = (127 - k) + 112"
      using True k by simp
    have "p @ 0x80 # replicate ((239 - k) mod 128) 0 @ lb = e @ f @ []"
      unfolding z replicate_add e_def f_def by simp
    moreover have "fst (absorb 128 sha512_block (s_h c) (e @ f @ [])) = s_h t"
      using absorb_block [of 128 e sha512_block "s_h c" "f @ []"] absorb_block [of 128 f sha512_block _ "[]"] len2
      by (simp add: absorb_short t_def)
    ultimately have "s_h t = fst (absorb 128 sha512_block (s_h c) (p @ 0x80 # replicate ((239 - k) mod 128) 0 @ lb))"
      by (simp only:)
    with F show thesis
      by (intro goal [of t]) (simp_all add: t_def)
  next
    case False
    define f where "f = p @ 0x80 # replicate (111 - k) 0 @ lb"
    have Suc: "112 - k = Suc (111 - k)"
      using False by simp
    have f: "write_at 112 lb (write_at (k + 1) (replicate (112 - (k + 1)) 0) d) = f"
      using k d lb False by (simp add: write_at_def f_def Suc)
    have len2: "length f = 128"
      using k lb False by (simp add: f_def)
    define t where "t = c\<lparr>s_h := sha512_block (s_h c) f, s_p := f\<rparr>"
    have F: "SHA512_Final out c = (if out then sha512_string t else None, t)"
      unfolding SHA512_Final_def Let_def sizeof_p_def k_def [symmetric] d_def [symmetric] t_def
      using False f len2 by (simp add: sha512_blocks_one [unfolded One_nat_def] lb_def)
    have z: "(239 - k) mod 128 = 111 - k"
      using False mod_add_self2 [of "111 - k" 128] by simp
    have "fst (absorb 128 sha512_block (s_h c) f) = s_h t"
      using absorb_block [of 128 f sha512_block _ "[]"] len2 by (simp add: absorb_short t_def)
    with F show thesis
      by (intro goal [of t]) (simp_all add: t_def f_def z)
  qed
qed

lemma sha512_digests:
  assumes "length (s_p ctx) = 128"
  shows "fst (SHA512_Final out (foldl SHA512_Update (SHA512_Init ctx) pieces)) =
      (if out then Some (fips_digest512 (s_h (SHA512_Init ctx)) 8 (concat pieces)) else None) \<and>
    fst (SHA384_Final out (foldl SHA384_Update (SHA384_Init ctx) pieces)) =
      (if out then Some (fips_digest512 (s_h (SHA384_Init ctx)) 6 (concat pieces)) else None) \<and>
    SHA512 ctx msg = Some (fips_digest512 (s_h (SHA512_Init ctx)) 8 msg) \<and>
    SHA384 ctx msg = Some (fips_digest512 (s_h (SHA384_Init ctx)) 6 msg)"
proof -
  have pieces: "fst (SHA512_Final out (foldl SHA512_Update c xss)) = (if out then Some (fips_digest512 (s_h c) n (concat xss)) else None)"
    if c: "length (s_p c) = 128" "s_num c = 0" "s_Nl c = 0" "s_Nh c = 0"
      and n: "s_md_len c = SHA512_DIGEST_LENGTH \<and> n = 8 \<or> s_md_len c = SHA384_DIGEST_LENGTH \<and> n = 6" for c n xss out
  proof -
    define u where "u = foldl SHA512_Update c xss"
    have c0: "sha512_ok c" "s_pending c = []" "s_bits c = 0"
      using c by (simp_all add: sha512_ok_def s_pending_def s_bits_def)
    have u: "sha512_ok u" "(s_h u, s_pending u) = absorb 128 sha512_block (s_h c) (concat xss)"
      using sha512_stream.updates [OF c0(1), of xss] c0(2) by (simp_all add: u_def list_all_iff)
    have bits: "s_bits u = (8 * length (concat xss)) mod 2 ^ 128"
      unfolding u_def SHA512_Updates_bits c0(3) by simp
    have "length (s_pending u) = s_num u"
      using u(1) by (simp add: sha512_ok_def s_pending_def)
    then have num: "s_num u = length (concat xss) mod 128"
      using absorb_left_length [of 128 sha512_block "s_h c" "concat xss"] u(2) by (metis snd_conv zero_less_numeral)
    have split: "absorb 128 sha512_block (s_h c) (concat xss @ ys) = absorb 128 sha512_block (s_h u) (s_pending u @ ys)" for ys
      using absorb_append [of 128 sha512_block "s_h c" "concat xss" ys] u(2) [symmetric] by simp
    have cong: "absorb 128 sha512_block h xs = absorb 128 fips_sha512_block h xs" for h xs
      by (rule absorb_cong) (rule sha512_block_eq)
    have chain: "absorb 128 sha512_block (s_h u) (s_pending u @ 0x80 # replicate ((239 - s_num u) mod 128) 0 @ be_bytes 16 (8 * length (concat xss))) =
        absorb 128 fips_sha512_block (s_h c) (pad512 (concat xss))"
      unfolding pad512_def num [symmetric] cong [symmetric] by (rule split [symmetric])
    obtain t where t: "SHA512_Final out u = (if out then sha512_string t else None, t)" "s_md_len t = s_md_len c"
      "s_h t = fst (absorb 128 fips_sha512_block (s_h c) (pad512 (concat xss)))"
      by (rule SHA512_Final_chain [OF u(1) bits, of out, unfolded chain]) (simp add: u_def SHA512_Updates_md_len)
    have "sha512_string t = Some (fips_digest512 (s_h c) n (concat xss))"
      using n by (auto simp: sha512_string_def fips_digest512_def t(2,3) u64_bytes_eq SHA512_DIGEST_LENGTH_def SHA384_DIGEST_LENGTH_def)
    with t(1) show ?thesis
      by (simp add: u_def)
  qed
  have same: "SHA384_Update = SHA512_Update" "SHA384_Final = SHA512_Final"
    by (intro ext, simp add: SHA384_Update_def SHA384_Final_def)+
  have i: "length (s_p (SHA512_Init ctx)) = 128" "length (s_p (SHA384_Init ctx)) = 128"
    "s_num (SHA512_Init ctx) = 0" "s_num (SHA384_Init ctx) = 0" "s_Nl (SHA512_Init ctx) = 0" "s_Nl (SHA384_Init ctx) = 0"
    "s_Nh (SHA512_Init ctx) = 0" "s_Nh (SHA384_Init ctx) = 0"
    "s_md_len (SHA512_Init ctx) = SHA512_DIGEST_LENGTH" "s_md_len (SHA384_Init ctx) = SHA384_DIGEST_LENGTH"
    using assms by (simp_all add: SHA512_Init_def SHA384_Init_def)
  have a: "fst (SHA512_Final out (foldl SHA512_Update (SHA512_Init ctx) xss)) =
      (if out then Some (fips_digest512 (s_h (SHA512_Init ctx)) 8 (concat xss)) else None)" for out xss
    by (rule pieces) (simp_all add: i)
  have b: "fst (SHA512_Final out (foldl SHA512_Update (SHA384_Init ctx) xss)) =
      (if out then Some (fips_digest512 (s_h (SHA384_Init ctx)) 6 (concat xss)) else None)" for out xss
    by (rule pieces) (simp_all add: i)
  show ?thesis
    using a [of out pieces] b [of out pieces] a [of True "[msg]"] b [of True "[msg]"]
    by (simp add: SHA512_def SHA384_def same)
qed

end
