(* ===== verification/Bio.thy ===== *)
theory Bio
  imports Buf "HOL-Library.Monad_Syntax"
begin

text \<open>
  The BIO layer of \<^verbatim>\<open>crypto/bio/bio.c\<close> and the BIO pair of \<^verbatim>\<open>crypto/bio/pair.c\<close>: two BIOs
  joined back to back, each owning the ring buffer its writes go to. BIOs live in a heap and
  refer to each other by address; a freed BIO leaves its address empty. The result \<open>None\<close> of an
  operation is behaviour C leaves undefined or an \<open>assert\<close> that fails: a dereference of a freed
  BIO or of a null pointer, an access outside a buffer, a loop that does not end. \<open>BioPair\<close> shows that
  none of it happens in a heap the operations built.
\<close>

section \<open>State\<close>

record bio_bio_st =
  bb_peer :: "nat option"
  bb_closed :: bool
  bb_len :: u64
  bb_offset :: u64
  bb_size :: u64
  bb_buf :: "bytes option"
  bb_request :: u64

record bio =
  bio_init :: bool
  bio_shutdown :: int
  bio_flags :: u32
  bio_retry_reason :: u32
  bio_references :: u32
  bio_ptr :: bio_bio_st
  next_bio :: "nat option"
  num_read :: u64
  num_write :: u64

type_synonym heap = "bio option list"

definition bio_at :: "heap \<Rightarrow> nat \<Rightarrow> bio option" where
  "bio_at h a = (if a < length h then h ! a else None)"

definition put_bio :: "heap \<Rightarrow> nat \<Rightarrow> bio \<Rightarrow> heap" where
  "put_bio h a bio = h[a := Some bio]"

definition put_ptr :: "heap \<Rightarrow> nat \<Rightarrow> bio_bio_st \<Rightarrow> heap" where
  "put_ptr h a b = (case bio_at h a of None \<Rightarrow> h | Some bio \<Rightarrow> put_bio h a (bio\<lparr>bio_ptr := b\<rparr>))"

definition c_assert :: "bool \<Rightarrow> unit option" where
  "c_assert P = (if P then Some () else None)"

definition to_int :: "u64 \<Rightarrow> int" where
  "to_int w = sint (ucast w :: u32)"

definition to_long :: "u64 \<Rightarrow> int" where
  "to_long w = sint w"

definition INT_MAX :: int where
  "INT_MAX = 2147483647"

section \<open>Reference counts\<close>

definition CRYPTO_REFCOUNT_MAX :: u32 where
  "CRYPTO_REFCOUNT_MAX = 0xffffffff"

definition CRYPTO_refcount_inc :: "u32 \<Rightarrow> u32" where
  "CRYPTO_refcount_inc count = (if count < CRYPTO_REFCOUNT_MAX then count + 1 else count)"

definition CRYPTO_refcount_dec_and_test_zero :: "u32 \<Rightarrow> (bool \<times> u32) option" where
  "CRYPTO_refcount_dec_and_test_zero count =
     (if count = 0 then None
      else
        let count = (if count < CRYPTO_REFCOUNT_MAX then count - 1 else count) in
        Some (count = 0, count))"

section \<open>Flags\<close>

definition BIO_FLAGS_READ :: u32 where "BIO_FLAGS_READ = 0x01"
definition BIO_FLAGS_WRITE :: u32 where "BIO_FLAGS_WRITE = 0x02"
definition BIO_FLAGS_IO_SPECIAL :: u32 where "BIO_FLAGS_IO_SPECIAL = 0x04"
definition BIO_FLAGS_SHOULD_RETRY :: u32 where "BIO_FLAGS_SHOULD_RETRY = 0x08"

definition BIO_FLAGS_RWS :: u32 where
  "BIO_FLAGS_RWS = BIO_FLAGS_READ OR BIO_FLAGS_WRITE OR BIO_FLAGS_IO_SPECIAL"

definition kRetryFlags :: u32 where
  "kRetryFlags = BIO_FLAGS_RWS OR BIO_FLAGS_SHOULD_RETRY"

definition BIO_set_flags :: "bio \<Rightarrow> u32 \<Rightarrow> bio" where
  "BIO_set_flags bio flags = bio\<lparr>bio_flags := bio_flags bio OR flags\<rparr>"

definition BIO_clear_flags :: "bio \<Rightarrow> u32 \<Rightarrow> bio" where
  "BIO_clear_flags bio flags = bio\<lparr>bio_flags := bio_flags bio AND NOT flags\<rparr>"

definition BIO_test_flags :: "bio \<Rightarrow> u32 \<Rightarrow> u32" where
  "BIO_test_flags bio flags = bio_flags bio AND flags"

definition BIO_should_read :: "bio \<Rightarrow> u32" where
  "BIO_should_read bio = BIO_test_flags bio BIO_FLAGS_READ"

definition BIO_should_write :: "bio \<Rightarrow> u32" where
  "BIO_should_write bio = BIO_test_flags bio BIO_FLAGS_WRITE"

definition BIO_should_retry :: "bio \<Rightarrow> u32" where
  "BIO_should_retry bio = BIO_test_flags bio BIO_FLAGS_SHOULD_RETRY"

definition BIO_set_retry_read :: "bio \<Rightarrow> bio" where
  "BIO_set_retry_read bio = bio\<lparr>bio_flags := bio_flags bio OR (BIO_FLAGS_READ OR BIO_FLAGS_SHOULD_RETRY)\<rparr>"

definition BIO_set_retry_write :: "bio \<Rightarrow> bio" where
  "BIO_set_retry_write bio = bio\<lparr>bio_flags := bio_flags bio OR (BIO_FLAGS_WRITE OR BIO_FLAGS_SHOULD_RETRY)\<rparr>"

definition BIO_get_retry_flags :: "bio \<Rightarrow> u32" where
  "BIO_get_retry_flags bio = bio_flags bio AND kRetryFlags"

definition BIO_clear_retry_flags :: "bio \<Rightarrow> bio" where
  "BIO_clear_retry_flags bio = bio\<lparr>bio_flags := bio_flags bio AND NOT kRetryFlags, bio_retry_reason := 0\<rparr>"

section \<open>The ring buffer\<close>

text \<open>
  One turn of the copying loops, then the loops. \<open>read_turn\<close> returns the bytes copied out, what
  is left to copy and the buffer.
\<close>

definition read_turn :: "u64 \<Rightarrow> bio_bio_st \<Rightarrow> (bytes \<times> u64 \<times> bio_bio_st) option" where
  "read_turn rest p = do {
     c_assert (rest \<le> bb_len p);
     let chunk = (if bb_offset p + rest \<le> bb_size p then rest else bb_size p - bb_offset p);
     c_assert (bb_offset p + chunk \<le> bb_size p);
     buf \<leftarrow> bb_buf p;
     c_assert (unat (bb_offset p) + unat chunk \<le> length buf);
     let out = take (unat chunk) (drop (unat (bb_offset p)) buf);
     let p = p\<lparr>bb_len := bb_len p - chunk\<rparr>;
     if bb_len p \<noteq> 0 then do {
       let p = p\<lparr>bb_offset := bb_offset p + chunk\<rparr>;
       c_assert (bb_offset p \<le> bb_size p);
       Some (out, rest - chunk, if bb_offset p = bb_size p then p\<lparr>bb_offset := 0\<rparr> else p)
     } else do {
       c_assert (chunk = rest);
       Some (out, rest - chunk, p\<lparr>bb_offset := 0\<rparr>)
     }
   }"

partial_function (option) read_loop :: "u64 \<Rightarrow> bio_bio_st \<Rightarrow> bytes \<Rightarrow> (bytes \<times> bio_bio_st) option" where
  "read_loop rest p buf = do {
     (out, rest, p) \<leftarrow> read_turn rest p;
     if rest \<noteq> 0 then read_loop rest p (buf @ out) else Some (buf @ out, p)
   }"

definition write_turn :: "u64 \<Rightarrow> bytes \<Rightarrow> bio_bio_st \<Rightarrow> (u64 \<times> bytes \<times> bio_bio_st) option" where
  "write_turn rest buf b = do {
     c_assert (bb_len b + rest \<le> bb_size b);
     let write_offset = bb_offset b + bb_len b;
     let write_offset = (if write_offset \<ge> bb_size b then write_offset - bb_size b else write_offset);
     let chunk = (if write_offset + rest \<le> bb_size b then rest else bb_size b - write_offset);
     ring \<leftarrow> bb_buf b;
     c_assert (unat write_offset + unat chunk \<le> length ring \<and> unat chunk \<le> length buf);
     let b = b\<lparr>bb_buf := Some (write_at (unat write_offset) (take (unat chunk) buf) ring), bb_len := bb_len b + chunk\<rparr>;
     c_assert (bb_len b \<le> bb_size b);
     Some (rest - chunk, drop (unat chunk) buf, b)
   }"

partial_function (option) write_loop :: "u64 \<Rightarrow> bytes \<Rightarrow> bio_bio_st \<Rightarrow> bio_bio_st option" where
  "write_loop rest buf b = do {
     (rest, buf, b) \<leftarrow> write_turn rest buf b;
     if rest \<noteq> 0 then write_loop rest buf b else Some b
   }"

section \<open>The methods of a pair\<close>

text \<open>
  A read returns the value of the C function and the bytes it stored from the start of the
  caller's buffer; the caller says whether that pointer is null.
\<close>

definition bio_read :: "heap \<Rightarrow> nat \<Rightarrow> bool \<Rightarrow> int \<Rightarrow> (int \<times> bytes \<times> heap) option" where
  "bio_read h a buf_null sz = do {
     bio \<leftarrow> bio_at h a;
     let size = (word_of_int sz :: u64);
     let bio = BIO_clear_retry_flags bio;
     let h = put_bio h a bio;
     if \<not> bio_init bio then Some (0, [], h)
     else do {
       peer \<leftarrow> bb_peer (bio_ptr bio);
       peer_bio \<leftarrow> bio_at h peer;
       let peer_b = bio_ptr peer_bio;
       c_assert (bb_buf peer_b \<noteq> None);
       let peer_b = peer_b\<lparr>bb_request := 0\<rparr>;
       let h = put_ptr h peer peer_b;
       if buf_null \<or> size = 0 then Some (0, [], h)
       else if bb_len peer_b = 0 then
         if bb_closed peer_b then Some (0, [], h)
         else do {
           bio \<leftarrow> bio_at h a;
           let h = put_bio h a (BIO_set_retry_read bio);
           let request = (if size \<le> bb_size peer_b then size else bb_size peer_b);
           Some (-1, [], put_ptr h peer (peer_b\<lparr>bb_request := request\<rparr>))
         }
       else do {
         let size = (if bb_len peer_b < size then bb_len peer_b else size);
         c_assert (size > 0);
         (out, peer_b) \<leftarrow> read_loop size peer_b [];
         Some (to_int size, out, put_ptr h peer peer_b)
       }
     }
   }"

definition bio_write :: "heap \<Rightarrow> nat \<Rightarrow> bytes option \<Rightarrow> int \<Rightarrow> (int \<times> heap) option" where
  "bio_write h a buf n = do {
     bio \<leftarrow> bio_at h a;
     let num = (word_of_int n :: u64);
     let bio = BIO_clear_retry_flags bio;
     let h = put_bio h a bio;
     case buf of
       None \<Rightarrow> Some (0, h)
     | Some buf \<Rightarrow>
       if \<not> bio_init bio \<or> num = 0 then Some (0, h)
       else do {
         let b = bio_ptr bio;
         c_assert (bb_peer b \<noteq> None);
         c_assert (bb_buf b \<noteq> None);
         let b = b\<lparr>bb_request := 0\<rparr>;
         let h = put_ptr h a b;
         if bb_closed b then Some (-1, h)
         else do {
           c_assert (bb_len b \<le> bb_size b);
           if bb_len b = bb_size b then Some (-1, put_bio h a (BIO_set_retry_write (bio\<lparr>bio_ptr := b\<rparr>)))
           else do {
             let num = (if num > bb_size b - bb_len b then bb_size b - bb_len b else num);
             c_assert (num > 0);
             b \<leftarrow> write_loop num buf b;
             Some (to_int num, put_ptr h a b)
           }
         }
       }
   }"

definition bio_destroy_pair :: "heap \<Rightarrow> nat \<Rightarrow> heap option" where
  "bio_destroy_pair h a = do {
     bio \<leftarrow> bio_at h a;
     case bb_peer (bio_ptr bio) of
       None \<Rightarrow> Some h
     | Some peer \<Rightarrow> do {
         peer_bio \<leftarrow> bio_at h peer;
         c_assert (bb_peer (bio_ptr peer_bio) = Some a);
         c_assert (bb_buf (bio_ptr peer_bio) \<noteq> None);
         let h = put_bio h peer
           (peer_bio\<lparr>bio_init := False, bio_ptr := (bio_ptr peer_bio)\<lparr>bb_peer := None, bb_len := 0, bb_offset := 0\<rparr>\<rparr>);
         bio \<leftarrow> bio_at h a;
         c_assert (bb_buf (bio_ptr bio) \<noteq> None);
         Some (put_bio h a
           (bio\<lparr>bio_init := False, bio_ptr := (bio_ptr bio)\<lparr>bb_peer := None, bb_len := 0, bb_offset := 0\<rparr>\<rparr>))
       }
   }"

definition bio_free :: "heap \<Rightarrow> nat \<Rightarrow> heap option" where
  "bio_free h a = do {
     bio \<leftarrow> bio_at h a;
     if bb_peer (bio_ptr bio) \<noteq> None then bio_destroy_pair h a else Some h
   }"

definition sizeof_BIO :: nat where "sizeof_BIO = 64"
definition sizeof_bio_bio_st :: nat where "sizeof_bio_bio_st = 56"

definition bio_new :: "(nat \<Rightarrow> bytes option) \<Rightarrow> bio_bio_st option option" where
  "bio_new malloc =
     map_option (map_option (\<lambda>_. \<lparr>bb_peer = None, bb_closed = False, bb_len = 0, bb_offset = 0, bb_size = 17 * 1024,
        bb_buf = None, bb_request = 0\<rparr>)) (OPENSSL_malloc malloc sizeof_bio_bio_st)"

text \<open>The buffer of one end: kept if it has one, else allocated at the size asked for, or the default.\<close>

definition make_buf :: "(nat \<Rightarrow> bytes option) \<Rightarrow> bio_bio_st \<Rightarrow> u64 \<Rightarrow> (bool \<times> bio_bio_st) option" where
  "make_buf malloc b writebuf_len =
     (if bb_buf b = None then do {
        let b = (if writebuf_len \<noteq> 0 then b\<lparr>bb_size := writebuf_len\<rparr> else b);
        buf \<leftarrow> OPENSSL_malloc malloc (unat (bb_size b));
        case buf of
          None \<Rightarrow> Some (False, b)
        | Some buf \<Rightarrow> Some (True, b\<lparr>bb_buf := Some (block_bytes buf), bb_len := 0, bb_offset := 0\<rparr>)
      }
      else Some (True, b))"

definition bio_make_pair :: "(nat \<Rightarrow> bytes option) \<Rightarrow> (nat \<Rightarrow> bytes option) \<Rightarrow> heap \<Rightarrow> nat \<Rightarrow> nat \<Rightarrow> u64 \<Rightarrow> u64 \<Rightarrow> (bool \<times> heap) option" where
  "bio_make_pair malloc1 malloc2 h a1 a2 writebuf1_len writebuf2_len = do {
     bio1 \<leftarrow> bio_at h a1;
     bio2 \<leftarrow> bio_at h a2;
     if bb_peer (bio_ptr bio1) \<noteq> None \<or> bb_peer (bio_ptr bio2) \<noteq> None then Some (False, h)
     else do {
       (ok, b1) \<leftarrow> make_buf malloc1 (bio_ptr bio1) writebuf1_len;
       let h = put_ptr h a1 b1;
       if \<not> ok then Some (False, h)
       else do {
         bio2 \<leftarrow> bio_at h a2;
         (ok, b2) \<leftarrow> make_buf malloc2 (bio_ptr bio2) writebuf2_len;
         let h = put_ptr h a2 b2;
         if \<not> ok then Some (False, h)
         else do {
           bio1 \<leftarrow> bio_at h a1;
           let h = put_bio h a1 (bio1\<lparr>bio_init := True,
             bio_ptr := (bio_ptr bio1)\<lparr>bb_peer := Some a2, bb_closed := False, bb_request := 0\<rparr>\<rparr>);
           bio2 \<leftarrow> bio_at h a2;
           Some (True, put_bio h a2 (bio2\<lparr>bio_init := True,
             bio_ptr := (bio_ptr bio2)\<lparr>bb_peer := Some a1, bb_closed := False, bb_request := 0\<rparr>\<rparr>))
         }
       }
     }
   }"


text \<open>Control commands. The last argument is the pointer some of them take, here a BIO or null.\<close>

definition BIO_CTRL_EOF :: int where "BIO_CTRL_EOF = 2"
definition BIO_CTRL_GET_CLOSE :: int where "BIO_CTRL_GET_CLOSE = 8"
definition BIO_CTRL_SET_CLOSE :: int where "BIO_CTRL_SET_CLOSE = 9"
definition BIO_CTRL_PENDING :: int where "BIO_CTRL_PENDING = 10"
definition BIO_CTRL_FLUSH :: int where "BIO_CTRL_FLUSH = 11"
definition BIO_CTRL_WPENDING :: int where "BIO_CTRL_WPENDING = 13"
definition BIO_C_GET_WRITE_BUF_SIZE :: int where "BIO_C_GET_WRITE_BUF_SIZE = 137"
definition BIO_C_GET_WRITE_GUARANTEE :: int where "BIO_C_GET_WRITE_GUARANTEE = 140"
definition BIO_C_GET_READ_REQUEST :: int where "BIO_C_GET_READ_REQUEST = 141"
definition BIO_C_SHUTDOWN_WR :: int where "BIO_C_SHUTDOWN_WR = 142"
definition BIO_C_RESET_READ_REQUEST :: int where "BIO_C_RESET_READ_REQUEST = 147"

lemmas ctrl_codes = BIO_CTRL_EOF_def BIO_CTRL_GET_CLOSE_def BIO_CTRL_SET_CLOSE_def BIO_CTRL_PENDING_def
  BIO_CTRL_FLUSH_def BIO_CTRL_WPENDING_def BIO_C_GET_WRITE_BUF_SIZE_def BIO_C_GET_WRITE_GUARANTEE_def
  BIO_C_GET_READ_REQUEST_def BIO_C_SHUTDOWN_WR_def BIO_C_RESET_READ_REQUEST_def

definition bio_ctrl :: "heap \<Rightarrow> nat \<Rightarrow> int \<Rightarrow> int \<Rightarrow> nat option \<Rightarrow> (int \<times> heap) option" where
  "bio_ctrl h a cmd arg ptr = do {
     bio \<leftarrow> bio_at h a;
     let b = bio_ptr bio;
     if cmd = BIO_C_GET_WRITE_BUF_SIZE then Some (to_long (bb_size b), h)
     else if cmd = BIO_C_GET_WRITE_GUARANTEE then
       Some (if bb_peer b = None \<or> bb_closed b then 0 else to_long (bb_size b - bb_len b), h)
     else if cmd = BIO_C_GET_READ_REQUEST then Some (to_long (bb_request b), h)
     else if cmd = BIO_C_RESET_READ_REQUEST then Some (1, put_ptr h a (b\<lparr>bb_request := 0\<rparr>))
     else if cmd = BIO_C_SHUTDOWN_WR then Some (1, put_ptr h a (b\<lparr>bb_closed := True\<rparr>))
     else if cmd = BIO_CTRL_GET_CLOSE then Some (bio_shutdown bio, h)
     else if cmd = BIO_CTRL_SET_CLOSE then
       Some (1, put_bio h a (bio\<lparr>bio_shutdown := signed_take_bit 31 arg\<rparr>))
     else if cmd = BIO_CTRL_PENDING then
       (case bb_peer b of None \<Rightarrow> Some (0, h)
        | Some peer \<Rightarrow> do { peer_bio \<leftarrow> bio_at h peer; Some (to_long (bb_len (bio_ptr peer_bio)), h) })
     else if cmd = BIO_CTRL_WPENDING then Some (if bb_buf b \<noteq> None then to_long (bb_len b) else 0, h)
     else if cmd = BIO_CTRL_FLUSH then Some (1, h)
     else if cmd = BIO_CTRL_EOF then
       (case ptr of None \<Rightarrow> Some (1, h)
        | Some other \<Rightarrow> do {
            other_bio \<leftarrow> bio_at h other;
            let other_b = bio_ptr other_bio;
            Some (if bb_len other_b = 0 \<and> bb_closed other_b then 1 else 0, h) })
     else Some (0, h)
   }"

section \<open>The interface\<close>

text \<open>A BIO argument is \<open>None\<close> for a null pointer. Every BIO of the model has the method table of the pair.\<close>

definition BIO_new :: "(nat \<Rightarrow> bytes option) \<Rightarrow> heap \<Rightarrow> (nat option \<times> heap) option" where
  "BIO_new malloc h = do {
     ret \<leftarrow> OPENSSL_malloc malloc sizeof_BIO;
     if ret = None then Some (None, h)
     else do {
       b \<leftarrow> bio_new malloc;
       case b of
         None \<Rightarrow> Some (None, h)
       | Some b \<Rightarrow> Some (Some (length h), h @ [Some \<lparr>bio_init = False, bio_shutdown = 1, bio_flags = 0, bio_retry_reason = 0,
           bio_references = 1, bio_ptr = b, next_bio = None, num_read = 0, num_write = 0\<rparr>])
     }
   }"

definition BIO_up_ref :: "heap \<Rightarrow> nat \<Rightarrow> (int \<times> heap) option" where
  "BIO_up_ref h a = do {
     bio \<leftarrow> bio_at h a;
     Some (1, put_bio h a (bio\<lparr>bio_references := CRYPTO_refcount_inc (bio_references bio)\<rparr>))
   }"

definition BIO_pop :: "heap \<Rightarrow> nat option \<Rightarrow> (nat option \<times> heap) option" where
  "BIO_pop h bio =
     (case bio of None \<Rightarrow> Some (None, h)
      | Some a \<Rightarrow> do {
          bio \<leftarrow> bio_at h a;
          Some (next_bio bio, put_bio h a (bio\<lparr>next_bio := None\<rparr>))
        })"

partial_function (option) BIO_last :: "heap \<Rightarrow> nat \<Rightarrow> nat option" where
  "BIO_last h a = do {
     bio \<leftarrow> bio_at h a;
     case next_bio bio of None \<Rightarrow> Some a | Some next \<Rightarrow> BIO_last h next
   }"

definition BIO_push :: "heap \<Rightarrow> nat option \<Rightarrow> nat option \<Rightarrow> (nat option \<times> heap) option" where
  "BIO_push h bio appended_bio =
     (case bio of None \<Rightarrow> Some (None, h)
      | Some a \<Rightarrow> do {
          last_bio \<leftarrow> BIO_last h a;
          bio \<leftarrow> bio_at h last_bio;
          Some (Some a, put_bio h last_bio (bio\<lparr>next_bio := appended_bio\<rparr>))
        })"

text \<open>One turn of the loop of \<open>BIO_free\<close>: the next BIO to free, or the end.\<close>

definition free_turn :: "heap \<Rightarrow> nat \<Rightarrow> (bool \<times> nat option \<times> heap) option" where
  "free_turn h a = do {
     bio \<leftarrow> bio_at h a;
     (zero, references) \<leftarrow> CRYPTO_refcount_dec_and_test_zero (bio_references bio);
     let h = put_bio h a (bio\<lparr>bio_references := references\<rparr>);
     if \<not> zero then Some (False, None, h)
     else do {
       (next, h) \<leftarrow> BIO_pop h (Some a);
       h \<leftarrow> bio_free h a;
       Some (True, next, h[a := None])
     }
   }"

definition live :: "heap \<Rightarrow> nat" where
  "live h = length (filter (\<lambda>x. x \<noteq> None) h)"

function BIO_free :: "heap \<Rightarrow> nat option \<Rightarrow> (int \<times> heap) option" where
  "BIO_free h None = Some (1, h)"
| "BIO_free h (Some a) =
     (case free_turn h a of
        None \<Rightarrow> None
      | Some (again, next, h') \<Rightarrow> if again then BIO_free h' next else Some (0, h'))"
  by pat_completeness auto

definition BIO_read :: "heap \<Rightarrow> nat option \<Rightarrow> bool \<Rightarrow> int \<Rightarrow> (int \<times> bytes \<times> heap) option" where
  "BIO_read h bio buf_null len =
     (case bio of None \<Rightarrow> Some (-2, [], h)
      | Some a \<Rightarrow> do {
          bio \<leftarrow> bio_at h a;
          if \<not> bio_init bio then Some (-2, [], h)
          else if len \<le> 0 then Some (0, [], h)
          else do {
            (ret, out, h) \<leftarrow> bio_read h a buf_null len;
            if ret > 0 then do {
              bio \<leftarrow> bio_at h a;
              Some (ret, out, put_bio h a (bio\<lparr>num_read := num_read bio + word_of_int ret\<rparr>))
            }
            else Some (ret, out, h)
          }
        })"

definition BIO_write :: "heap \<Rightarrow> nat option \<Rightarrow> bytes option \<Rightarrow> int \<Rightarrow> (int \<times> heap) option" where
  "BIO_write h bio data inl =
     (case bio of None \<Rightarrow> Some (-2, h)
      | Some a \<Rightarrow> do {
          bio \<leftarrow> bio_at h a;
          if \<not> bio_init bio then Some (-2, h)
          else if inl \<le> 0 then Some (0, h)
          else do {
            (ret, h) \<leftarrow> bio_write h a data inl;
            if ret > 0 then do {
              bio \<leftarrow> bio_at h a;
              Some (ret, put_bio h a (bio\<lparr>num_write := num_write bio + word_of_int ret\<rparr>))
            }
            else Some (ret, h)
          }
        })"

definition BIO_gets :: "heap \<Rightarrow> nat option \<Rightarrow> int \<Rightarrow> (int \<times> heap) option" where
  "BIO_gets h bio len = Some (-2, h)"

partial_function (option) BIO_write_all :: "heap \<Rightarrow> nat option \<Rightarrow> bytes \<Rightarrow> u64 \<Rightarrow> (bool \<times> heap) option" where
  "BIO_write_all h bio data len =
     (if len > 0 then do {
        (ret, h) \<leftarrow> BIO_write h bio (Some data) (if len > word_of_int INT_MAX then INT_MAX else to_int len);
        if ret \<le> 0 then Some (False, h)
        else BIO_write_all h bio (drop (nat ret) data) (len - word_of_int ret)
      }
      else Some (True, h))"

definition BIO_puts :: "heap \<Rightarrow> nat option \<Rightarrow> bytes \<Rightarrow> (int \<times> heap) option" where
  "BIO_puts h bio str = BIO_write h bio (Some str) (to_int (word_of_nat (c_strlen str)))"

definition BIO_ctrl :: "heap \<Rightarrow> nat option \<Rightarrow> int \<Rightarrow> int \<Rightarrow> nat option \<Rightarrow> (int \<times> heap) option" where
  "BIO_ctrl h bio cmd larg parg =
     (case bio of None \<Rightarrow> Some (0, h) | Some a \<Rightarrow> bio_ctrl h a cmd larg parg)"

definition BIO_pending :: "heap \<Rightarrow> nat option \<Rightarrow> (u64 \<times> heap) option" where
  "BIO_pending h bio = do {
     (r, h) \<leftarrow> BIO_ctrl h bio BIO_CTRL_PENDING 0 None;
     c_assert (r \<ge> 0);
     Some (if r < 0 then 0 else word_of_int r, h)
   }"

definition BIO_wpending :: "heap \<Rightarrow> nat option \<Rightarrow> (u64 \<times> heap) option" where
  "BIO_wpending h bio = do {
     (r, h) \<leftarrow> BIO_ctrl h bio BIO_CTRL_WPENDING 0 None;
     c_assert (r \<ge> 0);
     Some (if r < 0 then 0 else word_of_int r, h)
   }"

definition BIO_flush :: "heap \<Rightarrow> nat option \<Rightarrow> (int \<times> heap) option" where
  "BIO_flush h bio = BIO_ctrl h bio BIO_CTRL_FLUSH 0 None"

definition BIO_eof :: "heap \<Rightarrow> nat option \<Rightarrow> (int \<times> heap) option" where
  "BIO_eof h bio = BIO_ctrl h bio BIO_CTRL_EOF 0 None"

definition BIO_set_close :: "heap \<Rightarrow> nat option \<Rightarrow> int \<Rightarrow> (int \<times> heap) option" where
  "BIO_set_close h bio close_flag = BIO_ctrl h bio BIO_CTRL_SET_CLOSE close_flag None"

definition BIO_ctrl_get_read_request :: "heap \<Rightarrow> nat option \<Rightarrow> (u64 \<times> heap) option" where
  "BIO_ctrl_get_read_request h bio = map_option (map_prod word_of_int id) (BIO_ctrl h bio BIO_C_GET_READ_REQUEST 0 None)"

definition BIO_ctrl_get_write_guarantee :: "heap \<Rightarrow> nat option \<Rightarrow> (u64 \<times> heap) option" where
  "BIO_ctrl_get_write_guarantee h bio = map_option (map_prod word_of_int id) (BIO_ctrl h bio BIO_C_GET_WRITE_GUARANTEE 0 None)"

definition BIO_shutdown_wr :: "heap \<Rightarrow> nat option \<Rightarrow> (int \<times> heap) option" where
  "BIO_shutdown_wr h bio = BIO_ctrl h bio BIO_C_SHUTDOWN_WR 0 None"

definition BIO_free_all :: "heap \<Rightarrow> nat option \<Rightarrow> heap option" where
  "BIO_free_all h bio = map_option snd (BIO_free h bio)"

lemma bio_at_put: "bio_at h a \<noteq> None \<Longrightarrow> bio_at (put_bio h a x) b = (if b = a then Some x else bio_at h b)"
  by (auto simp: bio_at_def put_bio_def split: if_splits)

lemma length_put_bio [simp]: "length (put_bio h a x) = length h"
  by (simp add: put_bio_def)

lemma live_card: "live h = card {a. bio_at h a \<noteq> None}"
  unfolding live_def length_filter_conv_card by (rule arg_cong [where f = card]) (auto simp: bio_at_def)

lemma finite_live: "finite {a. bio_at h a \<noteq> None}"
  by (rule finite_subset [of _ "{..< length h}"]) (auto simp: bio_at_def split: if_splits)

lemma live_put_bio: "bio_at h a \<noteq> None \<Longrightarrow> live (put_bio h a x) = live h"
  by (auto simp: live_card bio_at_put intro: arg_cong [where f = card])

lemma bio_at_clear: "bio_at (h[a := None]) b = (if b = a then None else bio_at h b)"
  by (auto simp: bio_at_def)

lemma live_clear: "bio_at h a \<noteq> None \<Longrightarrow> live (h[a := None]) < live h"
  unfolding live_card bio_at_clear using finite_live [of h] by (intro psubset_card_mono) auto

lemmas option_iffs = bind_eq_Some_conv c_assert_def


definition same_dom :: "heap \<Rightarrow> heap \<Rightarrow> bool" where
  "same_dom h h' \<longleftrightarrow> (\<forall>a. bio_at h' a = None \<longleftrightarrow> bio_at h a = None)"

lemma same_dom_refl [simp]: "same_dom h h"
  by (simp add: same_dom_def)

lemma same_dom_put: "same_dom h h' \<Longrightarrow> bio_at h' a \<noteq> None \<Longrightarrow> same_dom h (put_bio h' a x)"
  by (auto simp: same_dom_def bio_at_put)

lemma same_dom_live: "same_dom h h' \<Longrightarrow> live h' = live h"
  by (auto simp: same_dom_def live_card intro: arg_cong [where f = card])

lemma bio_free_same_dom: "bio_free h a = Some h' \<Longrightarrow> same_dom h h'"
  unfolding bio_free_def bio_destroy_pair_def Let_def
  by (auto simp: option_iffs bio_at_put same_dom_def split: if_splits option.splits)

lemma free_turn_live: "free_turn h a = Some (True, next, h') \<Longrightarrow> live h' < live h"
proof -
  assume t: "free_turn h a = Some (True, next, h')"
  from t obtain bio x y h2 where b: "bio_at h a = Some bio" and h2: "bio_free (put_bio (put_bio h a x) a y) a = Some h2"
    and h': "h' = h2[a := None]"
    unfolding free_turn_def BIO_pop_def Let_def by (auto simp: option_iffs bio_at_put split: if_splits)
  have h1: "same_dom h (put_bio (put_bio h a x) a y)"
    using b by (intro same_dom_put) (simp_all add: bio_at_put)
  have "bio_at h2 a \<noteq> None" "live h2 = live h"
    using b h1 bio_free_same_dom [OF h2] same_dom_live by (auto simp: same_dom_def)
  then show ?thesis using live_clear [of h2 a] h' by simp
qed

termination BIO_free
  by (relation "measure (\<lambda>(h, _). live h)") (auto dest: free_turn_live)

text \<open>The argument \<open>malloc i\<close> answers at allocation \<open>i\<close>: the two BIOs, then the two buffers.\<close>

definition BIO_new_bio_pair ::
  "(nat \<Rightarrow> nat \<Rightarrow> bytes option) \<Rightarrow> heap \<Rightarrow> u64 \<Rightarrow> u64 \<Rightarrow> ((nat \<times> nat) option \<times> heap) option" where
  "BIO_new_bio_pair malloc h writebuf1_len writebuf2_len = do {
     (bio1, h) \<leftarrow> BIO_new (malloc 0) h;
     (bio2, h) \<leftarrow> BIO_new (malloc 1) h;
     (pair, h) \<leftarrow> (case (bio1, bio2) of
         (Some a1, Some a2) \<Rightarrow> do {
           (ok, h) \<leftarrow> bio_make_pair (malloc 2) (malloc 3) h a1 a2 writebuf1_len writebuf2_len;
           Some (if ok then Some (a1, a2) else None, h) }
       | _ \<Rightarrow> Some (None, h));
     if pair = None then do {
       (_, h) \<leftarrow> BIO_free h bio1;
       (_, h) \<leftarrow> BIO_free h bio2;
       Some (None, h) }
     else Some (pair, h)
   }"

end
