(* ===== verification/BioRing.thy ===== *)
theory BioRing
  imports Bio
begin

text \<open>
  The ring buffer of a BIO as the queue of its bytes: the copying loops of \<open>bio_read\<close> and
  \<open>bio_write\<close> in \<^verbatim>\<open>crypto/bio/pair.c\<close> end, stay inside the buffer and the assertions, and take from the
  front or append at the back.
\<close>

section \<open>Queues of bytes\<close>

definition ring :: "bio_bio_st \<Rightarrow> bytes" where
  "ring b =
     (case bb_buf b of None \<Rightarrow> []
      | Some buf \<Rightarrow> take (unat (bb_len b)) (drop (unat (bb_offset b)) buf @ take (unat (bb_offset b)) buf))"

definition ring_ok :: "bio_bio_st \<Rightarrow> bool" where
  "ring_ok b \<longleftrightarrow> unat (bb_size b) < 2 ^ 62 \<and> bb_offset b < bb_size b \<and> bb_len b \<le> bb_size b \<and> (bb_len b = 0 \<longrightarrow> bb_offset b = 0) \<and>
     (case bb_buf b of None \<Rightarrow> False | Some buf \<Rightarrow> length buf = unat (bb_size b))"

lemma length_ring: "ring_ok b \<Longrightarrow> length (ring b) = unat (bb_len b)"
  by (auto simp: ring_ok_def ring_def word_less_nat_alt word_le_nat_alt split: option.splits)

lemma unat_add_small: "unat a < 2 ^ 62 \<Longrightarrow> unat b < 2 ^ 63 \<Longrightarrow> unat (a + b :: u64) = unat a + unat b"
  by (simp add: unat_word_ariths)

lemma unat_sub_le: "b \<le> a \<Longrightarrow> unat (a - b :: u64) = unat a - unat b"
  by (rule unat_sub)

lemmas word_nat = word_less_nat_alt word_le_nat_alt

lemma unat_eq_0: "(w :: u64) = 0 \<longleftrightarrow> unat w = 0"
  by (simp add: unat_eq_zero)

definition same_ring :: "bio_bio_st \<Rightarrow> bio_bio_st \<Rightarrow> bool" where
  "same_ring b b' \<longleftrightarrow> bb_peer b' = bb_peer b \<and> bb_closed b' = bb_closed b \<and> bb_size b' = bb_size b \<and> bb_request b' = bb_request b"

lemma read_turn_ok:
  assumes ok: "ring_ok p" and rest: "0 < rest" "rest \<le> bb_len p"
  obtains out rest' p' where "read_turn rest p = Some (out, rest', p')" "ring_ok p'" "same_ring p p'"
    "out @ ring p' = ring p" "unat rest = length out + unat rest'" "rest' \<le> bb_len p'" "rest' = 0 \<or> bb_offset p' = 0" "0 < length out"
proof -
  define n l r f where n: "n = unat (bb_size p)" and l: "l = unat (bb_len p)" and r: "r = unat rest" and f: "f = unat (bb_offset p)"
  obtain buf where buf: "bb_buf p = Some buf" and len: "length buf = n"
    using ok by (auto simp: ring_ok_def n split: option.splits)
  have b: "n < 2 ^ 62" "f < n" "l \<le> n" "0 < r" "r \<le> l" "l = 0 \<longrightarrow> f = 0"
    using ok rest by (auto simp: ring_ok_def word_nat n l r f unat_eq_0)
  define chunk where c: "chunk = (if bb_offset p + rest \<le> bb_size p then rest else bb_size p - bb_offset p)"
  define k where "k = (if f + r \<le> n then r else n - f)"
  have sum: "unat (bb_offset p + rest) = f + r"
    unfolding f r by (rule unat_add_small) (use b in \<open>simp_all add: n l r f\<close>)
  have k: "unat chunk = k"
    unfolding c k_def using sum b unat_sub_le [of "bb_offset p" "bb_size p"] by (simp add: word_nat f n r)
  have kb: "0 < k" "k \<le> r" "f + k \<le> n" "k = r \<or> f + k = n"
    using b by (auto simp: k_def)
  have fk: "unat (bb_offset p + chunk) = f + k"
    unfolding f k [symmetric] by (rule unat_add_small) (use b kb k in \<open>simp_all add: n l r f\<close>)
  have lk: "unat (bb_len p - chunk) = l - k"
    using unat_sub_le [of chunk "bb_len p"] kb b k by (simp add: word_nat l)
  have rk: "unat (rest - chunk) = r - k"
    using unat_sub_le [of chunk rest] kb b k by (simp add: word_nat r)
  define p' where p': "p' = p\<lparr>bb_len := bb_len p - chunk,
    bb_offset := (if l = k then 0 else if f + k = n then 0 else bb_offset p + chunk)\<rparr>"
  have turn: "read_turn rest p = Some (take k (drop f buf), rest - chunk, p')"
  proof -
    have "(bb_offset p + chunk = bb_size p) \<longleftrightarrow> f + k = n"
      using fk n by (simp add: word_unat_eq_iff)
    moreover have "bb_len p - chunk = 0 \<longleftrightarrow> l = k"
      using lk kb b by (auto simp: unat_eq_0)
    moreover have "l = k \<Longrightarrow> rest = chunk"
      using kb b k r by (simp add: word_unat_eq_iff)
    moreover have "rest \<le> bb_len p" "bb_offset p + chunk \<le> bb_size p"
      using rest fk kb n by (simp_all add: word_nat)
    ultimately show ?thesis
      using kb len by (simp add: read_turn_def c [symmetric] Let_def c_assert_def buf k f [symmetric] p' del: right_minus_eq)
  qed
  have f': "unat (bb_offset p') = (if l = k then 0 else if f + k = n then 0 else f + k)"
    using fk by (simp add: p')
  have l': "unat (bb_len p') = l - k" using lk by (simp add: p')
  have "buf \<noteq> []"
    using len b by auto
  then have "ring_ok p'"
    using b kb f' l' buf len by (auto simp: ring_ok_def word_nat unat_eq_0) (simp_all add: p' n [symmetric])
  moreover have "take k (drop f buf) @ ring p' = ring p"
  proof -
    have ring: "ring p = take l (drop f buf @ take f buf)"
      "ring p' = take (l - k) (drop (unat (bb_offset p')) buf @ take (unat (bb_offset p')) buf)"
      using l' by (simp_all add: ring_def buf l f p')
    have drop: "drop f buf = take k (drop f buf) @ drop (f + k) buf"
      by (metis add.commute append_take_drop_id drop_drop)
    have "take l (drop f buf @ xs) = take k (drop f buf) @ take (l - k) (drop (f + k) buf @ xs)" for xs
      using kb len b by (subst drop) simp
    moreover have "take (l - k) (drop (f + k) buf @ take f buf) = ring p'"
      unfolding ring(2) f' using kb len b by (auto simp: min_def intro!: arg_cong2 [where f = take])
    ultimately show ?thesis
      by (simp add: ring(1) del: take_append)
  qed
  ultimately show ?thesis
    by (intro that [OF turn]) (use b kb rk f' l' len in \<open>auto simp: same_ring_def word_nat unat_eq_0 p' r [symmetric]\<close>)
qed


lemma read_loop_ok:
  assumes "ring_ok p" and "0 < rest" "rest \<le> bb_len p"
  shows "\<exists>p'. read_loop rest p acc = Some (acc @ take (unat rest) (ring p), p') \<and> ring_ok p' \<and> same_ring p p' \<and>
    ring p' = drop (unat rest) (ring p)"
  using assms
proof (induction "unat rest" arbitrary: rest p acc rule: less_induct)
  case less
  obtain out rest' p' where t: "read_turn rest p = Some (out, rest', p')" "ring_ok p'" "same_ring p p'"
    "out @ ring p' = ring p" "unat rest = length out + unat rest'" "rest' \<le> bb_len p'" "0 < length out"
    using read_turn_ok [OF less.prems] by metis
  have r: "take (unat rest) (ring p) = out @ take (unat rest') (ring p')" "drop (unat rest) (ring p) = drop (unat rest') (ring p')"
    using t(5) by (simp_all flip: t(4))
  show ?case
  proof (cases "rest' = 0")
    case True
    then show ?thesis
      using t r by (subst read_loop.simps) simp
  next
    case False
    then have "0 < rest'" by (simp add: word_nat unat_eq_0)
    then obtain p'' where "read_loop rest' p' (acc @ out) = Some ((acc @ out) @ take (unat rest') (ring p'), p'')" "ring_ok p''"
      "same_ring p' p''" "ring p'' = drop (unat rest') (ring p')"
      using less.hyps [of rest' p' "acc @ out"] t by auto
    then show ?thesis
      using t r False by (subst read_loop.simps) (auto simp: same_ring_def)
  qed
qed

lemma write_turn_ok:
  assumes ok: "ring_ok b" and rest: "0 < rest" "unat (bb_len b) + unat rest \<le> unat (bb_size b)" and data: "unat rest \<le> length data"
  obtains k rest' b' where "write_turn rest data b = Some (rest', drop k data, b')" "ring_ok b'" "same_ring b b'"
    "ring b' = ring b @ take k data" "unat rest = k + unat rest'" "0 < k"
proof -
  define n l r f where n: "n = unat (bb_size b)" and l: "l = unat (bb_len b)" and r: "r = unat rest" and f: "f = unat (bb_offset b)"
  obtain buf where buf: "bb_buf b = Some buf" and len: "length buf = n"
    using ok by (auto simp: ring_ok_def n split: option.splits)
  have b: "n < 2 ^ 62" "f < n" "l + r \<le> n" "0 < r" "l = 0 \<longrightarrow> f = 0" "r \<le> length data"
    using ok rest data by (auto simp: ring_ok_def word_nat n l r f unat_eq_0)
  define off where off: "off = (if bb_offset b + bb_len b \<ge> bb_size b then bb_offset b + bb_len b - bb_size b else bb_offset b + bb_len b)"
  define w where "w = (if n \<le> f + l then f + l - n else f + l)"
  have sum: "unat (bb_offset b + bb_len b) = f + l"
    unfolding f l by (rule unat_add_small) (use b in \<open>simp_all add: n l r f\<close>)
  have w: "unat off = w"
    unfolding off w_def using sum unat_sub_le [of "bb_size b" "bb_offset b + bb_len b"] by (simp add: word_nat n)
  have wn: "w < n" using b by (auto simp: w_def)
  define chunk where c: "chunk = (if off + rest \<le> bb_size b then rest else bb_size b - off)"
  define k where "k = (if w + r \<le> n then r else n - w)"
  have "unat (off + rest) = w + r"
    unfolding w [symmetric] r by (rule unat_add_small) (use b wn w in \<open>simp_all add: r\<close>)
  then have k: "unat chunk = k"
    unfolding c k_def using wn unat_sub_le [of off "bb_size b"] by (simp add: word_nat n w r)
  have kb: "0 < k" "k \<le> r" "w + k \<le> n" "n \<le> f + l \<Longrightarrow> k = r"
    using b wn by (auto simp: k_def w_def)
  have lk: "unat (bb_len b + chunk) = l + k"
    unfolding l k [symmetric] by (rule unat_add_small) (use b kb k in \<open>simp_all add: n l r f\<close>)
  have lr: "unat (bb_len b + rest) = l + r"
    unfolding l r by (rule unat_add_small) (use b in \<open>simp_all add: n l r f\<close>)
  have rk: "unat (rest - chunk) = r - k"
    using unat_sub_le [of chunk rest] kb b k by (simp add: word_nat r)
  define b' where b': "b' = b\<lparr>bb_buf := Some (write_at w (take k data) buf), bb_len := bb_len b + chunk\<rparr>"
  have turn: "write_turn rest data b = Some (rest - chunk, drop k data, b')"
  proof -
    have "bb_len b + rest \<le> bb_size b" "bb_len b + chunk \<le> bb_size b"
      using kb b lr lk by (simp_all add: word_nat n)
    then show ?thesis
      unfolding write_turn_def Let_def off [symmetric] c [symmetric]
      using kb b len by (simp add: c_assert_def buf k w b')
  qed
  have fl: "unat (bb_offset b') = f" "unat (bb_len b') = l + k"
    using lk by (simp_all add: b' f)
  have "ring_ok b'"
    using b kb len lk by (auto simp: ring_ok_def word_nat unat_eq_0 b' n [symmetric] f [symmetric] l)
  moreover have "ring b' = ring b @ take k data"
  proof -
    have ring: "ring b = take l (drop f buf @ take f buf)"
      "ring b' = take (l + k) (drop f (write_at w (take k data) buf) @ take f (write_at w (take k data) buf))"
      using fl by (simp_all add: ring_def buf l f b')
    show ?thesis
    proof (cases "n \<le> f + l")
      case True
      then have w: "w + k \<le> f" and l': "l = (n - f) + w"
        using kb b by (auto simp: w_def)
      have d: "length (drop f buf) = n - f" "length (take k data) = k"
        using len b kb by simp_all
      have "drop f (write_at w (take k data) buf) = drop f buf"
        and "take f (write_at w (take k data) buf) = take w buf @ take k data @ drop (w + k) (take f buf)"
        using w b(2) len d by (simp_all add: write_at_def drop_take)
      moreover have "take l (drop f buf @ take f buf) = drop f buf @ take w buf"
        using d w by (simp add: l' min_def)
      moreover have "take (l + k) (drop f buf @ take w buf @ take k data @ drop (w + k) (take f buf)) = drop f buf @ take w buf @ take k data"
        using d w len b(2) by (simp add: l' add.assoc min_def)
      ultimately show ?thesis
        by (simp only: ring append_assoc)
    next
      case False
      then have w: "w = f + l"
        by (simp add: w_def)
      then have "drop f (write_at w (take k data) buf) = take l (drop f buf) @ take k data @ drop (w + k) buf"
        using b len kb by (simp add: write_at_def drop_take)
      then show ?thesis
        unfolding ring using w b len kb by simp
    qed
  qed
  ultimately show ?thesis
    by (intro that [OF turn]) (use b kb rk in \<open>auto simp: same_ring_def b' r [symmetric]\<close>)
qed

lemma write_loop_ok:
  assumes "ring_ok b" and "0 < rest" "unat (bb_len b) + unat rest \<le> unat (bb_size b)" and "unat rest \<le> length data"
  shows "\<exists>b'. write_loop rest data b = Some b' \<and> ring_ok b' \<and> same_ring b b' \<and> ring b' = ring b @ take (unat rest) data"
  using assms
proof (induction "unat rest" arbitrary: rest b data rule: less_induct)
  case less
  obtain k rest' b' where t: "write_turn rest data b = Some (rest', drop k data, b')" "ring_ok b'" "same_ring b b'"
    "ring b' = ring b @ take k data" "unat rest = k + unat rest'" "0 < k"
    by (rule write_turn_ok [OF less.prems])
  have len: "unat (bb_len b') = unat (bb_len b) + k"
    using length_ring [OF t(2)] length_ring [OF less.prems(1)] t(4,5) less.prems(4) by simp
  show ?case
  proof (cases "rest' = 0")
    case True
    then show ?thesis
      using t by (subst write_loop.simps) simp
  next
    case False
    then have "0 < rest'" by (simp add: word_nat unat_eq_0)
    moreover have "unat (bb_len b') + unat rest' \<le> unat (bb_size b')" "unat rest' \<le> length (drop k data)" "unat rest' < unat rest"
      using t len less.prems by (auto simp: same_ring_def)
    ultimately obtain b'' where "write_loop rest' (drop k data) b' = Some b''" "ring_ok b''"
      "same_ring b' b''" "ring b'' = ring b' @ take (unat rest') (drop k data)"
      using less.hyps [of rest' b' "drop k data"] t(2) by blast
    then show ?thesis
      using t False by (subst write_loop.simps) (auto simp: same_ring_def take_add)
  qed
qed

end
