(* ===== verification/BioPair.thy ===== *)
theory BioPair
  imports BioRing Refine
begin

text \<open>
  The contract of the BIO pair. \<open>heap_ok\<close> is what the comments of \<open>struct bio_bio_st\<close> say of a heap of BIOs,
  and every call keeps it; two joined BIOs refine two bounded queues (\<open>bio_pair\<close>,
  an interpretation of \<open>refines\<close>); \<open>BIO_write_all\<close> returns; freeing one end unlinks the other.
\<close>

section \<open>The invariant of the heap\<close>

definition local_ok :: "bio \<Rightarrow> bool" where
  "local_ok x \<longleftrightarrow> bio_references x \<noteq> 0 \<and> (bio_init x \<longleftrightarrow> bb_peer (bio_ptr x) \<noteq> None) \<and>
     (bb_buf (bio_ptr x) \<noteq> None \<longrightarrow> ring_ok (bio_ptr x)) \<and> (bb_buf (bio_ptr x) = None \<longrightarrow> bb_peer (bio_ptr x) = None) \<and>
     (if bb_peer (bio_ptr x) = None then bb_len (bio_ptr x) = 0 \<and> bb_offset (bio_ptr x) = 0
      else bb_request (bio_ptr x) \<le> bb_size (bio_ptr x) \<and> (bb_len (bio_ptr x) \<noteq> 0 \<longrightarrow> bb_request (bio_ptr x) = 0))"

definition linked :: "heap \<Rightarrow> nat \<Rightarrow> bio \<Rightarrow> bool" where
  "linked h a x \<longleftrightarrow>
     (case bb_peer (bio_ptr x) of None \<Rightarrow> True
      | Some p \<Rightarrow> p \<noteq> a \<and> (case bio_at h p of None \<Rightarrow> False | Some y \<Rightarrow> bb_peer (bio_ptr y) = Some a))"

definition heap_ok :: "heap \<Rightarrow> bool" where
  "heap_ok h \<longleftrightarrow> (\<forall>a x. bio_at h a = Some x \<longrightarrow> local_ok x \<and> linked h a x)"

lemma heap_okD: "heap_ok h \<Longrightarrow> bio_at h a = Some x \<Longrightarrow> local_ok x \<and> linked h a x"
  by (simp add: heap_ok_def)

lemma heap_ok_put:
  assumes "heap_ok h" "bio_at h a = Some x" "local_ok x'" "bb_peer (bio_ptr x') = bb_peer (bio_ptr x)"
  shows "heap_ok (put_bio h a x')"
proof -
  have "linked (put_bio h a x') c z" if z: "bio_at h c = Some z" "linked h c z" for c z
    using that assms(2,4) by (auto simp: linked_def bio_at_put split: option.splits)
  moreover have "linked h a x" using assms heap_okD by blast
  then have "linked (put_bio h a x') a x'"
    using assms(2,4) by (auto simp: linked_def bio_at_put split: option.splits)
  ultimately show ?thesis
    using assms unfolding heap_ok_def by (auto simp: bio_at_put)
qed

section \<open>The abstract pair\<close>

text \<open>One end: the queue its writes go to, its flags and counters.\<close>

record pipe_end =
  pe_queue :: bytes
  pe_cap :: nat
  pe_shut :: bool
  pe_want :: nat
  pe_retry :: u32
  pe_read :: u64
  pe_written :: u64

definition pipe_of :: "bio \<Rightarrow> pipe_end" where
  "pipe_of x = \<lparr>pe_queue = ring (bio_ptr x), pe_cap = unat (bb_size (bio_ptr x)), pe_shut = bb_closed (bio_ptr x),
     pe_want = unat (bb_request (bio_ptr x)), pe_retry = BIO_get_retry_flags x, pe_read = num_read x, pe_written = num_write x\<rparr>"

definition pipe_read :: "nat \<Rightarrow> pipe_end \<Rightarrow> pipe_end \<Rightarrow> (int \<times> bytes) \<times> pipe_end \<times> pipe_end" where
  "pipe_read n e peer =
     (if n = 0 then ((0, []), e, peer)
      else if pe_queue peer = [] \<and> pe_shut peer then ((0, []), e\<lparr>pe_retry := 0\<rparr>, peer\<lparr>pe_want := 0\<rparr>)
      else if pe_queue peer = [] then
        ((-1, []), e\<lparr>pe_retry := BIO_FLAGS_READ OR BIO_FLAGS_SHOULD_RETRY\<rparr>, peer\<lparr>pe_want := min n (pe_cap peer)\<rparr>)
      else let out = take n (pe_queue peer) in
        ((int (length out), out), e\<lparr>pe_retry := 0, pe_read := pe_read e + word_of_nat (length out)\<rparr>,
         peer\<lparr>pe_queue := drop n (pe_queue peer), pe_want := 0\<rparr>))"

definition pipe_write :: "bytes \<Rightarrow> pipe_end \<Rightarrow> int \<times> pipe_end" where
  "pipe_write data e =
     (if data = [] then (0, e)
      else if pe_shut e then (-1, e\<lparr>pe_want := 0, pe_retry := 0\<rparr>)
      else if length (pe_queue e) = pe_cap e then
        (-1, e\<lparr>pe_want := 0, pe_retry := BIO_FLAGS_WRITE OR BIO_FLAGS_SHOULD_RETRY\<rparr>)
      else let put = take (pe_cap e - length (pe_queue e)) data in
        (int (length put), e\<lparr>pe_queue := pe_queue e @ put, pe_want := 0, pe_retry := 0,
           pe_written := pe_written e + word_of_nat (length put)\<rparr>))"

lemma sint_small:
  assumes "unat w < 2 ^ n" "LENGTH('a) = Suc n"
  shows "sint (w :: 'a::len word) = int (unat w)"
proof -
  have "int (unat w) < int (2 ^ n)"
    using assms(1) by (simp only: of_nat_less_iff)
  moreover have "- (2 ^ n) \<le> uint w"
    by (rule order_trans [of _ 0]) simp_all
  ultimately show ?thesis
    using assms(2) by (simp add: sint_uint signed_take_bit_int_eq_self)
qed

lemma to_int_small: "unat w < 2 ^ 31 \<Longrightarrow> to_int w = int (unat w)"
proof -
  assume w: "unat w < 2 ^ 31"
  then have "unat (ucast w :: u32) = unat w"
    by (simp add: unsigned_ucast_eq unsigned_take_bit_eq take_bit_nat_eq_self)
  with w show ?thesis
    unfolding to_int_def by (subst sint_small [where n = 31]) simp_all
qed

lemma to_long_small: "unat w < 2 ^ 63 \<Longrightarrow> to_long w = int (unat w)"
  unfolding to_long_def by (rule sint_small) simp_all

lemma put_bio_overwrite [simp]: "put_bio (put_bio h a x) a y = put_bio h a y"
  by (simp add: put_bio_def)

lemma put_bio_swap [simp]: "a \<noteq> b \<Longrightarrow> put_bio (put_bio (put_bio h a x) b y) a x' = put_bio (put_bio h a x') b y"
  by (simp add: put_bio_def list_update_swap)

lemma retry_flags:
  "(f AND NOT kRetryFlags) AND kRetryFlags = 0"
  "((f AND NOT kRetryFlags) OR (BIO_FLAGS_READ OR BIO_FLAGS_SHOULD_RETRY)) AND kRetryFlags = BIO_FLAGS_READ OR BIO_FLAGS_SHOULD_RETRY"
  "((f AND NOT kRetryFlags) OR (BIO_FLAGS_WRITE OR BIO_FLAGS_SHOULD_RETRY)) AND kRetryFlags = BIO_FLAGS_WRITE OR BIO_FLAGS_SHOULD_RETRY"
  by (auto simp: bit_eq_iff bit_simps kRetryFlags_def BIO_FLAGS_RWS_def)



text \<open>A read in a joined pair, on every branch.\<close>

lemma local_okD:
  assumes "local_ok x" "bb_peer (bio_ptr x) = Some p"
  shows "bio_init x" "ring_ok (bio_ptr x)" "bb_request (bio_ptr x) \<le> bb_size (bio_ptr x)" "bb_buf (bio_ptr x) \<noteq> None"
    "bb_len (bio_ptr x) \<noteq> 0 \<Longrightarrow> bb_request (bio_ptr x) = 0"
  using assms by (auto simp: local_ok_def Let_def)

definition same_link :: "bio \<Rightarrow> bio \<Rightarrow> bool" where
  "same_link x x' \<longleftrightarrow> bb_peer (bio_ptr x') = bb_peer (bio_ptr x) \<and> next_bio x' = next_bio x \<and>
     bio_references x' = bio_references x \<and> bio_shutdown x' = bio_shutdown x"

lemma ring_empty: "ring_ok b \<Longrightarrow> ring b = [] \<longleftrightarrow> bb_len b = 0"
  using length_ring [of b] by (auto simp: unat_eq_0)

lemma put_same: "bio_at h a = Some x \<Longrightarrow> put_bio h a x = h"
  by (auto simp: bio_at_def put_bio_def list_update_same_conv split: if_splits)

lemma ring_fields [simp]:
  "ring (b\<lparr>bb_request := r\<rparr>) = ring b" "ring_ok (b\<lparr>bb_request := r\<rparr>) = ring_ok b"
  "ring (b\<lparr>bb_closed := c\<rparr>) = ring b" "ring_ok (b\<lparr>bb_closed := c\<rparr>) = ring_ok b"
  by (simp_all add: ring_def ring_ok_def split: option.split)

lemma put_ptr_eq: "bio_at h a = Some x \<Longrightarrow> put_ptr h a b = put_bio h a (x\<lparr>bio_ptr := b\<rparr>)"
  by (simp add: put_ptr_def)

lemma bio_read_joined:
  assumes x: "bio_at h a = Some x" "bio_init x" "bb_peer (bio_ptr x) = Some b" "a \<noteq> b"
    and y: "bio_at h b = Some y" "ring_ok (bio_ptr y)" "bb_buf (bio_ptr y) \<noteq> None"
    and n: "int n \<le> INT_MAX" "n \<noteq> 0"
  defines "p \<equiv> (bio_ptr y)\<lparr>bb_request := 0\<rparr>" and "x1 \<equiv> BIO_clear_retry_flags x"
  shows "bb_len p = 0 \<Longrightarrow> bb_closed p \<Longrightarrow>
      bio_read h a False (int n) = Some (0, [], put_bio (put_bio h a x1) b (y\<lparr>bio_ptr := p\<rparr>))"
    and "bb_len p = 0 \<Longrightarrow> \<not> bb_closed p \<Longrightarrow>
      bio_read h a False (int n) = Some (-1, [], put_bio (put_bio h a (BIO_set_retry_read x1)) b
        (y\<lparr>bio_ptr := p\<lparr>bb_request := (if word_of_int (int n) \<le> bb_size p then word_of_int (int n) else bb_size p)\<rparr>\<rparr>))"
    and "bb_len p \<noteq> 0 \<Longrightarrow> \<exists>p'. bio_read h a False (int n) =
        Some (int (length (take n (ring p))), take n (ring p), put_bio (put_bio h a x1) b (y\<lparr>bio_ptr := p'\<rparr>)) \<and>
        ring_ok p' \<and> same_ring p p' \<and> ring p' = drop n (ring p)"
proof -
  define sz where "sz = (word_of_nat n :: u64)"
  have sz: "unat sz = n" "sz \<noteq> 0"
    unfolding sz_def using n by (simp_all add: unat_of_nat_u64 INT_MAX_def unat_eq_0)
  then have nz: "word_of_nat n \<noteq> (0 :: u64)"
    by (simp add: sz_def)
  have x1: "bio_init x1" "bb_peer (bio_ptr x1) = Some b"
    using x by (simp_all add: x1_def BIO_clear_retry_flags_def)
  have p: "ring_ok p"
    using y(2) by (simp add: p_def)
  have pf: "bb_len (bio_ptr y) = bb_len p" "bb_closed (bio_ptr y) = bb_closed p" "bb_size (bio_ptr y) = bb_size p"
    by (simp_all add: p_def)
  have yb: "bb_buf (bio_ptr y) \<noteq> None" "bio_at (put_bio h a x1) b = Some y"
    using y x by (simp_all add: bio_at_put)
  note start = bio_read_def x(1) bind.bind_lunit Let_def x1_def [symmetric] sz_def [symmetric] x1 yb c_assert_def p_def [symmetric]
    put_ptr_eq bio_at_put sz(2) nz pf
  show "bio_read h a False (int n) = Some (0, [], put_bio (put_bio h a x1) b (y\<lparr>bio_ptr := p\<rparr>))" if "bb_len p = 0" "bb_closed p"
    using that x y by (simp add: start)
  show "bio_read h a False (int n) = Some (-1, [], put_bio (put_bio h a (BIO_set_retry_read x1)) b
        (y\<lparr>bio_ptr := p\<lparr>bb_request := (if word_of_int (int n) \<le> bb_size p then word_of_int (int n) else bb_size p)\<rparr>\<rparr>))"
    if "bb_len p = 0" "\<not> bb_closed p"
    using that x y by (simp add: start)
  show "\<exists>p'. bio_read h a False (int n) =
        Some (int (length (take n (ring p))), take n (ring p), put_bio (put_bio h a x1) b (y\<lparr>bio_ptr := p'\<rparr>)) \<and>
        ring_ok p' \<and> same_ring p p' \<and> ring p' = drop n (ring p)" if l: "bb_len p \<noteq> 0"
  proof -
    define k where "k = (if bb_len p < sz then bb_len p else sz)"
    have k: "0 < k" "k \<le> bb_len p" "unat k = min n (length (ring p))"
      using l sz length_ring [OF p] by (auto simp: k_def word_nat unat_eq_0)
    obtain p' where p': "read_loop k p [] = Some (take (unat k) (ring p), p')" "ring_ok p'" "same_ring p p'" "ring p' = drop (unat k) (ring p)"
      using read_loop_ok [OF p k(1,2), of "[]"] by auto
    have r: "take (min n (length (ring p))) (ring p) = take n (ring p)" "drop (min n (length (ring p))) (ring p) = drop n (ring p)"
      by (simp_all add: min_def)
    have to_int: "to_int k = int (unat k)"
      by (rule to_int_small) (use n k(3) in \<open>simp add: INT_MAX_def\<close>)
    have "bio_read h a False (int n) =
        Some (int (length (take n (ring p))), take n (ring p), put_bio (put_bio h a x1) b (y\<lparr>bio_ptr := p'\<rparr>))"
    proof (cases "bb_len p < sz")
      case True
      then have "bb_len p = k" by (simp add: k_def)
      with True l x y k p' to_int show ?thesis by (simp add: start r min.commute)
    next
      case False
      then have "sz = k" "k \<noteq> 0" using sz(2) by (simp_all add: k_def)
      with False l x y k p' to_int show ?thesis by (simp add: start r min.commute)
    qed
    with p' r k(3) show ?thesis by auto
  qed
qed


lemma BIO_read_joined:
  assumes x: "bio_at h a = Some x" "local_ok x" "bb_peer (bio_ptr x) = Some b" "a \<noteq> b"
    and y: "bio_at h b = Some y" "local_ok y" "bb_peer (bio_ptr y) = Some a"
    and n: "int n \<le> INT_MAX"
  shows "\<exists>x' y'. BIO_read h (Some a) False (int n) =
      Some (fst (fst (pipe_read n (pipe_of x) (pipe_of y))), snd (fst (pipe_read n (pipe_of x) (pipe_of y))),
        put_bio (put_bio h a x') b y') \<and>
    (pipe_of x', pipe_of y') = snd (pipe_read n (pipe_of x) (pipe_of y)) \<and>
    local_ok x' \<and> local_ok y' \<and> same_link x x' \<and> same_link y y'"
proof (cases "n = 0")
  case True
  then show ?thesis
    using assms local_okD(1) [OF x(2,3)]
    by (intro exI [of _ x] exI [of _ y]) (simp add: BIO_read_def pipe_read_def same_link_def put_same)
next
  case False
  note X = local_okD [OF x(2,3)] and Y = local_okD [OF y(2,3)]
  define p where "p = (bio_ptr y)\<lparr>bb_request := 0\<rparr>"
  define x1 where "x1 = BIO_clear_retry_flags x"
  have p: "ring_ok p" "ring p = ring (bio_ptr y)"
    using Y(2) by (simp_all add: p_def)
  note read = bio_read_joined [OF x(1) X(1) x(3,4) y(1) Y(2,4) n False, folded p_def x1_def]
  have start: "BIO_read h (Some a) False (int n) = (do {
      (ret, out, h) \<leftarrow> bio_read h a False (int n);
      if ret > 0 then do {
        bio \<leftarrow> bio_at h a;
        Some (ret, out, put_bio h a (bio\<lparr>num_read := num_read bio + word_of_int ret\<rparr>))
      }
      else Some (ret, out, h)})"
    using x X False by (simp add: BIO_read_def)
  consider (shut) "bb_len p = 0" "bb_closed p" | (wait) "bb_len p = 0" "\<not> bb_closed p" | (data) "bb_len p \<noteq> 0"
    by blast
  then show ?thesis
  proof cases
    case shut
    then have "ring (bio_ptr y) = []" "bb_closed (bio_ptr y)"
      using ring_empty [OF p(1)] p(2) by (simp_all add: p_def)
    then show ?thesis
      using start read(1) [OF shut] x y X Y p False
      by (intro exI [of _ x1] exI [of _ "y\<lparr>bio_ptr := p\<rparr>"])
        (simp add: pipe_read_def pipe_of_def same_link_def x1_def p_def BIO_clear_retry_flags_def BIO_get_retry_flags_def
           retry_flags local_ok_def Let_def)
  next
    case wait
    define r where "r = (if word_of_int (int n) \<le> bb_size p then word_of_int (int n) else bb_size p)"
    define y' where "y' = y\<lparr>bio_ptr := p\<lparr>bb_request := r\<rparr>\<rparr>"
    have "unat r = min n (unat (bb_size (bio_ptr y)))" "r \<le> bb_size p"
      using n by (auto simp: r_def word_nat unat_of_nat_u64 INT_MAX_def p_def)
    moreover have "ring (bio_ptr y) = []" "\<not> bb_closed (bio_ptr y)"
      using ring_empty [OF p(1)] wait p(2) by (simp_all add: p_def)
    moreover have "ring (bio_ptr y') = ring (bio_ptr y)" "ring_ok (bio_ptr y')"
      using p by (simp_all add: y'_def)
    ultimately show ?thesis
      using start read(2) [OF wait, folded r_def y'_def] x y X Y wait False
      by (intro exI [of _ "BIO_set_retry_read x1"] exI [of _ y'])
        (simp add: pipe_read_def pipe_of_def same_link_def x1_def y'_def p_def BIO_set_retry_read_def BIO_clear_retry_flags_def
           BIO_get_retry_flags_def retry_flags local_ok_def Let_def)
  next
    case data
    obtain p' where p': "bio_read h a False (int n) =
        Some (int (length (take n (ring p))), take n (ring p), put_bio (put_bio h a x1) b (y\<lparr>bio_ptr := p'\<rparr>))"
      "ring_ok p'" "same_ring p p'" "ring p' = drop n (ring p)"
      using read(3) [OF data] by blast
    have ne: "ring p \<noteq> []" "length (take n (ring p)) > 0"
      using data ring_empty [OF p(1)] False by simp_all
    define x' where "x' = x1\<lparr>num_read := num_read x1 + word_of_nat (length (take n (ring p)))\<rparr>"
    have buf: "bb_buf p' \<noteq> None"
      using p'(2) by (auto simp: ring_ok_def split: option.splits)
    show ?thesis
      using start p' x y X Y ne p(2) False buf
      by (intro exI [of _ x'] exI [of _ "y\<lparr>bio_ptr := p'\<rparr>"])
        (simp add: pipe_read_def pipe_of_def same_link_def same_ring_def x1_def x'_def BIO_clear_retry_flags_def p_def
           BIO_get_retry_flags_def retry_flags local_ok_def Let_def bio_at_put)
  qed
qed


lemma bio_write_joined:
  assumes x: "bio_at h a = Some x" "bio_init x" "bb_peer (bio_ptr x) = Some b" "ring_ok (bio_ptr x)" "bb_buf (bio_ptr x) \<noteq> None"
    and n: "int n \<le> INT_MAX" "n \<noteq> 0" "n \<le> length data"
  defines "p \<equiv> (bio_ptr x)\<lparr>bb_request := 0\<rparr>" and "x1 \<equiv> BIO_clear_retry_flags x"
  shows "bb_closed p \<Longrightarrow> bio_write h a (Some data) (int n) = Some (-1, put_bio h a (x1\<lparr>bio_ptr := p\<rparr>))"
    and "\<not> bb_closed p \<Longrightarrow> bb_len p = bb_size p \<Longrightarrow>
      bio_write h a (Some data) (int n) = Some (-1, put_bio h a (BIO_set_retry_write (x1\<lparr>bio_ptr := p\<rparr>)))"
    and "\<not> bb_closed p \<Longrightarrow> bb_len p \<noteq> bb_size p \<Longrightarrow> \<exists>p' put. put = take (unat (bb_size p) - length (ring p)) (take n data) \<and>
        put \<noteq> [] \<and> bio_write h a (Some data) (int n) = Some (int (length put), put_bio h a (x1\<lparr>bio_ptr := p'\<rparr>)) \<and>
        ring_ok p' \<and> same_ring p p' \<and> ring p' = ring p @ put"
proof -
  define num where "num = (word_of_nat n :: u64)"
  have num: "unat num = n" "num \<noteq> 0"
    unfolding num_def using n by (simp_all add: unat_of_nat_u64 INT_MAX_def unat_eq_0)
  then have nz: "word_of_nat n \<noteq> (0 :: u64)"
    by (simp add: num_def)
  have x1: "bio_init x1" "bio_ptr x1 = bio_ptr x" "bio_at (put_bio h a x1) a = Some x1"
    using x by (simp_all add: x1_def BIO_clear_retry_flags_def bio_at_put)
  have p: "ring_ok p"
    using x by (simp add: p_def)
  have pf: "bb_len (bio_ptr x) = bb_len p" "bb_closed (bio_ptr x) = bb_closed p" "bb_size (bio_ptr x) = bb_size p"
    by (simp_all add: p_def)
  have le: "bb_len p \<le> bb_size p"
    using p by (simp add: ring_ok_def)
  note start = bio_write_def x(1) bind.bind_lunit Let_def x1_def [symmetric] num_def [symmetric] x1 c_assert_def p_def [symmetric]
    put_ptr_eq bio_at_put num(2) nz pf
  show "bio_write h a (Some data) (int n) = Some (-1, put_bio h a (x1\<lparr>bio_ptr := p\<rparr>))" if "bb_closed p"
    using that x by (simp add: start)
  show "bio_write h a (Some data) (int n) = Some (-1, put_bio h a (BIO_set_retry_write (x1\<lparr>bio_ptr := p\<rparr>)))"
    if "\<not> bb_closed p" "bb_len p = bb_size p"
    using that x by (simp add: start)
  show "\<exists>p' put. put = take (unat (bb_size p) - length (ring p)) (take n data) \<and> put \<noteq> [] \<and>
      bio_write h a (Some data) (int n) = Some (int (length put), put_bio h a (x1\<lparr>bio_ptr := p'\<rparr>)) \<and>
      ring_ok p' \<and> same_ring p p' \<and> ring p' = ring p @ put" if o: "\<not> bb_closed p" "bb_len p \<noteq> bb_size p"
  proof -
    define free where "free = bb_size p - bb_len p"
    have free: "unat free = unat (bb_size p) - length (ring p)" "0 < unat free"
      using le o(2) length_ring [OF p] by (auto simp: free_def unat_sub_le word_nat word_unat_eq_iff)
    define k where "k = (if num > free then free else num)"
    have k: "0 < k" "unat k = min n (unat free)"
      using free num by (auto simp: k_def word_nat unat_eq_0)
    have room: "unat (bb_len p) + unat k \<le> unat (bb_size p)"
      using k free le length_ring [OF p] by (auto simp: word_nat min_def)
    obtain p' where p': "write_loop k data p = Some p'" "ring_ok p'" "same_ring p p'" "ring p' = ring p @ take (unat k) data"
      using write_loop_ok [OF p k(1) room, of data] k(2) n(3) by (auto simp: min.coboundedI1)
    have t: "take (unat k) data = take (unat free) (take n data)" "int (unat k) = int (length (take (unat free) (take n data)))"
      using n(3) by (auto simp: k(2) min_def)
    have to_int: "to_int k = int (unat k)"
      by (rule to_int_small) (use n k(2) in \<open>simp add: INT_MAX_def\<close>)
    have "bio_write h a (Some data) (int n) = Some (int (unat k), put_bio h a (x1\<lparr>bio_ptr := p'\<rparr>))"
    proof (cases "num > free")
      case True
      then have "free = k" by (simp add: k_def)
      with True o x k(1) p'(1) to_int le show ?thesis by (simp add: start free_def [symmetric])
    next
      case False
      then have "num = k" "k \<noteq> 0" using num(2) by (simp_all add: k_def)
      with False o x k(1) p'(1) to_int le show ?thesis by (simp add: start free_def [symmetric])
    qed
    then show ?thesis
      using p' t free n(2,3) by (intro exI [of _ p'] exI [of _ "take (unat free) (take n data)"]) auto
  qed
qed

lemma BIO_write_joined:
  assumes x: "bio_at h a = Some x" "local_ok x" "bb_peer (bio_ptr x) = Some b"
    and n: "int n \<le> INT_MAX" "n \<le> length data"
  shows "\<exists>x'. BIO_write h (Some a) (Some data) (int n) =
      Some (fst (pipe_write (take n data) (pipe_of x)), put_bio h a x') \<and>
    pipe_of x' = snd (pipe_write (take n data) (pipe_of x)) \<and> local_ok x' \<and> same_link x x'"
proof (cases "n = 0")
  case True
  then show ?thesis
    using x local_okD(1) [OF x(2,3)]
    by (intro exI [of _ x]) (simp add: BIO_write_def pipe_write_def same_link_def put_same)
next
  case False
  then have ne: "take n data \<noteq> []"
    using n(2) by auto
  note X = local_okD [OF x(2,3)]
  define p where "p = (bio_ptr x)\<lparr>bb_request := 0\<rparr>"
  define x1 where "x1 = BIO_clear_retry_flags x"
  have p: "ring_ok p" "ring p = ring (bio_ptr x)" "bb_len p = bb_len (bio_ptr x)" "bb_size p = bb_size (bio_ptr x)"
      "bb_closed p = bb_closed (bio_ptr x)"
    using X(2) by (simp_all add: p_def)
  note wr = bio_write_joined [OF x(1) X(1) x(3) X(2,4) n(1) False n(2), folded p_def x1_def]
  have start: "BIO_write h (Some a) (Some data) (int n) = (do {
      (ret, h) \<leftarrow> bio_write h a (Some data) (int n);
      if ret > 0 then do {
        bio \<leftarrow> bio_at h a;
        Some (ret, put_bio h a (bio\<lparr>num_write := num_write bio + word_of_int ret\<rparr>))
      }
      else Some (ret, h)})"
    using x X False by (simp add: BIO_write_def)
  have full: "bb_len p = bb_size p \<longleftrightarrow> length (ring p) = unat (bb_size p)"
    using length_ring [OF p(1)] by (simp add: word_unat_eq_iff)
  consider (shut) "bb_closed p" | (wait) "\<not> bb_closed p" "bb_len p = bb_size p" | (data) "\<not> bb_closed p" "bb_len p \<noteq> bb_size p"
    by blast
  then show ?thesis
  proof cases
    case shut
    then show ?thesis
      using start wr(1) [OF shut] x X p ne False
      by (intro exI [of _ "x1\<lparr>bio_ptr := p\<rparr>"])
        (simp add: pipe_write_def pipe_of_def same_link_def x1_def p_def BIO_clear_retry_flags_def BIO_get_retry_flags_def
           retry_flags local_ok_def Let_def)
  next
    case wait
    then have "length (ring (bio_ptr x)) = unat (bb_size (bio_ptr x))"
      using full p by simp
    then show ?thesis
      using start wr(2) [OF wait] x X wait p(5) ne False
      by (intro exI [of _ "BIO_set_retry_write (x1\<lparr>bio_ptr := p\<rparr>)"])
        (simp add: pipe_write_def pipe_of_def same_link_def x1_def p_def BIO_set_retry_write_def BIO_clear_retry_flags_def
           BIO_get_retry_flags_def retry_flags local_ok_def Let_def)
  next
    case data
    obtain p' put where p': "put = take (unat (bb_size p) - length (ring p)) (take n data)" "put \<noteq> []"
        "bio_write h a (Some data) (int n) = Some (int (length put), put_bio h a (x1\<lparr>bio_ptr := p'\<rparr>))"
        "ring_ok p'" "same_ring p p'" "ring p' = ring p @ put"
      using wr(3) [OF data] by metis
    define x' where "x' = x1\<lparr>bio_ptr := p', num_write := num_write x1 + word_of_nat (length put)\<rparr>"
    have buf: "bb_buf p' \<noteq> None"
      using p'(4) by (auto simp: ring_ok_def split: option.splits)
    have "length (ring (bio_ptr x)) \<noteq> unat (bb_size (bio_ptr x))"
      using data full p by simp
    then show ?thesis
      using start p'(2-) x X p(2,5) data(1) ne False buf p'(1) [symmetric, unfolded p]
      by (intro exI [of _ x'])
        (simp add: pipe_write_def pipe_of_def same_link_def same_ring_def x1_def x'_def BIO_clear_retry_flags_def p_def
           BIO_get_retry_flags_def retry_flags local_ok_def Let_def bio_at_put)
  qed
qed



section \<open>Interpretation: a pair is two bounded queues\<close>

datatype end_op = Write bytes | Read nat | Shutdown | ResetRequest | ReadRequest | WriteGuarantee | Pending | WPending

text \<open>An operation at the end \<open>me\<close> of a pair, by the functions of the interface.\<close>

definition end_step :: "end_op \<Rightarrow> nat \<Rightarrow> heap \<Rightarrow> (int \<times> bytes) option \<times> heap" where
  "end_step op me h =
     (let value = (\<lambda>r. case r of None \<Rightarrow> (None, h) | Some (v, h) \<Rightarrow> (Some (int (unat (v :: u64)), []), h));
          int_value = (\<lambda>r. case r of None \<Rightarrow> (None, h) | Some (v, h) \<Rightarrow> (Some (v, []), h)) in
      case op of
        Write data \<Rightarrow> int_value (BIO_write h (Some me) (Some data) (int (length data)))
      | Read n \<Rightarrow> (case BIO_read h (Some me) False (int n) of None \<Rightarrow> (None, h) | Some (r, out, h) \<Rightarrow> (Some (r, out), h))
      | Shutdown \<Rightarrow> int_value (BIO_shutdown_wr h (Some me))
      | ResetRequest \<Rightarrow> int_value (BIO_ctrl h (Some me) BIO_C_RESET_READ_REQUEST 0 None)
      | ReadRequest \<Rightarrow> value (BIO_ctrl_get_read_request h (Some me))
      | WriteGuarantee \<Rightarrow> value (BIO_ctrl_get_write_guarantee h (Some me))
      | Pending \<Rightarrow> value (BIO_pending h (Some me))
      | WPending \<Rightarrow> value (BIO_wpending h (Some me)))"

definition pair_step :: "nat \<Rightarrow> nat \<Rightarrow> bool \<times> end_op \<Rightarrow> heap \<Rightarrow> (int \<times> bytes) option \<times> heap" where
  "pair_step a b op h = end_step (snd op) (if fst op then a else b) h"

definition queue_step :: "end_op \<Rightarrow> pipe_end \<Rightarrow> pipe_end \<Rightarrow> (int \<times> bytes) \<times> pipe_end \<times> pipe_end" where
  "queue_step op me peer =
     (case op of
        Write data \<Rightarrow> (case pipe_write data me of (r, me) \<Rightarrow> ((r, []), me, peer))
      | Read n \<Rightarrow> pipe_read n me peer
      | Shutdown \<Rightarrow> ((1, []), me\<lparr>pe_shut := True\<rparr>, peer)
      | ResetRequest \<Rightarrow> ((1, []), me\<lparr>pe_want := 0\<rparr>, peer)
      | ReadRequest \<Rightarrow> ((int (pe_want me), []), me, peer)
      | WriteGuarantee \<Rightarrow> ((if pe_shut me then 0 else int (pe_cap me) - int (length (pe_queue me)), []), me, peer)
      | Pending \<Rightarrow> ((int (length (pe_queue peer)), []), me, peer)
      | WPending \<Rightarrow> ((int (length (pe_queue me)), []), me, peer))"

definition queues_step :: "bool \<times> end_op \<Rightarrow> pipe_end \<times> pipe_end \<Rightarrow> (int \<times> bytes) option \<times> pipe_end \<times> pipe_end" where
  "queues_step op s =
     (if fst op then (case queue_step (snd op) (fst s) (snd s) of (r, s) \<Rightarrow> (Some r, s))
      else (case queue_step (snd op) (snd s) (fst s) of (r, s) \<Rightarrow> (Some r, snd s, fst s)))"

definition in_range :: "bool \<times> end_op \<Rightarrow> bool" where
  "in_range op = (case snd op of Write data \<Rightarrow> int (length data) \<le> INT_MAX | Read n \<Rightarrow> int n \<le> INT_MAX | _ \<Rightarrow> True)"

definition joined :: "nat \<Rightarrow> nat \<Rightarrow> heap \<Rightarrow> bool" where
  "joined a b h \<longleftrightarrow> heap_ok h \<and> (case bio_at h a of None \<Rightarrow> False | Some x \<Rightarrow> bb_peer (bio_ptr x) = Some b)"

definition ends_of :: "nat \<Rightarrow> nat \<Rightarrow> heap \<Rightarrow> pipe_end \<times> pipe_end" where
  "ends_of a b h = (pipe_of (the (bio_at h a)), pipe_of (the (bio_at h b)))"

lemma joinedE:
  assumes "joined a b h"
  obtains x y where "bio_at h a = Some x" "local_ok x" "bb_peer (bio_ptr x) = Some b" "a \<noteq> b"
    "bio_at h b = Some y" "local_ok y" "bb_peer (bio_ptr y) = Some a" "heap_ok h"
proof -
  obtain x where x: "bio_at h a = Some x" "bb_peer (bio_ptr x) = Some b" and h: "heap_ok h"
    using assms by (auto simp: joined_def split: option.splits)
  then obtain y where "a \<noteq> b" "bio_at h b = Some y" "bb_peer (bio_ptr y) = Some a"
    using heap_okD [OF h x(1)] by (auto simp: linked_def split: option.splits)
  with x h that show ?thesis
    using heap_okD [OF h] by blast
qed

lemma joined_sym: "joined a b h \<Longrightarrow> joined b a h"
  by (erule joinedE) (simp add: joined_def)

lemma joined_put:
  assumes "joined a b h" "bio_at h a = Some x" "local_ok x'" "bb_peer (bio_ptr x') = bb_peer (bio_ptr x)"
  shows "joined a b (put_bio h a x')"
  using assms heap_ok_put by (auto simp: joined_def bio_at_put split: option.splits)

lemma ctrl_put:
  assumes "joined a b h" "bio_at h a = Some x" "bb_peer b' = bb_peer (bio_ptr x)" "local_ok (x\<lparr>bio_ptr := b'\<rparr>)"
  shows "joined a b (put_ptr h a b')" "bio_at (put_ptr h a b') c = (if c = a then Some (x\<lparr>bio_ptr := b'\<rparr>) else bio_at h c)"
  using assms joined_put [OF assms(1,2), of "x\<lparr>bio_ptr := b'\<rparr>"] by (simp_all add: put_ptr_eq bio_at_put)

lemma end_step_queue:
  assumes j: "joined a b h" and legal: "in_range (e, op)"
  shows "\<exists>r h'. end_step op a h = (Some r, h') \<and> joined a b h' \<and>
    queue_step op (fst (ends_of a b h)) (snd (ends_of a b h)) = (r, ends_of a b h')"
proof -
  obtain x y where x: "bio_at h a = Some x" "local_ok x" "bb_peer (bio_ptr x) = Some b" "a \<noteq> b"
    and y: "bio_at h b = Some y" "local_ok y" "bb_peer (bio_ptr y) = Some a" and h: "heap_ok h"
    by (rule joinedE [OF j])
  note X = local_okD [OF x(2,3)] and Y = local_okD [OF y(2,3)]
  have small: "unat w < 2 ^ 63" if "w \<le> bb_size (bio_ptr x) \<or> w \<le> bb_size (bio_ptr y)" for w
    using that X(2) Y(2) by (auto simp: ring_ok_def word_nat)
  have len: "length (ring (bio_ptr x)) = unat (bb_len (bio_ptr x))" "length (ring (bio_ptr y)) = unat (bb_len (bio_ptr y))"
      "bb_len (bio_ptr x) \<le> bb_size (bio_ptr x)" "bb_len (bio_ptr y) \<le> bb_size (bio_ptr y)"
      "bb_size (bio_ptr x) - bb_len (bio_ptr x) \<le> bb_size (bio_ptr x)"
    using X(2) Y(2) length_ring by (auto simp: ring_ok_def word_sub_le)
  have u: "word_of_int (to_long w) = w" for w
    by (simp add: to_long_def)
  have free: "uint (bb_size (bio_ptr x) - bb_len (bio_ptr x)) = uint (bb_size (bio_ptr x)) - uint (bb_len (bio_ptr x))"
    using len(3) uint_minus_simple_alt by blast
  have ends: "ends_of a b h = (pipe_of x, pipe_of y)"
    using x y by (simp add: ends_of_def)
  show ?thesis
  proof (cases op)
    case (Write data)
    then have n: "int (length data) \<le> INT_MAX" using legal by (simp add: in_range_def)
    obtain x' where "BIO_write h (Some a) (Some data) (int (length data)) = Some (fst (pipe_write data (pipe_of x)), put_bio h a x')"
      "pipe_of x' = snd (pipe_write data (pipe_of x))" "local_ok x'" "same_link x x'"
      using BIO_write_joined [OF x(1,2,3) n, of data] by auto
    then show ?thesis
      using Write x y j joined_put [OF j x(1), of x']
      by (intro exI [of _ "(fst (pipe_write data (pipe_of x)), [])"] exI [of _ "put_bio h a x'"])
        (simp add: end_step_def Let_def queue_step_def ends_of_def bio_at_put same_link_def split: prod.splits)
  next
    case (Read n)
    then have n: "int n \<le> INT_MAX" using legal by (simp add: in_range_def)
    define R where "R = pipe_read n (pipe_of x) (pipe_of y)"
    obtain x' y' where r: "BIO_read h (Some a) False (int n) = Some (fst (fst R), snd (fst R), put_bio (put_bio h a x') b y')"
      "(pipe_of x', pipe_of y') = snd R" "local_ok x'" "local_ok y'" "same_link x x'" "same_link y y'"
      using BIO_read_joined [OF x y n] unfolding R_def by blast
    have "joined a b (put_bio h a x')"
      using joined_put [OF j x(1) r(3)] r(5) by (simp add: same_link_def)
    then have "joined a b (put_bio (put_bio h a x') b y')"
      using joined_put [OF joined_sym, of a b "put_bio h a x'" y y'] r(4,6) x y joined_sym
      by (auto simp: same_link_def bio_at_put)
    then show ?thesis
      using Read r(1,2) x y
      by (intro exI [of _ "fst R"] exI [of _ "put_bio (put_bio h a x') b y'"])
        (simp add: end_step_def Let_def queue_step_def ends_of_def bio_at_put R_def [symmetric] prod_eq_iff)
  next
    case Shutdown
    show ?thesis
      using ctrl_put [OF j x(1), of "(bio_ptr x)\<lparr>bb_closed := True\<rparr>"] x y X
      by (intro exI [of _ "(1, [])"] exI [of _ "put_ptr h a ((bio_ptr x)\<lparr>bb_closed := True\<rparr>)"])
        (simp add: Shutdown end_step_def Let_def BIO_shutdown_wr_def BIO_ctrl_def bio_ctrl_def ctrl_codes queue_step_def ends_of_def
           pipe_of_def local_ok_def BIO_get_retry_flags_def)
  next
    case ResetRequest
    show ?thesis
      using ctrl_put [OF j x(1), of "(bio_ptr x)\<lparr>bb_request := 0\<rparr>"] x y X
      by (intro exI [of _ "(1, [])"] exI [of _ "put_ptr h a ((bio_ptr x)\<lparr>bb_request := 0\<rparr>)"])
        (simp add: ResetRequest end_step_def Let_def BIO_ctrl_def bio_ctrl_def ctrl_codes queue_step_def ends_of_def
           pipe_of_def local_ok_def BIO_get_retry_flags_def)
  qed (use x y j X Y len small in \<open>auto simp: end_step_def Let_def queue_step_def ends pipe_of_def BIO_ctrl_def bio_ctrl_def ctrl_codes
      BIO_ctrl_get_read_request_def BIO_ctrl_get_write_guarantee_def BIO_pending_def BIO_wpending_def c_assert_def
      to_long_small u free word_nat\<close>)
qed

lemma end_step_queue_other:
  assumes "joined a b h" and "in_range (e, op)"
  shows "\<exists>r h'. end_step op b h = (Some r, h') \<and> joined a b h' \<and>
    queue_step op (snd (ends_of a b h)) (fst (ends_of a b h)) = (r, snd (ends_of a b h'), fst (ends_of a b h'))"
proof -
  have swap: "ends_of b a h = (snd (ends_of a b h), fst (ends_of a b h))" for h
    by (simp add: ends_of_def)
  show ?thesis
    using end_step_queue [OF joined_sym [OF assms(1)] assms(2)] joined_sym by (simp add: swap) blast
qed

interpretation bio_pair: refines "joined a b" "ends_of a b" in_range "pair_step a b" queues_step for a b
proof unfold_locales
  fix h :: heap and op
  assume *: "joined a b h" "in_range op"
  obtain e o' where op: "op = (e, o')" by fastforce
  have "joined a b (snd (pair_step a b op h)) \<and> queues_step op (ends_of a b h) = map_prod id (ends_of a b) (pair_step a b op h)"
    using end_step_queue [OF *(1) *(2) [unfolded op]] end_step_queue_other [OF *(1) *(2) [unfolded op]]
    by (cases e) (auto simp: op pair_step_def queues_step_def)
  then show "joined a b (snd (pair_step a b op h))" "queues_step op (ends_of a b h) = map_prod id (ends_of a b) (pair_step a b op h)"
    by simp_all
qed


section \<open>Creating and freeing\<close>

definition new_bio :: bio where
  "new_bio = \<lparr>bio_init = False, bio_shutdown = 1, bio_flags = 0, bio_retry_reason = 0, bio_references = 1,
     bio_ptr = \<lparr>bb_peer = None, bb_closed = False, bb_len = 0, bb_offset = 0, bb_size = 17 * 1024, bb_buf = None, bb_request = 0\<rparr>,
     next_bio = None, num_read = 0, num_write = 0\<rparr>"

definition buf_size :: "u64 \<Rightarrow> u64" where
  "buf_size writebuf_len = (if writebuf_len = 0 then 17 * 1024 else writebuf_len)"

definition fresh_end :: "u64 \<Rightarrow> pipe_end" where
  "fresh_end writebuf_len = \<lparr>pe_queue = [], pe_cap = unat (buf_size writebuf_len), pe_shut = False, pe_want = 0, pe_retry = 0,
     pe_read = 0, pe_written = 0\<rparr>"

lemma buf_size_small: "unat w < 2 ^ 62 \<Longrightarrow> 0 < buf_size w \<and> unat (buf_size w) < 2 ^ 62"
  by (auto simp: buf_size_def word_neq_0_conv)

lemma bio_at_snoc [simp]: "bio_at (h @ [x]) c = (if c = length h then x else bio_at h c)"
  by (auto simp: bio_at_def nth_append)

lemma BIO_new_cases:
  assumes "malloc_ok malloc"
  shows "BIO_new malloc h = Some (None, h) \<or> BIO_new malloc h = Some (Some (length h), h @ [Some new_bio])"
proof -
  have *: "OPENSSL_malloc malloc n = Some None \<or> (\<exists>b. OPENSSL_malloc malloc n = Some (Some b))" if "n < 100" for n
  proof -
    have "n + 8 < SIZE_MOD" using that by simp
    from OPENSSL_malloc_block [OF assms this] show ?thesis by metis
  qed
  show ?thesis
    using * [of sizeof_BIO] * [of sizeof_bio_bio_st]
    by (auto simp: BIO_new_def bio_new_def sizeof_BIO_def sizeof_bio_bio_st_def new_bio_def)
qed

lemma make_buf_cases:
  assumes "malloc_ok malloc" "unat w < 2 ^ 62"
  defines "b \<equiv> (bio_ptr new_bio)\<lparr>bb_size := buf_size w\<rparr>"
  shows "make_buf malloc (bio_ptr new_bio) w = Some (False, b) \<or>
    (\<exists>buf. length buf = unat (buf_size w) \<and> make_buf malloc (bio_ptr new_bio) w = Some (True, b\<lparr>bb_buf := Some buf\<rparr>))"
proof -
  have "unat (buf_size w) + 8 < SIZE_MOD"
    using buf_size_small [OF assms(2)] by simp
  from OPENSSL_malloc_block [OF assms(1) this]
  consider "OPENSSL_malloc malloc (unat (buf_size w)) = Some None"
    | ret where "OPENSSL_malloc malloc (unat (buf_size w)) = Some (Some ret)" "block_size ret = unat (buf_size w)" "block_ok ret"
    by metis
  then show ?thesis
  proof cases
    case 1
    then show ?thesis by (auto simp: make_buf_def new_bio_def buf_size_def b_def)
  next
    case 2
    then show ?thesis
      by (intro disjI2 exI [of _ "block_bytes ret"]) (auto simp: make_buf_def new_bio_def buf_size_def b_def block_ok_def)
  qed
qed

lemma local_ok_unpaired:
  assumes "bb_peer (bio_ptr x) = None" "\<not> bio_init x" "bio_references x \<noteq> 0" "bb_len (bio_ptr x) = 0" "bb_offset (bio_ptr x) = 0"
    and "bb_buf (bio_ptr x) \<noteq> None \<longrightarrow> ring_ok (bio_ptr x)"
  shows "local_ok x"
  using assms by (simp add: local_ok_def)

lemma heap_ok_new: "heap_ok h \<Longrightarrow> heap_ok (h @ [Some new_bio])"
  unfolding heap_ok_def
proof (intro allI impI)
  fix a x
  assume h: "\<forall>a x. bio_at h a = Some x \<longrightarrow> local_ok x \<and> linked h a x" and x: "bio_at (h @ [Some new_bio]) a = Some x"
  have dead: "bio_at h (length h) = None" by (simp add: bio_at_def)
  show "local_ok x \<and> linked (h @ [Some new_bio]) a x"
  proof (cases "a = length h")
    case True
    with x show ?thesis by (auto simp: new_bio_def linked_def intro: local_ok_unpaired)
  next
    case False
    with x h have "local_ok x" "linked h a x" by simp_all
    then show ?thesis using dead by (auto simp: linked_def split: option.splits)
  qed
qed

definition unpaired :: "bio \<Rightarrow> bio" where
  "unpaired x = x\<lparr>bio_init := False, bio_ptr := (bio_ptr x)\<lparr>bb_peer := None, bb_len := 0, bb_offset := 0\<rparr>\<rparr>"

lemma unpaired_ok: "local_ok x \<Longrightarrow> local_ok (unpaired x)"
  by (auto simp: local_ok_def unpaired_def Let_def ring_ok_def split: option.splits) (simp_all add: word_nat)

lemma bio_free_joined:
  assumes "bio_at h a = Some x" "bb_peer (bio_ptr x) = Some b" "bb_buf (bio_ptr x) \<noteq> None" "a \<noteq> b"
    and "bio_at h b = Some y" "bb_peer (bio_ptr y) = Some a" "bb_buf (bio_ptr y) \<noteq> None"
  shows "bio_free h a = Some (put_bio (put_bio h b (unpaired y)) a (unpaired x))"
  using assms by (simp add: bio_free_def bio_destroy_pair_def c_assert_def bio_at_put unpaired_def Let_def)

text \<open>Releasing one end unlinks the other, whatever became of the reference count of the first.\<close>

lemma heap_ok_unlink:
  assumes h: "heap_ok h" and x: "bio_at h a = Some x" and same: "bio_ptr x' = bio_ptr x"
  shows "\<exists>h'. bio_free (put_bio h a x') a = Some h' \<and> heap_ok (h'[a := None]) \<and>
    (\<forall>c. c \<noteq> a \<longrightarrow> bio_at (h'[a := None]) c =
      (if bb_peer (bio_ptr x) = Some c then map_option unpaired (bio_at h c) else bio_at h c))"
proof (cases "bb_peer (bio_ptr x)")
  case None
  then have free: "bio_free (put_bio h a x') a = Some (put_bio h a x')"
    using x same by (simp add: bio_free_def bio_at_put)
  have at: "bio_at ((put_bio h a x')[a := None]) c = (if c = a then None else bio_at h c)" for c
    using x by (simp add: bio_at_clear bio_at_put)
  have "linked ((put_bio h a x')[a := None]) c z" if "bio_at h c = Some z" "c \<noteq> a" for c z
  proof -
    have "linked h c z" using h that heap_okD by blast
    then show ?thesis
      using None x by (auto simp: linked_def at split: option.splits)
  qed
  then have "heap_ok ((put_bio h a x')[a := None])"
    using h by (auto simp: heap_ok_def at)
  with free show ?thesis
    using None by (simp add: at)
next
  case (Some b)
  then have j: "joined a b h"
    using h x by (simp add: joined_def)
  obtain y where y: "bio_at h b = Some y" "bb_peer (bio_ptr y) = Some a" "a \<noteq> b" "local_ok x" "local_ok y"
  proof -
    from joinedE [OF j] obtain x0 y where "bio_at h a = Some x0" "bio_at h b = Some y" "bb_peer (bio_ptr y) = Some a" "a \<noteq> b"
      "local_ok x0" "local_ok y" by metis
    with x that show ?thesis by simp
  qed
  define h' where "h' = put_bio (put_bio (put_bio h a x') b (unpaired y)) a (unpaired x')"
  have free: "bio_free (put_bio h a x') a = Some h'"
    unfolding h'_def using x y Some same local_okD(4) [OF y(4) Some] local_okD(4) [OF y(5,2)]
    by (intro bio_free_joined) (simp_all add: bio_at_put)
  have at: "bio_at (h'[a := None]) c = (if c = a then None else if c = b then Some (unpaired y) else bio_at h c)" for c
    using x y by (simp add: h'_def bio_at_clear bio_at_put)
  have "linked (h'[a := None]) c z" if "bio_at h c = Some z" "c \<noteq> a" "c \<noteq> b" for c z
  proof -
    have "linked h c z" using h that heap_okD by blast
    then show ?thesis
      using Some x y(1,2) that(2,3) by (auto simp: linked_def at split: option.splits)
  qed
  moreover have "linked (h'[a := None]) b (unpaired y)" "local_ok (unpaired y)"
    using unpaired_ok [OF y(5)] by (simp_all add: linked_def unpaired_def)
  ultimately have "heap_ok (h'[a := None])"
    using h by (auto simp: heap_ok_def at)
  then show ?thesis
    using free Some y(1) at by auto
qed

lemma heap_ok_cong: "heap_ok h \<Longrightarrow> (\<And>c. bio_at h' c = bio_at h c) \<Longrightarrow> heap_ok h'"
proof -
  assume h: "heap_ok h" and "\<And>c. bio_at h' c = bio_at h c"
  then have "bio_at h' = bio_at h" by auto
  with h show ?thesis by (simp only: heap_ok_def linked_def)
qed

lemma BIO_free_single:
  assumes "bio_at h a = Some x" "bio_references x = 1" "next_bio x = None" "bb_peer (bio_ptr x) = None"
  shows "BIO_free h (Some a) = Some (1, h[a := None])"
  using assms
  by (simp add: free_turn_def CRYPTO_refcount_dec_and_test_zero_def CRYPTO_REFCOUNT_MAX_def BIO_pop_def bio_free_def bio_at_put Let_def
      word_less_nat_alt) (simp add: put_bio_def)

lemma make_pair_cases:
  assumes m: "malloc_ok m1" "malloc_ok m2" and w: "unat w1 < 2 ^ 62" "unat w2 < 2 ^ 62"
    and at: "bio_at h a = Some new_bio" "bio_at h b = Some new_bio" "a \<noteq> b"
  shows "\<exists>ok y1 y2. bio_make_pair m1 m2 h a b w1 w2 = Some (ok, put_bio (put_bio h a y1) b y2) \<and>
    (if ok then \<exists>buf1 buf2. length buf1 = unat (buf_size w1) \<and> length buf2 = unat (buf_size w2) \<and>
         y1 = new_bio\<lparr>bio_init := True, bio_ptr := (bio_ptr new_bio)\<lparr>bb_size := buf_size w1, bb_peer := Some b, bb_buf := Some buf1\<rparr>\<rparr> \<and>
         y2 = new_bio\<lparr>bio_init := True, bio_ptr := (bio_ptr new_bio)\<lparr>bb_size := buf_size w2, bb_peer := Some a, bb_buf := Some buf2\<rparr>\<rparr>
     else (\<forall>y \<in> {y1, y2}. bio_references y = 1 \<and> next_bio y = None \<and> bb_peer (bio_ptr y) = None))"
proof -
  define x1 where "x1 = new_bio\<lparr>bio_ptr := (bio_ptr new_bio)\<lparr>bb_size := buf_size w1\<rparr>\<rparr>"
  define x2 where "x2 = new_bio\<lparr>bio_ptr := (bio_ptr new_bio)\<lparr>bb_size := buf_size w2\<rparr>\<rparr>"
  have new: "bb_peer (bio_ptr new_bio) = None" "bio_references new_bio = 1" "next_bio new_bio = None"
    by (simp_all add: new_bio_def)
  note start = bio_make_pair_def at at(3) [symmetric] new Let_def put_ptr_eq bio_at_put
  from make_buf_cases [OF m(1) w(1)] make_buf_cases [OF m(2) w(2)]
  consider (a) "make_buf m1 (bio_ptr new_bio) w1 = Some (False, (bio_ptr new_bio)\<lparr>bb_size := buf_size w1\<rparr>)"
    | (b) buf1 where "length buf1 = unat (buf_size w1)"
        "make_buf m1 (bio_ptr new_bio) w1 = Some (True, (bio_ptr new_bio)\<lparr>bb_size := buf_size w1, bb_buf := Some buf1\<rparr>)"
        "make_buf m2 (bio_ptr new_bio) w2 = Some (False, (bio_ptr new_bio)\<lparr>bb_size := buf_size w2\<rparr>)"
    | (c) buf1 buf2 where "length buf1 = unat (buf_size w1)"
        "make_buf m1 (bio_ptr new_bio) w1 = Some (True, (bio_ptr new_bio)\<lparr>bb_size := buf_size w1, bb_buf := Some buf1\<rparr>)"
        "length buf2 = unat (buf_size w2)"
        "make_buf m2 (bio_ptr new_bio) w2 = Some (True, (bio_ptr new_bio)\<lparr>bb_size := buf_size w2, bb_buf := Some buf2\<rparr>)"
    by auto
  then show ?thesis
  proof cases
    case a
    then have "bio_make_pair m1 m2 h a b w1 w2 = Some (False, put_bio h a x1)"
      by (simp add: start x1_def)
    moreover have "put_bio h a x1 = put_bio (put_bio h a x1) b new_bio"
      using at by (simp add: put_same bio_at_put)
    ultimately show ?thesis
      using new by (intro exI [of _ False] exI [of _ x1] exI [of _ new_bio]) (simp add: x1_def)
  next
    case b
    then show ?thesis
      using at(3) new
      by (intro exI [of _ False] exI [of _ "x1\<lparr>bio_ptr := (bio_ptr x1)\<lparr>bb_buf := Some buf1\<rparr>\<rparr>"] exI [of _ x2])
        (simp add: start x1_def x2_def)
  next
    case c
    then show ?thesis
      using at(3)
      by (intro exI [of _ True] exI [of _ "x1\<lparr>bio_init := True, bio_ptr := (bio_ptr x1)\<lparr>bb_peer := Some b, bb_buf := Some buf1\<rparr>\<rparr>"]
            exI [of _ "x2\<lparr>bio_init := True, bio_ptr := (bio_ptr x2)\<lparr>bb_peer := Some a, bb_buf := Some buf2\<rparr>\<rparr>"])
        (auto simp: start x1_def x2_def new_bio_def put_bio_swap)
  qed
qed



lemma BIO_new_bio_pair_cases:
  assumes m: "\<forall>i. malloc_ok (malloc i)" and w: "unat w1 < 2 ^ 62" "unat w2 < 2 ^ 62" and h: "heap_ok h"
  shows "(\<exists>h'. BIO_new_bio_pair malloc h w1 w2 = Some (None, h') \<and> heap_ok h' \<and> (\<forall>c. bio_at h' c = bio_at h c)) \<or>
    (\<exists>h'. BIO_new_bio_pair malloc h w1 w2 = Some (Some (length h, Suc (length h)), h') \<and>
       joined (length h) (Suc (length h)) h' \<and> ends_of (length h) (Suc (length h)) h' = (fresh_end w1, fresh_end w2) \<and>
       (\<forall>c < length h. bio_at h' c = bio_at h c))"
proof -
  define a b where "a = length h" and "b = Suc (length h)"
  have dead: "bio_at h a = None" "bio_at h b = None" "a \<noteq> b"
    by (simp_all add: a_def b_def bio_at_def)
  have m': "malloc_ok (malloc i)" for i using m by simp
  have free: "BIO_free h (Some c) = Some (1, h[c := None])" if "bio_at h c = Some new_bio" for h c
    by (rule BIO_free_single [OF that]) (simp_all add: new_bio_def)
  consider (none) "BIO_new (malloc 0) h = Some (None, h)" | (one) "BIO_new (malloc 0) h = Some (Some a, h @ [Some new_bio])"
      "BIO_new (malloc 1) (h @ [Some new_bio]) = Some (None, h @ [Some new_bio])"
    | (two) "BIO_new (malloc 0) h = Some (Some a, h @ [Some new_bio])"
      "BIO_new (malloc 1) (h @ [Some new_bio]) = Some (Some b, h @ [Some new_bio, Some new_bio])"
    using BIO_new_cases [OF m', of 0 h] BIO_new_cases [OF m', of 1 "h @ [Some new_bio]"] by (auto simp: a_def b_def)
  then show ?thesis
  proof cases
    case none
    then have "BIO_new_bio_pair malloc h w1 w2 = Some (None, h) \<or> BIO_new_bio_pair malloc h w1 w2 = Some (None, h @ [None])"
      using BIO_new_cases [OF m', of 1 h] free [of "h @ [Some new_bio]" "length h"]
      by (auto simp: BIO_new_bio_pair_def Let_def)
    moreover have "\<forall>c. bio_at (h @ [None]) c = bio_at h c"
      using dead by (simp add: a_def)
    ultimately show ?thesis
      using h heap_ok_cong [OF h, of "h @ [None]"] by auto
  next
    case one
    then have "BIO_new_bio_pair malloc h w1 w2 = Some (None, h @ [None])"
      using free [of "h @ [Some new_bio]" "length h"] by (simp add: BIO_new_bio_pair_def Let_def a_def)
    moreover have "\<forall>c. bio_at (h @ [None]) c = bio_at h c"
      using dead by (simp add: a_def)
    ultimately show ?thesis
      using h heap_ok_cong [OF h, of "h @ [None]"] by auto
  next
    case two
    define h2 where "h2 = h @ [Some new_bio, Some new_bio]"
    have at: "bio_at h2 c = (if c = a \<or> c = b then Some new_bio else bio_at h c)" for c
      by (auto simp: h2_def bio_at_def a_def b_def nth_append nth_Cons' less_Suc_eq)
    have ok2: "heap_ok h2"
      using heap_ok_new [OF heap_ok_new [OF h]] by (simp add: h2_def)
    obtain ok y1 y2 where pair: "bio_make_pair (malloc 2) (malloc 3) h2 a b w1 w2 = Some (ok, put_bio (put_bio h2 a y1) b y2)"
      and yes: "ok \<Longrightarrow> \<exists>buf1 buf2. length buf1 = unat (buf_size w1) \<and> length buf2 = unat (buf_size w2) \<and>
         y1 = new_bio\<lparr>bio_init := True, bio_ptr := (bio_ptr new_bio)\<lparr>bb_size := buf_size w1, bb_peer := Some b, bb_buf := Some buf1\<rparr>\<rparr> \<and>
         y2 = new_bio\<lparr>bio_init := True, bio_ptr := (bio_ptr new_bio)\<lparr>bb_size := buf_size w2, bb_peer := Some a, bb_buf := Some buf2\<rparr>\<rparr>"
      and no: "\<not> ok \<Longrightarrow> \<forall>y \<in> {y1, y2}. bio_references y = 1 \<and> next_bio y = None \<and> bb_peer (bio_ptr y) = None"
      using make_pair_cases [OF m' m' w, of h2 a b 2 3] at dead by (metis (full_types))
    define h' where "h' = put_bio (put_bio h2 a y1) b y2"
    have at': "bio_at h' c = (if c = b then Some y2 else if c = a then Some y1 else bio_at h c)" for c
      by (simp add: h'_def bio_at_put at)
    show ?thesis
    proof (cases ok)
      case False
      have "BIO_free h' (Some a) = Some (1, h'[a := None])"
        by (rule BIO_free_single [of _ _ y1]) (use no False at' dead in auto)
      moreover have "BIO_free (h'[a := None]) (Some b) = Some (1, h'[a := None, b := None])"
        by (rule BIO_free_single [of _ _ y2]) (use no False at' dead in \<open>auto simp: bio_at_clear\<close>)
      ultimately have "BIO_new_bio_pair malloc h w1 w2 = Some (None, h'[a := None, b := None])"
        using two pair False by (simp add: BIO_new_bio_pair_def Let_def h2_def [symmetric] h'_def [symmetric])
      moreover have "bio_at (h'[a := None, b := None]) c = bio_at h c" for c
        using at' dead by (simp add: bio_at_clear)
      ultimately show ?thesis
        using heap_ok_cong [OF h] by blast
    next
      case True
      then obtain buf1 buf2 where y: "length buf1 = unat (buf_size w1)" "length buf2 = unat (buf_size w2)"
         "y1 = new_bio\<lparr>bio_init := True, bio_ptr := (bio_ptr new_bio)\<lparr>bb_size := buf_size w1, bb_peer := Some b, bb_buf := Some buf1\<rparr>\<rparr>"
         "y2 = new_bio\<lparr>bio_init := True, bio_ptr := (bio_ptr new_bio)\<lparr>bb_size := buf_size w2, bb_peer := Some a, bb_buf := Some buf2\<rparr>\<rparr>"
        using yes by blast
      have "local_ok y1" "local_ok y2" "pipe_of y1 = fresh_end w1" "pipe_of y2 = fresh_end w2"
        using y buf_size_small [OF w(1)] buf_size_small [OF w(2)]
        by (simp_all add: local_ok_def ring_ok_def new_bio_def word_nat pipe_of_def fresh_end_def ring_def BIO_get_retry_flags_def)
      moreover have "linked h' c z" if "bio_at h c = Some z" for c z
      proof -
        have "linked h c z" using h that heap_okD by blast
        then show ?thesis
          using dead that by (auto simp: linked_def at' split: option.splits)
      qed
      ultimately have "joined a b h'" "ends_of a b h' = (fresh_end w1, fresh_end w2)"
        using h dead y(3,4) by (auto simp: joined_def heap_ok_def at' linked_def ends_of_def)
      moreover have "BIO_new_bio_pair malloc h w1 w2 = Some (Some (a, b), h')"
        using two pair True by (simp add: BIO_new_bio_pair_def Let_def h2_def [symmetric] h'_def [symmetric])
      moreover have "\<forall>c < length h. bio_at h' c = bio_at h c"
        by (simp add: at' a_def b_def)
      ultimately show ?thesis
        unfolding a_def b_def by blast
    qed
  qed
qed



section \<open>Writing it all\<close>

lemma pipe_frame:
  "pe_cap (snd (pipe_write data e)) = pe_cap e" "pe_shut (snd (pipe_write data e)) = pe_shut e"
  by (simp_all add: pipe_write_def Let_def)

lemma take_more: "k \<le> l \<Longrightarrow> take f (take k xs) @ take (f - min f k) (take (l - min f k) (drop (min f k) xs)) = take f (take l xs)"
proof (cases "k \<le> f")
  case True
  assume "k \<le> l"
  moreover have "take k xs @ take (min (f - k) (l - k)) (drop k xs) = take (k + min (f - k) (l - k)) xs"
    by (simp add: take_add)
  moreover have "k + min (f - k) (l - k) = min f l"
    using True \<open>k \<le> l\<close> by simp
  ultimately show ?thesis
    using True by (simp add: min_absorb1 min_absorb2)
qed simp

lemma BIO_write_all_joined:
  assumes "joined a b h" "unat len \<le> length data"
  defines "e \<equiv> fst (ends_of a b h)"
  defines "room \<equiv> (if pe_shut e then 0 else pe_cap e - length (pe_queue e))"
  shows "\<exists>h'. BIO_write_all h (Some a) data len = Some (unat len \<le> room, h') \<and> joined a b h' \<and>
    pe_queue (fst (ends_of a b h')) = pe_queue e @ take room (take (unat len) data) \<and> snd (ends_of a b h') = snd (ends_of a b h)"
  using assms(1,2) unfolding room_def e_def
proof (induction "unat len" arbitrary: len data h rule: less_induct)
  case less
  obtain x y where x: "bio_at h a = Some x" "local_ok x" "bb_peer (bio_ptr x) = Some b" "a \<noteq> b"
    and y: "bio_at h b = Some y" "local_ok y" "bb_peer (bio_ptr y) = Some a"
    by (rule joinedE [OF less.prems(1)])
  define e where "e = pipe_of x"
  have ends: "fst (ends_of a b h) = e" "snd (ends_of a b h) = pipe_of y"
    using x y by (simp_all add: ends_of_def e_def)
  have cap: "length (pe_queue e) \<le> pe_cap e"
    using local_okD(2) [OF x(2,3)] length_ring by (auto simp: e_def pipe_of_def ring_ok_def word_nat)
  show ?case
  proof (cases "len = 0")
    case True
    then show ?thesis
      using less.prems(1) by (subst BIO_write_all.simps) (simp add: ends)
  next
    case False
    define k where "k = min (unat len) (nat INT_MAX)"
    have k: "0 < k" "k \<le> unat len" "int k \<le> INT_MAX" "k \<le> length data"
      using False less.prems(2) by (auto simp: k_def INT_MAX_def unat_eq_0)
    have inl: "(if len > word_of_int INT_MAX then INT_MAX else to_int len) = int k"
    proof (cases "unat len < 2 ^ 31")
      case True
      then have "\<not> len > word_of_int INT_MAX" "k = unat len"
        by (simp_all add: word_nat INT_MAX_def k_def)
      then show ?thesis using to_int_small [OF True] by simp
    next
      case False
      then have "len > word_of_int INT_MAX" "k = nat INT_MAX"
        by (simp_all add: word_nat INT_MAX_def k_def)
      then show ?thesis by (simp add: INT_MAX_def)
    qed
    obtain x' where w: "BIO_write h (Some a) (Some data) (int k) = Some (fst (pipe_write (take k data) e), put_bio h a x')"
      and x': "pipe_of x' = snd (pipe_write (take k data) e)" "local_ok x'" "same_link x x'"
      using BIO_write_joined [OF x(1-3) k(3,4)] by (auto simp: e_def)
    define h' where "h' = put_bio h a x'"
    have j: "joined a b h'"
      using joined_put [OF less.prems(1) x(1) x'(2)] x'(3) by (simp add: h'_def same_link_def)
    have ends': "fst (ends_of a b h') = snd (pipe_write (take k data) e)" "snd (ends_of a b h') = pipe_of y"
      using x y x'(1) by (simp_all add: ends_of_def h'_def bio_at_put)
    have step: "BIO_write_all h (Some a) data len =
        (if fst (pipe_write (take k data) e) \<le> 0 then Some (False, h')
         else BIO_write_all h' (Some a) (drop (nat (fst (pipe_write (take k data) e))) data)
           (len - word_of_int (fst (pipe_write (take k data) e))))"
      using False inl w by (subst BIO_write_all.simps) (simp add: word_neq_0_conv h'_def [symmetric])
    have data: "take k data \<noteq> []"
      using k by auto
    show ?thesis
    proof (cases "pe_shut e \<or> length (pe_queue e) = pe_cap e")
      case True
      then have "fst (pipe_write (take k data) e) = -1" "pe_queue (snd (pipe_write (take k data) e)) = pe_queue e"
        using data by (auto simp: pipe_write_def)
      then show ?thesis
        using step j ends ends' True False by (auto simp: unat_eq_0)
    next
      case avail: False
      define room where "room = pe_cap e - length (pe_queue e)"
      define m where "m = min room k"
      have m: "0 < m" "m \<le> unat len" "m \<le> room" "m \<le> k"
        using avail cap k by (auto simp: m_def room_def)
      have put: "length (take room (take k data)) = m"
        using k(4) by (simp add: m_def)
      have r: "fst (pipe_write (take k data) e) = int m" "pe_queue (snd (pipe_write (take k data) e)) = pe_queue e @ take room (take k data)"
        using avail data put by (auto simp: pipe_write_def room_def Let_def)
      have len': "unat (len - word_of_nat m) = unat len - m"
        using m(2) unat_sub_le [of "word_of_nat m" len] by (simp add: word_nat unat_of_nat_u64 less_le_trans [OF _ m(2)] le_less_trans [OF m(2) unat_u64_less])
      have room': "pe_cap (fst (ends_of a b h')) - length (pe_queue (fst (ends_of a b h'))) = room - m" "pe_shut (fst (ends_of a b h')) = False"
        using put avail by (simp_all add: ends' r pipe_frame room_def)
      have IH: "\<exists>h''. BIO_write_all h' (Some a) (drop m data) (len - word_of_nat m) = Some (unat len - m \<le> room - m, h'') \<and> joined a b h'' \<and>
          pe_queue (fst (ends_of a b h'')) = pe_queue (fst (ends_of a b h')) @ take (room - m) (take (unat len - m) (drop m data)) \<and>
          snd (ends_of a b h'') = snd (ends_of a b h')"
        using less.hyps [of "len - word_of_nat m" h' "drop m data"] j m less.prems(2) unfolding len' room' by simp
      have take: "take room (take k data) @ take (room - m) (take (unat len - m) (drop m data)) = take room (take (unat len) data)"
        unfolding m_def by (rule take_more [OF k(2)])
      have "BIO_write_all h (Some a) data len = BIO_write_all h' (Some a) (drop m data) (len - word_of_nat m)"
        using step r m(1) by simp
      moreover have "unat len - m \<le> room - m \<longleftrightarrow> unat len \<le> room"
        using m(3) by auto
      ultimately show ?thesis
        using IH avail by (simp add: ends ends' r take room_def [symmetric] del: take_take)
    qed
  qed
qed


section \<open>Reachable heaps\<close>

lemma refcount_inc: "count \<noteq> 0 \<Longrightarrow> CRYPTO_refcount_inc count \<noteq> 0"
  unfolding CRYPTO_refcount_inc_def CRYPTO_REFCOUNT_MAX_def
  by (auto simp: word_nat word_unat_eq_iff unat_word_ariths)

text \<open>A BIO that is initialised is one end of a pair.\<close>

lemma init_joined: "heap_ok h \<Longrightarrow> bio_at h a = Some x \<Longrightarrow> bio_init x \<Longrightarrow> \<exists>b. joined a b h"
  using heap_okD [of h a x] by (auto simp: joined_def local_ok_def Let_def)

lemma joined_heap_ok: "joined a b h \<Longrightarrow> heap_ok h"
  by (simp add: joined_def)

lemma BIO_read_keeps:
  assumes h: "heap_ok h" and r: "BIO_read h bio buf_null n = Some (ret, out, h')" and n: "n \<le> INT_MAX"
  shows "heap_ok h'"
proof (cases "\<exists>a x. bio = Some a \<and> bio_at h a = Some x \<and> bio_init x \<and> 0 < n")
  case False
  then show ?thesis
    using r h by (auto simp: BIO_read_def bind_eq_Some_conv split: option.splits if_splits)
next
  case True
  then obtain a x where a: "bio = Some a" "bio_at h a = Some x" "bio_init x" "0 < n" by blast
  then obtain b where j: "joined a b h" using init_joined [OF h] by blast
  then obtain y where x: "local_ok x" "bb_peer (bio_ptr x) = Some b" "a \<noteq> b"
    and y: "bio_at h b = Some y" "local_ok y" "bb_peer (bio_ptr y) = Some a"
    using a(2) by (elim joinedE) auto
  show ?thesis
  proof (cases buf_null)
    case False
    then have "snd (end_step (Read (nat n)) a h) = h'"
      using a r by (simp add: end_step_def)
    then show ?thesis
      using end_step_queue [OF j, of True "Read (nat n)"] n a(4) joined_heap_ok by (auto simp: in_range_def)
  next
    case True
    define x1 where "x1 = BIO_clear_retry_flags x"
    define y1 where "y1 = y\<lparr>bio_ptr := (bio_ptr y)\<lparr>bb_request := 0\<rparr>\<rparr>"
    have "h' = put_bio (put_bio h a x1) b y1"
      using r True a x y local_okD(4) [OF y(2,3)]
      by (auto simp: BIO_read_def bio_read_def Let_def x1_def y1_def BIO_clear_retry_flags_def bio_at_put c_assert_def put_ptr_eq)
    moreover have "local_ok x1" "bb_peer (bio_ptr x1) = bb_peer (bio_ptr x)" "local_ok y1" "bb_peer (bio_ptr y1) = bb_peer (bio_ptr y)"
      using x(1) y(2) by (simp_all add: x1_def y1_def BIO_clear_retry_flags_def local_ok_def Let_def)
    ultimately show ?thesis
      using heap_ok_put [OF heap_ok_put [OF h a(2)], of x1 b y y1] x(3) y(1) a(2) by (simp add: bio_at_put)
  qed
qed

lemma BIO_write_keeps:
  assumes h: "heap_ok h" and r: "BIO_write h bio data n = Some (ret, h')"
    and n: "n \<le> INT_MAX" "\<forall>d. data = Some d \<longrightarrow> n \<le> int (length d)"
  shows "heap_ok h'"
proof (cases "\<exists>a x. bio = Some a \<and> bio_at h a = Some x \<and> bio_init x \<and> 0 < n")
  case False
  then show ?thesis
    using r h by (auto simp: BIO_write_def bind_eq_Some_conv split: option.splits if_splits)
next
  case True
  then obtain a x where a: "bio = Some a" "bio_at h a = Some x" "bio_init x" "0 < n" by blast
  then obtain b where j: "joined a b h" using init_joined [OF h] by blast
  then have x: "local_ok x" "bb_peer (bio_ptr x) = Some b"
    using a(2) by (elim joinedE; auto)+
  show ?thesis
  proof (cases data)
    case (Some d)
    then obtain x' where "h' = put_bio h a x'" "local_ok x'" "same_link x x'"
      using BIO_write_joined [OF a(2) x, of "nat n" d] r a n by (auto simp: nat_le_iff)
    then show ?thesis
      using heap_ok_put [OF h a(2)] by (simp add: same_link_def)
  next
    case None
    then have "h' = put_bio h a (BIO_clear_retry_flags x)"
      using r a by (auto simp: BIO_write_def bio_write_def Let_def)
    then show ?thesis
      using heap_ok_put [OF h a(2), of "BIO_clear_retry_flags x"] x(1)
      by (simp add: BIO_clear_retry_flags_def local_ok_def Let_def)
  qed
qed

lemma BIO_write_all_keeps:
  assumes h: "heap_ok h" and r: "BIO_write_all h bio data len = Some (ret, h')" and n: "unat len \<le> length data"
  shows "heap_ok h'"
proof (cases "\<exists>a x. bio = Some a \<and> bio_at h a = Some x \<and> bio_init x")
  case True
  then obtain a b where "bio = Some a" "joined a b h" using init_joined [OF h] by blast
  then show ?thesis
    using BIO_write_all_joined [of a b h len data] n r joined_heap_ok by auto
next
  case False
  then show ?thesis
    using r h by (subst (asm) BIO_write_all.simps) (auto simp: BIO_write_def bind_eq_Some_conv split: option.splits if_splits)
qed

lemma heap_ok_put':
  "heap_ok h \<Longrightarrow> bio_at h a = Some x \<Longrightarrow> bb_peer (bio_ptr x') = bb_peer (bio_ptr x) \<Longrightarrow> (local_ok x \<Longrightarrow> local_ok x') \<Longrightarrow>
   heap_ok (put_bio h a x')"
  using heap_ok_put heap_okD by blast

lemma BIO_ctrl_keeps: "heap_ok h \<Longrightarrow> BIO_ctrl h bio cmd arg ptr = Some (ret, h') \<Longrightarrow> heap_ok h'"
  by (cases bio)
    (auto simp: BIO_ctrl_def bio_ctrl_def Let_def bind_eq_Some_conv put_ptr_eq split: if_splits option.splits
      intro!: heap_ok_put' simp: local_ok_def)

lemma free_turn_keeps:
  assumes h: "heap_ok h" and t: "free_turn h a = Some (again, next, h')"
  shows "heap_ok h'"
proof -
  obtain x where x: "bio_at h a = Some x"
    using t by (auto simp: free_turn_def bind_eq_Some_conv)
  then have l: "local_ok x" using heap_okD [OF h] by blast
  obtain z refs where z: "CRYPTO_refcount_dec_and_test_zero (bio_references x) = Some (z, refs)" "z \<longleftrightarrow> refs = 0"
    using l by (auto simp: CRYPTO_refcount_dec_and_test_zero_def local_ok_def Let_def)
  show ?thesis
  proof (cases z)
    case False
    then have "h' = put_bio h a (x\<lparr>bio_references := refs\<rparr>)"
      using t x z by (simp add: free_turn_def Let_def)
    then show ?thesis
      using heap_ok_put [OF h x, of "x\<lparr>bio_references := refs\<rparr>"] l z False by (simp add: local_ok_def)
  next
    case True
    define x' where "x' = x\<lparr>bio_references := refs, next_bio := None\<rparr>"
    have "\<exists>h2. bio_free (put_bio h a x') a = Some h2 \<and> h' = h2[a := None]"
      using t x z True by (auto simp: free_turn_def Let_def BIO_pop_def bio_at_put x'_def bind_eq_Some_conv)
    then show ?thesis
      using heap_ok_unlink [OF h x, of x'] by (auto simp: x'_def)
  qed
qed

lemma BIO_free_keeps: "heap_ok h \<Longrightarrow> BIO_free h bio = Some (ret, h') \<Longrightarrow> heap_ok h'"
proof (induction h bio rule: BIO_free.induct)
  case (2 h a)
  then show ?case
    using free_turn_keeps by (auto split: option.splits if_splits)
qed simp

text \<open>The calls a program makes, one at a time.\<close>

inductive bio_call :: "heap \<Rightarrow> heap \<Rightarrow> bool" where
  New: "\<forall>i. malloc_ok (malloc i) \<Longrightarrow> unat w1 < 2 ^ 62 \<Longrightarrow> unat w2 < 2 ^ 62 \<Longrightarrow>
    BIO_new_bio_pair malloc h w1 w2 = Some (r, h') \<Longrightarrow> bio_call h h'"
| Read: "n \<le> INT_MAX \<Longrightarrow> BIO_read h bio buf_null n = Some (r, out, h') \<Longrightarrow> bio_call h h'"
| Write: "n \<le> INT_MAX \<Longrightarrow> \<forall>d. data = Some d \<longrightarrow> n \<le> int (length d) \<Longrightarrow> BIO_write h bio data n = Some (r, h') \<Longrightarrow> bio_call h h'"
| WriteAll: "unat len \<le> length d \<Longrightarrow> BIO_write_all h bio d len = Some (ok, h') \<Longrightarrow> bio_call h h'"
| Ctrl: "BIO_ctrl h bio cmd arg ptr = Some (r, h') \<Longrightarrow> bio_call h h'"
| UpRef: "BIO_up_ref h a = Some (r, h') \<Longrightarrow> bio_call h h'"
| Push: "BIO_push h bio appended = Some (b, h') \<Longrightarrow> bio_call h h'"
| Free: "BIO_free h bio = Some (r, h') \<Longrightarrow> bio_call h h'"

inductive bio_reachable :: "heap \<Rightarrow> bool" where
  Start: "bio_reachable []"
| Call: "bio_reachable h \<Longrightarrow> bio_call h h' \<Longrightarrow> bio_reachable h'"

lemma BIO_push_keeps: "heap_ok h \<Longrightarrow> BIO_push h bio appended = Some (r, h') \<Longrightarrow> heap_ok h'"
  by (auto simp: BIO_push_def bind_eq_Some_conv local_ok_def split: option.splits intro!: heap_ok_put')

lemma BIO_up_ref_keeps: "heap_ok h \<Longrightarrow> BIO_up_ref h a = Some (r, h') \<Longrightarrow> heap_ok h'"
  by (auto simp: BIO_up_ref_def bind_eq_Some_conv local_ok_def refcount_inc intro!: heap_ok_put')

lemma bio_call_keeps: "bio_call h h' \<Longrightarrow> heap_ok h \<Longrightarrow> heap_ok h'"
proof (induction rule: bio_call.induct)
  case (New malloc w1 w2 h r h')
  then show ?case
    using BIO_new_bio_pair_cases [of malloc w1 w2 h] joined_heap_ok by auto
next
  case Read
  then show ?case using BIO_read_keeps by blast
next
  case Write
  then show ?case using BIO_write_keeps by blast
next
  case WriteAll
  then show ?case using BIO_write_all_keeps by blast
next
  case Ctrl
  then show ?case using BIO_ctrl_keeps by blast
next
  case UpRef
  then show ?case using BIO_up_ref_keeps by blast
next
  case Push
  then show ?case using BIO_push_keeps by blast
next
  case Free
  then show ?case using BIO_free_keeps by blast
qed

lemma reachable_heap_ok: "bio_reachable h \<Longrightarrow> heap_ok h"
proof (induction rule: bio_reachable.induct)
  case Start
  show ?case by (simp add: heap_ok_def bio_at_def)
qed (use bio_call_keeps in blast)





section \<open>Properties\<close>

definition sample_malloc :: "nat \<Rightarrow> nat \<Rightarrow> bytes option" where
  "sample_malloc i n = Some (replicate n 0)"

definition sample_calls :: "(bool \<times> end_op) list" where
  "sample_calls = [(True, Write [1, 2, 3]), (False, Read 2), (True, Write [4, 5, 6]), (True, WriteGuarantee), (True, Write [7]),
     (False, Read 9), (False, Read 5), (True, ReadRequest), (True, Shutdown), (False, Read 1)]"

definition sample_end :: "nat \<Rightarrow> bio" where
  "sample_end peer = \<lparr>bio_init = True, bio_shutdown = 1, bio_flags = 0, bio_retry_reason = 0, bio_references = 1,
     bio_ptr = \<lparr>bb_peer = Some peer, bb_closed = False, bb_len = 0, bb_offset = 0, bb_size = 4, bb_buf = Some [0, 0, 0, 0], bb_request = 0\<rparr>,
     next_bio = None, num_read = 0, num_write = 0\<rparr>"

lemma sample_pair: "BIO_new_bio_pair sample_malloc [] 4 4 = Some (Some (0, 1), [Some (sample_end 1), Some (sample_end 0)])"
  by code_simp

lemma sample_malloc_ok: "\<forall>i. malloc_ok (sample_malloc i)"
  by (simp add: malloc_ok_def sample_malloc_def)

lemma sample_reachable: "bio_reachable [Some (sample_end 1), Some (sample_end 0)]"
  by (rule bio_reachable.Call [OF bio_reachable.Start bio_call.New [OF sample_malloc_ok _ _ sample_pair]]) simp_all

lemma sample_at: "bio_at [Some (sample_end 1), Some (sample_end 0)] 0 = Some (sample_end 1)"
  by (simp add: bio_at_def)

text \<open>C23: A new BIO pair is two bounded queues of bytes, one each way: any sequence of reads, writes,
  shutdowns and queries at either end gives, call by call, the results of the two queues (bytes
  arrive in order and none is lost, a write takes what fits, an empty or a full queue asks for a
  retry, a shut end is end of file for its peer), and no call is undefined.\<close>

theorem bio_pair_is_two_queues:
  assumes "\<forall>i. malloc_ok (malloc i)" and "unat w1 < 2 ^ 62" and "unat w2 < 2 ^ 62" and "bio_reachable h"
    and "BIO_new_bio_pair malloc h w1 w2 = Some (Some (a, b), h')" and "\<forall>op \<in> set ops. in_range op"
  shows "run queues_step ops (fresh_end w1, fresh_end w2) = map_prod id (ends_of a b) (run (pair_step a b) ops h')"
proof -
  have "joined a b h'" "ends_of a b h' = (fresh_end w1, fresh_end w2)"
    using BIO_new_bio_pair_cases [OF assms(1-3) reachable_heap_ok [OF assms(4)]] assms(5) by auto
  then show ?thesis
    using bio_pair.run_refines [OF _ assms(6), of a b h'] by simp
qed

theorem bio_pair_is_two_queues_witness:
  "fst (run (pair_step 0 1) sample_calls [Some (sample_end 1), Some (sample_end 0)]) =
      [Some (3, []), Some (2, [1, 2]), Some (3, []), Some (0, []), Some (-1, []), Some (4, [3, 4, 5, 6]), Some (-1, []), Some (4, []),
       Some (1, []), Some (0, [])]"
proof -
  have "run queues_step sample_calls (fresh_end 4, fresh_end 4) =
      map_prod id (ends_of 0 1) (run (pair_step 0 1) sample_calls [Some (sample_end 1), Some (sample_end 0)])"
    by (rule bio_pair_is_two_queues [OF sample_malloc_ok _ _ bio_reachable.Start sample_pair])
      (simp_all add: sample_calls_def in_range_def INT_MAX_def)
  moreover have "fst (run queues_step sample_calls (fresh_end 4, fresh_end 4)) =
      [Some (3, []), Some (2, [1, 2]), Some (3, []), Some (0, []), Some (-1, []), Some (4, [3, 4, 5, 6]), Some (-1, []), Some (4, []),
       Some (1, []), Some (0, [])]"
    by (simp add: sample_calls_def queues_step_def queue_step_def pipe_write_def pipe_read_def fresh_end_def buf_size_def Let_def)
  ultimately show ?thesis
    by (auto simp: prod_eq_iff)
qed



text \<open>C25: \<open>BIO_write_all\<close> always returns, whatever the sizes: it queues as much of the data as the free space
  takes, and returns one exactly when that is all of it; a shut end takes nothing. The other direction is left alone.\<close>

theorem BIO_write_all_returns:
  assumes "bio_reachable h" and "bio_at h a = Some x" and "bb_peer (bio_ptr x) = Some b" and "unat len \<le> length data"
  shows "\<exists>h'. BIO_write_all h (Some a) data len =
      Some (unat len \<le> (if bb_closed (bio_ptr x) then 0 else unat (bb_size (bio_ptr x)) - length (ring (bio_ptr x))), h') \<and>
    pe_queue (fst (ends_of a b h')) = ring (bio_ptr x) @
      take (if bb_closed (bio_ptr x) then 0 else unat (bb_size (bio_ptr x)) - length (ring (bio_ptr x))) (take (unat len) data) \<and>
    snd (ends_of a b h') = snd (ends_of a b h)"
proof -
  have j: "joined a b h"
    using reachable_heap_ok [OF assms(1)] assms(2,3) by (simp add: joined_def)
  have e: "fst (ends_of a b h) = pipe_of x"
    using assms(2) by (simp add: ends_of_def)
  show ?thesis
    using BIO_write_all_joined [OF j assms(4)] unfolding e by (auto simp: pipe_of_def simp del: take_take)
qed

theorem BIO_write_all_returns_witness:
  "\<exists>h'. BIO_write_all [Some (sample_end 1), Some (sample_end 0)] (Some 0) [1, 2, 3, 4, 5, 6] 6 = Some (False, h') \<and>
    pe_queue (fst (ends_of 0 1 h')) = [1, 2, 3, 4]"
proof -
  have "ring (bio_ptr (sample_end 1)) = []" "bb_peer (bio_ptr (sample_end 1)) = Some 1"
    by (simp_all add: sample_end_def ring_def)
  then show ?thesis
    using BIO_write_all_returns [OF sample_reachable sample_at, of 1 6 "[1, 2, 3, 4, 5, 6]"] by (auto simp: sample_end_def)
qed

text \<open>C26: Freeing one end of a pair with its last reference frees that BIO only and unlinks the other,
  which is not initialised any more: its reads and writes fail with -2 and nothing is pending, even data
  that was queued for it. No other BIO changes.\<close>

theorem BIO_free_unlinks_peer:
  assumes "bio_reachable h" and "bio_at h a = Some x" and "bb_peer (bio_ptr x) = Some b"
    and "bio_references x = 1" and "next_bio x = None"
  shows "\<exists>h'. BIO_free h (Some a) = Some (1, h') \<and> bio_reachable h' \<and> bio_at h' a = None \<and>
    BIO_read h' (Some b) buf_null n = Some (-2, [], h') \<and> BIO_write h' (Some b) data n = Some (-2, h') \<and>
    BIO_pending h' (Some b) = Some (0, h') \<and> BIO_wpending h' (Some b) = Some (0, h') \<and>
    (\<forall>c. c \<noteq> a \<and> c \<noteq> b \<longrightarrow> bio_at h' c = bio_at h c)"
proof -
  have h: "heap_ok h"
    using reachable_heap_ok [OF assms(1)] .
  then obtain y where y: "bio_at h b = Some y" "a \<noteq> b"
    using heap_okD [OF h assms(2)] assms(3) by (auto simp: linked_def split: option.splits)
  define x' where "x' = x\<lparr>bio_references := 0, next_bio := None\<rparr>"
  have "bio_ptr x' = bio_ptr x"
    by (simp add: x'_def)
  from heap_ok_unlink [OF h assms(2) this] obtain h1 where h1: "bio_free (put_bio h a x') a = Some h1"
    "\<forall>c. c \<noteq> a \<longrightarrow> bio_at (h1[a := None]) c = (if c = b then Some (unpaired y) else bio_at h c)"
    using assms(3) y by auto
  define h' where "h' = h1[a := None]"
  have free: "BIO_free h (Some a) = Some (1, h')"
    using assms h1(1) by (simp add: free_turn_def CRYPTO_refcount_dec_and_test_zero_def CRYPTO_REFCOUNT_MAX_def BIO_pop_def bio_at_put
        Let_def word_less_nat_alt x'_def h'_def)
  have at: "bio_at h' b = Some (unpaired y)"
    using h1(2) y by (simp add: h'_def)
  have "BIO_read h' (Some b) buf_null n = Some (-2, [], h')" "BIO_write h' (Some b) data n = Some (-2, h')"
    "BIO_pending h' (Some b) = Some (0, h')" "BIO_wpending h' (Some b) = Some (0, h')"
    using at by (simp_all add: BIO_read_def BIO_write_def BIO_pending_def BIO_wpending_def BIO_ctrl_def bio_ctrl_def ctrl_codes
        unpaired_def c_assert_def to_long_def)
  moreover have "bio_reachable h'"
    using assms(1) free by (blast intro: bio_reachable.Call bio_call.Free)
  ultimately show ?thesis
    using free h1(2) by (auto simp: h'_def bio_at_clear)
qed

theorem BIO_free_unlinks_peer_witness:
  "\<exists>h'. BIO_free [Some (sample_end 1), Some (sample_end 0)] (Some 0) = Some (1, h') \<and>
    BIO_read h' (Some 1) False 5 = Some (-2, [], h')"
proof -
  have "bb_peer (bio_ptr (sample_end 1)) = Some 1" "bio_references (sample_end 1) = 1" "next_bio (sample_end 1) = None"
    by (simp_all add: sample_end_def)
  then show ?thesis
    using BIO_free_unlinks_peer [OF sample_reachable sample_at] by blast
qed

end
