(* ===== verification/Pb.thy ===== *)
theory Pb
  imports Sink
begin

text \<open>
  The streams and the wire format of nanopb (\<^verbatim>\<open>Pods/nanopb/pb_decode.c\<close>, \<^verbatim>\<open>pb_encode.c\<close>,
  version 0.3.9.8), built as the pod builds it: 64-bit integers, callbacks and error messages are on. An operation is
  an \<open>op\<close> on its stream. A buffer stream holds the bytes from its pointer to the end of the buffer; a
  stream with a callback of the user holds that function and its state. The callback is code
  outside the repository: it fills the caller's buffer, fails, or fails having reported the end
  of the stream by setting \<open>bytes_left\<close> to zero; a call that fails stores nothing.
\<close>

section \<open>Input streams\<close>

datatype got = Got bytes | Failed | AtEof

datatype 'st source = Buf bytes | User "bool \<Rightarrow> nat \<Rightarrow> 'st \<Rightarrow> got \<times> 'st" 'st

record 'st pb_istream =
  i_source :: "'st source"
  i_left :: nat
  i_errmsg :: "string option"

definition pb_istream_from_buffer :: "bytes \<Rightarrow> nat \<Rightarrow> 'st pb_istream" where
  "pb_istream_from_buffer buf bufsize = \<lparr>i_source = Buf buf, i_left = bufsize, i_errmsg = None\<rparr>"

definition i_error :: "string \<Rightarrow> ('st pb_istream, 'a) op" where
  "i_error msg = (\<lambda>s. (None, s\<lparr>i_errmsg := (case i_errmsg s of None \<Rightarrow> Some msg | Some m \<Rightarrow> Some m)\<rparr>))"

definition buf_read :: "bytes \<Rightarrow> bool \<Rightarrow> nat \<Rightarrow> bytes \<times> bytes" where
  "buf_read source null count = (if null then [] else take count source, drop count source)"

text \<open>\<open>stream->callback(stream, buf, count)\<close>; the first argument says whether \<open>buf\<close> is null.\<close>

definition i_callback :: "bool \<Rightarrow> nat \<Rightarrow> ('st pb_istream, bytes) op" where
  "i_callback null count s =
     (case i_source s of
        Buf source \<Rightarrow> (case buf_read source null count of (out, source) \<Rightarrow> (Some out, s\<lparr>i_source := Buf source\<rparr>))
      | User f st \<Rightarrow>
          (case f null count st of
             (Got out, st) \<Rightarrow> (Some out, s\<lparr>i_source := User f st\<rparr>)
           | (Failed, st) \<Rightarrow> (None, s\<lparr>i_source := User f st\<rparr>)
           | (AtEof, st) \<Rightarrow> (None, s\<lparr>i_source := User f st, i_left := 0\<rparr>)))"

definition pb_read_checked :: "bool \<Rightarrow> nat \<Rightarrow> ('st pb_istream, bytes) op" where
  "pb_read_checked null count s =
     (if count = 0 then (Some [], s)
      else if i_left s < count then i_error ''end-of-stream'' s
      else case i_callback null count s of
          (None, s) \<Rightarrow> i_error ''io error'' s
        | (Some out, s) \<Rightarrow> (Some out, s\<lparr>i_left := i_left s - count\<rparr>))"

fun skip_chunks :: "nat \<Rightarrow> ('st pb_istream, bytes) op" where
  "skip_chunks count =
     (if count > 16 then opbind (pb_read_checked False 16) (\<lambda>_. skip_chunks (count - 16))
      else pb_read_checked False count)"

definition is_buf :: "'st pb_istream \<Rightarrow> bool" where
  "is_buf s = (case i_source s of Buf _ \<Rightarrow> True | User _ _ \<Rightarrow> False)"

definition pb_read :: "bool \<Rightarrow> nat \<Rightarrow> ('st pb_istream, bytes) op" where
  "pb_read null count s =
     (if count = 0 then (Some [], s)
      else if null \<and> \<not> is_buf s then skip_chunks count s
      else pb_read_checked null count s)"

definition pb_readbyte :: "('st pb_istream, u8) op" where
  "pb_readbyte s =
     (if i_left s = 0 then i_error ''end-of-stream'' s
      else case i_callback False 1 s of
          (None, s) \<Rightarrow> i_error ''io error'' s
        | (Some out, s) \<Rightarrow> (Some (case out of [] \<Rightarrow> 0 | byte # _ \<Rightarrow> byte), s\<lparr>i_left := i_left s - 1\<rparr>))"

lemma i_callback_left: "i_callback null count s = (Some out, t) \<Longrightarrow> i_left t = i_left s"
  by (auto simp: i_callback_def buf_read_def split: source.splits got.splits prod.splits)

lemma pb_readbyte_left: "pb_readbyte s = (Some b, t) \<Longrightarrow> i_left t < i_left s"
  using i_callback_left [of False 1 s]
  by (auto simp: pb_readbyte_def i_error_def split: if_splits prod.splits option.splits)

lemma pb_read_left: "pb_read False (Suc n) s = (Some out, t) \<Longrightarrow> i_left t < i_left s"
  using i_callback_left [of False "Suc n" s]
  by (auto simp: pb_read_def pb_read_checked_def i_error_def split: if_splits prod.splits option.splits)

section \<open>Varints\<close>

text \<open>The loop after the first byte; \<open>bitpos\<close> is a \<open>uint_fast8_t\<close>, one byte wide.\<close>

function varint32_loop :: "nat \<Rightarrow> u32 \<Rightarrow> ('st pb_istream, u32) op" where
  "varint32_loop bitpos result s =
     (case pb_readbyte s of
        (None, s) \<Rightarrow> (None, s)
      | (Some byte, s) \<Rightarrow>
          let sign_extension = (if bitpos < 63 then 0xFF else 0x01) in
          if bitpos \<ge> 32 \<and> byte AND 0x7F \<noteq> 0 \<and> (drop_bit 31 result = 0 \<or> byte \<noteq> sign_extension)
          then i_error ''varint overflow'' s
          else
            let result = (if bitpos \<ge> 32 then result else result OR push_bit bitpos (ucast (byte AND 0x7F)));
                bitpos = (bitpos + 7) mod 256 in
            if byte AND 0x80 \<noteq> 0 then varint32_loop bitpos result s
            else if bitpos = 35 \<and> byte AND 0x70 \<noteq> 0 then i_error ''varint overflow'' s
            else (Some result, s))"
  by pat_completeness auto
termination
  by (relation "measure (\<lambda>(_, _, s). i_left s)") (auto dest: pb_readbyte_left [OF sym])

declare varint32_loop.simps [simp del]

text \<open>The value and whether \<open>*eof\<close> was set.\<close>

definition pb_decode_varint32_eof :: "'st pb_istream \<Rightarrow> (u32 option \<times> bool) \<times> 'st pb_istream" where
  "pb_decode_varint32_eof s =
     (case pb_readbyte s of
        (None, s) \<Rightarrow> ((None, i_left s = 0), s)
      | (Some byte, s) \<Rightarrow>
          if byte AND 0x80 = 0 then ((Some (ucast byte), False), s)
          else case varint32_loop 7 (ucast (byte AND 0x7F)) s of (r, s) \<Rightarrow> ((r, False), s))"

definition pb_decode_varint32 :: "('st pb_istream, u32) op" where
  "pb_decode_varint32 s = (case pb_decode_varint32_eof s of ((r, _), s) \<Rightarrow> (r, s))"

function varint_loop :: "nat \<Rightarrow> u64 \<Rightarrow> ('st pb_istream, u64) op" where
  "varint_loop bitpos result s =
     (if bitpos \<ge> 64 then i_error ''varint overflow'' s
      else case pb_readbyte s of
          (None, s) \<Rightarrow> (None, s)
        | (Some byte, s) \<Rightarrow>
            let result = result OR push_bit bitpos (ucast (byte AND 0x7F)); bitpos = bitpos + 7 in
            if byte AND 0x80 \<noteq> 0 then varint_loop bitpos result s else (Some result, s))"
  by pat_completeness auto
termination
  by (relation "measure (\<lambda>(_, _, s). i_left s)") (auto dest: pb_readbyte_left [OF sym])

declare varint_loop.simps [simp del]

definition pb_decode_varint :: "('st pb_istream, u64) op" where
  "pb_decode_varint = varint_loop 0 0"

function pb_skip_varint :: "('st pb_istream, unit) op" where
  "pb_skip_varint s =
     (case pb_read False 1 s of
        (None, s) \<Rightarrow> (None, s)
      | (Some out, s) \<Rightarrow> if (case out of [] \<Rightarrow> 0 | byte # _ \<Rightarrow> byte) AND 0x80 \<noteq> 0 then pb_skip_varint s else (Some (), s))"
  by pat_completeness auto
termination
  by (relation "measure i_left") (auto dest: pb_read_left [OF sym] simp: One_nat_def)

declare pb_skip_varint.simps [simp del]

definition pb_skip_string :: "('st pb_istream, unit) op" where
  "pb_skip_string = opbind pb_decode_varint32 (\<lambda>len. opbind (pb_read True (unat len)) (\<lambda>_. opret ()))"

section \<open>Tags and fields on the wire\<close>

type_synonym pb_wire_type = nat

definition PB_WT_VARINT :: pb_wire_type where "PB_WT_VARINT = 0"
definition PB_WT_64BIT :: pb_wire_type where "PB_WT_64BIT = 1"
definition PB_WT_STRING :: pb_wire_type where "PB_WT_STRING = 2"
definition PB_WT_32BIT :: pb_wire_type where "PB_WT_32BIT = 5"

lemmas wire_types = PB_WT_VARINT_def PB_WT_64BIT_def PB_WT_STRING_def PB_WT_32BIT_def

text \<open>The wire type and the tag if the call succeeds, and \<open>*eof\<close>.\<close>

definition pb_decode_tag :: "'st pb_istream \<Rightarrow> ((pb_wire_type \<times> u32) option \<times> bool) \<times> 'st pb_istream" where
  "pb_decode_tag s =
     (case pb_decode_varint32_eof s of
        ((None, eof), s) \<Rightarrow> ((None, eof), s)
      | ((Some temp, eof), s) \<Rightarrow>
          if temp = 0 then ((None, True), s) else ((Some (unat (temp AND 7), drop_bit 3 temp), eof), s))"

definition pb_skip_field :: "pb_wire_type \<Rightarrow> ('st pb_istream, unit) op" where
  "pb_skip_field wire_type =
     (if wire_type = PB_WT_VARINT then pb_skip_varint
      else if wire_type = PB_WT_64BIT then opbind (pb_read True 8) (\<lambda>_. opret ())
      else if wire_type = PB_WT_STRING then pb_skip_string
      else if wire_type = PB_WT_32BIT then opbind (pb_read True 4) (\<lambda>_. opret ())
      else i_error ''invalid wire_type'')"

text \<open>The bytes of a varint, at most \<open>max_size\<close> of them; \<open>got\<close> is what has been read.\<close>

function read_raw_varint :: "nat \<Rightarrow> bytes \<Rightarrow> ('st pb_istream, bytes) op" where
  "read_raw_varint max_size buf s =
     (if length buf + 1 > max_size then (None, s)
      else case pb_read False 1 s of
          (None, s) \<Rightarrow> (None, s)
        | (Some out, s) \<Rightarrow>
            let byte = (case out of [] \<Rightarrow> 0 | byte # _ \<Rightarrow> byte) in
            if byte AND 0x80 \<noteq> 0 then read_raw_varint max_size (buf @ [byte]) s else (Some (buf @ [byte]), s))"
  by pat_completeness auto
termination
  by (relation "measure (\<lambda>(_, _, s). i_left s)") (auto dest: pb_read_left [OF sym] simp: One_nat_def)

declare read_raw_varint.simps [simp del]

definition read_raw_value :: "pb_wire_type \<Rightarrow> nat \<Rightarrow> ('st pb_istream, bytes) op" where
  "read_raw_value wire_type max_size =
     (if wire_type = PB_WT_VARINT then read_raw_varint max_size []
      else if wire_type = PB_WT_64BIT then pb_read False 8
      else if wire_type = PB_WT_32BIT then pb_read False 4
      else i_error ''invalid wire_type'')"

text \<open>The substream; the stream is left without the bytes that are the substream's.\<close>

definition pb_make_string_substream :: "('st pb_istream, 'st pb_istream) op" where
  "pb_make_string_substream = opbind pb_decode_varint32 (\<lambda>sz s.
     if i_left s < unat sz then i_error ''parent stream too short'' s
     else (Some (s\<lparr>i_left := unat sz\<rparr>), s\<lparr>i_left := i_left s - unat sz\<rparr>))"

definition pb_close_string_substream :: "'st pb_istream \<Rightarrow> ('st pb_istream, unit) op" where
  "pb_close_string_substream substream stream =
     (case (if i_left substream \<noteq> 0 then pb_read True (i_left substream) substream else (Some [], substream)) of
        (None, _) \<Rightarrow> (None, stream)
      | (Some _, substream) \<Rightarrow> (Some (), stream\<lparr>i_source := i_source substream, i_errmsg := i_errmsg substream\<rparr>))"

section \<open>Values\<close>

definition pb_decode_bool :: "('st pb_istream, bool) op" where
  "pb_decode_bool = opbind pb_decode_varint32 (\<lambda>value. opret (value \<noteq> 0))"

definition pb_decode_svarint :: "('st pb_istream, u64) op" where
  "pb_decode_svarint = opbind pb_decode_varint (\<lambda>value.
     opret (if value AND 1 \<noteq> 0 then NOT (drop_bit 1 value) else drop_bit 1 value))"

definition pb_decode_fixed32 :: "('st pb_istream, u32) op" where
  "pb_decode_fixed32 = opbind (pb_read False 4) (\<lambda>bytes.
     opret (push_bit 0 (ucast (bytes ! 0)) OR push_bit 8 (ucast (bytes ! 1)) OR
            push_bit 16 (ucast (bytes ! 2)) OR push_bit 24 (ucast (bytes ! 3))))"

definition pb_decode_fixed64 :: "('st pb_istream, u64) op" where
  "pb_decode_fixed64 = opbind (pb_read False 8) (\<lambda>bytes.
     opret (push_bit 0 (ucast (bytes ! 0)) OR push_bit 8 (ucast (bytes ! 1)) OR
            push_bit 16 (ucast (bytes ! 2)) OR push_bit 24 (ucast (bytes ! 3)) OR
            push_bit 32 (ucast (bytes ! 4)) OR push_bit 40 (ucast (bytes ! 5)) OR
            push_bit 48 (ucast (bytes ! 6)) OR push_bit 56 (ucast (bytes ! 7))))"

section \<open>Output streams\<close>

text \<open>A buffer stream holds what has been written to its buffer; \<open>Sizing\<close> is a null callback.\<close>

datatype 'st sink = Sizing | Mem bytes | Out "bytes \<Rightarrow> 'st \<Rightarrow> bool \<times> 'st" 'st

record 'st pb_ostream =
  o_sink :: "'st sink"
  o_max :: nat
  o_written :: nat
  o_errmsg :: "string option"

definition pb_ostream_from_buffer :: "nat \<Rightarrow> 'st pb_ostream" where
  "pb_ostream_from_buffer bufsize = \<lparr>o_sink = Mem [], o_max = bufsize, o_written = 0, o_errmsg = None\<rparr>"

definition PB_OSTREAM_SIZING :: "'st pb_ostream" where
  "PB_OSTREAM_SIZING = \<lparr>o_sink = Sizing, o_max = 0, o_written = 0, o_errmsg = None\<rparr>"

definition o_error :: "string \<Rightarrow> ('st pb_ostream, 'a) op" where
  "o_error msg = (\<lambda>s. (None, s\<lparr>o_errmsg := (case o_errmsg s of None \<Rightarrow> Some msg | Some m \<Rightarrow> Some m)\<rparr>))"

definition o_callback :: "bytes \<Rightarrow> ('st pb_ostream, unit) op" where
  "o_callback buf s =
     (case o_sink s of
        Sizing \<Rightarrow> (Some (), s)
      | Mem bs \<Rightarrow> (Some (), s\<lparr>o_sink := Mem (bs @ buf)\<rparr>)
      | Out f st \<Rightarrow> (case f buf st of (ok, st) \<Rightarrow> (if ok then Some () else None, s\<lparr>o_sink := Out f st\<rparr>)))"

definition is_sizing :: "'st pb_ostream \<Rightarrow> bool" where
  "is_sizing s = (case o_sink s of Sizing \<Rightarrow> True | Mem _ \<Rightarrow> False | Out _ _ \<Rightarrow> False)"

definition count_written :: "nat \<Rightarrow> 'st pb_ostream \<Rightarrow> 'st pb_ostream" where
  "count_written count s = s\<lparr>o_written := (o_written s + count) mod SIZE_MOD\<rparr>"

definition pb_write :: "bytes \<Rightarrow> ('st pb_ostream, unit) op" where
  "pb_write buf s =
     (let count = length buf in
      if count > 0 \<and> \<not> is_sizing s then
        if (o_written s + count) mod SIZE_MOD < o_written s \<or> (o_written s + count) mod SIZE_MOD > o_max s
        then o_error ''stream full'' s
        else case o_callback buf s of
            (None, s) \<Rightarrow> o_error ''io error'' s
          | (Some _, s) \<Rightarrow> (Some (), count_written count s)
      else (Some (), count_written count s))"

function varint_bytes :: "u64 \<Rightarrow> bytes" where
  "varint_bytes value =
     (if value = 0 then [] else ((ucast (value AND 0x7F) :: u8) OR 0x80) # varint_bytes (drop_bit 7 value))"
  by pat_completeness auto
termination
  by (relation "measure unat") (auto simp: unat_shift_right word_neq_0_conv word_less_nat_alt intro: div_less_dividend)

declare varint_bytes.simps [simp del]

definition pb_encode_varint :: "u64 \<Rightarrow> ('st pb_ostream, unit) op" where
  "pb_encode_varint value =
     (if value \<le> 0x7F then pb_write [ucast value]
      else let buffer = varint_bytes value; i = length buffer in pb_write (buffer[i - 1 := buffer ! (i - 1) AND 0x7F]))"

definition pb_encode_svarint :: "u64 \<Rightarrow> ('st pb_ostream, unit) op" where
  "pb_encode_svarint value = pb_encode_varint (if sint value < 0 then NOT (push_bit 1 value) else push_bit 1 value)"

definition pb_encode_fixed32 :: "u32 \<Rightarrow> ('st pb_ostream, unit) op" where
  "pb_encode_fixed32 val = pb_write
     [ucast (val AND 0xFF), ucast (drop_bit 8 val AND 0xFF), ucast (drop_bit 16 val AND 0xFF), ucast (drop_bit 24 val AND 0xFF)]"

definition pb_encode_fixed64 :: "u64 \<Rightarrow> ('st pb_ostream, unit) op" where
  "pb_encode_fixed64 val = pb_write
     [ucast (val AND 0xFF), ucast (drop_bit 8 val AND 0xFF), ucast (drop_bit 16 val AND 0xFF), ucast (drop_bit 24 val AND 0xFF),
      ucast (drop_bit 32 val AND 0xFF), ucast (drop_bit 40 val AND 0xFF), ucast (drop_bit 48 val AND 0xFF), ucast (drop_bit 56 val AND 0xFF)]"

definition pb_encode_tag :: "pb_wire_type \<Rightarrow> u32 \<Rightarrow> ('st pb_ostream, unit) op" where
  "pb_encode_tag wiretype field_number = pb_encode_varint (push_bit 3 (ucast field_number) OR word_of_nat wiretype)"

definition pb_encode_string :: "bytes \<Rightarrow> ('st pb_ostream, unit) op" where
  "pb_encode_string buffer = opbind (pb_encode_varint (word_of_nat (length buffer))) (\<lambda>_. pb_write buffer)"

end
