(* ===== verification/PbWire.thy ===== *)
theory PbWire
  imports Pb
begin

text \<open>
  The contract of nanopb's wire functions on buffer streams.
\<close>

section \<open>Buffer streams\<close>

definition buf_ok :: "'st pb_istream \<Rightarrow> bool" where
  "buf_ok s \<longleftrightarrow> (case i_source s of Buf src \<Rightarrow> i_left s \<le> length src | User _ _ \<Rightarrow> False)"

definition i_content :: "'st pb_istream \<Rightarrow> bytes" where
  "i_content s = (case i_source s of Buf src \<Rightarrow> take (i_left s) src | User _ _ \<Rightarrow> [])"

definition i_advance :: "nat \<Rightarrow> 'st pb_istream \<Rightarrow> 'st pb_istream" where
  "i_advance n s = s\<lparr>i_source := (case i_source s of Buf src \<Rightarrow> Buf (drop n src) | User f st \<Rightarrow> User f st), i_left := i_left s - n\<rparr>"

lemma length_i_content [simp]: "buf_ok s \<Longrightarrow> length (i_content s) = i_left s"
  by (auto simp: buf_ok_def i_content_def split: source.splits)

lemma i_content_advance [simp]: "i_content (i_advance n s) = drop n (i_content s)"
  by (auto simp: i_content_def i_advance_def drop_take split: source.splits)

lemma buf_ok_advance [simp]: "buf_ok s \<Longrightarrow> buf_ok (i_advance n s)"
  by (auto simp: buf_ok_def i_advance_def split: source.splits)

lemma i_left_advance [simp]: "i_left (i_advance n s) = i_left s - n"
  by (simp add: i_advance_def)

lemma i_advance_0 [simp]: "i_advance 0 s = s"
  by (cases s) (simp add: i_advance_def split: source.split)

lemma i_advance_add [simp]: "i_advance m (i_advance n s) = i_advance (n + m) s"
  by (simp add: i_advance_def add.commute split: source.split)

lemma i_callback_buf:
  "buf_ok s \<Longrightarrow> n \<le> i_left s \<Longrightarrow>
   i_callback null n s = (Some (if null then [] else take n (i_content s)), (i_advance n s)\<lparr>i_left := i_left s\<rparr>)"
  by (auto simp: buf_ok_def i_callback_def buf_read_def i_content_def i_advance_def min_absorb1 split: source.splits)

lemma is_buf_ok: "buf_ok s \<Longrightarrow> is_buf s"
  by (auto simp: buf_ok_def is_buf_def split: source.splits)

lemma i_advance_left: "(i_advance n s)\<lparr>i_left := i_left s - n\<rparr> = i_advance n s"
  by (simp add: i_advance_def)

lemma pb_read_buf:
  "buf_ok s \<Longrightarrow> pb_read null n s =
    (if n \<le> i_left s then (Some (if null then [] else take n (i_content s)), i_advance n s) else i_error ''end-of-stream'' s)"
  by (auto simp: i_advance_left pb_read_def is_buf_ok pb_read_checked_def i_callback_buf split: if_splits)

lemma pb_readbyte_buf:
  "buf_ok s \<Longrightarrow> pb_readbyte s = (case i_content s of [] \<Rightarrow> i_error ''end-of-stream'' s | b # _ \<Rightarrow> (Some b, i_advance 1 s))"
  using length_i_content [of s] i_advance_left [of s 1]
  by (cases "i_content s") (auto simp: pb_readbyte_def i_callback_buf)

section \<open>Base 128, least significant digit first\<close>

fun base128_le :: "bytes \<Rightarrow> nat" where
  "base128_le [] = 0"
| "base128_le (b # bs) = unat (b AND 0x7F) + 128 * base128_le bs"

definition varint_ok :: "bytes \<Rightarrow> bool" where
  "varint_ok bs \<longleftrightarrow> bs \<noteq> [] \<and> list_all (\<lambda>b. b AND 0x80 \<noteq> 0) (butlast bs) \<and> last bs AND 0x80 = 0"

lemma varint_ok_Cons: "varint_ok (b # bs) \<longleftrightarrow> (if bs = [] then b AND 0x80 = 0 else b AND 0x80 \<noteq> 0 \<and> varint_ok bs)"
  by (auto simp: varint_ok_def)

fun wire_varint :: "nat \<Rightarrow> bytes" where
  "wire_varint n = (if n < 128 then [word_of_nat n] else word_of_nat (n mod 128 + 128) # wire_varint (n div 128))"

declare wire_varint.simps [simp del]

lemma or_push_digit:
  assumes "\<forall>n \<ge> k. \<not> bit (r :: 'a::len word) n"
  shows "r OR push_bit k (ucast (b AND 0x7F :: u8)) = r + word_of_nat (2 ^ k * unat (b AND 0x7F))"
proof -
  have "r OR push_bit k (ucast (b AND 0x7F)) = r + push_bit k (ucast (b AND 0x7F))"
    by (rule disjunctive_add [symmetric]) (use assms in \<open>auto simp: bit_simps\<close>)
  moreover have "push_bit k (ucast (b AND 0x7F :: u8) :: 'a word) = word_of_nat (push_bit k (unat (b AND 0x7F)))"
    by (simp only: push_bit_of_nat [symmetric]) simp
  ultimately show ?thesis
    by (simp only: push_bit_eq_mult [of k "unat (b AND 0x7F)"] mult.commute [of "2 ^ k"])
qed

lemma digit_bits:
  assumes "\<forall>n \<ge> k. \<not> bit (r :: 'a::len word) n"
  shows "\<forall>n \<ge> k + 7. \<not> bit (r OR push_bit k (ucast (b AND 0x7F :: u8))) n"
proof -
  have "\<not> bit (b AND 0x7F :: u8) n" if "n \<ge> 7" for n
  proof -
    have m: "(0x7F :: u8) = mask 7" by (simp add: mask_eq_exp_minus_1)
    show ?thesis unfolding m using that by (simp only: bit_and_iff bit_mask_iff) simp
  qed
  then show ?thesis
    using assms by (auto simp: bit_simps)
qed

lemma varint_loop_ok:
  assumes "buf_ok s" "i_content s = bs @ rest" "varint_ok bs" "bitpos + 7 * length bs \<le> 70" "\<forall>n \<ge> bitpos. \<not> bit r n"
  shows "varint_loop bitpos r s = (Some (r + word_of_nat (2 ^ bitpos * base128_le bs)), i_advance (length bs) s)"
  using assms
proof (induction bs arbitrary: bitpos r s)
  case Nil
  then show ?case by (simp add: varint_ok_def)
next
  case (Cons b bs)
  define r' where "r' = r OR push_bit bitpos (ucast (b AND 0x7F))"
  have r': "r' = r + word_of_nat (2 ^ bitpos * unat (b AND 0x7F))" "\<forall>n \<ge> bitpos + 7. \<not> bit r' n"
    using or_push_digit [OF Cons.prems(5)] digit_bits [OF Cons.prems(5)] by (simp_all add: r'_def)
  have b: "pb_readbyte s = (Some b, i_advance 1 s)" "bitpos < 64"
    using Cons.prems by (simp_all add: pb_readbyte_buf)
  show ?case
  proof (cases "bs = []")
    case True
    then show ?thesis
      using Cons.prems(3) b r'
      by (subst varint_loop.simps) (simp add: Let_def r'_def [symmetric] varint_ok_Cons)
  next
    case False
    then have "varint_loop (bitpos + 7) r' (i_advance 1 s) =
        (Some (r' + word_of_nat (2 ^ (bitpos + 7) * base128_le bs)), i_advance (length bs) (i_advance 1 s))"
      using Cons.prems r'(2) by (intro Cons.IH) (simp_all add: varint_ok_Cons)
    then show ?thesis
      using Cons.prems(3) b False r'(1)
      by (subst varint_loop.simps)
        (simp add: Let_def r'_def [symmetric] varint_ok_Cons power_add algebra_simps)
  qed
qed

lemma varint_loop_Some:
  assumes "buf_ok s" "varint_loop bitpos r s = (Some w, t)"
  shows "\<exists>bs rest. i_content s = bs @ rest \<and> varint_ok bs \<and> bitpos + 7 * length bs < 71"
  using assms
proof (induction bitpos r s rule: varint_loop.induct)
  case (1 bitpos r s)
  obtain b bs where c: "i_content s = b # bs" and pos: "bitpos < 64"
    using 1(2,3) by (cases "i_content s")
      (subst (asm) varint_loop.simps; auto simp: pb_readbyte_buf i_error_def split: if_splits)+
  have b: "pb_readbyte s = (Some b, i_advance 1 s)"
    using c 1(2) by (simp add: pb_readbyte_buf)
  define r' where "r' = r OR push_bit bitpos (ucast (b AND 0x7F))"
  show ?case
  proof (cases "b AND 0x80 = 0")
    case True
    then show ?thesis
      using c pos by (intro exI [of _ "[b]"] exI [of _ bs]) (simp add: varint_ok_def)
  next
    case False
    have "varint_loop (bitpos + 7) r' (i_advance 1 s) = (Some w, t)"
      using 1(3) b pos False by (subst (asm) varint_loop.simps) (simp add: Let_def r'_def)
    then obtain us rest where "bs = us @ rest" "varint_ok us" "bitpos + 7 + 7 * length us < 71"
      using 1(1) [OF _ b [symmetric] refl refl refl] pos False 1(2) c by (auto simp: r'_def)
    then have "i_content s = (b # us) @ rest" "varint_ok (b # us)" "bitpos + 7 * length (b # us) < 71"
      using c False by (auto simp: varint_ok_Cons varint_ok_def)
    then show ?thesis by blast
  qed
qed


lemma u8_continues: "word_of_nat (n mod 128 + 128) AND (0x80 :: u8) \<noteq> 0" "(word_of_nat n AND (0x80 :: u8) = 0) \<longleftrightarrow> n mod 256 < 128"
  by (simp_all only: u8_80 unat_u8_of_nat) simp

lemma u8_digit: "unat (b AND 0x7F :: u8) = unat b mod 128"
  by (rule u8_bits_80_7f(2))

lemma wire_varint_ok [simp]: "varint_ok (wire_varint n)"
proof (induction n rule: wire_varint.induct)
  case (1 n)
  then show ?case
    using u8_continues [of n] by (subst wire_varint.simps) (auto simp: varint_ok_Cons varint_ok_def)
qed

lemma base128_le_wire [simp]: "base128_le (wire_varint n) = n"
proof (induction n rule: wire_varint.induct)
  case (1 n)
  have "unat (word_of_nat (n mod 128 + 128) :: u8) mod 128 = n mod 128"
    unfolding unat_u8_of_nat by (simp add: mod_mod_cancel)
  with 1 show ?case
    by (subst wire_varint.simps) (simp add: u8_digit unat_u8_of_nat del: of_nat_add)
qed

lemma length_wire_varint: "n < 128 ^ k \<Longrightarrow> 0 < k \<Longrightarrow> length (wire_varint n) \<le> k"
proof (induction n arbitrary: k rule: wire_varint.induct)
  case (1 n)
  show ?case
  proof (cases "n < 128")
    case False
    then obtain j where k: "k = Suc j" "0 < j"
      using 1(2,3) by (cases k; cases "k - 1") auto
    then have "n div 128 < 128 ^ j"
      using 1(2) by (auto simp: less_mult_imp_div_less mult.commute)
    then show ?thesis
      using 1(1) [OF False, of j] k False by (subst wire_varint.simps) simp
  qed (use 1(3) in \<open>subst wire_varint.simps; simp\<close>)
qed

lemma varint_bytes_wire:
  "v \<noteq> 0 \<Longrightarrow> varint_bytes v \<noteq> [] \<and>
    (varint_bytes v)[length (varint_bytes v) - 1 := varint_bytes v ! (length (varint_bytes v) - 1) AND 0x7F] = wire_varint (unat v)"
proof (induction v rule: varint_bytes.induct)
  case (1 v)
  let ?rest = "varint_bytes (drop_bit 7 v)"
  have v: "varint_bytes v = word_of_nat (unat v mod 128 + 128) # ?rest"
    using 1(2) by (subst varint_bytes.simps) (simp add: more_7_byte)
  have w: "drop_bit 7 v = 0 \<longleftrightarrow> unat v < 128"
    using unat_eq_zero [of "drop_bit 7 v"] by (simp add: drop_bit_7_unat div_eq_0_iff)
  show ?case
  proof (cases "unat v < 128")
    case True
    then have "word_of_nat (unat v mod 128 + 128) AND (0x7F :: u8) = word_of_nat (unat v)"
      by (simp only: word_unat_eq_iff u8_digit unat_u8_of_nat) simp
    moreover have "?rest = []"
      using True w by (subst varint_bytes.simps) simp
    ultimately show ?thesis
      using True v by (subst wire_varint.simps) simp
  next
    case False
    then have "?rest \<noteq> []" "?rest[length ?rest - 1 := ?rest ! (length ?rest - 1) AND 0x7F] = wire_varint (unat v div 128)"
      using 1(1) [OF 1(2)] w by (simp_all add: drop_bit_7_unat)
    moreover have "wire_varint (unat v) = word_of_nat (unat v mod 128 + 128) # wire_varint (unat v div 128)"
      using False by (subst wire_varint.simps) simp
    ultimately show ?thesis
      unfolding v by (cases ?rest) simp_all
  qed
qed

lemma pb_encode_varint_eq: "pb_encode_varint v = pb_write (wire_varint (unat v))"
proof (cases "v \<le> 0x7F")
  case True
  then have "unat v < 128" by (simp add: word_le_nat_alt)
  moreover have "(ucast v :: u8) = word_of_nat (unat v)" by simp
  ultimately show ?thesis
    using True by (subst wire_varint.simps) (simp add: pb_encode_varint_def)
next
  case False
  then have "v \<noteq> 0" by auto
  with False varint_bytes_wire [OF this] show ?thesis
    by (simp add: pb_encode_varint_def Let_def)
qed

lemma pb_decode_varint_ok:
  assumes "buf_ok s" "i_content s = bs @ rest" "varint_ok bs" "length bs \<le> 10"
  shows "pb_decode_varint s = (Some (word_of_nat (base128_le bs)), i_advance (length bs) s)"
  using varint_loop_ok [OF assms(1-3), of 0 0] assms(4) by (simp add: pb_decode_varint_def)

lemma varint_ok_prefix:
  "varint_ok bs \<Longrightarrow> varint_ok us \<Longrightarrow> bs @ xs = us @ ys \<Longrightarrow> bs = us"
proof (induction bs arbitrary: us)
  case (Cons b bs)
  then obtain vs where u: "us = b # vs" "bs @ xs = vs @ ys"
    by (cases us) (auto simp: varint_ok_def)
  note ok = Cons.prems(1) [unfolded varint_ok_Cons] Cons.prems(2) [unfolded u varint_ok_Cons]
  show ?case
  proof (cases "b AND 0x80 = 0")
    case True
    then show ?thesis
      using ok u by (simp split: if_splits)
  next
    case False
    then have "varint_ok bs" "varint_ok vs"
      using ok by (simp_all split: if_splits)
    then show ?thesis
      using Cons.IH [OF _ _ u(2)] u(1) by simp
  qed
qed (simp add: varint_ok_def)

lemma pb_decode_varint_iff:
  assumes "buf_ok s"
  shows "pb_decode_varint s = (Some w, t) \<longleftrightarrow>
    (\<exists>bs rest. i_content s = bs @ rest \<and> varint_ok bs \<and> length bs \<le> 10 \<and>
      w = word_of_nat (base128_le bs) \<and> t = i_advance (length bs) s)"
proof
  assume d: "pb_decode_varint s = (Some w, t)"
  then obtain bs rest where bs: "i_content s = bs @ rest" "varint_ok bs" "0 + 7 * length bs < 71"
    using varint_loop_Some [OF assms, of 0 0 w t] by (auto simp: pb_decode_varint_def)
  then have "length bs \<le> 10" by simp
  with pb_decode_varint_ok [OF assms bs(1,2)] bs d show "\<exists>bs rest. i_content s = bs @ rest \<and> varint_ok bs \<and> length bs \<le> 10 \<and>
      w = word_of_nat (base128_le bs) \<and> t = i_advance (length bs) s" by auto
qed (use pb_decode_varint_ok [OF assms] in blast)


section \<open>The 32-bit decoder\<close>

lemma bits_below: "unat (r :: 'a::len word) < 2 ^ k \<Longrightarrow> \<forall>n \<ge> k. \<not> bit r n"
proof (intro allI impI)
  fix n assume "unat r < 2 ^ k" "k \<le> n"
  then have "unat r < 2 ^ n"
    using power_increasing [of k n "2::nat"] by linarith
  then show "\<not> bit r n" by (simp add: bit_iff_odd_unat)
qed

lemma continuing_prefix:
  assumes "buf_ok s" "i_content s = us @ rest" "list_all (\<lambda>b. b AND 0x80 \<noteq> 0) us" "bitpos + 7 * length us \<le> 35"
    "\<forall>n \<ge> bitpos. \<not> bit r n"
  shows "varint32_loop bitpos r s =
    varint32_loop (bitpos + 7 * length us) (r + word_of_nat (2 ^ bitpos * base128_le us)) (i_advance (length us) s)"
  using assms
proof (induction us arbitrary: bitpos r s)
  case (Cons b us)
  define r' where "r' = r OR push_bit bitpos (ucast (b AND 0x7F))"
  have r': "r' = r + word_of_nat (2 ^ bitpos * unat (b AND 0x7F))" "\<forall>n \<ge> bitpos + 7. \<not> bit r' n"
    using or_push_digit [OF Cons.prems(5)] digit_bits [OF Cons.prems(5)] by (simp_all add: r'_def)
  have b: "pb_readbyte s = (Some b, i_advance 1 s)" "bitpos < 32" "bitpos + 7 < 256"
    using Cons.prems by (simp_all add: pb_readbyte_buf)
  have "varint32_loop (bitpos + 7) r' (i_advance 1 s) =
      varint32_loop (bitpos + 7 + 7 * length us) (r' + word_of_nat (2 ^ (bitpos + 7) * base128_le us)) (i_advance (length us) (i_advance 1 s))"
    using Cons.prems r'(2) by (intro Cons.IH) simp_all
  moreover have "varint32_loop bitpos r s = varint32_loop (bitpos + 7) r' (i_advance 1 s)"
    using Cons.prems(3) b by (subst varint32_loop.simps) (simp add: Let_def r'_def)
  ultimately show ?case
    by (simp add: r'(1) power_add algebra_simps)
qed simp

lemma last_digit:
  assumes "buf_ok s" "i_content s = b # rest" "b AND 0x80 = 0" "bitpos \<le> 28" "unat r < 2 ^ bitpos" "bitpos = 28 \<or> bitpos \<le> 21"
  shows "varint32_loop bitpos r s =
    (if unat r + 2 ^ bitpos * unat b < 2 ^ 32 then (Some (r + word_of_nat (2 ^ bitpos * unat b)), i_advance 1 s)
     else i_error ''varint overflow'' (i_advance 1 s))"
proof -
  have b: "unat b < 128" "b AND 0x7F = b"
    using assms(3) u8_80 [of b] u8_digit [of b] by (simp_all add: word_unat_eq_iff)
  have r: "r OR push_bit bitpos (ucast b) = r + word_of_nat (2 ^ bitpos * unat b)"
    using or_push_digit [OF bits_below [OF assms(5)], of b] b(2) by simp
  have "b AND 0x70 = 0 \<longleftrightarrow> unat b < 16"
  proof -
    have m: "(0x70 :: u8) = push_bit 4 (mask 3)"
      by (simp add: mask_eq_exp_minus_1 push_bit_eq_mult)
    have "b AND 0x70 = push_bit 4 (take_bit 3 (drop_bit 4 b))"
      unfolding m by (rule bit_eqI) (auto simp: bit_simps)
    moreover have u: "unat (take_bit 3 (drop_bit 4 b)) = unat b div 16"
      using b(1) by (simp add: unsigned_take_bit_eq unat_shift_right take_bit_nat_eq_self)
    then have "unat (push_bit 4 (take_bit 3 (drop_bit 4 b))) = unat b div 16 * 16"
      using b(1) by (simp add: unsigned_push_bit_eq push_bit_eq_mult [of 4 "unat b div 16"] take_bit_nat_eq_self)
    ultimately show ?thesis
      using unat_eq_zero [of "b AND 0x70"] by (simp add: div_eq_0_iff)
  qed
  moreover have "unat r + 2 ^ bitpos * unat b < 2 ^ 32 \<longleftrightarrow> bitpos \<le> 21 \<or> unat b < 16"
  proof (cases "bitpos \<le> 21")
    case True
    have "unat r + 2 ^ bitpos * unat b < 2 ^ bitpos * 128"
      using digit_less [of "unat b" 128 "unat r" "2 ^ bitpos"] b(1) assms(5) by (simp add: mult.commute add.commute)
    also have "\<dots> \<le> 2 ^ 21 * 128"
      using True by (intro mult_right_mono power_increasing) simp_all
    finally show ?thesis using True by simp
  next
    case False
    then have "bitpos = 28" using assms(6) by simp
    then show ?thesis using assms(5) False by auto
  qed
  ultimately show ?thesis
    using assms b r by (subst varint32_loop.simps) (auto simp: pb_readbyte_buf Let_def)
qed

lemma varint_ok_snoc:
  assumes "varint_ok bs"
  obtains us b where "bs = us @ [b]" "list_all (\<lambda>b. b AND 0x80 \<noteq> 0) us" "b AND 0x80 = 0"
  using assms by (cases bs rule: rev_cases) (auto simp: varint_ok_def)

lemma base128_le_append: "base128_le (us @ vs) = base128_le us + 128 ^ length us * base128_le vs"
  by (induction us) (simp_all add: algebra_simps)

lemma base128_le_less: "base128_le us < 128 ^ length us"
proof (induction us)
  case (Cons b us)
  then show ?case
    using digit_less [of "base128_le us" "128 ^ length us" "unat (b AND 0x7F)" 128] by (simp add: u8_digit mult.commute)
qed simp

lemma no_top_bit: "b AND 0x80 = 0 \<Longrightarrow> (b AND 0x7F :: u8) = b"
  using u8_80 [of b] u8_digit [of b] by (simp add: word_unat_eq_iff)

lemma pb_decode_varint32_first:
  assumes "buf_ok s" "i_content s = b # rest"
  shows "pb_decode_varint32 s =
    (if b AND 0x80 = 0 then (Some (ucast b), i_advance 1 s) else varint32_loop 7 (ucast (b AND 0x7F)) (i_advance 1 s))"
  using assms by (simp add: pb_decode_varint32_def pb_decode_varint32_eof_def pb_readbyte_buf split: prod.split)

lemma pb_decode_varint32_short:
  assumes s: "buf_ok s" "i_content s = bs @ rest" and bs: "varint_ok bs" "length bs \<le> 5"
  shows "pb_decode_varint32 s =
    (if base128_le bs < 2 ^ 32 then (Some (word_of_nat (base128_le bs)), i_advance (length bs) s)
     else i_error ''varint overflow'' (i_advance (length bs) s))"
proof -
  obtain us b where u: "bs = us @ [b]" "list_all (\<lambda>b. b AND 0x80 \<noteq> 0) us" "b AND 0x80 = 0"
    by (rule varint_ok_snoc [OF bs(1)])
  have b: "unat b < 128" "b AND 0x7F = b"
    using u(3) u8_80 no_top_bit by auto
  show ?thesis
  proof (cases us)
    case Nil
    then show ?thesis
      using s u b pb_decode_varint32_first [OF s(1), of b rest] by simp
  next
    case (Cons a as)
    have len: "length as \<le> 3"
      using bs(2) u(1) Cons by simp
    define r :: u32 where "r = ucast (a AND 0x7F) + word_of_nat (2 ^ 7 * base128_le as)"
    have base: "base128_le us < 128 ^ length us" "base128_le us = unat (a AND 0x7F) + 128 * base128_le as"
      using base128_le_less [of us] Cons by simp_all
    have "(ucast (a AND 0x7F) :: u32) = word_of_nat (unat (a AND 0x7F))" by simp
    then have r_eq: "r = word_of_nat (base128_le us)"
      by (simp only: r_def base(2) of_nat_add) simp
    have "(128::nat) ^ length us = 2 ^ (7 + 7 * length as)"
      using Cons by (simp add: power_add power_mult)
    then have r: "unat r < 2 ^ (7 + 7 * length as)" "unat r = base128_le us"
    proof -
      have "base128_le us < 2 ^ (7 + 7 * length as)" using base(1) \<open>(128::nat) ^ length us = _\<close> by simp
      moreover have "(2::nat) ^ (7 + 7 * length as) \<le> 2 ^ 28" using len by (intro power_increasing) simp_all
      ultimately have "base128_le us < 2 ^ 32" "base128_le us < 2 ^ (7 + 7 * length as)" by simp_all
      then show "unat r = base128_le us" "unat r < 2 ^ (7 + 7 * length as)"
        by (simp_all add: r_eq unat_of_nat)
    qed
    have low: "\<forall>n \<ge> 7. \<not> bit (ucast (a AND 0x7F) :: u32) n"
      by (rule bits_below) (simp add: u8_digit)
    have "pb_decode_varint32 s = varint32_loop 7 (ucast (a AND 0x7F)) (i_advance 1 s)"
      using s u Cons pb_decode_varint32_first [OF s(1), of a "as @ b # rest"] by simp
    also have "\<dots> = varint32_loop (7 + 7 * length as) r (i_advance (length as) (i_advance 1 s))"
      unfolding r_def using s u Cons len low by (intro continuing_prefix [of _ _ "b # rest"]) simp_all
    also have "\<dots> = (if unat r + 2 ^ (7 + 7 * length as) * unat b < 2 ^ 32
        then (Some (r + word_of_nat (2 ^ (7 + 7 * length as) * unat b)), i_advance 1 (i_advance (length as) (i_advance 1 s)))
        else i_error ''varint overflow'' (i_advance 1 (i_advance (length as) (i_advance 1 s))))"
      using s u Cons len r(1) by (intro last_digit [of _ _ rest]) auto
    also have "unat r + 2 ^ (7 + 7 * length as) * unat b = base128_le bs"
      using u(1) b(2) \<open>(128::nat) ^ length us = _\<close> r(2) by (simp only: base128_le_append) simp
    also have "r + word_of_nat (2 ^ (7 + 7 * length as) * unat b) = word_of_nat (unat r + 2 ^ (7 + 7 * length as) * unat b)"
      by simp
    also have "unat r + 2 ^ (7 + 7 * length as) * unat b = base128_le bs"
      using u(1) b(2) \<open>(128::nat) ^ length us = _\<close> r(2) by (simp only: base128_le_append) simp
    finally show ?thesis
      using u(1) Cons by simp
  qed
qed


lemma wire_varint_split:
  "128 ^ k \<le> n \<Longrightarrow> \<exists>us. wire_varint n = us @ wire_varint (n div 128 ^ k) \<and> length us = k \<and>
    list_all (\<lambda>b. b AND 0x80 \<noteq> 0) us \<and> base128_le us = n mod 128 ^ k"
proof (induction k arbitrary: n)
  case (Suc k)
  then have "128 ^ k \<le> n div 128"
    by (simp add: less_eq_div_iff_mult_less_eq mult.commute)
  from Suc.IH [OF this] obtain us where us: "wire_varint (n div 128) = us @ wire_varint (n div 128 div 128 ^ k)" "length us = k"
    "list_all (\<lambda>b. b AND 0x80 \<noteq> 0) us" "base128_le us = n div 128 mod 128 ^ k" by blast
  have "128 \<le> n"
    using Suc.prems order_trans [of 128 "128 ^ Suc k" n] by simp
  then have "wire_varint n = word_of_nat (n mod 128 + 128) # wire_varint (n div 128)"
    by (subst wire_varint.simps) simp
  moreover have "unat (word_of_nat (n mod 128 + 128) AND (0x7F :: u8)) = n mod 128"
    unfolding u8_digit unat_u8_of_nat by (simp add: mod_mod_cancel)
  moreover have "n mod (128 * 128 ^ k) = n mod 128 + 128 * (n div 128 mod 128 ^ k)"
    by (simp add: mod_mult2_eq)
  ultimately show ?case
    using us u8_continues(1) [of n]
    by (intro exI [of _ "word_of_nat (n mod 128 + 128) # us"]) (simp add: div_mult2_eq del: of_nat_add)
qed simp

lemma last_wire_varint: "0 < n \<Longrightarrow> last (wire_varint n) \<noteq> 0"
proof (induction n rule: wire_varint.induct)
  case (1 n)
  show ?case
  proof (cases "n < 128")
    case True
    then have "(word_of_nat n :: u8) \<noteq> 0"
      using 1(2) unat_u8_of_nat [of n] by auto
    with True show ?thesis by (subst wire_varint.simps) simp
  next
    case False
    then have "last (wire_varint (n div 128)) \<noteq> 0"
      using 1(1) [OF False] by (simp add: div_greater_zero_iff)
    moreover have "wire_varint (n div 128) \<noteq> []"
      using wire_varint_ok [of "n div 128"] by (auto simp: varint_ok_def)
    ultimately show ?thesis
      using False by (subst wire_varint.simps) simp
  qed
qed

text \<open>The bytes after the first 35 bits: zeros, or a sign extension.\<close>

definition sign_ok :: "nat \<Rightarrow> u32 \<Rightarrow> u8 \<Rightarrow> bool" where
  "sign_ok bitpos r b \<longleftrightarrow> b AND 0x7F = 0 \<or> drop_bit 31 r \<noteq> 0 \<and> b = (if bitpos < 63 then 0xFF else 0x01)"

lemma extension_byte:
  assumes "buf_ok s" "i_content s = b # bs" "35 \<le> bitpos" "bitpos \<le> 63"
  shows "varint32_loop bitpos r s =
    (if sign_ok bitpos r b then
       (if b AND 0x80 \<noteq> 0 then varint32_loop (bitpos + 7) r (i_advance 1 s) else (Some r, i_advance 1 s))
     else i_error ''varint overflow'' (i_advance 1 s))"
  using assms by (subst varint32_loop.simps) (auto simp: pb_readbyte_buf Let_def sign_ok_def)

lemma extension_rejected:
  assumes "buf_ok s" "i_content s = us @ b # rest" "list_all (\<lambda>b. b AND 0x80 \<noteq> 0) us" "b AND 0x80 = 0" "b \<noteq> 0"
    "35 \<le> bitpos" "bitpos + 7 * length us \<le> 56"
  shows "fst (varint32_loop bitpos r s) = None"
  using assms
proof (induction us arbitrary: bitpos s)
  case Nil
  moreover have "b \<noteq> 0xFF" "b AND 0x7F \<noteq> 0"
    using Nil(4,5) no_top_bit [OF Nil(4)] by auto
  ultimately show ?case
    using extension_byte [of s b rest bitpos r] by (simp add: sign_ok_def i_error_def)
next
  case (Cons u us)
  then have "fst (varint32_loop (bitpos + 7) r (i_advance 1 s)) = None"
    by (intro Cons.IH) simp_all
  then show ?case
    using extension_byte [of s u "us @ b # rest" bitpos r] Cons.prems by (simp add: i_error_def)
qed

lemma varint32_after_35:
  assumes s: "buf_ok s" "i_content s = wire_varint n @ rest" and n: "2 ^ 35 \<le> n"
  obtains r where "pb_decode_varint32 s = varint32_loop 35 r (i_advance 5 s)"
    "i_content (i_advance 5 s) = wire_varint (n div 2 ^ 35) @ rest" "r = word_of_nat (n mod 2 ^ 35)"
    "length (wire_varint n) = 5 + length (wire_varint (n div 2 ^ 35))"
proof -
  obtain us where us: "wire_varint n = us @ wire_varint (n div 128 ^ 5)" "length us = 5"
    "list_all (\<lambda>b. b AND 0x80 \<noteq> 0) us" "base128_le us = n mod 128 ^ 5"
    using wire_varint_split [of 5 n] n by auto
  then obtain a as where a: "us = a # as" "length as = 4" by (cases us) auto
  have "(ucast (a AND 0x7F) :: u32) = word_of_nat (unat (a AND 0x7F))" by simp
  then have r: "ucast (a AND 0x7F) + word_of_nat (2 ^ 7 * base128_le as) = (word_of_nat (base128_le us) :: u32)"
    using a by (simp only: base128_le.simps of_nat_add) simp
  have low: "\<forall>n \<ge> 7. \<not> bit (ucast (a AND 0x7F) :: u32) n"
    by (rule bits_below) (simp add: u8_digit)
  have "pb_decode_varint32 s = varint32_loop 7 (ucast (a AND 0x7F)) (i_advance 1 s)"
    using s us a pb_decode_varint32_first [OF s(1), of a] by simp
  also have "\<dots> = varint32_loop (7 + 7 * length as) (word_of_nat (base128_le us)) (i_advance (length as) (i_advance 1 s))"
    unfolding r [symmetric] using s us a low
    by (intro continuing_prefix [of _ _ "wire_varint (n div 128 ^ 5) @ rest"]) simp_all
  also have "7 + 7 * length as = 35" using a by simp
  also have "i_advance (length as) (i_advance 1 s) = i_advance 5 s" using a by simp
  also have "base128_le us = n mod 2 ^ 35" using us(4) by simp
  finally show ?thesis
    using us(1,2) s by (intro that [of "word_of_nat (n mod 2 ^ 35)"]) simp_all
qed

lemma pb_decode_varint32_rejects:
  assumes s: "buf_ok s" "i_content s = wire_varint n @ rest" and n: "2 ^ 35 \<le> n" "n < 2 ^ 63"
  shows "fst (pb_decode_varint32 s) = None"
proof -
  obtain r where r: "pb_decode_varint32 s = varint32_loop 35 r (i_advance 5 s)"
    "i_content (i_advance 5 s) = wire_varint (n div 2 ^ 35) @ rest"
    by (rule varint32_after_35 [OF s n(1)])
  obtain us b where u: "wire_varint (n div 2 ^ 35) = us @ [b]" "list_all (\<lambda>b. b AND 0x80 \<noteq> 0) us" "b AND 0x80 = 0"
    by (rule varint_ok_snoc [OF wire_varint_ok])
  have "n div 2 ^ 35 < 128 ^ 4"
    using n(2) by (simp add: less_mult_imp_div_less)
  then have len: "length (us @ [b]) \<le> 4"
    using length_wire_varint [of "n div 2 ^ 35" 4] u(1) by simp
  have "b \<noteq> 0"
    using last_wire_varint [of "n div 2 ^ 35"] n(1) u(1) by (simp add: div_greater_zero_iff)
  then show ?thesis
    unfolding r(1) using s r u len by (intro extension_rejected [of _ us b rest]) simp_all
qed


lemma pb_decode_varint32_negative:
  assumes s: "buf_ok s" "i_content s = wire_varint n @ rest" and n: "2 ^ 64 - 2 ^ 31 \<le> n" "n < 2 ^ 64"
  shows "pb_decode_varint32 s = (Some (word_of_nat n), i_advance (length (wire_varint n)) s)"
proof -
  have "n div 2 ^ 35 = 2 ^ 29 - 1"
    using n by (intro div_nat_eqI) simp_all
  then have tail: "wire_varint (n div 2 ^ 35) = [0xFF, 0xFF, 0xFF, 0xFF, 1]"
    by (simp add: wire_varint.simps)
  obtain r where r: "pb_decode_varint32 s = varint32_loop 35 r (i_advance 5 s)"
    "i_content (i_advance 5 s) = wire_varint (n div 2 ^ 35) @ rest" "r = word_of_nat (n mod 2 ^ 35)"
    "length (wire_varint n) = 5 + length (wire_varint (n div 2 ^ 35))"
    using n by (auto intro: varint32_after_35 [OF s])
  have "(n mod 2 ^ 35) mod 2 ^ 32 = n mod 2 ^ 32"
    by (simp add: mod_mod_cancel)
  then have rn: "r = word_of_nat n"
    by (simp add: r(3) word_unat_eq_iff unat_of_nat take_bit_eq_mod)
  define m where "m = n - (2 ^ 64 - 2 ^ 32)"
  have m: "n = m + (2 ^ 32 - 1) * 2 ^ 32" "2 ^ 31 \<le> m" "m < 2 ^ 32"
    using n by (simp_all add: m_def)
  have "unat r = n mod 2 ^ 32"
    by (simp add: rn unat_of_nat take_bit_eq_mod)
  also have "\<dots> = m"
    unfolding m(1) mod_mult_self1 using m(3) by (rule mod_less)
  finally have "2 ^ 31 \<le> unat r" "unat r < 2 ^ 32"
    using m by simp_all
  then have "drop_bit 31 r \<noteq> 0"
    using unat_shift_right [of 31 r] unat_eq_zero [of "drop_bit 31 r"] by (simp add: div_eq_0_iff)
  then have ok: "p < 63 \<Longrightarrow> sign_ok p r 0xFF" "sign_ok 63 r 1" for p
    by (simp_all add: sign_ok_def)
  have "drop (5 + k) (i_content s) = drop k ([0xFF, 0xFF, 0xFF, 0xFF, 1] @ rest)" for k
    using arg_cong [OF r(2) [unfolded tail], of "drop k"] by (simp add: add.commute)
  from this [of 0] this [of 1] this [of 2] this [of 3] this [of 4]
  have "varint32_loop 35 r (i_advance 5 s) = (Some r, i_advance 10 s)"
    using s(1) ok
    by (simp add: extension_byte [where b = "0xFF"] extension_byte [where b = 1])
  moreover have "length (wire_varint n) = 10"
    using r(4) [unfolded tail] by simp
  ultimately show ?thesis
    using r(1) rn by simp
qed


section \<open>Output\<close>

definition mem_content :: "'st pb_ostream \<Rightarrow> bytes" where
  "mem_content s = (case o_sink s of Sizing \<Rightarrow> [] | Mem bs \<Rightarrow> bs | Out _ _ \<Rightarrow> [])"

definition mem_ok :: "'st pb_ostream \<Rightarrow> bool" where
  "mem_ok s \<longleftrightarrow> (case o_sink s of Sizing \<Rightarrow> False | Mem bs \<Rightarrow> length bs = o_written s | Out _ _ \<Rightarrow> False) \<and>
     o_written s \<le> o_max s \<and> o_max s < SIZE_MOD"

definition mem_accepts :: "'st pb_ostream \<Rightarrow> nat \<Rightarrow> bool" where
  "mem_accepts s n \<longleftrightarrow> mem_ok s \<and> o_written s + n \<le> o_max s"

lemma mem_ok_content: "mem_ok s \<Longrightarrow> length (mem_content s) = o_written s"
  by (auto simp: mem_ok_def mem_content_def split: sink.splits)

lemma pb_write_mem:
  assumes "mem_ok s" "length xs < SIZE_MOD"
  shows "pb_write xs s =
    (if o_written s + length xs \<le> o_max s then (Some (), s\<lparr>o_sink := Mem (mem_content s @ xs), o_written := o_written s + length xs\<rparr>)
     else o_error ''stream full'' s)"
proof -
  obtain bs where bs: "o_sink s = Mem bs" "length bs = o_written s" "o_written s \<le> o_max s" "o_max s < SIZE_MOD"
    using assms(1) by (auto simp: mem_ok_def split: sink.splits)
  have w: "(o_written s + length xs) mod SIZE_MOD < o_written s \<longleftrightarrow> SIZE_MOD \<le> o_written s + length xs"
    using size_add_wraps [of "o_written s" "length xs"] bs assms(2) by simp
  show ?thesis
  proof (cases "o_written s + length xs < SIZE_MOD")
    case True
    then show ?thesis
      using bs w by (cases s) (auto simp: Let_def pb_write_def is_sizing_def mem_content_def o_callback_def count_written_def)
  next
    case False
    then show ?thesis
      using bs w by (auto simp: pb_write_def is_sizing_def Let_def)
  qed
qed

interpretation pb_sink: roomy_sink pb_write mem_ok mem_content o_max mem_accepts
proof unfold_locales
  fix s t :: "'st pb_ostream" and xs :: bytes and u
  assume "mem_ok s" "length xs < SIZE_MOD" "pb_write xs s = (Some u, t)"
  then show "mem_ok t \<and> mem_content t = mem_content s @ xs \<and> o_max t = o_max s"
    using mem_ok_content [of s]
    by (auto simp: pb_write_mem o_error_def mem_ok_def mem_content_def split: if_splits)
next
  fix s :: "'st pb_ostream" and xs :: bytes and n
  assume "mem_ok s" "mem_accepts s (length xs + n)"
  then show "\<exists>t. pb_write xs s = (Some (), t) \<and> mem_accepts t n"
    using mem_ok_content [of s] by (auto simp: mem_accepts_def pb_write_mem mem_ok_def mem_content_def)
next
  show "mem_accepts s n \<Longrightarrow> n < SIZE_MOD" for s :: "'st pb_ostream" and n
    by (simp add: mem_accepts_def mem_ok_def)
qed

lemma pb_write_sizing: "is_sizing s \<Longrightarrow> pb_write xs s = (Some (), count_written (length xs) s)"
  by (simp add: pb_write_def Let_def)

end
