(* ===== verification/PbField.thy ===== *)
theory PbField
  imports PbWire
begin

text \<open>
  The field codecs of nanopb (\<^verbatim>\<open>pb_dec_*\<close> of \<^verbatim>\<open>pb_decode.c\<close>, \<^verbatim>\<open>pb_enc_*\<close> of \<^verbatim>\<open>pb_encode.c\<close>), the
  allocation of pointer fields and the encoding of arrays. The memory of a field is its bytes: a
  scalar is little-endian, a \<^verbatim>\<open>pb_bytes_array_t\<close> is a four-byte size and the bytes. A decoder is an
  operation on the stream and the destination, so that what a failing decoder has stored is seen.
  The message descriptors' \<open>ptr\<close> (default values, submessages) is not used by these functions,
  the codec of submessages is a parameter of the tables, and so is \<open>realloc\<close>.
\<close>

section \<open>Field descriptors\<close>

record pb_field =
  f_tag :: u32
  f_type :: u8
  f_data_offset :: u32
  f_size_offset :: int
  f_data_size :: nat
  f_array_size :: nat

definition PB_LTYPE :: "u8 \<Rightarrow> nat" where "PB_LTYPE x = unat (x AND 0x0F)"
definition PB_HTYPE :: "u8 \<Rightarrow> nat" where "PB_HTYPE x = unat (x AND 0x30)"
definition PB_ATYPE :: "u8 \<Rightarrow> nat" where "PB_ATYPE x = unat (x AND 0xC0)"

definition PB_LTYPE_BOOL :: nat where "PB_LTYPE_BOOL = 0"
definition PB_LTYPE_VARINT :: nat where "PB_LTYPE_VARINT = 1"
definition PB_LTYPE_UVARINT :: nat where "PB_LTYPE_UVARINT = 2"
definition PB_LTYPE_SVARINT :: nat where "PB_LTYPE_SVARINT = 3"
definition PB_LTYPE_FIXED32 :: nat where "PB_LTYPE_FIXED32 = 4"
definition PB_LTYPE_FIXED64 :: nat where "PB_LTYPE_FIXED64 = 5"
definition PB_LTYPE_LAST_PACKABLE :: nat where "PB_LTYPE_LAST_PACKABLE = 5"
definition PB_LTYPE_BYTES :: nat where "PB_LTYPE_BYTES = 6"
definition PB_LTYPE_STRING :: nat where "PB_LTYPE_STRING = 7"
definition PB_LTYPE_SUBMESSAGE :: nat where "PB_LTYPE_SUBMESSAGE = 8"
definition PB_LTYPE_FIXED_LENGTH_BYTES :: nat where "PB_LTYPE_FIXED_LENGTH_BYTES = 10"
definition PB_ATYPE_POINTER :: nat where "PB_ATYPE_POINTER = 0x80"
definition PB_ATYPE_STATIC :: nat where "PB_ATYPE_STATIC = 0"
definition PB_SIZE_MAX :: nat where "PB_SIZE_MAX = 2 ^ 32 - 1"

lemmas ltypes = PB_LTYPE_BOOL_def PB_LTYPE_VARINT_def PB_LTYPE_UVARINT_def PB_LTYPE_SVARINT_def PB_LTYPE_FIXED32_def
  PB_LTYPE_FIXED64_def PB_LTYPE_LAST_PACKABLE_def PB_LTYPE_BYTES_def PB_LTYPE_STRING_def PB_LTYPE_SUBMESSAGE_def
  PB_LTYPE_FIXED_LENGTH_BYTES_def

lemmas atypes = PB_ATYPE_POINTER_def PB_ATYPE_STATIC_def

section \<open>The destination of a decoder\<close>

text \<open>The memory of a static field, or the pointer of a pointer field with what it points to.\<close>

datatype place = Inline bytes | Pointer "bytes option"

type_synonym 'st target = "'st pb_istream \<times> place"

definition on_stream :: "('st pb_istream, 'a) op \<Rightarrow> ('st target, 'a) op" where
  "on_stream m = (\<lambda>(s, p). case m s of (r, s) \<Rightarrow> (r, (s, p)))"

definition dest_write :: "nat \<Rightarrow> bytes \<Rightarrow> ('st target, unit) op" where
  "dest_write off bs = (\<lambda>(s, p). (Some (), (s, case p of
      Inline m \<Rightarrow> Inline (write_at off bs m)
    | Pointer r \<Rightarrow> Pointer (map_option (write_at off bs) r))))"

definition le_bytes :: "nat \<Rightarrow> nat \<Rightarrow> bytes" where "le_bytes k n = rev (be_bytes k n)"
definition le_nat :: "bytes \<Rightarrow> nat" where "le_nat bs = be_nat (rev bs)"

text \<open>\<open>realloc ptr size\<close> is the memory it returns, of \<open>size\<close> bytes, or nothing.\<close>

type_synonym realloc_fun = "bytes option \<Rightarrow> nat \<Rightarrow> bytes option"

definition allocate_field :: "realloc_fun \<Rightarrow> nat \<Rightarrow> nat \<Rightarrow> ('st target, unit) op" where
  "allocate_field realloc data_size array_size = (\<lambda>(s, p).
     if data_size = 0 \<or> array_size = 0 then on_stream (i_error ''invalid size'') (s, p)
     else if (data_size \<ge> 2 ^ 32 \<or> array_size \<ge> 2 ^ 32) \<and> (SIZE_MOD - 1) div array_size < data_size
       then on_stream (i_error ''size too large'') (s, p)
     else case realloc (case p of Inline _ \<Rightarrow> None | Pointer r \<Rightarrow> r) ((array_size * data_size) mod SIZE_MOD) of
         None \<Rightarrow> on_stream (i_error ''realloc failed'') (s, p)
       | Some m \<Rightarrow> (Some (), (s, Pointer (Some m))))"

section \<open>Field decoders\<close>

definition pb_dec_bool :: "pb_field \<Rightarrow> ('st target, unit) op" where
  "pb_dec_bool field = opbind (on_stream pb_decode_varint32) (\<lambda>value. dest_write 0 [if value \<noteq> 0 then 1 else 0])"

definition pb_dec_varint :: "pb_field \<Rightarrow> ('st target, unit) op" where
  "pb_dec_varint field = opbind (on_stream pb_decode_varint) (\<lambda>value.
     let size = f_data_size field;
         svalue = (if size = 8 then sint value else sint (ucast value :: u32)) in
     if size = 8 \<or> size = 4 \<or> size = 2 \<or> size = 1
     then opbind (dest_write 0 (le_bytes size (nat (take_bit (8 * size) svalue)))) (\<lambda>_.
       if signed_take_bit (8 * size - 1) svalue \<noteq> svalue then on_stream (i_error ''integer too large'') else opret ())
     else on_stream (i_error ''invalid data_size''))"

definition pb_dec_uvarint :: "pb_field \<Rightarrow> ('st target, unit) op" where
  "pb_dec_uvarint field = opbind (on_stream pb_decode_varint) (\<lambda>value.
     let size = f_data_size field in
     if size = 8 \<or> size = 4 \<or> size = 2 \<or> size = 1
     then opbind (dest_write 0 (le_bytes size (take_bit (8 * size) (unat value)))) (\<lambda>_.
       if take_bit (8 * size) (unat value) \<noteq> unat value then on_stream (i_error ''integer too large'') else opret ())
     else on_stream (i_error ''invalid data_size''))"

definition pb_dec_svarint :: "pb_field \<Rightarrow> ('st target, unit) op" where
  "pb_dec_svarint field = opbind (on_stream pb_decode_svarint) (\<lambda>value.
     let size = f_data_size field; value = sint value in
     if size = 8 \<or> size = 4 \<or> size = 2 \<or> size = 1
     then opbind (dest_write 0 (le_bytes size (nat (take_bit (8 * size) value)))) (\<lambda>_.
       if signed_take_bit (8 * size - 1) value \<noteq> value then on_stream (i_error ''integer too large'') else opret ())
     else on_stream (i_error ''invalid data_size''))"

definition pb_dec_fixed32 :: "pb_field \<Rightarrow> ('st target, unit) op" where
  "pb_dec_fixed32 field = opbind (on_stream pb_decode_fixed32) (\<lambda>v. dest_write 0 (le_bytes 4 (unat v)))"

definition pb_dec_fixed64 :: "pb_field \<Rightarrow> ('st target, unit) op" where
  "pb_dec_fixed64 field = opbind (on_stream pb_decode_fixed64) (\<lambda>v. dest_write 0 (le_bytes 8 (unat v)))"

text \<open>The room for the bytes or the string: allocated for a pointer, checked against the field otherwise.\<close>

definition dest_room :: "realloc_fun \<Rightarrow> pb_field \<Rightarrow> nat \<Rightarrow> nat \<Rightarrow> string \<Rightarrow> ('st target, unit) op" where
  "dest_room realloc field count alloc_size msg = (\<lambda>(s, p).
     if PB_ATYPE (f_type field) = PB_ATYPE_POINTER
     then if i_left s < count then on_stream (i_error ''end-of-stream'') (s, p) else allocate_field realloc alloc_size 1 (s, p)
     else if alloc_size > f_data_size field then on_stream (i_error msg) (s, p) else (Some (), (s, p)))"

definition pb_dec_bytes :: "realloc_fun \<Rightarrow> pb_field \<Rightarrow> ('st target, unit) op" where
  "pb_dec_bytes realloc field = opbind (on_stream pb_decode_varint32) (\<lambda>size.
     let alloc_size = (unat size + 4) mod SIZE_MOD in
     if unat size > PB_SIZE_MAX then on_stream (i_error ''bytes overflow'')
     else if unat size > alloc_size then on_stream (i_error ''size too large'')
     else opbind (dest_room realloc field (unat size) alloc_size ''bytes overflow'') (\<lambda>_.
       opbind (dest_write 0 (le_bytes 4 (unat size))) (\<lambda>_.
       opbind (on_stream (pb_read False (unat size))) (dest_write 4))))"

definition pb_dec_string :: "realloc_fun \<Rightarrow> pb_field \<Rightarrow> ('st target, unit) op" where
  "pb_dec_string realloc field = opbind (on_stream pb_decode_varint32) (\<lambda>size.
     let alloc_size = unat (size + 1) in
     if alloc_size < unat size then on_stream (i_error ''size too large'')
     else opbind (dest_room realloc field (unat size) alloc_size ''string overflow'') (\<lambda>_ t.
       case opbind (on_stream (pb_read False (unat size))) (dest_write 0) t of
         (status, t) \<Rightarrow> (status, snd (dest_write (unat size) [0] t))))"

definition pb_dec_fixed_length_bytes :: "pb_field \<Rightarrow> ('st target, unit) op" where
  "pb_dec_fixed_length_bytes field = opbind (on_stream pb_decode_varint32) (\<lambda>size.
     if unat size > PB_SIZE_MAX then on_stream (i_error ''bytes overflow'')
     else if size = 0 then dest_write 0 (replicate (f_data_size field) 0)
     else if unat size \<noteq> f_data_size field then on_stream (i_error ''incorrect fixed length bytes size'')
     else opbind (on_stream (pb_read False (f_data_size field))) (dest_write 0))"

definition PB_DECODERS :: "realloc_fun \<Rightarrow> (pb_field \<Rightarrow> ('st target, unit) op) \<Rightarrow> nat \<Rightarrow> pb_field \<Rightarrow> ('st target, unit) op" where
  "PB_DECODERS realloc dec_submessage ltype =
     [pb_dec_bool, pb_dec_varint, pb_dec_uvarint, pb_dec_svarint, pb_dec_fixed32, pb_dec_fixed64,
      pb_dec_bytes realloc, pb_dec_string realloc, dec_submessage, \<lambda>_. opfail, pb_dec_fixed_length_bytes] ! ltype"

section \<open>Field encoders\<close>

text \<open>The source of an encoder: the memory of the field, or nothing for a null pointer.\<close>

definition safe_read_bool :: "bytes \<Rightarrow> bool" where
  "safe_read_bool p = list_ex (\<lambda>b. b \<noteq> 0) (take 1 p)"

definition pb_enc_bool :: "pb_field \<Rightarrow> bytes \<Rightarrow> ('st pb_ostream, unit) op" where
  "pb_enc_bool field src = pb_encode_varint (if safe_read_bool src then 1 else 0)"

definition pb_enc_varint :: "pb_field \<Rightarrow> bytes \<Rightarrow> ('st pb_ostream, unit) op" where
  "pb_enc_varint field src =
     (let size = f_data_size field in
      if size = 1 \<or> size = 2 \<or> size = 4 \<or> size = 8
      then pb_encode_varint (word_of_int (signed_take_bit (8 * size - 1) (int (le_nat (take size src)))))
      else o_error ''invalid data_size'')"

definition pb_enc_uvarint :: "pb_field \<Rightarrow> bytes \<Rightarrow> ('st pb_ostream, unit) op" where
  "pb_enc_uvarint field src =
     (let size = f_data_size field in
      if size = 1 \<or> size = 2 \<or> size = 4 \<or> size = 8
      then pb_encode_varint (word_of_nat (le_nat (take size src)))
      else o_error ''invalid data_size'')"

definition pb_enc_svarint :: "pb_field \<Rightarrow> bytes \<Rightarrow> ('st pb_ostream, unit) op" where
  "pb_enc_svarint field src =
     (let size = f_data_size field in
      if size = 1 \<or> size = 2 \<or> size = 4 \<or> size = 8
      then pb_encode_svarint (word_of_int (signed_take_bit (8 * size - 1) (int (le_nat (take size src)))))
      else o_error ''invalid data_size'')"

definition pb_enc_fixed32 :: "pb_field \<Rightarrow> bytes \<Rightarrow> ('st pb_ostream, unit) op" where
  "pb_enc_fixed32 field src = pb_encode_fixed32 (word_of_nat (le_nat (take 4 src)))"

definition pb_enc_fixed64 :: "pb_field \<Rightarrow> bytes \<Rightarrow> ('st pb_ostream, unit) op" where
  "pb_enc_fixed64 field src = pb_encode_fixed64 (word_of_nat (le_nat (take 8 src)))"

definition pb_enc_bytes :: "pb_field \<Rightarrow> bytes option \<Rightarrow> ('st pb_ostream, unit) op" where
  "pb_enc_bytes field src =
     (case src of
        None \<Rightarrow> pb_encode_string []
      | Some m \<Rightarrow>
          let size = le_nat (take 4 m); allocsize = (size + 4) mod SIZE_MOD in
          if allocsize < size \<or> PB_ATYPE (f_type field) = PB_ATYPE_STATIC \<and> allocsize > f_data_size field
          then o_error ''bytes size exceeded''
          else pb_encode_string (take size (drop 4 m)))"

definition pb_enc_string :: "pb_field \<Rightarrow> bytes option \<Rightarrow> ('st pb_ostream, unit) op" where
  "pb_enc_string field src =
     (let max_size = (if PB_ATYPE (f_type field) = PB_ATYPE_POINTER then SIZE_MOD - 1 else f_data_size field) in
      pb_encode_string (case src of None \<Rightarrow> [] | Some p \<Rightarrow> takeWhile (\<lambda>c. c \<noteq> 0) (take max_size p)))"

definition pb_enc_fixed_length_bytes :: "pb_field \<Rightarrow> bytes \<Rightarrow> ('st pb_ostream, unit) op" where
  "pb_enc_fixed_length_bytes field src = pb_encode_string (take (f_data_size field) src)"

definition PB_ENCODERS :: "(pb_field \<Rightarrow> bytes option \<Rightarrow> ('st pb_ostream, unit) op) \<Rightarrow> nat \<Rightarrow> pb_field \<Rightarrow> bytes option \<Rightarrow> ('st pb_ostream, unit) op" where
  "PB_ENCODERS enc_submessage ltype field src =
     [pb_enc_bool field (the src), pb_enc_varint field (the src), pb_enc_uvarint field (the src), pb_enc_svarint field (the src),
      pb_enc_fixed32 field (the src), pb_enc_fixed64 field (the src), pb_enc_bytes field src, pb_enc_string field src,
      enc_submessage field src, opfail, pb_enc_fixed_length_bytes field (the src)] ! ltype"

definition pb_encode_tag_for_field :: "pb_field \<Rightarrow> ('st pb_ostream, unit) op" where
  "pb_encode_tag_for_field field =
     (let ltype = PB_LTYPE (f_type field) in
      if ltype = PB_LTYPE_BOOL \<or> ltype = PB_LTYPE_VARINT \<or> ltype = PB_LTYPE_UVARINT \<or> ltype = PB_LTYPE_SVARINT
      then pb_encode_tag PB_WT_VARINT (f_tag field)
      else if ltype = PB_LTYPE_FIXED32 then pb_encode_tag PB_WT_32BIT (f_tag field)
      else if ltype = PB_LTYPE_FIXED64 then pb_encode_tag PB_WT_64BIT (f_tag field)
      else if ltype = PB_LTYPE_BYTES \<or> ltype = PB_LTYPE_STRING \<or> ltype = PB_LTYPE_SUBMESSAGE \<or> ltype = PB_LTYPE_FIXED_LENGTH_BYTES
      then pb_encode_tag PB_WT_STRING (f_tag field)
      else o_error ''invalid field type'')"

section \<open>Arrays\<close>

text \<open>
  The elements of the array are the list; of a pointer array of strings or bytes, what the entries
  point to. \<open>func\<close> is the encoder of the elements.
\<close>

definition PB_OSTREAM_SIZE :: "('st pb_ostream, unit) op \<Rightarrow> nat option" where
  "PB_OSTREAM_SIZE m = (case m PB_OSTREAM_SIZING of (None, _) \<Rightarrow> None | (Some _, s) \<Rightarrow> Some (o_written s))"

definition encode_array :: "pb_field \<Rightarrow> bytes option list \<Rightarrow> (pb_field \<Rightarrow> bytes option \<Rightarrow> ('st pb_ostream, unit) op) \<Rightarrow> ('st pb_ostream, unit) op" where
  "encode_array field pData func =
     (let count = length pData; ltype = PB_LTYPE (f_type field) in
      if count = 0 then opret ()
      else if PB_ATYPE (f_type field) \<noteq> PB_ATYPE_POINTER \<and> count > f_array_size field then o_error ''array max size exceeded''
      else if ltype \<le> PB_LTYPE_LAST_PACKABLE then
        opbind (pb_encode_tag PB_WT_STRING (f_tag field)) (\<lambda>_.
          case (if ltype = PB_LTYPE_FIXED32 then Some ((4 * count) mod SIZE_MOD)
                else if ltype = PB_LTYPE_FIXED64 then Some ((8 * count) mod SIZE_MOD)
                else PB_OSTREAM_SIZE (op_seq (map (func field) pData))) of
            None \<Rightarrow> opfail
          | Some n \<Rightarrow>
              opbind (pb_encode_varint (word_of_nat n)) (\<lambda>_ s.
                if is_sizing s then (Some (), count_written n s)
                else op_seq (map (func field) pData) s))
      else op_seq (map (\<lambda>p. opbind (pb_encode_tag_for_field field) (\<lambda>_. func field p)) pData))"

end
