(* ===== verification/PbRound.thy ===== *)
theory PbRound
  imports PbField
begin

text \<open>
  The contract of the field codecs on buffer streams. \<open>emits m w\<close>: the encoder appends exactly
  the bytes \<open>w\<close>, or fails when they do not fit, and a sizing stream counts them.
  \<open>reads m w v\<close>: the decoder consumes exactly \<open>w\<close>, whatever follows, and returns \<open>v\<close>;
  \<open>fills\<close> is the same with a destination. The three compose along \<open>opbind\<close>.
\<close>

section \<open>Encoders\<close>

definition put_bytes :: "bytes \<Rightarrow> 'st pb_ostream \<Rightarrow> 'st pb_ostream" where
  "put_bytes w s = s\<lparr>o_sink := Mem (mem_content s @ w), o_written := o_written s + length w\<rparr>"

definition within :: "'st pb_ostream \<Rightarrow> 'st pb_ostream \<Rightarrow> bool" where
  "within s t \<longleftrightarrow> mem_ok t \<and> o_max t = o_max s \<and> (\<exists>xs. mem_content t = mem_content s @ xs)"

definition size_ok :: "'st pb_ostream \<Rightarrow> bool" where
  "size_ok s \<longleftrightarrow> is_sizing s \<and> o_written s < SIZE_MOD"

definition emits :: "('st pb_ostream, unit) op \<Rightarrow> bytes \<Rightarrow> bool" where
  "emits m w \<longleftrightarrow>
     (\<forall>s. size_ok s \<longrightarrow> m s = (Some (), count_written (length w) s)) \<and>
     (\<forall>s. mem_ok s \<longrightarrow> o_written s + length w \<le> o_max s \<longrightarrow> m s = (Some (), put_bytes w s)) \<and>
     (\<forall>s. mem_ok s \<longrightarrow> o_max s < o_written s + length w \<longrightarrow> fst (m s) = None \<and> within s (snd (m s)))"

lemma mem_content_put [simp]: "mem_content (put_bytes w s) = mem_content s @ w"
  by (simp add: put_bytes_def mem_content_def)

lemma put_bytes_simps [simp]:
  "o_written (put_bytes w s) = o_written s + length w" "o_max (put_bytes w s) = o_max s"
  by (simp_all add: put_bytes_def)

lemma mem_ok_put: "mem_ok s \<Longrightarrow> o_written s + length w \<le> o_max s \<Longrightarrow> mem_ok (put_bytes w s)"
  using mem_ok_content [of s] by (auto simp: mem_ok_def put_bytes_def)

lemma put_bytes_append: "put_bytes v (put_bytes w s) = put_bytes (w @ v) s"
  by (simp add: put_bytes_def mem_content_def)

lemma put_bytes_Nil: "mem_ok s \<Longrightarrow> put_bytes [] s = s"
  by (cases s) (auto simp: put_bytes_def mem_ok_def mem_content_def split: sink.splits)

lemma size_ok_count [simp]: "size_ok s \<Longrightarrow> size_ok (count_written n s)"
  by (simp add: size_ok_def is_sizing_def count_written_def)

lemma count_written_0 [simp]: "size_ok s \<Longrightarrow> count_written 0 s = s"
  by (simp add: size_ok_def count_written_def)

lemma count_written_add: "count_written m (count_written n s) = count_written (n + m) s"
  by (simp add: count_written_def mod_add_left_eq add.assoc)

lemma within_refl: "mem_ok s \<Longrightarrow> within s s"
  by (simp add: within_def)

lemma within_put: "within (put_bytes w s) t \<Longrightarrow> within s t"
  by (auto simp: within_def)

lemma within_error: "fst (o_error msg s) = None" "mem_ok s \<Longrightarrow> within s (snd (o_error msg s))"
  by (auto simp: within_def o_error_def mem_ok_def mem_content_def split: sink.splits)

lemma emits_opret: "emits (opret ()) []"
  by (auto simp: emits_def opret_def put_bytes_Nil mem_ok_def)

lemma emits_write: "length w < SIZE_MOD \<Longrightarrow> emits (pb_write w) w"
  by (auto simp: emits_def size_ok_def pb_write_sizing pb_write_mem put_bytes_def within_error)

lemma emits_opbind:
  fixes m n :: "('st pb_ostream, unit) op"
  assumes "emits m w" "emits n v"
  shows "emits (opbind m (\<lambda>_. n)) (w @ v)"
  unfolding emits_def
proof (intro conjI allI impI)
  fix s :: "'st pb_ostream" assume "size_ok s"
  then show "opbind m (\<lambda>_. n) s = (Some (), count_written (length (w @ v)) s)"
    using assms by (simp add: emits_def opbind_def count_written_add)
next
  fix s :: "'st pb_ostream" assume s: "mem_ok s" "o_written s + length (w @ v) \<le> o_max s"
  then have "m s = (Some (), put_bytes w s)" "n (put_bytes w s) = (Some (), put_bytes v (put_bytes w s))"
    using assms mem_ok_put [of s w] by (simp_all add: emits_def)
  then show "opbind m (\<lambda>_. n) s = (Some (), put_bytes (w @ v) s)"
    by (simp add: opbind_def put_bytes_append)
next
  fix s :: "'st pb_ostream" assume s: "mem_ok s" "o_max s < o_written s + length (w @ v)"
  show "fst (opbind m (\<lambda>_. n) s) = None" "within s (snd (opbind m (\<lambda>_. n) s))"
  proof -
    have "fst (opbind m (\<lambda>_. n) s) = None \<and> within s (snd (opbind m (\<lambda>_. n) s))"
    proof (cases "o_written s + length w \<le> o_max s")
      case True
      then have "m s = (Some (), put_bytes w s)" "fst (n (put_bytes w s)) = None \<and> within (put_bytes w s) (snd (n (put_bytes w s)))"
        using assms s mem_ok_put [of s w] by (simp_all add: emits_def)
      then show ?thesis
        using within_put by (auto simp: opbind_def)
    next
      case False
      then have "fst (m s) = None \<and> within s (snd (m s))"
        using assms(1) s by (simp add: emits_def)
      then show ?thesis by (cases "m s") (auto simp: opbind_def)
    qed
    then show "fst (opbind m (\<lambda>_. n) s) = None" "within s (snd (opbind m (\<lambda>_. n) s))" by simp_all
  qed
qed

lemma emits_op_seq: "list_all2 emits ms ws \<Longrightarrow> emits (op_seq ms) (concat ws)"
  by (induction rule: list_all2_induct) (simp_all add: emits_opret emits_opbind)

lemma emits_varint: "emits (pb_encode_varint v) (wire_varint (unat v))"
proof -
  have "length (wire_varint (unat v)) \<le> 10"
    by (rule length_wire_varint) (rule less_trans [OF unat_u64_less], simp_all)
  then show ?thesis
    unfolding pb_encode_varint_eq by (intro emits_write) simp
qed

lemma emits_string: "length bs < SIZE_MOD \<Longrightarrow> emits (pb_encode_string bs) (wire_varint (length bs) @ bs)"
  unfolding pb_encode_string_def
  using emits_opbind [OF emits_varint [of "word_of_nat (length bs)"] emits_write [of bs]]
  by (simp add: unat_of_nat_u64)

section \<open>Decoders\<close>

definition reads :: "('st pb_istream, 'a) op \<Rightarrow> bytes \<Rightarrow> 'a \<Rightarrow> bool" where
  "reads m w v \<longleftrightarrow> (\<forall>s rest. buf_ok s \<longrightarrow> i_content s = w @ rest \<longrightarrow> m s = (Some v, i_advance (length w) s))"

definition fills :: "('st target, unit) op \<Rightarrow> bytes \<Rightarrow> place \<Rightarrow> place \<Rightarrow> bool" where
  "fills m w p q \<longleftrightarrow>
     (\<forall>s rest. buf_ok s \<longrightarrow> i_content s = w @ rest \<longrightarrow> m (s, p) = (Some (), (i_advance (length w) s, q)))"

lemma readsD: "reads m w v \<Longrightarrow> buf_ok s \<Longrightarrow> i_content s = w @ rest \<Longrightarrow> m s = (Some v, i_advance (length w) s)"
  by (simp add: reads_def)

lemma fillsD: "fills m w p q \<Longrightarrow> buf_ok s \<Longrightarrow> i_content s = w @ rest \<Longrightarrow> m (s, p) = (Some (), (i_advance (length w) s, q))"
  by (simp add: fills_def)

lemma reads_opret: "reads (opret v) [] v"
  by (simp add: reads_def opret_def)

lemma reads_opbind: "reads m w v \<Longrightarrow> reads (f v) x y \<Longrightarrow> reads (opbind m f) (w @ x) y"
  by (simp add: reads_def opbind_def)

lemma reads_map: "reads m w v \<Longrightarrow> reads (opbind m (\<lambda>x. opret (f x))) w (f v)"
  using reads_opbind [of m w v "\<lambda>x. opret (f x)" "[]" "f v"] by (simp add: reads_opret)

lemma reads_value: "reads m w x \<Longrightarrow> x = v \<Longrightarrow> reads m w v"
  by simp

lemma fills_opbind: "reads m w v \<Longrightarrow> fills (f v) x p q \<Longrightarrow> fills (opbind (on_stream m) f) (w @ x) p q"
  by (simp add: reads_def fills_def opbind_def on_stream_def)

lemma fills_then: "fills m w p q \<Longrightarrow> fills n x q r \<Longrightarrow> fills (opbind m (\<lambda>_. n)) (w @ x) p r"
  by (simp add: fills_def opbind_def)

lemma fills_write: "fills (dest_write off bs) [] (Inline m) (Inline (write_at off bs m))"
  by (simp add: fills_def dest_write_def)

lemma fills_opret: "fills (opret ()) [] p p"
  by (simp add: fills_def opret_def)

lemma reads_varint:
  assumes "n < 2 ^ 64"
  shows "reads pb_decode_varint (wire_varint n) (word_of_nat n)"
proof -
  have "length (wire_varint n) \<le> 10"
    by (rule length_wire_varint) (use assms in simp_all)
  then show ?thesis
    unfolding reads_def using pb_decode_varint_ok [of _ "wire_varint n"] by auto
qed

lemma reads_varint_word: "reads pb_decode_varint (wire_varint (unat v)) v"
  using reads_varint [of "unat v"] unsigned_less [of v] by simp

lemma reads_varint32:
  assumes "n < 2 ^ 32"
  shows "reads pb_decode_varint32 (wire_varint n) (word_of_nat n)"
proof -
  have "length (wire_varint n) \<le> 5"
    by (rule length_wire_varint) (use assms in simp_all)
  then show ?thesis
    unfolding reads_def using pb_decode_varint32_short [of _ "wire_varint n"] assms by auto
qed

lemma reads_read: "length bs = n \<Longrightarrow> reads (pb_read False n) bs bs"
  using length_i_content by (fastforce simp: reads_def pb_read_buf)

lemma reads_skip: "length bs = n \<Longrightarrow> reads (pb_read True n) bs []"
  using length_i_content by (fastforce simp: reads_def pb_read_buf)

lemma reads_skip_string:
  assumes "length bs < 2 ^ 32"
  shows "reads pb_skip_string (wire_varint (length bs) @ bs) ()"
proof -
  have "unat (word_of_nat (length bs) :: u32) = length bs"
    using assms by (simp add: unat_of_nat take_bit_nat_eq_self)
  then show ?thesis
    unfolding pb_skip_string_def
    by (intro reads_opbind [OF reads_varint32 [OF assms]] reads_map) (simp only:, rule reads_skip [OF refl])
qed

lemma reads_skip_varint_ok: "varint_ok bs \<Longrightarrow> reads (pb_skip_varint :: ('st pb_istream, unit) op) bs ()"
proof (induction bs)
  case (Cons b bs)
  show ?case
    unfolding reads_def
  proof (intro allI impI)
    fix s :: "'st pb_istream" and rest assume s: "buf_ok s" "i_content s = (b # bs) @ rest"
    then have "pb_read False 1 s = (Some [b], i_advance 1 s)"
      using length_i_content [OF s(1)] by (simp add: pb_read_buf)
    moreover have "pb_skip_varint (i_advance 1 s) = (Some (), i_advance (length bs) (i_advance 1 s))" if "bs \<noteq> []"
      using Cons.prems that s by (intro readsD [OF Cons.IH, of _ rest]) (simp_all add: varint_ok_Cons)
    ultimately show "pb_skip_varint s = (Some (), i_advance (length (b # bs)) s)"
      using Cons.prems by (subst pb_skip_varint.simps) (cases "bs = []"; simp add: varint_ok_Cons)
  qed
qed (simp add: varint_ok_def)

section \<open>Fixed-width values and zigzag\<close>

lemma take_bit_extend:
  "take_bit k v OR push_bit k (take_bit 8 (drop_bit k v)) = take_bit (k + 8) (v :: 'a::len word)"
  by (rule bit_eqI) (auto simp: bit_simps)

lemma byte_of_word: "LENGTH('a) \<ge> 8 \<Longrightarrow> ucast (ucast (v AND 0xFF :: 'a::len word) :: u8) = take_bit 8 v"
proof -
  have m: "(0xFF :: 'a word) = mask 8" by (simp add: mask_eq_exp_minus_1)
  assume "LENGTH('a) \<ge> 8"
  then show ?thesis
    unfolding m by (intro bit_word_eqI) (auto simp: bit_simps)
qed

definition wire_fixed32 :: "u32 \<Rightarrow> bytes" where
  "wire_fixed32 v = [ucast (v AND 0xFF), ucast (drop_bit 8 v AND 0xFF), ucast (drop_bit 16 v AND 0xFF), ucast (drop_bit 24 v AND 0xFF)]"

lemma length_wire_fixed32 [simp]: "length (wire_fixed32 v) = 4"
  by (simp add: wire_fixed32_def)

lemma emits_fixed32: "emits (pb_encode_fixed32 v) (wire_fixed32 v)"
  unfolding pb_encode_fixed32_def wire_fixed32_def by (rule emits_write) simp

lemma reads_fixed32: "reads pb_decode_fixed32 (wire_fixed32 v) v"
proof -
  let ?w = "wire_fixed32 v"
  have "take_bit 32 v = v" by (rule bit_eqI) (auto simp: bit_simps dest: bit_imp_le_length)
  then have "push_bit 0 (ucast (?w ! 0)) OR push_bit 8 (ucast (?w ! 1)) OR push_bit 16 (ucast (?w ! 2)) OR push_bit 24 (ucast (?w ! 3)) = v"
    using take_bit_extend [of 8 v] take_bit_extend [of 16 v] take_bit_extend [of 24 v]
    by (simp add: wire_fixed32_def byte_of_word or.assoc [symmetric])
  then show ?thesis
    unfolding pb_decode_fixed32_def by (intro reads_value [OF reads_map [OF reads_read]]) simp_all
qed


definition wire_fixed64 :: "u64 \<Rightarrow> bytes" where
  "wire_fixed64 v = [ucast (v AND 0xFF), ucast (drop_bit 8 v AND 0xFF), ucast (drop_bit 16 v AND 0xFF), ucast (drop_bit 24 v AND 0xFF),
    ucast (drop_bit 32 v AND 0xFF), ucast (drop_bit 40 v AND 0xFF), ucast (drop_bit 48 v AND 0xFF), ucast (drop_bit 56 v AND 0xFF)]"

lemma length_wire_fixed64 [simp]: "length (wire_fixed64 v) = 8"
  by (simp add: wire_fixed64_def)

lemma emits_fixed64: "emits (pb_encode_fixed64 v) (wire_fixed64 v)"
  unfolding pb_encode_fixed64_def wire_fixed64_def by (rule emits_write) simp

lemma reads_fixed64: "reads pb_decode_fixed64 (wire_fixed64 v) v"
proof -
  let ?w = "wire_fixed64 v"
  have "take_bit 64 v = v" by (rule bit_eqI) (auto simp: bit_simps dest: bit_imp_le_length)
  then have "push_bit 0 (ucast (?w ! 0)) OR push_bit 8 (ucast (?w ! 1)) OR push_bit 16 (ucast (?w ! 2)) OR push_bit 24 (ucast (?w ! 3)) OR
      push_bit 32 (ucast (?w ! 4)) OR push_bit 40 (ucast (?w ! 5)) OR push_bit 48 (ucast (?w ! 6)) OR push_bit 56 (ucast (?w ! 7)) = v"
    using take_bit_extend [of 8 v] take_bit_extend [of 16 v] take_bit_extend [of 24 v] take_bit_extend [of 32 v]
      take_bit_extend [of 40 v] take_bit_extend [of 48 v] take_bit_extend [of 56 v]
    by (simp add: wire_fixed64_def byte_of_word or.assoc [symmetric])
  then show ?thesis
    unfolding pb_decode_fixed64_def by (intro reads_value [OF reads_map [OF reads_read]]) simp_all
qed

definition zigzag :: "u64 \<Rightarrow> u64" where
  "zigzag v = (if sint v < 0 then NOT (push_bit 1 v) else push_bit 1 v)"

lemma unzigzag: "(if zigzag v AND 1 \<noteq> 0 then NOT (drop_bit 1 (zigzag v)) else drop_bit 1 (zigzag v)) = v"
proof -
  have odd: "w AND 1 \<noteq> 0 \<longleftrightarrow> bit w 0" for w :: u64
    by (simp add: and_one_eq bit_0 odd_iff_mod_2_eq_one)
  have sign: "sint v < 0 \<longleftrightarrow> bit v 63"
    using bit_last_iff [of v] by simp
  have push: "bit (push_bit 1 v) n \<longleftrightarrow> 0 < n \<and> n < 64 \<and> bit v (n - 1)" for n
    by (simp only: bit_push_bit_iff) auto
  have drop: "bit (drop_bit 1 w) n = bit w (Suc n)" for w :: u64 and n
    by (simp add: bit_drop_bit_eq)
  have top: "n < 64 \<longleftrightarrow> n < 63 \<or> n = 63" for n :: nat
    by arith
  show ?thesis
    unfolding odd zigzag_def sign
    by (rule bit_word_eqI)
      (auto simp: push drop bit_not_iff top simp del: push_bit_Suc drop_bit_Suc One_nat_def)
qed

lemma emits_svarint: "emits (pb_encode_svarint v) (wire_varint (unat (zigzag v)))"
  unfolding pb_encode_svarint_def zigzag_def [symmetric] by (rule emits_varint)

lemma reads_svarint: "reads pb_decode_svarint (wire_varint (unat (zigzag v))) v"
  unfolding pb_decode_svarint_def by (intro reads_value [OF reads_map [OF reads_varint_word]] unzigzag)

section \<open>Tags\<close>

definition wire_tag :: "pb_wire_type \<Rightarrow> u32 \<Rightarrow> bytes" where
  "wire_tag wt tag = wire_varint (unat tag * 8 + wt)"

lemma emits_tag:
  assumes "wt < 8"
  shows "emits (pb_encode_tag wt tag) (wire_tag wt tag)"
proof -
  have "unat (push_bit 3 (ucast tag) OR word_of_nat wt :: u64) = unat tag * 8 + wt"
    using unat_push_or [of "word_of_nat wt :: u64" 3 "ucast tag"] assms unsigned_less [of tag, where 'a = nat]
    by (simp add: unat_of_nat_u64 unsigned_ucast_eq take_bit_nat_eq_self)
  then show ?thesis
    unfolding pb_encode_tag_def wire_tag_def using emits_varint by metis
qed

lemma pb_decode_varint32_not_eof:
  "pb_decode_varint32 s = (Some v, t) \<Longrightarrow> pb_decode_varint32_eof s = ((Some v, False), t)"
  by (auto simp: pb_decode_varint32_def pb_decode_varint32_eof_def split: prod.splits option.splits if_splits)

lemma pb_decode_tag_wire:
  assumes "buf_ok s" "i_content s = wire_tag wt tag @ rest" "wt < 8" "0 < unat tag" "unat tag < 2 ^ 29"
  shows "pb_decode_tag s = ((Some (wt, tag), False), i_advance (length (wire_tag wt tag)) s)"
proof -
  define n where "n = unat tag * 8 + wt"
  have n: "n < 2 ^ 32" "0 < n"
    using assms(3-5) by (simp_all add: n_def)
  let ?v = "word_of_nat n :: u32"
  have un: "unat ?v = n"
    using n(1) by (simp add: unat_of_nat take_bit_nat_eq_self)
  have "pb_decode_varint32_eof s = ((Some ?v, False), i_advance (length (wire_varint n)) s)"
    using readsD [OF reads_varint32 [OF n(1)] assms(1)] assms(2)
    by (intro pb_decode_varint32_not_eof) (simp add: wire_tag_def n_def)
  moreover have "unat (?v AND 7) = wt"
    unfolding unat_low_bits(1) un using assms(3) by (simp add: n_def)
  moreover have "drop_bit 3 ?v = tag"
    unfolding word_unat_eq_iff unat_shift_right un using assms(3) by (simp add: n_def)
  moreover have "?v \<noteq> 0"
    using n(2) un by auto
  ultimately show ?thesis
    by (simp add: pb_decode_tag_def wire_tag_def n_def del: of_nat_add)
qed

end
