(* ===== verification/PbCodec.thy ===== *)
theory PbCodec
  imports PbRound
begin

text \<open>
  The round trip of nanopb's fields: for every type of a static field, what the encoder of the
  type emits the decoder of the type reads back into a cleared destination, and
  \<open>pb_skip_field\<close> skips exactly it. \<open>codec\<close> is that contract of one type; the
  properties are about sequences of tagged fields.
\<close>

section \<open>Little-endian memory\<close>

lemma length_le_bytes [simp]: "length (le_bytes k n) = k"
  by (simp add: le_bytes_def)

lemma le_bytes_le_nat: "length bs = k \<Longrightarrow> le_bytes k (le_nat bs) = bs"
  by (simp add: le_bytes_def le_nat_def be_bytes_be_nat)

lemma le_nat_le_bytes: "le_nat (le_bytes k n) = n mod 256 ^ k"
  by (simp add: le_bytes_def le_nat_def be_nat_be_bytes)

lemma le_nat_less: "le_nat bs < 256 ^ length bs"
  using be_nat_less [of "rev bs"] by (simp add: le_nat_def)

lemma write_at_all [simp]: "length bs = length m \<Longrightarrow> write_at 0 bs m = bs"
  by (simp add: write_at_def)

section \<open>The contract of a type\<close>

definition codec :: "pb_wire_type \<Rightarrow> ('ot pb_ostream, unit) op \<Rightarrow> ('st target, unit) op \<Rightarrow> bytes \<Rightarrow> bool" where
  "codec wt enc dec src \<longleftrightarrow>
     (\<exists>w. emits enc w \<and> fills dec w (Inline (replicate (length src) 0)) (Inline src) \<and>
       reads (pb_skip_field wt :: ('st pb_istream, unit) op) w ())"

lemma codecI:
  "emits enc w \<Longrightarrow> fills dec w (Inline (replicate (length src) 0)) (Inline src) \<Longrightarrow>
   reads (pb_skip_field wt :: ('st pb_istream, unit) op) w () \<Longrightarrow> codec wt enc (dec :: ('st target, unit) op) src"
  unfolding codec_def by blast

lemma skip_varint: "reads (pb_skip_field PB_WT_VARINT) (wire_varint n) ()"
  by (simp add: pb_skip_field_def reads_skip_varint_ok)

lemma skip_32bit: "length w = 4 \<Longrightarrow> reads (pb_skip_field PB_WT_32BIT) w ()"
  using reads_map [OF reads_skip [of w 4], of "\<lambda>_. ()"] by (simp add: pb_skip_field_def wire_types)

lemma skip_64bit: "length w = 8 \<Longrightarrow> reads (pb_skip_field PB_WT_64BIT) w ()"
  using reads_map [OF reads_skip [of w 8], of "\<lambda>_. ()"] by (simp add: pb_skip_field_def wire_types)

lemma skip_string: "length bs < 2 ^ 32 \<Longrightarrow> reads (pb_skip_field PB_WT_STRING) (wire_varint (length bs) @ bs) ()"
  using reads_skip_string [of bs] by (simp add: pb_skip_field_def wire_types)

lemma fills_value: "reads m w v \<Longrightarrow> fills (f v) [] p q \<Longrightarrow> fills (opbind (on_stream m) f) w p q"
  using fills_opbind [of m w v f "[]" p q] by simp

lemma fills_store: "length bs = length m \<Longrightarrow> bs = src \<Longrightarrow> fills (dest_write 0 bs) [] (Inline m) (Inline src)"
  using fills_write [of 0 bs m] by simp

lemma codec_bool: "src = [0] \<or> src = [1] \<Longrightarrow> codec PB_WT_VARINT (pb_enc_bool field src) (pb_dec_bool field) src"
proof (rule codecI)
  assume src: "src = [0] \<or> src = [1]"
  define n :: nat where "n = (if src = [1] then 1 else 0)"
  show "emits (pb_enc_bool field src) (wire_varint n)"
    unfolding pb_enc_bool_def
    using src emits_varint [of 0] emits_varint [of 1] by (auto simp: safe_read_bool_def n_def)
  have "reads pb_decode_varint32 (wire_varint n) (word_of_nat n)"
    by (rule reads_varint32) (simp add: n_def)
  then show "fills (pb_dec_bool field) (wire_varint n) (Inline (replicate (length src) 0)) (Inline src)"
    unfolding pb_dec_bool_def using src by (intro fills_value fills_store) (auto simp: n_def)
qed (rule skip_varint)

text \<open>A scalar of \<open>size\<close> bytes: its value, sign-extended, and back.\<close>

lemma le_nat_bits: "length src = k \<Longrightarrow> take_bit (8 * k) (le_nat src) = le_nat src"
  using le_nat_less [of src] by (intro take_bit_nat_eq_self) (simp add: power_mult)

lemma sint_word64: "sint (word_of_int k :: u64) = signed_take_bit 63 k"
  by (simp add: signed_of_int)

lemma sint_word32: "sint (ucast (word_of_int k :: u64) :: u32) = signed_take_bit 31 k"
  by (simp add: signed_ucast_eq) (simp add: uint_word_of_int_eq signed_take_bit_eq_iff_take_bit_eq take_bit_take_bit)

lemma signed_bytes:
  assumes "length src = k" "0 < k"
  shows "nat (take_bit (8 * k) (signed_take_bit (8 * k - 1) (int (le_nat src)))) = le_nat src"
  using assms le_nat_bits [OF assms(1)]
  by (simp add: take_bit_signed_take_bit take_bit_of_nat)

definition int_size :: "nat \<Rightarrow> bool" where
  "int_size k \<longleftrightarrow> k = 1 \<or> k = 2 \<or> k = 4 \<or> k = 8"

lemma codec_varint:
  assumes "length src = f_data_size field" "int_size (f_data_size field)"
  shows "codec PB_WT_VARINT (pb_enc_varint field src) (pb_dec_varint field) src"
proof (rule codecI)
  define k where "k = f_data_size field"
  define x where "x = signed_take_bit (8 * k - 1) (int (le_nat src))"
  note k = assms [folded k_def]
  show "emits (pb_enc_varint field src) (wire_varint (unat (word_of_int x :: u64)))"
    using k emits_varint [of "word_of_int x"] by (simp add: pb_enc_varint_def k_def [symmetric] x_def Let_def int_size_def)
  have x: "signed_take_bit 63 x = x" "k \<noteq> 8 \<Longrightarrow> signed_take_bit 31 x = x" "signed_take_bit (8 * k - 1) x = x"
    using k(2) by (auto simp: x_def int_size_def signed_take_bit_signed_take_bit min_def)
  have s: "(if k = 8 then sint (word_of_int x :: u64) else sint (ucast (word_of_int x :: u64) :: u32)) = x"
    using x by (simp add: sint_word64 sint_word32)
  have "le_bytes k (nat (take_bit (8 * k) x)) = src"
    using k signed_bytes [of src k] le_bytes_le_nat [of src k] by (auto simp: x_def int_size_def)
  then show "fills (pb_dec_varint field) (wire_varint (unat (word_of_int x :: u64))) (Inline (replicate (length src) 0)) (Inline src)"
    unfolding pb_dec_varint_def Let_def k_def [symmetric] using k
    by (intro fills_value [OF reads_varint_word])
      (simp add: s x(3) [unfolded One_nat_def] int_size_def disj_ac fills_store)
qed (rule skip_varint)

lemma codec_svarint:
  assumes "length src = f_data_size field" "int_size (f_data_size field)"
  shows "codec PB_WT_VARINT (pb_enc_svarint field src) (pb_dec_svarint field) src"
proof (rule codecI)
  define k where "k = f_data_size field"
  define x where "x = signed_take_bit (8 * k - 1) (int (le_nat src))"
  note k = assms [folded k_def]
  show "emits (pb_enc_svarint field src) (wire_varint (unat (zigzag (word_of_int x))))"
    using k emits_svarint [of "word_of_int x"] by (simp add: pb_enc_svarint_def k_def [symmetric] x_def Let_def int_size_def)
  have x: "sint (word_of_int x :: u64) = x" "signed_take_bit (8 * k - 1) x = x"
    using k(2) by (auto simp: x_def int_size_def sint_word64 signed_take_bit_signed_take_bit min_def)
  have "le_bytes k (nat (take_bit (8 * k) x)) = src"
    using k signed_bytes [of src k] le_bytes_le_nat [of src k] by (auto simp: x_def int_size_def)
  then show "fills (pb_dec_svarint field) (wire_varint (unat (zigzag (word_of_int x)))) (Inline (replicate (length src) 0)) (Inline src)"
    unfolding pb_dec_svarint_def Let_def k_def [symmetric] using k
    by (intro fills_value [OF reads_svarint])
      (simp add: x(1) x(2) [unfolded One_nat_def] int_size_def disj_ac fills_store)
qed (rule skip_varint)

lemma codec_uvarint:
  assumes "length src = f_data_size field" "int_size (f_data_size field)"
  shows "codec PB_WT_VARINT (pb_enc_uvarint field src) (pb_dec_uvarint field) src"
proof (rule codecI)
  define k where "k = f_data_size field"
  define x where "x = le_nat src"
  note k = assms [folded k_def]
  show "emits (pb_enc_uvarint field src) (wire_varint (unat (word_of_nat x :: u64)))"
    using k emits_varint [of "word_of_nat x"] by (simp add: pb_enc_uvarint_def k_def [symmetric] x_def Let_def int_size_def)
  have "x < 2 ^ (8 * k)"
    using le_nat_less [of src] k(1) by (simp add: x_def power_mult)
  also have "\<dots> \<le> 2 ^ 64"
    using k(2) by (intro power_increasing) (auto simp: int_size_def)
  finally have x: "unat (word_of_nat x :: u64) = x" "take_bit (8 * k) x = x"
    using le_nat_bits [OF k(1)] by (simp_all add: unat_of_nat_u64 x_def)
  have "le_bytes k x = src"
    using k le_bytes_le_nat [of src k] by (simp add: x_def)
  then show "fills (pb_dec_uvarint field) (wire_varint (unat (word_of_nat x :: u64))) (Inline (replicate (length src) 0)) (Inline src)"
    unfolding pb_dec_uvarint_def Let_def k_def [symmetric] using k
    by (intro fills_value [OF reads_varint_word]) (simp add: x int_size_def disj_ac fills_store)
qed (rule skip_varint)

lemma codec_fixed32: "length src = 4 \<Longrightarrow> codec PB_WT_32BIT (pb_enc_fixed32 field src) (pb_dec_fixed32 field) src"
proof -
  assume src: "length src = 4"
  define v :: u32 where "v = word_of_nat (le_nat src)"
  have "unat v = le_nat src"
    using le_nat_less [of src] src by (simp add: v_def unat_of_nat take_bit_nat_eq_self)
  then have v: "le_bytes 4 (unat v) = src"
    using src by (simp add: le_bytes_le_nat)
  show ?thesis
    using src v by (intro codecI [of _ "wire_fixed32 v"] skip_32bit)
      (simp_all add: pb_enc_fixed32_def pb_dec_fixed32_def v_def [symmetric] emits_fixed32 fills_value [OF reads_fixed32] fills_store)
qed

lemma codec_fixed64: "length src = 8 \<Longrightarrow> codec PB_WT_64BIT (pb_enc_fixed64 field src) (pb_dec_fixed64 field) src"
proof -
  assume src: "length src = 8"
  define v :: u64 where "v = word_of_nat (le_nat src)"
  have "unat v = le_nat src"
    using le_nat_less [of src] src by (simp add: v_def unat_of_nat_u64)
  then have v: "le_bytes 8 (unat v) = src"
    using src by (simp add: le_bytes_le_nat)
  show ?thesis
    using src v by (intro codecI [of _ "wire_fixed64 v"] skip_64bit)
      (simp_all add: pb_enc_fixed64_def pb_dec_fixed64_def v_def [symmetric] emits_fixed64 fills_value [OF reads_fixed64] fills_store)
qed

section \<open>Strings\<close>

lemma fills_room: "PB_ATYPE (f_type field) = PB_ATYPE_STATIC \<Longrightarrow> need \<le> f_data_size field \<Longrightarrow>
    fills (dest_room realloc field n need msg) [] p p"
  by (simp add: fills_def dest_room_def atypes)

lemma unat_length_u32: "n < 2 ^ 32 \<Longrightarrow> unat (word_of_nat n :: u32) = n"
  by (simp add: unat_of_nat take_bit_nat_eq_self)

lemma codec_bytes:
  assumes static: "PB_ATYPE (f_type field) = PB_ATYPE_STATIC"
    and src: "src = le_bytes 4 (length body) @ body @ replicate pad 0" "length src = f_data_size field" "f_data_size field < 2 ^ 32"
  shows "codec PB_WT_STRING (pb_enc_bytes field (Some src)) (pb_dec_bytes realloc field) src"
proof (rule codecI)
  have n: "length body < 2 ^ 32" "length body + 4 \<le> f_data_size field"
    using src by simp_all
  then have le: "le_nat (take 4 src) = length body"
    by (simp add: src(1) le_nat_le_bytes)
  have "take (length body) (drop 4 src) = body"
    by (simp add: src(1))
  then show "emits (pb_enc_bytes field (Some src)) (wire_varint (length body) @ body)"
    using n emits_string [of body] by (simp add: pb_enc_bytes_def le Let_def)
  have "fills (opbind (dest_write 0 (le_bytes 4 (length body))) (\<lambda>_. opbind (on_stream (pb_read False (length body))) (dest_write 4)))
      ([] @ body) (Inline (replicate (length src) 0)) (Inline src)"
  proof (rule fills_then [OF fills_write], rule fills_value [OF reads_read])
    have "write_at 4 body (write_at 0 (le_bytes 4 (length body)) (replicate (length src) 0)) = src"
      by (simp add: write_at_def src(1) add.commute)
    then show "fills (dest_write 4 body) [] (Inline (write_at 0 (le_bytes 4 (length body)) (replicate (length src) 0))) (Inline src)"
      using fills_write by metis
  qed simp
  from fills_then [OF fills_room [OF static n(2)] this, of realloc "length body" "''bytes overflow''"]
  show "fills (pb_dec_bytes realloc field) (wire_varint (length body) @ body) (Inline (replicate (length src) 0)) (Inline src)"
    unfolding pb_dec_bytes_def Let_def using n
    by (intro fills_opbind [OF reads_varint32 [OF n(1)]]) (simp add: unat_length_u32 PB_SIZE_MAX_def)
qed (use src in \<open>simp add: skip_string\<close>)

lemma snd_dest_write: "snd (dest_write off bs (s, Inline m)) = (s, Inline (write_at off bs m))"
  by (simp add: dest_write_def)

lemma codec_string:
  assumes static: "PB_ATYPE (f_type field) = PB_ATYPE_STATIC"
    and src: "src = str @ 0 # replicate pad 0" "0 \<notin> set str" "length src = f_data_size field" "f_data_size field < 2 ^ 32"
  shows "codec PB_WT_STRING (pb_enc_string field (Some src)) (pb_dec_string realloc field) src"
proof (rule codecI)
  have n: "length str + 1 < 2 ^ 32" "length str + 1 \<le> f_data_size field"
    using src by simp_all
  have "takeWhile (\<lambda>c. c \<noteq> 0) src = str"
    unfolding src(1) using src(2) by (subst takeWhile_append2) auto
  then show "emits (pb_enc_string field (Some src)) (wire_varint (length str) @ str)"
    using n static src(3) emits_string [of str] by (simp add: pb_enc_string_def atypes)
  have un: "unat (word_of_nat (length str) :: u32) = length str" "unat (word_of_nat (length str) + 1 :: u32) = length str + 1"
    using n unat_length_u32 [of "length str"] unat_length_u32 [of "length str + 1"] by (simp_all add: add.commute)
  have "write_at (length str) [0] (write_at 0 str (replicate (length src) 0)) = src"
    by (simp add: write_at_def src(1))
  moreover have "fills (opbind (on_stream (pb_read False (length str))) (dest_write 0)) str
      (Inline (replicate (length src) 0)) (Inline (write_at 0 str (replicate (length src) 0)))"
    by (rule fills_value [OF reads_read [OF refl] fills_write])
  ultimately have "fills (\<lambda>t. case opbind (on_stream (pb_read False (length str))) (dest_write 0) t of
      (status, t) \<Rightarrow> (status, snd (dest_write (length str) [0] t))) str (Inline (replicate (length src) 0)) (Inline src)"
    unfolding fills_def by (auto simp: snd_dest_write)
  from fills_then [OF fills_room [OF static n(2)] this, of realloc "length str" "''string overflow''"]
  show "fills (pb_dec_string realloc field) (wire_varint (length str) @ str) (Inline (replicate (length src) 0)) (Inline src)"
    unfolding pb_dec_string_def Let_def using n
    by (intro fills_opbind [OF reads_varint32]) (simp_all only: un, simp_all)
qed (use src in \<open>simp add: skip_string\<close>)

lemma codec_fixed_length_bytes:
  assumes "length src = f_data_size field" "f_data_size field < 2 ^ 32"
  shows "codec PB_WT_STRING (pb_enc_fixed_length_bytes field src) (pb_dec_fixed_length_bytes field) src"
proof (rule codecI)
  show "emits (pb_enc_fixed_length_bytes field src) (wire_varint (length src) @ src)"
    using assms emits_string [of src] by (simp add: pb_enc_fixed_length_bytes_def)
  have n: "length src < 2 ^ 32" using assms by simp
  have un: "unat (word_of_nat (length src) :: u32) = f_data_size field" "\<not> PB_SIZE_MAX < f_data_size field"
    using assms by (simp_all add: unat_length_u32 PB_SIZE_MAX_def)
  have z: "(word_of_nat (length src) :: u32) = 0 \<longleftrightarrow> src = []"
    using assms un(1) unat_eq_zero [of "word_of_nat (length src) :: u32"] by auto
  have "fills (if src = [] then dest_write 0 (replicate (f_data_size field) 0)
      else opbind (on_stream (pb_read False (f_data_size field))) (dest_write 0)) src (Inline (replicate (length src) 0)) (Inline src)"
    using assms(1) by (auto intro!: fills_store fills_value [OF reads_read])
  then show "fills (pb_dec_fixed_length_bytes field) (wire_varint (length src) @ src) (Inline (replicate (length src) 0)) (Inline src)"
    unfolding pb_dec_fixed_length_bytes_def
    by (intro fills_opbind [OF reads_varint32 [OF n]]) (simp only: un z if_False simp_thms)
qed (rule skip_string, use assms in simp)

section \<open>Sequences of fields\<close>

definition field_wire_type :: "pb_field \<Rightarrow> pb_wire_type" where
  "field_wire_type field =
     (let ltype = PB_LTYPE (f_type field) in
      if ltype \<le> PB_LTYPE_SVARINT then PB_WT_VARINT
      else if ltype = PB_LTYPE_FIXED32 then PB_WT_32BIT
      else if ltype = PB_LTYPE_FIXED64 then PB_WT_64BIT
      else PB_WT_STRING)"

text \<open>A static field and the memory of a value of its type.\<close>

definition field_ok :: "pb_field \<Rightarrow> bytes \<Rightarrow> bool" where
  "field_ok field src \<longleftrightarrow>
     0 < unat (f_tag field) \<and> unat (f_tag field) < 2 ^ 29 \<and> PB_ATYPE (f_type field) = PB_ATYPE_STATIC \<and>
     length src = f_data_size field \<and> f_data_size field < 2 ^ 32 \<and>
     (let ltype = PB_LTYPE (f_type field) in
      ltype = PB_LTYPE_BOOL \<and> (src = [0] \<or> src = [1]) \<or>
      ltype \<in> {PB_LTYPE_VARINT, PB_LTYPE_UVARINT, PB_LTYPE_SVARINT} \<and> int_size (length src) \<or>
      ltype = PB_LTYPE_FIXED32 \<and> length src = 4 \<or>
      ltype = PB_LTYPE_FIXED64 \<and> length src = 8 \<or>
      ltype = PB_LTYPE_BYTES \<and> (\<exists>body pad. src = le_bytes 4 (length body) @ body @ replicate pad 0) \<or>
      ltype = PB_LTYPE_STRING \<and> (\<exists>str pad. src = str @ 0 # replicate pad 0 \<and> 0 \<notin> set str) \<or>
      ltype = PB_LTYPE_FIXED_LENGTH_BYTES)"

lemma field_codec:
  assumes "field_ok field src"
  shows "codec (field_wire_type field) (PB_ENCODERS enc_sub (PB_LTYPE (f_type field)) field (Some src))
    (PB_DECODERS realloc dec_sub (PB_LTYPE (f_type field)) field) src"
proof -
  have f: "length src = f_data_size field" "f_data_size field < 2 ^ 32" "PB_ATYPE (f_type field) = PB_ATYPE_STATIC"
    using assms by (simp_all add: field_ok_def)
  have "PB_LTYPE (f_type field) = 0 \<and> (src = [0] \<or> src = [1]) \<or>
      PB_LTYPE (f_type field) \<in> {1, 2, 3} \<and> int_size (f_data_size field) \<or>
      PB_LTYPE (f_type field) = 4 \<and> length src = 4 \<or> PB_LTYPE (f_type field) = 5 \<and> length src = 8 \<or>
      PB_LTYPE (f_type field) = 6 \<and> (\<exists>body pad. src = le_bytes 4 (length body) @ body @ replicate pad 0) \<or>
      PB_LTYPE (f_type field) = 7 \<and> (\<exists>str pad. src = str @ 0 # replicate pad 0 \<and> 0 \<notin> set str) \<or>
      PB_LTYPE (f_type field) = 10"
    using assms by (auto simp: field_ok_def ltypes Let_def)
  then show ?thesis
    using f by (elim disjE exE conjE)
      (auto simp: field_wire_type_def ltypes PB_ENCODERS_def PB_DECODERS_def
        intro: codec_bool codec_varint codec_uvarint codec_svarint codec_fixed32 codec_fixed64 codec_fixed_length_bytes
          codec_bytes [OF _ refl] codec_string [OF _ refl])
qed

lemma emits_tag_for_field:
  "field_ok field src \<Longrightarrow> emits (pb_encode_tag_for_field field) (wire_tag (field_wire_type field) (f_tag field))"
  using emits_tag [of "field_wire_type field"]
  by (auto simp: field_ok_def pb_encode_tag_for_field_def field_wire_type_def ltypes wire_types Let_def)

text \<open>The encoding of a required field, and the reading loop of a client with a table of the fields it knows.\<close>

definition write_field :: "(pb_field \<Rightarrow> bytes option \<Rightarrow> ('st pb_ostream, unit) op) \<Rightarrow> pb_field \<times> bytes \<Rightarrow> ('st pb_ostream, unit) op" where
  "write_field enc_sub = (\<lambda>(field, src). opbind (pb_encode_tag_for_field field)
     (\<lambda>_. PB_ENCODERS enc_sub (PB_LTYPE (f_type field)) field (Some src)))"

primrec read_fields :: "realloc_fun \<Rightarrow> (pb_field \<Rightarrow> ('st target, unit) op) \<Rightarrow> (u32 \<Rightarrow> pb_field option) \<Rightarrow> nat \<Rightarrow>
    ('st pb_istream, (pb_field \<times> place) list) op" where
  "read_fields realloc dec_sub known 0 = opfail"
| "read_fields realloc dec_sub known (Suc n) = (\<lambda>s.
     if i_left s = 0 then (Some [], s)
     else case pb_decode_tag s of
         ((None, eof), s) \<Rightarrow> (if eof then Some [] else None, s)
       | ((Some (wire_type, tag), _), s) \<Rightarrow>
           (case known tag of
              None \<Rightarrow> opbind (pb_skip_field wire_type) (\<lambda>_. read_fields realloc dec_sub known n) s
            | Some field \<Rightarrow>
                (case PB_DECODERS realloc dec_sub (PB_LTYPE (f_type field)) field (s, Inline (replicate (f_data_size field) 0)) of
                   (None, (s, _)) \<Rightarrow> (None, s)
                 | (Some _, (s, p)) \<Rightarrow> opbind (read_fields realloc dec_sub known n) (\<lambda>r. opret ((field, p) # r)) s)))"

definition field_emits :: "(pb_field \<Rightarrow> bytes option \<Rightarrow> ('ot pb_ostream, unit) op) \<Rightarrow> realloc_fun \<Rightarrow>
    (pb_field \<Rightarrow> ('st target, unit) op) \<Rightarrow> pb_field \<times> bytes \<Rightarrow> bytes \<Rightarrow> bool" where
  "field_emits enc_sub realloc dec_sub = (\<lambda>(field, src) w. \<exists>v. w = wire_tag (field_wire_type field) (f_tag field) @ v \<and>
     emits (write_field enc_sub (field, src)) w \<and>
     fills (PB_DECODERS realloc dec_sub (PB_LTYPE (f_type field)) field) v (Inline (replicate (length src) 0)) (Inline src) \<and>
     reads (pb_skip_field (field_wire_type field) :: ('st pb_istream, unit) op) v ())"

lemma field_emits_ex: "field_ok field src \<Longrightarrow> \<exists>w. field_emits enc_sub realloc dec_sub (field, src) w"
  using field_codec [of field src enc_sub realloc dec_sub] emits_opbind [OF emits_tag_for_field]
  unfolding codec_def field_emits_def write_field_def by fastforce

lemma fields_emit:
  "list_all (\<lambda>(field, src). field_ok field src) fs \<Longrightarrow> \<exists>ws. list_all2 (field_emits enc_sub realloc dec_sub) fs ws"
proof (induction fs)
  case (Cons f fs)
  then show ?case
    using field_emits_ex by (cases f) (auto simp: list_all2_Cons1)
qed (simp add: exI [of _ "[]"])

lemma wire_varint_not_Nil [simp]: "wire_varint n \<noteq> []"
  using wire_varint_ok [of n] by (auto simp: varint_ok_def)

lemma wire_type_less: "field_wire_type field < 8"
  by (simp add: field_wire_type_def wire_types Let_def)

lemma read_fields_wire:
  fixes dec_sub :: "pb_field \<Rightarrow> ('st target, unit) op" and s :: "'st pb_istream"
  assumes "list_all2 (field_emits enc_sub realloc dec_sub) fs ws" "list_all (\<lambda>(field, src). field_ok field src) fs"
    "list_all (\<lambda>(field, src). known (f_tag field) \<in> {None, Some field}) fs" "buf_ok s" "i_content s = concat ws" "length fs < n"
  shows "read_fields realloc dec_sub known n s =
    (Some (map (\<lambda>(field, src). (field, Inline src)) (filter (\<lambda>(field, src). known (f_tag field) \<noteq> None) fs)),
     i_advance (length (concat ws)) s)"
  using assms
proof (induction fs ws arbitrary: s n rule: list_all2_induct)
  case Nil
  then obtain k where n: "n = Suc k" by (cases n) auto
  show ?case
    using Nil length_i_content [of s] by (simp add: n)
next
  case (Cons f fs w ws)
  obtain k where n: "n = Suc k" "length fs < k"
    using Cons.prems(5) by (cases n) auto
  obtain field src where f: "f = (field, src)" by (cases f)
  define t where "t = wire_tag (field_wire_type field) (f_tag field)"
  obtain v where v: "w = t @ v"
    "fills (PB_DECODERS realloc dec_sub (PB_LTYPE (f_type field)) field) v (Inline (replicate (length src) 0)) (Inline src)"
    "reads (pb_skip_field (field_wire_type field) :: ('st pb_istream, unit) op) v ()"
    using Cons.hyps(1) by (auto simp: field_emits_def f t_def)
  have ok: "field_ok field src" "known (f_tag field) \<in> {None, Some field}" "length src = f_data_size field"
    using Cons.prems(1,2) by (auto simp: f field_ok_def)
  define s1 where "s1 = i_advance (length t) s"
  have s1: "buf_ok s1" "i_content s1 = v @ concat ws"
    using Cons.prems(3,4) by (simp_all add: s1_def v(1))
  have tag: "pb_decode_tag s = ((Some (field_wire_type field, f_tag field), False), s1)"
    unfolding s1_def t_def using Cons.prems(3,4) ok(1) wire_type_less
    by (intro pb_decode_tag_wire [where rest = "v @ concat ws"]) (simp_all add: v(1) t_def field_ok_def)
  have left: "i_left s \<noteq> 0"
  proof
    assume "i_left s = 0"
    then have "i_content s = []" using length_i_content [OF Cons.prems(3)] by simp
    then show False using Cons.prems(4) by (simp add: v(1) t_def wire_tag_def)
  qed
  define s2 where "s2 = i_advance (length v) s1"
  have s2: "buf_ok s2" "i_content s2 = concat ws"
    using s1 by (simp_all add: s2_def)
  have adv: "i_advance (length (concat (w # ws))) s = i_advance (length (concat ws)) s2"
    by (simp add: s2_def s1_def v(1) add.assoc)
  have IH: "read_fields realloc dec_sub known k s2 =
      (Some (map (\<lambda>(field, src). (field, Inline src)) (filter (\<lambda>(field, src). known (f_tag field) \<noteq> None) fs)),
       i_advance (length (concat ws)) s2)"
    using Cons.prems(1,2) s2 n(2) by (intro Cons.IH) simp_all
  have dec: "PB_DECODERS realloc dec_sub (PB_LTYPE (f_type field)) field (s1, Inline (replicate (f_data_size field) 0)) =
      (Some (), (s2, Inline src))"
    using fillsD [OF v(2) s1] ok(3) by (simp add: s2_def)
  have skip: "pb_skip_field (field_wire_type field) s1 = (Some (), s2)"
    using readsD [OF v(3) s1] by (simp add: s2_def)
  show ?case
    using ok(2) left tag dec skip IH adv by (auto simp: n(1) f opbind_def opret_def simp del: concat.simps)
qed

end
