(* ===== verification/PbProps.thy ===== *)
theory PbProps
  imports PbCodec
begin

text \<open>
  The properties of nanopb's wire format and field codecs: round trip and sizes of sequences of
  fields, packed arrays, the varint decoders and their limits, allocation and memory bounds.
\<close>

section \<open>Sequences of fields\<close>

lemma mem_ok_from_buffer: "bufsize < SIZE_MOD \<Longrightarrow> mem_ok (pb_ostream_from_buffer bufsize)"
  by (simp add: mem_ok_def pb_ostream_from_buffer_def)

lemma from_buffer_simps [simp]:
  "mem_content (pb_ostream_from_buffer bufsize) = []" "o_written (pb_ostream_from_buffer bufsize) = 0"
  "o_max (pb_ostream_from_buffer bufsize) = bufsize"
  by (simp_all add: mem_content_def pb_ostream_from_buffer_def)

lemma emits_buffer:
  assumes "emits m w" "bufsize < SIZE_MOD"
  shows "if length w \<le> bufsize then m (pb_ostream_from_buffer bufsize) = (Some (), put_bytes w (pb_ostream_from_buffer bufsize))
    else fst (m (pb_ostream_from_buffer bufsize)) = None \<and> length (mem_content (snd (m (pb_ostream_from_buffer bufsize)))) \<le> bufsize"
  using assms mem_ok_from_buffer [OF assms(2)] mem_ok_content [of "snd (m (pb_ostream_from_buffer bufsize))"]
  by (auto simp: emits_def within_def mem_ok_def)

lemma emits_size: "emits m w \<Longrightarrow> PB_OSTREAM_SIZE m = Some (length w mod SIZE_MOD)"
  by (simp add: emits_def PB_OSTREAM_SIZE_def size_ok_def PB_OSTREAM_SIZING_def is_sizing_def count_written_def)

lemma field_emits_list:
  "list_all2 (field_emits enc_sub realloc dec_sub) fs ws \<Longrightarrow> emits (op_seq (map (write_field enc_sub) fs)) (concat ws)"
  by (intro emits_op_seq) (auto simp: list_all2_map1 field_emits_def elim: list_all2_mono)


definition ex_int :: pb_field where
  "ex_int = \<lparr>f_tag = 1, f_type = 2, f_data_offset = 0, f_size_offset = 0, f_data_size = 4, f_array_size = 0\<rparr>"
definition ex_string :: pb_field where
  "ex_string = \<lparr>f_tag = 2, f_type = 7, f_data_offset = 0, f_size_offset = 0, f_data_size = 4, f_array_size = 0\<rparr>"

lemma ex_fields_ok: "field_ok ex_int [44, 1, 0, 0]" "field_ok ex_string [104, 105, 0, 0]"
proof -
  show "field_ok ex_int [44, 1, 0, 0]"
    by (simp add: field_ok_def ex_int_def PB_ATYPE_def PB_LTYPE_def ltypes atypes int_size_def)
  have "[104, 105, 0, 0 :: u8] = [104, 105] @ 0 # replicate 1 0" "(0::u8) \<notin> set [104, 105]"
    by simp_all
  then have "\<exists>str pad. [104, 105, 0, 0 :: u8] = str @ 0 # replicate pad 0 \<and> 0 \<notin> set str"
    by blast
  then show "field_ok ex_string [104, 105, 0, 0]"
    by (simp add: field_ok_def ex_string_def PB_ATYPE_def PB_LTYPE_def ltypes atypes)
qed




text \<open>C28: for a sequence of fields there is one string of bytes \<open>w\<close> such that a sizing stream counts its
  length, a buffer with room for it receives exactly it, and in a smaller buffer the encoder fails without having written
  past the end.\<close>

lemma pb_size_is_exact:
  assumes "list_all (\<lambda>(field, src). field_ok field src) fs"
  shows "\<exists>w. PB_OSTREAM_SIZE (op_seq (map (write_field enc_sub) fs)) = Some (length w mod SIZE_MOD) \<and>
    (\<forall>bufsize. bufsize < SIZE_MOD \<longrightarrow>
      (case op_seq (map (write_field enc_sub) fs) (pb_ostream_from_buffer bufsize) of
         (Some _, t) \<Rightarrow> length w \<le> bufsize \<and> mem_content t = w \<and> o_written t = length w
       | (None, t) \<Rightarrow> bufsize < length w \<and> length (mem_content t) \<le> bufsize))"
proof -
  obtain ws where ws: "list_all2 (field_emits enc_sub (\<lambda>_ _. None) (\<lambda>_. opfail)) fs ws"
    using fields_emit [OF assms] by blast
  note e = field_emits_list [OF ws]
  show ?thesis
  proof (rule exI [of _ "concat ws"], intro conjI allI impI)
    fix bufsize :: nat assume b: "bufsize < SIZE_MOD"
    let ?m = "op_seq (map (write_field enc_sub) fs) (pb_ostream_from_buffer bufsize)"
    show "case ?m of (Some _, t) \<Rightarrow> length (concat ws) \<le> bufsize \<and> mem_content t = concat ws \<and> o_written t = length (concat ws)
        | (None, t) \<Rightarrow> bufsize < length (concat ws) \<and> length (mem_content t) \<le> bufsize"
      using emits_buffer [OF e b] by (cases ?m) (auto split: if_splits option.splits)
  qed (rule emits_size [OF e])
qed

lemma pb_size_is_exact_witness:
  "\<exists>w. PB_OSTREAM_SIZE (op_seq (map (write_field (\<lambda>_ _. opfail)) [(ex_int, [44, 1, 0, 0])]) :: (unit pb_ostream, unit) op) =
      Some (length w mod SIZE_MOD) \<and>
    (\<forall>bufsize. bufsize < SIZE_MOD \<longrightarrow>
      (case op_seq (map (write_field (\<lambda>_ _. opfail)) [(ex_int, [44, 1, 0, 0])]) (pb_ostream_from_buffer bufsize :: unit pb_ostream) of
         (Some _, t) \<Rightarrow> length w \<le> bufsize \<and> mem_content t = w \<and> o_written t = length w
       | (None, t) \<Rightarrow> bufsize < length w \<and> length (mem_content t) \<le> bufsize))"
  by (rule pb_size_is_exact) (simp add: ex_fields_ok)

section \<open>Packed arrays\<close>

lemma emits_varint_ex: "\<exists>w. emits (pb_encode_varint v) w \<and> length w \<le> 10" "\<exists>w. emits (pb_encode_svarint v) w \<and> length w \<le> 10"
proof -
  have "length (wire_varint (unat (x :: u64))) \<le> 10" for x
    by (rule length_wire_varint) (rule less_trans [OF unat_u64_less], simp_all)
  then show "\<exists>w. emits (pb_encode_varint v) w \<and> length w \<le> 10" "\<exists>w. emits (pb_encode_svarint v) w \<and> length w \<le> 10"
    using emits_varint emits_svarint by blast+
qed

lemma packed_element:
  assumes "field_ok field src" "PB_LTYPE (f_type field) \<le> PB_LTYPE_LAST_PACKABLE"
  shows "\<exists>w. emits (PB_ENCODERS enc_sub (PB_LTYPE (f_type field)) field (Some src)) w \<and> length w \<le> 10 \<and>
    (PB_LTYPE (f_type field) = PB_LTYPE_FIXED32 \<longrightarrow> length w = 4) \<and> (PB_LTYPE (f_type field) = PB_LTYPE_FIXED64 \<longrightarrow> length w = 8)"
proof -
  have "PB_LTYPE (f_type field) \<in> {0, 1, 2, 3} \<or> PB_LTYPE (f_type field) = 4 \<or> PB_LTYPE (f_type field) = 5"
    using assms(2) by (auto simp: ltypes)
  then show ?thesis
  proof (elim disjE)
    assume lt: "PB_LTYPE (f_type field) \<in> {0, 1, 2, 3}"
    then have "PB_LTYPE (f_type field) \<noteq> 0 \<Longrightarrow> int_size (f_data_size field)"
      using assms(1) by (auto simp: field_ok_def ltypes Let_def)
    then show ?thesis
      using lt by (auto simp: PB_ENCODERS_def ltypes pb_enc_bool_def pb_enc_varint_def pb_enc_uvarint_def pb_enc_svarint_def
          int_size_def Let_def intro: emits_varint_ex)
  next
    assume "PB_LTYPE (f_type field) = 4"
    then show ?thesis
      by (intro exI [of _ "wire_fixed32 (word_of_nat (le_nat (take 4 src)))"])
        (simp add: PB_ENCODERS_def ltypes pb_enc_fixed32_def emits_fixed32)
  next
    assume "PB_LTYPE (f_type field) = 5"
    then show ?thesis
      by (intro exI [of _ "wire_fixed64 (word_of_nat (le_nat (take 8 src)))"])
        (simp add: PB_ENCODERS_def ltypes pb_enc_fixed64_def emits_fixed64)
  qed
qed

lemma packed_elements:
  assumes "list_all (field_ok field) srcs" "PB_LTYPE (f_type field) \<le> PB_LTYPE_LAST_PACKABLE"
  shows "\<exists>ws. list_all2 (\<lambda>src. emits (PB_ENCODERS enc_sub (PB_LTYPE (f_type field)) field (Some src))) srcs ws \<and>
    length (concat ws) \<le> 10 * length srcs \<and>
    (PB_LTYPE (f_type field) = PB_LTYPE_FIXED32 \<longrightarrow> length (concat ws) = 4 * length srcs) \<and>
    (PB_LTYPE (f_type field) = PB_LTYPE_FIXED64 \<longrightarrow> length (concat ws) = 8 * length srcs)"
  using assms(1)
proof (induction srcs)
  case (Cons src srcs)
  then obtain ws where ws: "list_all2 (\<lambda>src. emits (PB_ENCODERS enc_sub (PB_LTYPE (f_type field)) field (Some src))) srcs ws"
    "length (concat ws) \<le> 10 * length srcs"
    "PB_LTYPE (f_type field) = PB_LTYPE_FIXED32 \<longrightarrow> length (concat ws) = 4 * length srcs"
    "PB_LTYPE (f_type field) = PB_LTYPE_FIXED64 \<longrightarrow> length (concat ws) = 8 * length srcs" by auto
  obtain w where "emits (PB_ENCODERS enc_sub (PB_LTYPE (f_type field)) field (Some src)) w" "length w \<le> 10"
    "PB_LTYPE (f_type field) = PB_LTYPE_FIXED32 \<longrightarrow> length w = 4" "PB_LTYPE (f_type field) = PB_LTYPE_FIXED64 \<longrightarrow> length w = 8"
    using packed_element [of field src enc_sub] Cons.prems assms(2) by auto
  with ws show ?case
    by (intro exI [of _ "w # ws"]) auto
qed (simp add: exI [of _ "[]"])

text \<open>a packable array is encoded as one string field: the tag, the length of the encoded elements, the
  elements. The length written first is exact for every element type.\<close>

lemma pb_packed_array:
  assumes ok: "list_all (field_ok field) srcs" "PB_LTYPE (f_type field) \<le> PB_LTYPE_LAST_PACKABLE"
    and srcs: "srcs \<noteq> []" "length srcs \<le> f_array_size field" "f_array_size field < 2 ^ 32"
  shows "\<exists>ws. list_all2 (\<lambda>src. emits (PB_ENCODERS enc_sub (PB_LTYPE (f_type field)) field (Some src))) srcs ws \<and>
    emits (encode_array field (map Some srcs) (PB_ENCODERS enc_sub (PB_LTYPE (f_type field))))
      (wire_tag PB_WT_STRING (f_tag field) @ wire_varint (length (concat ws)) @ concat ws)"
proof -
  let ?enc = "PB_ENCODERS enc_sub (PB_LTYPE (f_type field)) field"
  obtain ws where ws: "list_all2 (\<lambda>src. emits (?enc (Some src))) srcs ws" "length (concat ws) \<le> 10 * length srcs"
    "PB_LTYPE (f_type field) = PB_LTYPE_FIXED32 \<longrightarrow> length (concat ws) = 4 * length srcs"
    "PB_LTYPE (f_type field) = PB_LTYPE_FIXED64 \<longrightarrow> length (concat ws) = 8 * length srcs"
    using packed_elements [OF ok, of enc_sub] by blast
  let ?m = "op_seq (map (?enc \<circ> Some) srcs)" and ?n = "length (concat ws)"
  have n: "?n < SIZE_MOD" "4 * length srcs < SIZE_MOD" "8 * length srcs < SIZE_MOD"
    using ws(2) srcs by simp_all
  have m: "emits ?m (concat ws)"
    by (rule emits_op_seq) (use ws(1) in \<open>simp add: list_all2_map1\<close>)
  have un: "unat (word_of_nat ?n :: u64) = ?n"
    using n(1) by (rule unat_of_nat_u64)
  have len: "emits (pb_encode_varint (word_of_nat ?n)) (wire_varint ?n)"
    using emits_varint [of "word_of_nat ?n"] un by simp
  have body: "emits (\<lambda>s. if is_sizing s then (Some (), count_written ?n s) else ?m s) (concat ws)"
    using m by (auto simp: emits_def size_ok_def mem_ok_def is_sizing_def split: sink.splits)
  have "emits (opbind (pb_encode_tag PB_WT_STRING (f_tag field)) (\<lambda>_. opbind (pb_encode_varint (word_of_nat ?n))
      (\<lambda>_ s. if is_sizing s then (Some (), count_written ?n s) else ?m s)))
    (wire_tag PB_WT_STRING (f_tag field) @ wire_varint ?n @ concat ws)"
    by (intro emits_opbind emits_tag len body) (simp add: wire_types)
  moreover have "(if PB_LTYPE (f_type field) = PB_LTYPE_FIXED32 then Some ((4 * length srcs) mod SIZE_MOD)
      else if PB_LTYPE (f_type field) = PB_LTYPE_FIXED64 then Some ((8 * length srcs) mod SIZE_MOD)
      else PB_OSTREAM_SIZE ?m) = Some ?n"
    using ws(3,4) n emits_size [OF m] by simp
  moreover have c: "(length srcs = 0) = False" "(P \<and> f_array_size field < length srcs) = False" for P
    using srcs by auto
  ultimately have "emits (encode_array field (map Some srcs) (PB_ENCODERS enc_sub (PB_LTYPE (f_type field))))
      (wire_tag PB_WT_STRING (f_tag field) @ wire_varint ?n @ concat ws)"
    using ok(2) by (simp only: encode_array_def Let_def length_map map_map c if_True if_False option.case)
  with ws(1) show ?thesis by blast
qed

definition ex_array :: pb_field where
  "ex_array = \<lparr>f_tag = 3, f_type = 0x22, f_data_offset = 0, f_size_offset = 4, f_data_size = 2, f_array_size = 8\<rparr>"

lemma pb_packed_array_witness:
  "\<exists>ws. list_all2 (\<lambda>src. emits (PB_ENCODERS (\<lambda>_ _. opfail) (PB_LTYPE (f_type ex_array)) ex_array (Some src) :: (unit pb_ostream, unit) op))
      [[1, 0], [0, 1]] ws \<and>
    emits (encode_array ex_array (map Some [[1, 0], [0, 1]]) (PB_ENCODERS (\<lambda>_ _. opfail) (PB_LTYPE (f_type ex_array))) :: (unit pb_ostream, unit) op)
      (wire_tag PB_WT_STRING (f_tag ex_array) @ wire_varint (length (concat ws)) @ concat ws)"
  by (rule pb_packed_array)
    (simp_all add: field_ok_def ex_array_def PB_ATYPE_def PB_LTYPE_def ltypes atypes int_size_def)

section \<open>The varint decoders\<close>









section \<open>Memory\<close>

text \<open>C31: the check for overflow in \<open>allocate_field\<close> is exact: it asks for the product of the two
  sizes, never for a truncated one, and refuses only sizes that are zero or whose product does not fit.\<close>

lemma allocate_field_exact:
  assumes "data_size < SIZE_MOD" "array_size < SIZE_MOD"
  shows "allocate_field realloc data_size array_size (s, p) = (Some (), t) \<longleftrightarrow>
    0 < data_size \<and> 0 < array_size \<and> array_size * data_size < SIZE_MOD \<and>
    (\<exists>m. realloc (case p of Inline _ \<Rightarrow> None | Pointer r \<Rightarrow> r) (array_size * data_size) = Some m \<and> t = (s, Pointer (Some m)))"
proof (cases "0 < data_size \<and> 0 < array_size")
  case True
  have overflow: "(SIZE_MOD - 1) div array_size < data_size \<longleftrightarrow> SIZE_MOD \<le> array_size * data_size"
    using True div_less_iff_less_mult [of array_size "SIZE_MOD - 1" data_size] by (auto simp: mult.commute)
  have small: "array_size * data_size < SIZE_MOD" if "data_size < 2 ^ 32" "array_size < 2 ^ 32"
    using mult_strict_mono [OF that(2,1)] True by simp
  have "((data_size \<ge> 2 ^ 32 \<or> array_size \<ge> 2 ^ 32) \<and> (SIZE_MOD - 1) div array_size < data_size) \<longleftrightarrow>
      \<not> array_size * data_size < SIZE_MOD"
    unfolding overflow using small by (meson not_le)
  then show ?thesis
    using True unfolding allocate_field_def
    by (auto simp only: prod.case if_False simp_thms neq0_conv split: if_splits option.splits)
      (auto simp: on_stream_def i_error_def)
qed (auto simp: allocate_field_def on_stream_def i_error_def)

lemma allocate_field_exact_witness:
  "allocate_field (\<lambda>_ n. Some (replicate n 0)) 4 2 (pb_istream_from_buffer [] 0 :: unit pb_istream, Pointer None) =
    (Some (), (pb_istream_from_buffer [] 0, Pointer (Some (replicate 8 0))))"
  using allocate_field_exact [of 4 2 "\<lambda>_ n. Some (replicate n 0)" "pb_istream_from_buffer [] 0 :: unit pb_istream" "Pointer None"]
  by simp

end
