(* ===== verification/PbBounds.thy ===== *)
theory PbBounds
  imports PbProps
begin

text \<open>
  Memory safety of nanopb's field decoders on any input: they read inside the stream and write
  inside the destination. \<open>keeps\<close> composes it along the decoders.
\<close>

section \<open>Decoders stay inside the input and the destination\<close>

lemma buf_ok_error [simp]: "buf_ok (snd (i_error msg s)) = buf_ok s"
  by (simp add: i_error_def buf_ok_def split: source.split)

lemma keeps_step: "keeps P m \<Longrightarrow> m s = (r, t) \<Longrightarrow> P s \<Longrightarrow> P t"
  by (metis keepsD snd_conv)

lemma keepsI: "(\<And>s r t. P s \<Longrightarrow> m s = (r, t) \<Longrightarrow> P t) \<Longrightarrow> keeps P m"
  by (simp add: keeps_def) (metis prod.collapse)

lemma keeps_pb_read: "keeps buf_ok (pb_read null n)"
  by (simp add: keeps_def pb_read_buf)

lemma keeps_pb_readbyte: "keeps buf_ok pb_readbyte"
  by (simp add: keeps_def pb_readbyte_buf split: list.split)

lemma keeps_varint32_loop: "keeps buf_ok (varint32_loop bitpos r :: ('st pb_istream, u32) op)"
proof -
  have "buf_ok s \<Longrightarrow> buf_ok (snd (varint32_loop bitpos r s))" for s :: "'st pb_istream"
  proof (induction bitpos r s rule: varint32_loop.induct)
    case (1 bitpos r s)
    show ?case
      using keepsD [OF keeps_pb_readbyte 1(2)] 1(1)
      by (subst varint32_loop.simps) (auto simp: Let_def split: prod.split option.split)
  qed
  then show ?thesis by (simp add: keeps_def)
qed

lemma keeps_varint_loop: "keeps buf_ok (varint_loop bitpos r :: ('st pb_istream, u64) op)"
proof -
  have "buf_ok s \<Longrightarrow> buf_ok (snd (varint_loop bitpos r s))" for s :: "'st pb_istream"
  proof (induction bitpos r s rule: varint_loop.induct)
    case (1 bitpos r s)
    show ?case
      using keepsD [OF keeps_pb_readbyte 1(2)] 1
      by (subst varint_loop.simps) (auto simp: Let_def split: prod.split option.split)
  qed
  then show ?thesis by (simp add: keeps_def)
qed

lemma keeps_varint32: "keeps buf_ok pb_decode_varint32"
  by (auto simp: pb_decode_varint32_def pb_decode_varint32_eof_def split: prod.splits option.splits if_splits intro!: keepsI)
    (metis keeps_step keeps_pb_readbyte keeps_varint32_loop)+

lemma keeps_map: "keeps P m \<Longrightarrow> keeps P (opbind m (\<lambda>v. opret (f v)))"
  by (rule keeps_opbind) (simp_all add: keeps_opret)

lemma keeps_varint: "keeps buf_ok pb_decode_varint"
  unfolding pb_decode_varint_def by (rule keeps_varint_loop)

lemma keeps_svarint: "keeps buf_ok pb_decode_svarint"
  unfolding pb_decode_svarint_def by (rule keeps_map [OF keeps_varint])

lemma keeps_fixed: "keeps buf_ok pb_decode_fixed32" "keeps buf_ok pb_decode_fixed64"
  unfolding pb_decode_fixed32_def pb_decode_fixed64_def by (rule keeps_map [OF keeps_pb_read])+

definition in_place :: "nat \<Rightarrow> 'st target \<Rightarrow> bool" where
  "in_place n = (\<lambda>(s, p). buf_ok s \<and> (\<exists>m. p = Inline m \<and> length m = n))"

lemma keeps_on_stream: "keeps buf_ok m \<Longrightarrow> keeps (in_place n) (on_stream m)"
  by (auto simp: in_place_def on_stream_def split: prod.splits dest: keeps_step intro!: keepsI)

lemma keeps_dest_write: "off + length bs \<le> n \<Longrightarrow> keeps (in_place n) (dest_write off bs)"
  by (auto simp: keeps_def in_place_def dest_write_def write_at_def)

lemma keeps_opbind_result:
  assumes "keeps P m" "\<And>s v t. P s \<Longrightarrow> m s = (Some v, t) \<Longrightarrow> keeps P (f v)"
  shows "keeps P (opbind m f)"
proof (rule keepsI)
  fix s r t assume s: "P s" "opbind m f s = (r, t)"
  obtain x t1 where m: "m s = (x, t1)" by (cases "m s")
  have t1: "P t1" using keeps_step [OF assms(1) m s(1)] .
  show "P t"
  proof (cases x)
    case (Some v)
    then show ?thesis
      using keeps_step [OF assms(2) _ t1] s m by (simp add: opbind_def)
  qed (use s m t1 in \<open>simp add: opbind_def\<close>)
qed

lemma keeps_read_to:
  "off + k \<le> n \<Longrightarrow> keeps (in_place n) (opbind (on_stream (pb_read False k)) (dest_write off))"
  by (rule keeps_opbind_result [OF keeps_on_stream [OF keeps_pb_read]])
    (rule keeps_dest_write, auto simp: in_place_def on_stream_def pb_read_buf i_error_def split: if_splits)

text \<open>The memory of the field has the size of its type.\<close>

definition field_fits :: "pb_field \<Rightarrow> bool" where
  "field_fits field \<longleftrightarrow> PB_ATYPE (f_type field) = PB_ATYPE_STATIC \<and>
     (let ltype = PB_LTYPE (f_type field) in
      ltype = PB_LTYPE_BOOL \<and> 1 \<le> f_data_size field \<or>
      ltype \<in> {PB_LTYPE_VARINT, PB_LTYPE_UVARINT, PB_LTYPE_SVARINT, PB_LTYPE_BYTES, PB_LTYPE_STRING, PB_LTYPE_FIXED_LENGTH_BYTES} \<or>
      ltype = PB_LTYPE_FIXED32 \<and> 4 \<le> f_data_size field \<or>
      ltype = PB_LTYPE_FIXED64 \<and> 8 \<le> f_data_size field)"

lemma on_stream_error:
  "on_stream (i_error msg :: ('st pb_istream, 'a) op) (s, p) = (None, (snd (i_error msg s :: 'a option \<times> _), p))"
  by (simp add: on_stream_def i_error_def)

lemma keeps_error: "keeps (in_place n) (on_stream (i_error msg))"
  by (rule keeps_on_stream) (simp add: keeps_def)

lemmas keeps_dec = keeps_opbind keeps_opret keeps_error keeps_dest_write
  keeps_on_stream [OF keeps_varint32] keeps_on_stream [OF keeps_varint] keeps_on_stream [OF keeps_svarint]
  keeps_on_stream [OF keeps_fixed(1)] keeps_on_stream [OF keeps_fixed(2)]

lemma keeps_room:
  assumes "PB_ATYPE (f_type field) = PB_ATYPE_STATIC"
    and "alloc \<le> f_data_size field \<Longrightarrow> keeps (in_place (f_data_size field)) m"
  shows "keeps (in_place (f_data_size field)) (opbind (dest_room realloc field count alloc msg) (\<lambda>_. m))"
  using assms
  by (cases "alloc \<le> f_data_size field")
    (auto simp: keeps_def dest_room_def atypes opbind_def on_stream_error in_place_def split: prod.splits)

lemma keeps_dec_bytes:
  assumes "PB_ATYPE (f_type field) = PB_ATYPE_STATIC"
  shows "keeps (in_place (f_data_size field)) (pb_dec_bytes realloc field)"
  unfolding pb_dec_bytes_def Let_def
proof (rule keeps_opbind [OF keeps_on_stream [OF keeps_varint32]])
  fix size :: u32
  have "(unat size + 4) mod SIZE_MOD = unat size + 4"
    using unsigned_less [of size, where 'a = nat] by simp
  then show "keeps (in_place (f_data_size field))
      (if PB_SIZE_MAX < unat size then on_stream (i_error ''bytes overflow'')
       else if (unat size + 4) mod SIZE_MOD < unat size then on_stream (i_error ''size too large'')
       else opbind (dest_room realloc field (unat size) ((unat size + 4) mod SIZE_MOD) ''bytes overflow'')
         (\<lambda>_. opbind (dest_write 0 (le_bytes 4 (unat size))) (\<lambda>_. opbind (on_stream (pb_read False (unat size))) (dest_write 4))))"
    using assms by (auto intro!: keeps_error keeps_room keeps_opbind [OF keeps_dest_write] keeps_read_to)
qed

lemma keeps_dec_string:
  assumes "PB_ATYPE (f_type field) = PB_ATYPE_STATIC"
  shows "keeps (in_place (f_data_size field)) (pb_dec_string realloc field :: ('st target, unit) op)"
  unfolding pb_dec_string_def Let_def
proof (rule keeps_opbind [OF keeps_on_stream [OF keeps_varint32]])
  fix size :: u32
  let ?body = "\<lambda>t :: 'st target. case opbind (on_stream (pb_read False (unat size))) (dest_write 0) t of
      (status, t) \<Rightarrow> (status, snd (dest_write (unat size) [0] t))"
  have body: "keeps (in_place (f_data_size field)) ?body" if "unat size < f_data_size field"
  proof (rule keepsI)
    fix s :: "'st target" and r t assume s: "in_place (f_data_size field) s" "?body s = (r, t)"
    obtain status t1 where t1: "opbind (on_stream (pb_read False (unat size))) (dest_write 0) s = (status, t1)"
      by (metis prod.collapse)
    have "in_place (f_data_size field) t1"
      by (rule keeps_step [OF keeps_read_to t1 s(1)]) (use that in simp)
    then show "in_place (f_data_size field) t"
      using keepsD [OF keeps_dest_write, of "unat size" "[0]" "f_data_size field" t1] that s(2) t1 by auto
  qed
  have "unat size < alloc" if "\<not> alloc < unat size" "alloc = unat (size + 1)" for alloc
    using that unat_word_ariths(1) [of size 1] unsigned_less [of size, where 'a = nat]
    by (cases "unat size + 1 = 2 ^ 32") (auto simp: mod_less)
  then show "keeps (in_place (f_data_size field))
      (if unat (size + 1) < unat size then on_stream (i_error ''size too large'')
       else opbind (dest_room realloc field (unat size) (unat (size + 1)) ''string overflow'') (\<lambda>_. ?body))"
    using assms body by (auto intro!: keeps_error keeps_room)
qed

lemma keeps_dec_fixed_length: "keeps (in_place (f_data_size field)) (pb_dec_fixed_length_bytes field)"
  unfolding pb_dec_fixed_length_bytes_def
  by (intro keeps_opbind [OF keeps_on_stream [OF keeps_varint32]])
    (auto intro!: keeps_error keeps_dest_write keeps_read_to)

lemma keeps_dec_ints:
  "keeps (in_place (f_data_size field)) (pb_dec_varint field)"
  "keeps (in_place (f_data_size field)) (pb_dec_uvarint field)"
  "keeps (in_place (f_data_size field)) (pb_dec_svarint field)"
  unfolding pb_dec_varint_def pb_dec_uvarint_def pb_dec_svarint_def Let_def
  by (auto intro!: keeps_opbind keeps_opret keeps_error keeps_dest_write keeps_on_stream keeps_varint keeps_svarint)

text \<open>C32: the decoder of a static field, on any input and whether it succeeds or fails, writes only inside the memory
  of the field and leaves the stream inside its buffer.\<close>

lemma pb_decoders_in_bounds:
  assumes "field_fits field" "buf_ok s" "length m = f_data_size field"
  shows "\<exists>r t m'. PB_DECODERS realloc dec_sub (PB_LTYPE (f_type field)) field (s, Inline m) = (r, (t, Inline m')) \<and>
    length m' = length m \<and> buf_ok t"
proof -
  have "keeps (in_place (f_data_size field)) (PB_DECODERS realloc dec_sub (PB_LTYPE (f_type field)) field)"
    using assms(1)
    by (auto simp: field_fits_def Let_def PB_DECODERS_def ltypes pb_dec_bool_def pb_dec_fixed32_def pb_dec_fixed64_def
        intro!: keeps_opbind keeps_dest_write keeps_on_stream keeps_varint32 keeps_fixed keeps_dec_ints keeps_dec_fixed_length
          keeps_dec_bytes keeps_dec_string)
  from keepsD [OF this, of "(s, Inline m)"] show ?thesis
    using assms(2,3)
    by (cases "PB_DECODERS realloc dec_sub (PB_LTYPE (f_type field)) field (s, Inline m)") (auto simp: in_place_def)
qed

lemma pb_decoders_in_bounds_witness:
  "\<exists>r t m'. PB_DECODERS (\<lambda>_ _. None) (\<lambda>_. opfail) (PB_LTYPE (f_type ex_string)) ex_string
      (pb_istream_from_buffer [9, 104, 105] 3 :: unit pb_istream, Inline [0, 0, 0, 0]) = (r, (t, Inline m')) \<and>
    length m' = length [0 :: u8, 0, 0, 0] \<and> buf_ok t"
  by (rule pb_decoders_in_bounds)
    (simp_all add: field_fits_def ex_string_def PB_ATYPE_def PB_LTYPE_def ltypes atypes buf_ok_def pb_istream_from_buffer_def)

end
