(* ===== verification/Evp.thy ===== *)
theory Evp
  imports Md45 Sha512 "HOL-Library.Monad_Syntax"
begin

text \<open>
  The digest layer (\<^verbatim>\<open>fipsmodule/digest/digest.c\<close>, \<^verbatim>\<open>digests.c\<close>): the table of the digests
  and the contexts that hold the state of one. A call is a \<open>call\<close>: nothing if C leaves it
  undefined (a null pointer is used, or the state in the context is of another digest or finished), else whether it
  returns one, and the context. \<open>mem n\<close> is the memory \<open>malloc\<close> returns for \<open>n\<close> bytes, of
  any contents; \<open>dup\<close> is the \<open>dup\<close> of \<open>pctx_ops\<close>, code of the caller.
\<close>

section \<open>Calls\<close>

type_synonym 's call = "'s \<Rightarrow> (bool \<times> 's) option"

text \<open>\<open>a && b\<close>\<close>

definition and_then :: "'s call \<Rightarrow> 's call \<Rightarrow> 's call" where
  "and_then a b = (\<lambda>s. do { (ok, s) \<leftarrow> a s; if ok then b s else Some (False, s) })"

section \<open>The digests\<close>

text \<open>The static \<open>EVP_MD\<close> objects.\<close>

datatype EVP_MD = EVP_md4 | EVP_md5 | EVP_sha1 | EVP_sha224 | EVP_sha256 | EVP_sha384 | EVP_sha512 | EVP_md5_sha1

definition MD4_DIGEST_LENGTH :: nat where "MD4_DIGEST_LENGTH = 16"
definition MD5_DIGEST_LENGTH :: nat where "MD5_DIGEST_LENGTH = 16"
definition SHA_DIGEST_LENGTH :: nat where "SHA_DIGEST_LENGTH = 20"
definition EVP_MAX_MD_SIZE :: nat where "EVP_MAX_MD_SIZE = 64"
definition EVP_MAX_MD_BLOCK_SIZE :: nat where "EVP_MAX_MD_BLOCK_SIZE = 128"

lemmas digest_lengths = MD4_DIGEST_LENGTH_def MD5_DIGEST_LENGTH_def SHA_DIGEST_LENGTH_def SHA224_DIGEST_LENGTH_def
  SHA256_DIGEST_LENGTH_def SHA384_DIGEST_LENGTH_def SHA512_DIGEST_LENGTH_def

fun EVP_MD_type :: "EVP_MD \<Rightarrow> int" where
  "EVP_MD_type EVP_md4 = 257"
| "EVP_MD_type EVP_md5 = 4"
| "EVP_MD_type EVP_sha1 = 64"
| "EVP_MD_type EVP_sha224 = 675"
| "EVP_MD_type EVP_sha256 = 672"
| "EVP_MD_type EVP_sha384 = 673"
| "EVP_MD_type EVP_sha512 = 674"
| "EVP_MD_type EVP_md5_sha1 = 114"

fun EVP_MD_size :: "EVP_MD \<Rightarrow> nat" where
  "EVP_MD_size EVP_md4 = MD4_DIGEST_LENGTH"
| "EVP_MD_size EVP_md5 = MD5_DIGEST_LENGTH"
| "EVP_MD_size EVP_sha1 = SHA_DIGEST_LENGTH"
| "EVP_MD_size EVP_sha224 = SHA224_DIGEST_LENGTH"
| "EVP_MD_size EVP_sha256 = SHA256_DIGEST_LENGTH"
| "EVP_MD_size EVP_sha384 = SHA384_DIGEST_LENGTH"
| "EVP_MD_size EVP_sha512 = SHA512_DIGEST_LENGTH"
| "EVP_MD_size EVP_md5_sha1 = MD5_DIGEST_LENGTH + SHA_DIGEST_LENGTH"

fun EVP_MD_block_size :: "EVP_MD \<Rightarrow> nat" where
  "EVP_MD_block_size EVP_md4 = 64"
| "EVP_MD_block_size EVP_md5 = 64"
| "EVP_MD_block_size EVP_sha1 = 64"
| "EVP_MD_block_size EVP_sha224 = 64"
| "EVP_MD_block_size EVP_sha256 = 64"
| "EVP_MD_block_size EVP_sha384 = 128"
| "EVP_MD_block_size EVP_sha512 = 128"
| "EVP_MD_block_size EVP_md5_sha1 = 64"

definition EVP_MD_flags :: "EVP_MD \<Rightarrow> u32" where "EVP_MD_flags md = 0"
definition EVP_MD_meth_get_flags :: "EVP_MD \<Rightarrow> u32" where "EVP_MD_meth_get_flags md = EVP_MD_flags md"

text \<open>The sizes of the state structures.\<close>

fun ctx_size :: "EVP_MD \<Rightarrow> nat" where
  "ctx_size EVP_md4 = 92"
| "ctx_size EVP_md5 = 92"
| "ctx_size EVP_sha1 = 96"
| "ctx_size EVP_sha224 = 112"
| "ctx_size EVP_sha256 = 112"
| "ctx_size EVP_sha384 = 216"
| "ctx_size EVP_sha512 = 216"
| "ctx_size EVP_md5_sha1 = 188"

text \<open>\<open>md_data\<close>: bytes that are no state (fresh, or cleansed), or the state of a digest.\<close>

datatype md_data = Raw bytes | Md32 md32 | Md256 sha256_ctx | Md512 sha512_ctx | Md5_sha1 md32 md32

text \<open>
  The initialisers of the 32-bit digests overwrite the structure; those of SHA-512 and SHA-384
  leave the buffer \<open>p\<close> as it is in memory.
\<close>

definition sha512_memory :: "bytes \<Rightarrow> sha512_ctx" where
  "sha512_memory m =
     (let word = (\<lambda>off. word_of_nat (be_nat (rev (take 8 (drop off m))))) in
      \<lparr>s_h = map (\<lambda>i. word (8 * i)) [0..<8], s_Nl = word 64, s_Nh = word 72, s_p = take 128 (drop 80 m),
       s_num = be_nat (rev (take 4 (drop 208 m))), s_md_len = be_nat (rev (take 4 (drop 212 m)))\<rparr>)"

fun sha512_data :: "md_data \<Rightarrow> sha512_ctx option" where
  "sha512_data (Raw m) = Some (sha512_memory m)"
| "sha512_data (Md512 c) = Some c"
| "sha512_data _ = None"

fun md_init :: "EVP_MD \<Rightarrow> md_data \<Rightarrow> md_data option" where
  "md_init EVP_md4 _ = Some (Md32 MD4_Init)"
| "md_init EVP_md5 _ = Some (Md32 MD5_Init)"
| "md_init EVP_sha1 _ = Some (Md32 SHA1_Init)"
| "md_init EVP_sha224 _ = Some (Md256 SHA224_Init)"
| "md_init EVP_sha256 _ = Some (Md256 SHA256_Init)"
| "md_init EVP_sha384 d = map_option (\<lambda>c. Md512 (SHA384_Init c)) (sha512_data d)"
| "md_init EVP_sha512 d = map_option (\<lambda>c. Md512 (SHA512_Init c)) (sha512_data d)"
| "md_init EVP_md5_sha1 _ = Some (Md5_sha1 MD5_Init SHA1_Init)"

fun md_update :: "EVP_MD \<Rightarrow> md_data \<Rightarrow> bytes \<Rightarrow> md_data option" where
  "md_update EVP_md4 (Md32 c) xs = Some (Md32 (MD4_Update c xs))"
| "md_update EVP_md5 (Md32 c) xs = Some (Md32 (MD5_Update c xs))"
| "md_update EVP_sha1 (Md32 c) xs = Some (Md32 (SHA1_Update c xs))"
| "md_update EVP_sha224 (Md256 c) xs = Some (Md256 (SHA224_Update c xs))"
| "md_update EVP_sha256 (Md256 c) xs = Some (Md256 (SHA256_Update c xs))"
| "md_update EVP_sha384 (Md512 c) xs = Some (Md512 (SHA384_Update c xs))"
| "md_update EVP_sha512 (Md512 c) xs = Some (Md512 (SHA512_Update c xs))"
| "md_update EVP_md5_sha1 (Md5_sha1 c d) xs = Some (Md5_sha1 (MD5_Update c xs) (SHA1_Update d xs))"
| "md_update _ _ _ = None"

text \<open>The bytes written to \<open>out\<close>; the checks of the results are assertions.\<close>

fun md_final :: "EVP_MD \<Rightarrow> md_data \<Rightarrow> bytes option" where
  "md_final EVP_md4 (Md32 c) = fst (MD4_Final c)"
| "md_final EVP_md5 (Md32 c) = fst (MD5_Final c)"
| "md_final EVP_sha1 (Md32 c) = fst (SHA1_Final c)"
| "md_final EVP_sha224 (Md256 c) = fst (SHA224_Final c)"
| "md_final EVP_sha256 (Md256 c) = fst (SHA256_Final c)"
| "md_final EVP_sha384 (Md512 c) = fst (SHA384_Final True c)"
| "md_final EVP_sha512 (Md512 c) = fst (SHA512_Final True c)"
| "md_final EVP_md5_sha1 (Md5_sha1 c d) = do { a \<leftarrow> fst (MD5_Final c); b \<leftarrow> fst (SHA1_Final d); Some (a @ b) }"
| "md_final _ _ = None"

section \<open>Contexts\<close>

record 'p md_ctx =
  e_digest :: "EVP_MD option"
  e_data :: "md_data option"
  e_pctx :: "'p option"

definition EVP_MD_CTX_init :: "'p md_ctx" where
  "EVP_MD_CTX_init = \<lparr>e_digest = None, e_data = None, e_pctx = None\<rparr>"

definition EVP_MD_CTX_cleanup :: "'p md_ctx \<Rightarrow> 'p md_ctx" where
  "EVP_MD_CTX_cleanup ctx = EVP_MD_CTX_init"

definition EVP_MD_CTX_reset :: "'p md_ctx \<Rightarrow> 'p md_ctx" where
  "EVP_MD_CTX_reset ctx = EVP_MD_CTX_init"

definition EVP_MD_CTX_copy_ex :: "(nat \<Rightarrow> bytes option) \<Rightarrow> ('p \<Rightarrow> 'p option) \<Rightarrow> 'p md_ctx \<Rightarrow> 'p md_ctx call" where
  "EVP_MD_CTX_copy_ex mem dup src out =
     (if e_pctx src = None \<and> e_digest src = None then Some (False, out)
      else case (case e_pctx src of None \<Rightarrow> Some None | Some p \<Rightarrow> map_option Some (dup p)) of
          None \<Rightarrow> Some (False, out)
        | Some pctx \<Rightarrow>
            (case e_digest src of
               None \<Rightarrow> Some (True, \<lparr>e_digest = None, e_data = None, e_pctx = pctx\<rparr>)
             | Some md \<Rightarrow>
                 (case e_data src of
                    None \<Rightarrow> None
                  | Some d \<Rightarrow>
                      if e_digest out \<noteq> Some md then
                        (if mem (ctx_size md) = None then Some (False, out)
                         else Some (True, \<lparr>e_digest = Some md, e_data = Some d, e_pctx = pctx\<rparr>))
                      else if e_data out = None then None
                      else Some (True, \<lparr>e_digest = Some md, e_data = Some d, e_pctx = pctx\<rparr>))))"

definition EVP_MD_CTX_copy :: "(nat \<Rightarrow> bytes option) \<Rightarrow> ('p \<Rightarrow> 'p option) \<Rightarrow> 'p md_ctx \<Rightarrow> (bool \<times> 'p md_ctx) option" where
  "EVP_MD_CTX_copy mem dup src = EVP_MD_CTX_copy_ex mem dup src EVP_MD_CTX_init"

definition EVP_DigestInit_ex :: "(nat \<Rightarrow> bytes option) \<Rightarrow> EVP_MD \<Rightarrow> 'p md_ctx call" where
  "EVP_DigestInit_ex mem type ctx =
     (case (if e_digest ctx \<noteq> Some type
            then map_option (\<lambda>m. ctx\<lparr>e_data := Some (Raw m), e_digest := Some type\<rparr>) (mem (ctx_size type))
            else Some ctx) of
        None \<Rightarrow> Some (False, ctx)
      | Some ctx \<Rightarrow> do { d \<leftarrow> e_data ctx; d \<leftarrow> md_init type d; Some (True, ctx\<lparr>e_data := Some d\<rparr>) })"

definition EVP_DigestInit :: "(nat \<Rightarrow> bytes option) \<Rightarrow> EVP_MD \<Rightarrow> (bool \<times> 'p md_ctx) option" where
  "EVP_DigestInit mem type = EVP_DigestInit_ex mem type EVP_MD_CTX_init"

definition EVP_DigestUpdate :: "bytes \<Rightarrow> 'p md_ctx call" where
  "EVP_DigestUpdate inp ctx = do {
     md \<leftarrow> e_digest ctx; d \<leftarrow> e_data ctx; d \<leftarrow> md_update md d inp; Some (True, ctx\<lparr>e_data := Some d\<rparr>) }"

text \<open>The digest and the context; both finals return one.\<close>

definition EVP_DigestFinal_ex :: "'p md_ctx \<Rightarrow> (bytes \<times> 'p md_ctx) option" where
  "EVP_DigestFinal_ex ctx = do {
     md \<leftarrow> e_digest ctx; d \<leftarrow> e_data ctx; out \<leftarrow> md_final md d;
     Some (out, ctx\<lparr>e_data := Some (Raw (replicate (ctx_size md) 0))\<rparr>) }"

definition EVP_DigestFinal :: "'p md_ctx \<Rightarrow> (bytes \<times> 'p md_ctx) option" where
  "EVP_DigestFinal ctx = do { (out, ctx) \<leftarrow> EVP_DigestFinal_ex ctx; Some (out, EVP_MD_CTX_cleanup ctx) }"

text \<open>The digest if the call returns one.\<close>

definition EVP_Digest :: "(nat \<Rightarrow> bytes option) \<Rightarrow> EVP_MD \<Rightarrow> bytes \<Rightarrow> bytes option option" where
  "EVP_Digest mem type inp = do {
     (ok, ctx) \<leftarrow> and_then (EVP_DigestInit_ex mem type) (EVP_DigestUpdate inp) (EVP_MD_CTX_init :: unit md_ctx);
     if ok then do { (out, ctx) \<leftarrow> EVP_DigestFinal_ex ctx; Some (Some out) } else Some None }"

definition EVP_MD_CTX_md :: "'p md_ctx option \<Rightarrow> EVP_MD option" where
  "EVP_MD_CTX_md ctx = (case ctx of None \<Rightarrow> None | Some ctx \<Rightarrow> e_digest ctx)"

definition EVP_MD_CTX_size :: "'p md_ctx option \<Rightarrow> nat option" where
  "EVP_MD_CTX_size ctx = map_option EVP_MD_size (EVP_MD_CTX_md ctx)"

definition EVP_MD_CTX_block_size :: "'p md_ctx option \<Rightarrow> nat option" where
  "EVP_MD_CTX_block_size ctx = map_option EVP_MD_block_size (EVP_MD_CTX_md ctx)"

definition EVP_MD_CTX_type :: "'p md_ctx option \<Rightarrow> int option" where
  "EVP_MD_CTX_type ctx = map_option EVP_MD_type (EVP_MD_CTX_md ctx)"

section \<open>The contract of a digest\<close>

text \<open>
  The state \<open>holds\<close> what it has been fed: initialising holds nothing, updating appends, and the
  result is a function of the whole.
\<close>

locale message_digest =
  fixes start :: "'d \<Rightarrow> 'd option"
    and feed :: "'d \<Rightarrow> bytes \<Rightarrow> 'd option"
    and result :: "'d \<Rightarrow> bytes option"
    and usable :: "'d \<Rightarrow> bool"
    and holds :: "'d \<Rightarrow> bytes \<Rightarrow> bool"
    and hash :: "bytes \<Rightarrow> bytes"
    and len :: nat
  assumes start: "usable d \<Longrightarrow> \<exists>e. start d = Some e \<and> holds e []"
    and feed: "holds d xs \<Longrightarrow> \<exists>e. feed d ys = Some e \<and> holds e (xs @ ys)"
    and result: "holds d xs \<Longrightarrow> result d = Some (hash xs)"
    and usable: "holds d xs \<Longrightarrow> usable d"
    and length_hash: "length (hash xs) = len"
begin

primrec feed_all :: "'d \<Rightarrow> bytes list \<Rightarrow> 'd option" where
  "feed_all d [] = Some d"
| "feed_all d (x # xs) = Option.bind (feed d x) (\<lambda>e. feed_all e xs)"

lemma feed_all_holds: "holds d xs \<Longrightarrow> \<exists>e. feed_all d yss = Some e \<and> holds e (xs @ concat yss)"
proof (induction yss arbitrary: d xs)
  case (Cons ys yss)
  from feed [OF Cons.prems] obtain e where "feed d ys = Some e" "holds e (xs @ ys)" by blast
  with Cons.IH [of e "xs @ ys"] show ?case by simp
qed simp

lemma digest_of_pieces: "usable d \<Longrightarrow> Option.bind (start d) (\<lambda>e. Option.bind (feed_all e yss) result) = Some (hash (concat yss))"
  using start [of d] feed_all_holds [of _ "[]" yss] result by fastforce

end

section \<open>The digests keep the contract\<close>

fun md_hash :: "EVP_MD \<Rightarrow> bytes \<Rightarrow> bytes" where
  "md_hash EVP_md4 = rfc_digest rfc1320_block"
| "md_hash EVP_md5 = rfc_digest rfc1321_block"
| "md_hash EVP_sha1 = fips_digest fips_sha1_block (md_h SHA1_Init) 5"
| "md_hash EVP_sha224 = fips_digest fips_sha256_block (md_h SHA224_Init) 7"
| "md_hash EVP_sha256 = fips_digest fips_sha256_block (md_h SHA256_Init) 8"
| "md_hash EVP_sha384 = fips_digest512 (s_h (SHA384_Init (sha512_memory []))) 6"
| "md_hash EVP_sha512 = fips_digest512 (s_h (SHA512_Init (sha512_memory []))) 8"
| "md_hash EVP_md5_sha1 = (\<lambda>xs. rfc_digest rfc1321_block xs @ fips_digest fips_sha1_block (md_h SHA1_Init) 5 xs)"

definition md_usable :: "EVP_MD \<Rightarrow> md_data \<Rightarrow> bool" where
  "md_usable md d \<longleftrightarrow> md \<in> {EVP_sha384, EVP_sha512} \<longrightarrow> (\<exists>c. sha512_data d = Some c \<and> length (s_p c) = 128)"

fun md_fed :: "EVP_MD \<Rightarrow> md_data \<Rightarrow> bytes list \<Rightarrow> bool" where
  "md_fed EVP_md4 d xss \<longleftrightarrow> d = Md32 (foldl MD4_Update MD4_Init xss)"
| "md_fed EVP_md5 d xss \<longleftrightarrow> d = Md32 (foldl MD5_Update MD5_Init xss)"
| "md_fed EVP_sha1 d xss \<longleftrightarrow> d = Md32 (foldl SHA1_Update SHA1_Init xss)"
| "md_fed EVP_sha224 d xss \<longleftrightarrow> d = Md256 (foldl SHA224_Update SHA224_Init xss)"
| "md_fed EVP_sha256 d xss \<longleftrightarrow> d = Md256 (foldl SHA256_Update SHA256_Init xss)"
| "md_fed EVP_sha384 d xss \<longleftrightarrow> (\<exists>c. length (s_p c) = 128 \<and> d = Md512 (foldl SHA384_Update (SHA384_Init c) xss))"
| "md_fed EVP_sha512 d xss \<longleftrightarrow> (\<exists>c. length (s_p c) = 128 \<and> d = Md512 (foldl SHA512_Update (SHA512_Init c) xss))"
| "md_fed EVP_md5_sha1 d xss \<longleftrightarrow> d = Md5_sha1 (foldl MD5_Update MD5_Init xss) (foldl SHA1_Update SHA1_Init xss)"

definition md_holds :: "EVP_MD \<Rightarrow> md_data \<Rightarrow> bytes \<Rightarrow> bool" where
  "md_holds md d xs \<longleftrightarrow> (\<exists>xss. md_fed md d xss \<and> xs = concat xss)"

lemma sha512_init_h: "s_h (SHA512_Init c) = s_h (SHA512_Init d)" "s_h (SHA384_Init c) = s_h (SHA384_Init d)"
  by (simp_all add: SHA512_Init_def SHA384_Init_def)

lemma md_init_fed: "md_usable md d \<Longrightarrow> \<exists>e. md_init md d = Some e \<and> md_fed md e []"
  by (cases md) (auto simp: md_usable_def)

lemma md_update_fed: "md_fed md d xss \<Longrightarrow> \<exists>e. md_update md d ys = Some e \<and> md_fed md e (xss @ [ys])"
  by (cases md) auto

lemma SHA384_Update_eq: "SHA384_Update = SHA512_Update"
  by (intro ext) (simp add: SHA384_Update_def)

lemma md_final_512:
  assumes "length (s_p c) = 128"
  shows "fst (SHA512_Final True (foldl SHA512_Update (SHA512_Init c) xss)) = Some (md_hash EVP_sha512 (concat xss))"
    and "fst (SHA384_Final True (foldl SHA512_Update (SHA384_Init c) xss)) = Some (md_hash EVP_sha384 (concat xss))"
  using sha512_digests [OF assms, of True xss] sha512_init_h [of c "sha512_memory []"]
  by (simp_all only: md_hash.simps SHA384_Update_eq if_True)

lemma md_final_fed: "md_fed md d xss \<Longrightarrow> md_final md d = Some (md_hash md (concat xss))"
  using md45_digests [of xss] sha1_is_fips [of xss] sha256_is_fips [of xss] md_final_512 [of _ xss]
  by (cases md) (auto simp: SHA384_Update_eq simp del: md_hash.simps(6,7))

lemma length_s_p: "length (s_p c) = 128 \<Longrightarrow> length (s_p (foldl SHA512_Update (SHA512_Init c) xss)) = 128"
  "length (s_p c) = 128 \<Longrightarrow> length (s_p (foldl SHA512_Update (SHA384_Init c) xss)) = 128"
  using sha512_stream.updates [of "SHA512_Init c" xss] sha512_stream.updates [of "SHA384_Init c" xss]
  by (simp_all add: sha512_ok_def SHA512_Init_def SHA384_Init_def list_all_iff)

lemma md_fed_usable: "md_fed md d xss \<Longrightarrow> md_usable md d"
  using length_s_p by (cases md) (auto simp: md_usable_def SHA384_Update_eq)

lemma length_digests: "length (md_hash md xs) = EVP_MD_size md"
  by (cases md) (auto simp: digest_lengths rfc_digest_def fips_digest_def fips_digest512_def length_concat comp_def sum_list_triv)

interpretation evp: message_digest "md_init md" "md_update md" "md_final md" "md_usable md" "md_holds md" "md_hash md" "EVP_MD_size md" for md
proof unfold_locales
  fix d xs ys
  show "md_usable md d \<Longrightarrow> \<exists>e. md_init md d = Some e \<and> md_holds md e []"
    using md_init_fed [of md d] by (force simp: md_holds_def)
  show "md_holds md d xs \<Longrightarrow> \<exists>e. md_update md d ys = Some e \<and> md_holds md e (xs @ ys)"
    using md_update_fed [of md d _ ys] by (force simp: md_holds_def)
  show "md_holds md d xs \<Longrightarrow> md_final md d = Some (md_hash md xs)"
    using md_final_fed by (force simp: md_holds_def)
  show "md_holds md d xs \<Longrightarrow> md_usable md d"
    using md_fed_usable by (force simp: md_holds_def)
  show "length (md_hash md xs) = EVP_MD_size md"
    by (rule length_digests)
qed

section \<open>The contract of a context\<close>

text \<open>\<open>ctx_ok\<close>: a context that can be initialised; \<open>ctx_holds\<close>: one that has been fed \<open>xs\<close>.\<close>

definition ctx_ok :: "'p md_ctx \<Rightarrow> bool" where
  "ctx_ok ctx \<longleftrightarrow> (case e_digest ctx of None \<Rightarrow> True | Some md \<Rightarrow> \<exists>d. e_data ctx = Some d \<and> md_usable md d)"

definition ctx_holds :: "EVP_MD \<Rightarrow> 'p md_ctx \<Rightarrow> bytes \<Rightarrow> bool" where
  "ctx_holds md ctx xs \<longleftrightarrow> e_digest ctx = Some md \<and> (\<exists>d. e_data ctx = Some d \<and> md_holds md d xs)"

definition malloc_ok :: "(nat \<Rightarrow> bytes option) \<Rightarrow> bool" where
  "malloc_ok mem \<longleftrightarrow> (\<forall>n m. mem n = Some m \<longrightarrow> length m = n)"

lemma ctx_ok_init [simp]: "ctx_ok EVP_MD_CTX_init"
  by (simp add: ctx_ok_def EVP_MD_CTX_init_def)

lemma ctx_holds_ok: "ctx_holds md ctx xs \<Longrightarrow> ctx_ok ctx"
  using evp.usable by (auto simp: ctx_holds_def ctx_ok_def)

lemma usable_raw: "length m = ctx_size md \<Longrightarrow> md_usable md (Raw m)"
  by (auto simp: md_usable_def sha512_memory_def Let_def)

lemma DigestInit_ok:
  assumes "ctx_ok ctx" "malloc_ok mem" "e_digest ctx = Some md \<or> mem (ctx_size md) \<noteq> None"
  shows "\<exists>t. EVP_DigestInit_ex mem md ctx = Some (True, t) \<and> ctx_holds md t [] \<and> e_pctx t = e_pctx ctx"
proof (cases "e_digest ctx = Some md")
  case True
  then obtain d where d: "e_data ctx = Some d" "md_usable md d"
    using assms(1) by (auto simp: ctx_ok_def)
  from evp.start [OF d(2)] show ?thesis
    using True d(1) by (auto simp: EVP_DigestInit_ex_def ctx_holds_def)
next
  case False
  then obtain m where m: "mem (ctx_size md) = Some m" "length m = ctx_size md"
    using assms(2,3) by (auto simp: malloc_ok_def)
  from evp.start [OF usable_raw [OF m(2)]] show ?thesis
    using False m(1) by (auto simp: EVP_DigestInit_ex_def ctx_holds_def)
qed

lemma DigestInit_fails:
  "e_digest ctx \<noteq> Some md \<Longrightarrow> mem (ctx_size md) = None \<Longrightarrow> EVP_DigestInit_ex mem md ctx = Some (False, ctx)"
  by (simp add: EVP_DigestInit_ex_def)

lemma DigestUpdate_ok:
  "ctx_holds md ctx xs \<Longrightarrow> \<exists>t. EVP_DigestUpdate ys ctx = Some (True, t) \<and> ctx_holds md t (xs @ ys) \<and> e_pctx t = e_pctx ctx"
  using evp.feed [of md _ xs ys] by (fastforce simp: ctx_holds_def EVP_DigestUpdate_def)

lemma DigestFinal_ok:
  "ctx_holds md ctx xs \<Longrightarrow> \<exists>t. EVP_DigestFinal_ex ctx = Some (md_hash md xs, t) \<and> ctx_ok t \<and> e_digest t = Some md \<and> e_data t \<noteq> None"
  using evp.result [of md _ xs] by (auto simp: ctx_holds_def EVP_DigestFinal_ex_def ctx_ok_def usable_raw)

lemma copy_ok:
  assumes "ctx_holds md src xs" "e_pctx src = None" "ctx_ok out" "e_digest out = Some md \<or> mem (ctx_size md) \<noteq> None"
  shows "\<exists>t. EVP_MD_CTX_copy_ex mem dup src out = Some (True, t) \<and> ctx_holds md t xs \<and> e_pctx t = None"
  using assms by (auto simp: EVP_MD_CTX_copy_ex_def ctx_holds_def ctx_ok_def)

section \<open>The digests are the standards\<close>



end
