(* ===== verification/Hmac.thy ===== *)
theory Hmac
  imports Evp
begin

text \<open>
  HMAC and HKDF (\<^verbatim>\<open>fipsmodule/hmac/hmac.c\<close>, \<^verbatim>\<open>hkdf/hkdf.c\<close>) on the digest contexts. The properties say
  that they are the functions of RFC 2104 and RFC 5869 over the digest, for every digest of the
  table, and fail exactly when memory cannot be allocated or the output is too long.
\<close>

section \<open>HMAC\<close>

record 'p hmac_ctx =
  h_md :: "EVP_MD option"
  h_ctx :: "'p md_ctx"
  h_i :: "'p md_ctx"
  h_o :: "'p md_ctx"

definition HMAC_CTX_init :: "'p hmac_ctx" where
  "HMAC_CTX_init = \<lparr>h_md = None, h_ctx = EVP_MD_CTX_init, h_i = EVP_MD_CTX_init, h_o = EVP_MD_CTX_init\<rparr>"

definition HMAC_CTX_reset :: "'p hmac_ctx \<Rightarrow> 'p hmac_ctx" where
  "HMAC_CTX_reset ctx = HMAC_CTX_init"

text \<open>A call on one of the three contexts.\<close>

definition on_md :: "'p md_ctx call \<Rightarrow> 'p hmac_ctx call" where
  "on_md f h = do { (ok, c) \<leftarrow> f (h_ctx h); Some (ok, h\<lparr>h_ctx := c\<rparr>) }"

definition on_i :: "'p md_ctx call \<Rightarrow> 'p hmac_ctx call" where
  "on_i f h = do { (ok, c) \<leftarrow> f (h_i h); Some (ok, h\<lparr>h_i := c\<rparr>) }"

definition on_o :: "'p md_ctx call \<Rightarrow> 'p hmac_ctx call" where
  "on_o f h = do { (ok, c) \<leftarrow> f (h_o h); Some (ok, h\<lparr>h_o := c\<rparr>) }"

text \<open>The key, or its digest if it is long: \<open>key_block\<close> up to \<open>key_block_len\<close>, if the calls return one.\<close>

definition hmac_key_block :: "(nat \<Rightarrow> bytes option) \<Rightarrow> EVP_MD \<Rightarrow> bytes \<Rightarrow> 'p hmac_ctx \<Rightarrow> (bytes option \<times> 'p hmac_ctx) option" where
  "hmac_key_block mem md key h =
     (if EVP_MD_block_size md < length key then do {
        (ok, h) \<leftarrow> on_md (and_then (EVP_DigestInit_ex mem md) (EVP_DigestUpdate key)) h;
        if ok then do { (key_block, c) \<leftarrow> EVP_DigestFinal_ex (h_ctx h); Some (Some key_block, h\<lparr>h_ctx := c\<rparr>) }
        else Some (None, h) }
      else Some (Some key, h))"

definition hmac_pad :: "u8 \<Rightarrow> bytes \<Rightarrow> bytes" where
  "hmac_pad x key_block = map (\<lambda>b. x XOR b) (key_block @ replicate (EVP_MAX_MD_BLOCK_SIZE - length key_block) 0)"

definition hmac_set_key :: "(nat \<Rightarrow> bytes option) \<Rightarrow> EVP_MD \<Rightarrow> bytes \<Rightarrow> 'p hmac_ctx call" where
  "hmac_set_key mem md key h = do {
     (key_block, h) \<leftarrow> hmac_key_block mem md key h;
     case key_block of
       None \<Rightarrow> Some (False, h)
     | Some k \<Rightarrow> do {
         (ok, h) \<leftarrow> and_then
           (on_i (and_then (EVP_DigestInit_ex mem md) (EVP_DigestUpdate (take (EVP_MD_block_size md) (hmac_pad 0x36 k)))))
           (on_o (and_then (EVP_DigestInit_ex mem md) (EVP_DigestUpdate (take (EVP_MD_block_size md) (hmac_pad 0x5c k))))) h;
         if ok then Some (True, h\<lparr>h_md := Some md\<rparr>) else Some (False, h) } }"

text \<open>A null key or a null \<open>md\<close> is nothing; a null key has length zero.\<close>

definition HMAC_Init_ex :: "(nat \<Rightarrow> bytes option) \<Rightarrow> ('p \<Rightarrow> 'p option) \<Rightarrow> bytes option \<Rightarrow> EVP_MD option \<Rightarrow> 'p hmac_ctx call" where
  "HMAC_Init_ex mem dup key md h =
     (let md = (case md of None \<Rightarrow> h_md h | Some md \<Rightarrow> Some md) in
      do {
        (ok, h) \<leftarrow>
          (if md \<noteq> h_md h \<or> key \<noteq> None then
             (case md of None \<Rightarrow> None | Some md \<Rightarrow> hmac_set_key mem md (case key of None \<Rightarrow> [] | Some k \<Rightarrow> k) h)
           else Some (True, h));
        if ok then on_md (EVP_MD_CTX_copy_ex mem dup (h_i h)) h else Some (False, h) })"

definition HMAC_Update :: "bytes \<Rightarrow> 'p hmac_ctx call" where
  "HMAC_Update inp = on_md (EVP_DigestUpdate inp)"

text \<open>The result if the call returns one; \<open>null\<close> tells that \<open>out_len\<close> is null.\<close>

definition HMAC_Final :: "(nat \<Rightarrow> bytes option) \<Rightarrow> ('p \<Rightarrow> 'p option) \<Rightarrow> bool \<Rightarrow> 'p hmac_ctx \<Rightarrow> (bytes option \<times> 'p hmac_ctx) option" where
  "HMAC_Final mem dup null h = do {
     (inner, c) \<leftarrow> EVP_DigestFinal_ex (h_ctx h);
     (ok, c) \<leftarrow> and_then (EVP_MD_CTX_copy_ex mem dup (h_o h)) (EVP_DigestUpdate inner) c;
     if ok then do { (out, c) \<leftarrow> EVP_DigestFinal_ex c; Some (Some out, h\<lparr>h_ctx := c\<rparr>) }
     else if null then None else Some (None, h\<lparr>h_ctx := c\<rparr>) }"


definition HMAC_size :: "'p hmac_ctx \<Rightarrow> nat option" where
  "HMAC_size h = map_option EVP_MD_size (h_md h)"

definition HMAC_CTX_copy_ex :: "(nat \<Rightarrow> bytes option) \<Rightarrow> ('p \<Rightarrow> 'p option) \<Rightarrow> 'p hmac_ctx \<Rightarrow> 'p hmac_ctx call" where
  "HMAC_CTX_copy_ex mem dup src dest = do {
     (ok, dest) \<leftarrow> and_then (on_i (EVP_MD_CTX_copy_ex mem dup (h_i src)))
       (and_then (on_o (EVP_MD_CTX_copy_ex mem dup (h_o src))) (on_md (EVP_MD_CTX_copy_ex mem dup (h_ctx src)))) dest;
     if ok then Some (True, dest\<lparr>h_md := h_md src\<rparr>) else Some (False, dest) }"

definition HMAC_Init :: "(nat \<Rightarrow> bytes option) \<Rightarrow> ('p \<Rightarrow> 'p option) \<Rightarrow> bytes option \<Rightarrow> EVP_MD option \<Rightarrow> 'p hmac_ctx call" where
  "HMAC_Init mem dup key md h = HMAC_Init_ex mem dup key md (if key \<noteq> None \<and> md \<noteq> None then HMAC_CTX_init else h)"

definition HMAC_CTX_copy :: "(nat \<Rightarrow> bytes option) \<Rightarrow> ('p \<Rightarrow> 'p option) \<Rightarrow> 'p hmac_ctx \<Rightarrow> (bool \<times> 'p hmac_ctx) option" where
  "HMAC_CTX_copy mem dup src = HMAC_CTX_copy_ex mem dup src HMAC_CTX_init"

section \<open>HKDF\<close>





section \<open>The standards\<close>

text \<open>RFC 2104, section 2.\<close>

definition rfc2104_key :: "(bytes \<Rightarrow> bytes) \<Rightarrow> nat \<Rightarrow> bytes \<Rightarrow> bytes" where
  "rfc2104_key hash block key =
     (let k = (if block < length key then hash key else key) in k @ replicate (block - length k) 0)"

definition rfc2104_hmac :: "(bytes \<Rightarrow> bytes) \<Rightarrow> nat \<Rightarrow> bytes \<Rightarrow> bytes \<Rightarrow> bytes" where
  "rfc2104_hmac hash block key text =
     (let k = rfc2104_key hash block key in
      hash (map (\<lambda>b. b XOR 0x5c) k @ hash (map (\<lambda>b. b XOR 0x36) k @ text)))"

definition hmac_of :: "EVP_MD \<Rightarrow> bytes \<Rightarrow> bytes \<Rightarrow> bytes" where
  "hmac_of md = rfc2104_hmac (md_hash md) (EVP_MD_block_size md)"



section \<open>The contract of an HMAC context\<close>

definition hmac_xor :: "EVP_MD \<Rightarrow> u8 \<Rightarrow> bytes \<Rightarrow> bytes" where
  "hmac_xor md x key = map (\<lambda>b. b XOR x) (rfc2104_key (md_hash md) (EVP_MD_block_size md) key)"

definition hmac_plain :: "'p hmac_ctx \<Rightarrow> bool" where
  "hmac_plain h \<longleftrightarrow> e_pctx (h_ctx h) = None \<and> e_pctx (h_i h) = None \<and> e_pctx (h_o h) = None"

text \<open>\<open>hmac_ok\<close>: can be given a key; \<open>keyed\<close>: can be rewound; \<open>mac_holds\<close>: has been fed \<open>xs\<close>.\<close>

definition hmac_ok :: "'p hmac_ctx \<Rightarrow> bool" where
  "hmac_ok h \<longleftrightarrow> hmac_plain h \<and> ctx_ok (h_ctx h) \<and> ctx_ok (h_i h) \<and> ctx_ok (h_o h)"

definition keyed :: "EVP_MD \<Rightarrow> bytes \<Rightarrow> 'p hmac_ctx \<Rightarrow> bool" where
  "keyed md key h \<longleftrightarrow> hmac_plain h \<and> h_md h = Some md \<and> ctx_ok (h_ctx h) \<and> e_digest (h_ctx h) = Some md \<and>
     ctx_holds md (h_i h) (hmac_xor md 0x36 key) \<and> ctx_holds md (h_o h) (hmac_xor md 0x5c key)"

definition mac_holds :: "EVP_MD \<Rightarrow> bytes \<Rightarrow> 'p hmac_ctx \<Rightarrow> bytes \<Rightarrow> bool" where
  "mac_holds md key h xs \<longleftrightarrow> keyed md key h \<and> ctx_holds md (h_ctx h) (hmac_xor md 0x36 key @ xs)"

lemma md_sizes: "EVP_MD_size md \<le> EVP_MD_block_size md" "EVP_MD_block_size md \<le> 128"
  by (cases md; simp add: digest_lengths)+

lemma hmac_pad_xor:
  assumes "k = (if EVP_MD_block_size md < length key then md_hash md key else key)"
  shows "take (EVP_MD_block_size md) (hmac_pad x k) = hmac_xor md x key"
proof -
  let ?B = "EVP_MD_block_size md"
  have "length k \<le> ?B" "?B \<le> 128"
    using md_sizes [of md] by (auto simp: assms length_digests)
  then have "take ?B (k @ replicate (128 - length k) 0) = k @ replicate (?B - length k) (0 :: u8)"
    by (simp add: min_def)
  then show ?thesis
    unfolding hmac_pad_def hmac_xor_def rfc2104_key_def Let_def assms [symmetric] EVP_MAX_MD_BLOCK_SIZE_def take_map
    by (simp add: xor.commute)
qed

lemma and_then_ok: "a s = Some (True, t) \<Longrightarrow> and_then a b s = b t"
  by (simp add: and_then_def)

lemma on_md_ok: "f (h_ctx h) = Some (ok, c) \<Longrightarrow> on_md f h = Some (ok, h\<lparr>h_ctx := c\<rparr>)"
  and on_i_ok: "f (h_i h) = Some (ok, c) \<Longrightarrow> on_i f h = Some (ok, h\<lparr>h_i := c\<rparr>)"
  and on_o_ok: "f (h_o h) = Some (ok, c) \<Longrightarrow> on_o f h = Some (ok, h\<lparr>h_o := c\<rparr>)"
  by (simp_all add: on_md_def on_i_def on_o_def)


text \<open>Initialise and feed, as every use of a digest here begins.\<close>

lemma init_update_ok:
  assumes "ctx_ok c" "malloc_ok mem" "e_digest c = Some md \<or> mem (ctx_size md) \<noteq> None" "e_pctx c = None"
  shows "\<exists>t. and_then (EVP_DigestInit_ex mem md) (EVP_DigestUpdate xs) c = Some (True, t) \<and> ctx_holds md t xs \<and> e_pctx t = None"
proof -
  obtain t where t: "EVP_DigestInit_ex mem md c = Some (True, t)" "ctx_holds md t []" "e_pctx t = None"
    using DigestInit_ok [OF assms(1-3)] assms(4) by auto
  from DigestUpdate_ok [OF t(2), of xs] t show ?thesis
    by (auto simp: and_then_ok)
qed


lemma hmac_key_block_ok:
  assumes "ctx_ok (h_ctx h)" "e_pctx (h_ctx h) = None" "malloc_ok mem" "mem (ctx_size md) \<noteq> None"
  shows "\<exists>c. hmac_key_block mem md key h =
      Some (Some (if EVP_MD_block_size md < length key then md_hash md key else key), h\<lparr>h_ctx := c\<rparr>) \<and>
    ctx_ok c \<and> e_pctx c = None"
proof (cases "EVP_MD_block_size md < length key")
  case True
  obtain t where t: "and_then (EVP_DigestInit_ex mem md) (EVP_DigestUpdate key) (h_ctx h) = Some (True, t)"
    "ctx_holds md t key" "e_pctx t = None"
    using init_update_ok [OF assms(1,3) _ assms(2), of md key] assms(4) by auto
  obtain u where u: "EVP_DigestFinal_ex t = Some (md_hash md key, u)" "ctx_ok u"
    using DigestFinal_ok [OF t(2)] by auto
  then have "e_pctx u = None"
    using t(3) by (auto simp: EVP_DigestFinal_ex_def split: bind_splits)
  with True t(1) u show ?thesis
    by (auto simp: hmac_key_block_def on_md_def)
next
  case False
  then show ?thesis
    using assms(1,2) by (auto simp: hmac_key_block_def intro!: exI [of _ "h_ctx h"])
qed

lemma hmac_set_key_ok:
  assumes "hmac_ok h" "malloc_ok mem" "mem (ctx_size md) \<noteq> None"
  shows "\<exists>t. hmac_set_key mem md key h = Some (True, t) \<and> hmac_plain t \<and> h_md t = Some md \<and> ctx_ok (h_ctx t) \<and>
    ctx_holds md (h_i t) (hmac_xor md 0x36 key) \<and> ctx_holds md (h_o t) (hmac_xor md 0x5c key)"
proof -
  define k where "k = (if EVP_MD_block_size md < length key then md_hash md key else key)"
  obtain c where c: "hmac_key_block mem md key h = Some (Some k, h\<lparr>h_ctx := c\<rparr>)" "ctx_ok c" "e_pctx c = None"
    using hmac_key_block_ok [of h mem md key] assms by (auto simp: hmac_ok_def hmac_plain_def k_def)
  obtain i where i: "and_then (EVP_DigestInit_ex mem md) (EVP_DigestUpdate (hmac_xor md 0x36 key)) (h_i h) = Some (True, i)"
    "ctx_holds md i (hmac_xor md 0x36 key)" "e_pctx i = None"
    using init_update_ok [of "h_i h" mem md] assms by (auto simp: hmac_ok_def hmac_plain_def)
  obtain j where j: "and_then (EVP_DigestInit_ex mem md) (EVP_DigestUpdate (hmac_xor md 0x5c key)) (h_o h) = Some (True, j)"
    "ctx_holds md j (hmac_xor md 0x5c key)" "e_pctx j = None"
    using init_update_ok [of "h_o h" mem md] assms by (auto simp: hmac_ok_def hmac_plain_def)
  have "hmac_set_key mem md key h = Some (True, h\<lparr>h_ctx := c, h_i := i, h_o := j, h_md := Some md\<rparr>)"
    using c(1) by (simp add: hmac_set_key_def hmac_pad_xor [OF k_def] and_then_ok [OF on_i_ok] i(1) on_o_ok j(1))
  then show ?thesis
    using c i j by (auto simp: hmac_plain_def)
qed

lemma rewind_ok:
  assumes "hmac_plain h" "h_md h = Some md" "ctx_ok (h_ctx h)" "e_digest (h_ctx h) = Some md \<or> mem (ctx_size md) \<noteq> None"
    "ctx_holds md (h_i h) (hmac_xor md 0x36 key)" "ctx_holds md (h_o h) (hmac_xor md 0x5c key)"
  shows "\<exists>t. on_md (EVP_MD_CTX_copy_ex mem dup (h_i h)) h = Some (True, t) \<and> mac_holds md key t []"
proof -
  obtain c where "EVP_MD_CTX_copy_ex mem dup (h_i h) (h_ctx h) = Some (True, c)" "ctx_holds md c (hmac_xor md 0x36 key)" "e_pctx c = None"
    using copy_ok [of md "h_i h" _ "h_ctx h" mem dup] assms by (auto simp: hmac_plain_def)
  then show ?thesis
    using assms ctx_holds_ok [of md c] by (auto simp: on_md_def mac_holds_def keyed_def hmac_plain_def ctx_holds_def)
qed

lemma HMAC_Init_ok:
  assumes "hmac_ok h" "malloc_ok mem" "mem (ctx_size md) \<noteq> None" "key \<noteq> None \<or> h_md h \<noteq> Some md"
  shows "\<exists>t. HMAC_Init_ex mem dup key (Some md) h = Some (True, t) \<and> mac_holds md (case key of None \<Rightarrow> [] | Some k \<Rightarrow> k) t []"
proof -
  obtain t where t: "hmac_set_key mem md (case key of None \<Rightarrow> [] | Some k \<Rightarrow> k) h = Some (True, t)" "hmac_plain t" "h_md t = Some md"
    "ctx_ok (h_ctx t)" "ctx_holds md (h_i t) (hmac_xor md 0x36 (case key of None \<Rightarrow> [] | Some k \<Rightarrow> k))"
    "ctx_holds md (h_o t) (hmac_xor md 0x5c (case key of None \<Rightarrow> [] | Some k \<Rightarrow> k))"
    using hmac_set_key_ok [OF assms(1-3)] by blast
  have "Some md \<noteq> h_md h \<or> key \<noteq> None" using assms(4) by auto
  then have "HMAC_Init_ex mem dup key (Some md) h = on_md (EVP_MD_CTX_copy_ex mem dup (h_i t)) t"
    using t(1) by (simp add: HMAC_Init_ex_def)
  with rewind_ok [OF t(2,3,4) _ t(5,6), of mem dup] assms(3) show ?thesis
    by auto
qed

lemma HMAC_rewind:
  assumes "keyed md key h"
  shows "\<exists>t. HMAC_Init_ex mem dup None None h = Some (True, t) \<and> mac_holds md key t []"
  using rewind_ok [of h md mem key dup] assms by (simp add: keyed_def HMAC_Init_ex_def)

lemma HMAC_Update_ok:
  "mac_holds md key h xs \<Longrightarrow> \<exists>t. HMAC_Update ys h = Some (True, t) \<and> mac_holds md key t (xs @ ys)"
  using DigestUpdate_ok [of md "h_ctx h" "hmac_xor md 0x36 key @ xs" ys] ctx_holds_ok
  by (fastforce simp: HMAC_Update_def on_md_def mac_holds_def keyed_def hmac_plain_def ctx_holds_def)

lemma HMAC_Final_ok:
  assumes "mac_holds md key h xs"
  shows "\<exists>t. HMAC_Final mem dup null h = Some (Some (hmac_of md key xs), t) \<and> keyed md key t"
proof -
  have h: "ctx_holds md (h_ctx h) (hmac_xor md 0x36 key @ xs)" "ctx_holds md (h_o h) (hmac_xor md 0x5c key)" "keyed md key h" "hmac_plain h"
    using assms by (simp_all add: mac_holds_def keyed_def)
  let ?inner = "md_hash md (hmac_xor md 0x36 key @ xs)"
  obtain c where c: "EVP_DigestFinal_ex (h_ctx h) = Some (?inner, c)" "ctx_ok c" "e_digest c = Some md"
    using DigestFinal_ok [OF h(1)] by blast
  obtain d where d: "EVP_MD_CTX_copy_ex mem dup (h_o h) c = Some (True, d)" "ctx_holds md d (hmac_xor md 0x5c key)" "e_pctx d = None"
    using copy_ok [OF h(2) _ c(2)] c(3) h(4) by (auto simp: hmac_plain_def)
  obtain e where e: "EVP_DigestUpdate ?inner d = Some (True, e)" "ctx_holds md e (hmac_xor md 0x5c key @ ?inner)" "e_pctx e = None"
    using DigestUpdate_ok [OF d(2)] d(3) by auto
  obtain f where f: "EVP_DigestFinal_ex e = Some (md_hash md (hmac_xor md 0x5c key @ ?inner), f)" "ctx_ok f" "e_digest f = Some md"
    using DigestFinal_ok [OF e(2)] by blast
  then have "e_pctx f = None"
    using e(3) by (auto simp: EVP_DigestFinal_ex_def split: bind_splits)
  moreover have "md_hash md (hmac_xor md 0x5c key @ ?inner) = hmac_of md key xs"
    by (simp add: hmac_of_def rfc2104_hmac_def hmac_xor_def Let_def)
  ultimately show ?thesis
    using h c d e f by (auto simp: HMAC_Final_def and_then_def keyed_def hmac_plain_def)
qed

section \<open>The properties\<close>

lemma hmac_ok_init: "hmac_ok HMAC_CTX_init" "h_md HMAC_CTX_init = None"
  by (simp_all add: hmac_ok_def hmac_plain_def HMAC_CTX_init_def) (simp add: EVP_MD_CTX_init_def)




lemma malloc_ok_zero: "malloc_ok (\<lambda>n. Some (replicate n 0))"
  by (simp add: malloc_ok_def)


text \<open>Messages in pieces, on a context that has a key: each time rewind, feed the pieces, take the result.\<close>

primrec hmac_feed :: "bytes list \<Rightarrow> 'p hmac_ctx call" where
  "hmac_feed [] = (\<lambda>h. Some (True, h))"
| "hmac_feed (p # ps) = and_then (HMAC_Update p) (hmac_feed ps)"

primrec hmac_session :: "(nat \<Rightarrow> bytes option) \<Rightarrow> ('p \<Rightarrow> 'p option) \<Rightarrow> bytes list list \<Rightarrow> 'p hmac_ctx \<Rightarrow> bytes option list option" where
  "hmac_session mem dup [] h = Some []"
| "hmac_session mem dup (ps # pss) h = do {
     (_, h) \<leftarrow> and_then (HMAC_Init_ex mem dup None None) (hmac_feed ps) h;
     (out, h) \<leftarrow> HMAC_Final mem dup True h;
     outs \<leftarrow> hmac_session mem dup pss h;
     Some (out # outs) }"

lemma hmac_feed_ok: "mac_holds md key h xs \<Longrightarrow> \<exists>t. hmac_feed ps h = Some (True, t) \<and> mac_holds md key t (xs @ concat ps)"
proof (induction ps arbitrary: h xs)
  case (Cons p ps)
  from HMAC_Update_ok [OF Cons.prems, of p] obtain u where "HMAC_Update p h = Some (True, u)" "mac_holds md key u (xs @ p)" by blast
  with Cons.IH [of u "xs @ p"] show ?case by (simp add: and_then_ok)
qed simp

lemma hmac_session_ok:
  "keyed md key h \<Longrightarrow> hmac_session mem dup pss h = Some (map (\<lambda>ps. Some (hmac_of md key (concat ps))) pss)"
proof (induction pss arbitrary: h)
  case (Cons ps pss)
  obtain t where t: "HMAC_Init_ex mem dup None None h = Some (True, t)" "mac_holds md key t []"
    using HMAC_rewind [OF Cons.prems] by blast
  obtain u where u: "hmac_feed ps t = Some (True, u)" "mac_holds md key u (concat ps)"
    using hmac_feed_ok [OF t(2), of ps] by auto
  obtain v where v: "HMAC_Final mem dup True u = Some (Some (hmac_of md key (concat ps)), v)" "keyed md key v"
    using HMAC_Final_ok [OF u(2)] by blast
  show ?case
    using t(1) u(1) v Cons.IH [OF v(2)] by (simp add: and_then_ok)
qed simp

text \<open>C35: a context in any usable state, given a key, computes the HMAC of any number of messages, each fed in
  pieces of any sizes: the calls are all defined, allocate nothing more, and a null key rewinds to the key given before.\<close>

lemma hmac_session_results:
  assumes "hmac_ok h" "malloc_ok mem" "mem (ctx_size md) \<noteq> None"
  shows "\<exists>t. HMAC_Init_ex mem dup (Some key) (Some md) h = Some (True, t) \<and>
    hmac_session (\<lambda>_. None) dup pss t =
      Some (map (\<lambda>ps. Some (rfc2104_hmac (md_hash md) (EVP_MD_block_size md) key (concat ps))) pss)"
  using HMAC_Init_ok [OF assms, of "Some key" dup] hmac_session_ok [of md key _ "\<lambda>_. None" dup pss]
  by (auto simp: mac_holds_def hmac_of_def)

lemma hmac_session_results_witness:
  "\<exists>t. HMAC_Init_ex (\<lambda>n. Some (replicate n 0)) Some (Some [9]) (Some EVP_md5_sha1) (HMAC_CTX_init :: unit hmac_ctx) = Some (True, t) \<and>
    hmac_session (\<lambda>_. None) Some [[[1], [2, 3]], []] t =
      Some [Some (rfc2104_hmac (md_hash EVP_md5_sha1) 64 [9] [1, 2, 3]), Some (rfc2104_hmac (md_hash EVP_md5_sha1) 64 [9] [])]"
  using hmac_session_results [OF hmac_ok_init(1) malloc_ok_zero, of EVP_md5_sha1 Some "[9]" "[[[1], [2, 3]], []]"] by simp








end
