(* ===== verification/Modes.thy ===== *)
theory Modes
  imports Mem Refine
begin

text \<open>
  The stream modes of the block ciphers (\<^verbatim>\<open>fipsmodule/modes/{ctr,ofb,cfb}.c\<close>). The cipher is an argument,
  as in C: \<open>block\<close> maps sixteen bytes to sixteen bytes (the key, which the code only passes on, is
  part of it). Input and output are strings: in C they may be the same buffer, or disjoint, as every
  byte of the input is read before the byte of the output at the same place is written.
  The interface \<open>byte_mode\<close> is a mode that works in blocks and keeps the rest of a block for
  the next call; its contract is a mode that takes a byte at a time.
\<close>

section \<open>Operations\<close>

text \<open>The arguments a mode updates: \<open>ivec\<close>, \<open>ecount_buf\<close> (of the counter modes only) and \<open>*num\<close>.\<close>

record stream_state =
  ivec :: bytes
  ecount_buf :: bytes
  st_num :: nat

definition xor_bytes :: "bytes \<Rightarrow> bytes \<Rightarrow> bytes" where
  "xor_bytes a b = map2 (\<lambda>x y. x XOR y) a b"

text \<open>The loop of an increment from \<open>n\<close> down to zero, with carry \<open>c\<close>.\<close>

primrec counter_inc :: "nat \<Rightarrow> u32 \<Rightarrow> bytes \<Rightarrow> bytes" where
  "counter_inc 0 c counter = counter"
| "counter_inc (Suc n) c counter =
     (let c = c + ucast (counter ! n) in counter_inc n (drop_bit 8 c) (counter[n := ucast c]))"

definition ctr128_inc :: "bytes \<Rightarrow> bytes" where
  "ctr128_inc counter = counter_inc 16 1 counter"

definition ctr96_inc :: "bytes \<Rightarrow> bytes" where
  "ctr96_inc counter = counter_inc 12 1 counter"

text \<open>
  The loop at the start of the counter and output feedback modes, \<open>while (n && len)\<close>, on the bytes left of the last
  block \<open>ks\<close>: the output, \<open>n\<close>, and the input left. The loop at the end, \<open>while (len--)\<close>, is on indices.
\<close>

fun pending_bytes :: "bytes \<Rightarrow> nat \<Rightarrow> bytes \<Rightarrow> bytes \<times> nat \<times> bytes" where
  "pending_bytes ks n [] = ([], n, [])"
| "pending_bytes ks n (b # inp) =
     (if n \<noteq> 0 then
        let (out, m, rest) = pending_bytes ks ((n + 1) mod 16) inp in ((b XOR ks ! n) # out, m, rest)
      else ([], n, b # inp))"

definition last_bytes :: "bytes \<Rightarrow> nat \<Rightarrow> bytes \<Rightarrow> bytes" where
  "last_bytes ks n inp = map (\<lambda>i. inp ! i XOR ks ! i) [n..<n + length inp]"

subsection \<open>Counter mode\<close>

text \<open>The whole blocks: the output, the input left, and the state.\<close>

function ctr128_blocks :: "(bytes \<Rightarrow> bytes) \<Rightarrow> bytes \<Rightarrow> stream_state \<Rightarrow> bytes \<times> bytes \<times> stream_state" where
  "ctr128_blocks block inp st =
     (if 16 \<le> length inp then
        let ks = block (ivec st);
            (out, rest, st) = ctr128_blocks block (drop 16 inp) \<lparr>ivec = ctr128_inc (ivec st), ecount_buf = ks, st_num = 0\<rparr> in
        (xor_bytes (take 16 inp) ks @ out, rest, st)
      else ([], inp, st))"
  by pat_completeness auto
termination
  by (relation "measure (\<lambda>(block, inp, st). length inp)") auto

declare ctr128_blocks.simps [simp del]

definition CRYPTO_ctr128_encrypt :: "(bytes \<Rightarrow> bytes) \<Rightarrow> bytes \<Rightarrow> stream_state \<Rightarrow> bytes \<times> stream_state" where
  "CRYPTO_ctr128_encrypt block inp st =
     (let (out1, n, inp) = pending_bytes (ecount_buf st) (st_num st) inp;
          (out2, inp, st) = ctr128_blocks block inp (st\<lparr>st_num := n\<rparr>) in
      if inp \<noteq> [] then
        let ks = block (ivec st); n = st_num st in
        (out1 @ out2 @ last_bytes ks n inp,
         \<lparr>ivec = ctr128_inc (ivec st), ecount_buf = ks, st_num = n + length inp\<rparr>)
      else (out1 @ out2, st))"

text \<open>
  With a function that does whole blocks on a counter of 32 bits (\<open>ctr128_f\<close>): \<open>func inp blocks iv\<close> is its
  output. \<open>GETU32\<close> and \<open>PUTU32\<close> read and write the last four bytes of the counter.
\<close>

definition GETU32 :: "bytes \<Rightarrow> u32" where
  "GETU32 p = word_of_nat (be_nat (take 4 p))"

definition PUTU32 :: "nat \<Rightarrow> bytes \<Rightarrow> u32 \<Rightarrow> bytes" where
  "PUTU32 off p v = write_at off (be_bytes 4 (unat v)) p"

text \<open>How many blocks an iteration does, and the counter after it.\<close>

definition ctr32_blocks :: "u32 \<Rightarrow> nat \<Rightarrow> nat \<times> u32" where
  "ctr32_blocks ctr32 len =
     (let blocks = len div 16;
          blocks = (if blocks > 2 ^ 28 then 2 ^ 28 else blocks);
          ctr32 = ctr32 + word_of_nat blocks in
      if unat ctr32 < blocks then (blocks - unat ctr32, 0) else (blocks, ctr32))"

definition ctr32_put :: "bytes \<Rightarrow> u32 \<Rightarrow> bytes" where
  "ctr32_put iv ctr32 = (let iv = PUTU32 12 iv ctr32 in if ctr32 = 0 then ctr96_inc iv else iv)"

function ctr32_loop ::
  "(bytes \<Rightarrow> nat \<Rightarrow> bytes \<Rightarrow> bytes) \<Rightarrow> u32 \<Rightarrow> bytes \<Rightarrow> bytes \<Rightarrow> bytes \<times> bytes \<times> bytes \<times> u32" where
  "ctr32_loop func ctr32 inp iv =
     (if 16 \<le> length inp then
        let (blocks, ctr) = ctr32_blocks ctr32 (length inp);
            (out, rest, iv', ctr') = ctr32_loop func ctr (drop (blocks * 16) inp) (ctr32_put iv ctr) in
        (func (take (blocks * 16) inp) blocks iv @ out, rest, iv', ctr')
      else ([], inp, iv, ctr32))"
  by pat_completeness auto
termination
  by (relation "measure (\<lambda>(func, ctr32, inp, iv). length inp)") (auto simp: ctr32_blocks_def Let_def split: if_splits)

declare ctr32_loop.simps [simp del]

definition CRYPTO_ctr128_encrypt_ctr32 ::
  "(bytes \<Rightarrow> nat \<Rightarrow> bytes \<Rightarrow> bytes) \<Rightarrow> bytes \<Rightarrow> stream_state \<Rightarrow> bytes \<times> stream_state" where
  "CRYPTO_ctr128_encrypt_ctr32 func inp st =
     (let (out1, n, inp) = pending_bytes (ecount_buf st) (st_num st) inp;
          (out2, inp, iv, ctr32) = ctr32_loop func (GETU32 (drop 12 (ivec st))) inp (ivec st) in
      if inp \<noteq> [] then
        let ks = func (replicate 16 0) 1 iv in
        (out1 @ out2 @ last_bytes ks n inp,
         \<lparr>ivec = ctr32_put iv (ctr32 + 1), ecount_buf = ks, st_num = n + length inp\<rparr>)
      else (out1 @ out2, \<lparr>ivec = iv, ecount_buf = ecount_buf st, st_num = n\<rparr>))"

subsection \<open>Output feedback\<close>

function ofb128_blocks :: "(bytes \<Rightarrow> bytes) \<Rightarrow> bytes \<Rightarrow> bytes \<Rightarrow> bytes \<times> bytes \<times> bytes" where
  "ofb128_blocks block inp iv =
     (if 16 \<le> length inp then
        let iv = block iv; (out, rest, iv') = ofb128_blocks block (drop 16 inp) iv in
        (xor_bytes (take 16 inp) iv @ out, rest, iv')
      else ([], inp, iv))"
  by pat_completeness auto
termination
  by (relation "measure (\<lambda>(block, inp, iv). length inp)") auto

declare ofb128_blocks.simps [simp del]

definition CRYPTO_ofb128_encrypt :: "(bytes \<Rightarrow> bytes) \<Rightarrow> bytes \<Rightarrow> stream_state \<Rightarrow> bytes \<times> stream_state" where
  "CRYPTO_ofb128_encrypt block inp st =
     (let (out1, n, inp) = pending_bytes (ivec st) (st_num st) inp;
          (out2, inp, iv) = ofb128_blocks block inp (ivec st) in
      if inp \<noteq> [] then
        let iv = block iv in
        (out1 @ out2 @ last_bytes iv n inp, st\<lparr>ivec := iv, st_num := n + length inp\<rparr>)
      else (out1 @ out2, st\<lparr>ivec := iv, st_num := n\<rparr>))"

subsection \<open>Cipher feedback\<close>

text \<open>
  A step of the loops: the byte of the output, and the byte that replaces the one of \<open>ivec\<close>, which is
  the ciphertext on either side.
\<close>

definition cfb_out :: "bool \<Rightarrow> u8 \<Rightarrow> u8 \<Rightarrow> u8 \<times> u8" where
  "cfb_out enc v b = (if enc then let c = v XOR b in (c, c) else (v XOR b, b))"

fun cfb_pending :: "bool \<Rightarrow> bytes \<Rightarrow> nat \<Rightarrow> bytes \<Rightarrow> bytes \<times> bytes \<times> nat \<times> bytes" where
  "cfb_pending enc iv n [] = ([], iv, n, [])"
| "cfb_pending enc iv n (b # inp) =
     (if n \<noteq> 0 then
        let (a, c) = cfb_out enc (iv ! n) b;
            (out, iv', m, rest) = cfb_pending enc (iv[n := c]) ((n + 1) mod 16) inp in
        (a # out, iv', m, rest)
      else ([], iv, n, b # inp))"

function cfb128_blocks :: "(bytes \<Rightarrow> bytes) \<Rightarrow> bool \<Rightarrow> bytes \<Rightarrow> bytes \<Rightarrow> bytes \<times> bytes \<times> bytes" where
  "cfb128_blocks block enc inp iv =
     (if 16 \<le> length inp then
        let t = xor_bytes (block iv) (take 16 inp);
            (out, rest, iv') = cfb128_blocks block enc (drop 16 inp) (if enc then t else take 16 inp) in
        (t @ out, rest, iv')
      else ([], inp, iv))"
  by pat_completeness auto
termination
  by (relation "measure (\<lambda>(block, enc, inp, iv). length inp)") auto

declare cfb128_blocks.simps [simp del]

text \<open>The last loop; \<open>n\<close> counts from zero where it has anything to do.\<close>

fun cfb_last :: "bool \<Rightarrow> bytes \<Rightarrow> nat \<Rightarrow> bytes \<Rightarrow> bytes \<times> bytes \<times> nat" where
  "cfb_last enc iv n [] = ([], iv, n)"
| "cfb_last enc iv n (b # inp) =
     (let (a, c) = cfb_out enc (iv ! n) b; (out, iv', m) = cfb_last enc (iv[n := c]) (n + 1) inp in
      (a # out, iv', m))"

definition CRYPTO_cfb128_encrypt :: "(bytes \<Rightarrow> bytes) \<Rightarrow> bool \<Rightarrow> bytes \<Rightarrow> stream_state \<Rightarrow> bytes \<times> stream_state" where
  "CRYPTO_cfb128_encrypt block enc inp st =
     (let (out1, iv, n, inp) = cfb_pending enc (ivec st) (st_num st) inp;
          (out2, inp, iv) = cfb128_blocks block enc inp iv in
      if inp \<noteq> [] then
        let (out3, iv, n) = cfb_last enc (block iv) n inp in (out1 @ out2 @ out3, st\<lparr>ivec := iv, st_num := n\<rparr>)
      else (out1 @ out2, st\<lparr>ivec := iv, st_num := n\<rparr>))"

text \<open>
  Feedback of \<open>nbits\<close>. \<open>ovec\<close> is the old \<open>ivec\<close> followed by the bytes of the ciphertext; the
  bytes of the array after those are not read.
\<close>

definition cfbr_encrypt_block :: "(bytes \<Rightarrow> bytes) \<Rightarrow> bool \<Rightarrow> nat \<Rightarrow> bytes \<Rightarrow> bytes \<Rightarrow> bytes \<times> bytes" where
  "cfbr_encrypt_block block enc nbits inp iv =
     (if nbits = 0 \<or> nbits > 128 then ([], iv)
      else
        let ks = block iv;
            num = (nbits + 7) div 8;
            steps = map (\<lambda>n. cfb_out enc (ks ! n) (inp ! n)) [0..<num];
            ovec = iv @ map snd steps;
            rem = nbits mod 8;
            num = nbits div 8 in
        (map fst steps,
         if rem = 0 then take 16 (drop num ovec)
         else map (\<lambda>n. push_bit rem (ovec ! (n + num)) OR drop_bit (8 - rem) (ovec ! (n + num + 1))) [0..<16]))"

text \<open>The bits and the bytes from \<open>n\<close> on, \<open>k\<close> of them; \<open>out\<close> is the buffer, which may hold anything.\<close>

primrec cfb1_loop :: "(bytes \<Rightarrow> bytes) \<Rightarrow> bool \<Rightarrow> bytes \<Rightarrow> nat \<Rightarrow> nat \<Rightarrow> bytes \<Rightarrow> bytes \<Rightarrow> bytes \<times> bytes" where
  "cfb1_loop block enc inp 0 n out iv = (out, iv)"
| "cfb1_loop block enc inp (Suc k) n out iv =
     (let c = (if inp ! (n div 8) AND push_bit (7 - n mod 8) 1 \<noteq> 0 then 0x80 else 0);
          (d, iv) = cfbr_encrypt_block block enc 1 [c] iv in
      cfb1_loop block enc inp k (n + 1)
        (out[n div 8 := (out ! (n div 8) AND NOT (push_bit (7 - n mod 8) 1)) OR drop_bit (n mod 8) (d ! 0 AND 0x80)]) iv)"

definition CRYPTO_cfb128_1_encrypt :: "(bytes \<Rightarrow> bytes) \<Rightarrow> bool \<Rightarrow> bytes \<Rightarrow> nat \<Rightarrow> bytes \<Rightarrow> stream_state \<Rightarrow> bytes \<times> stream_state" where
  "CRYPTO_cfb128_1_encrypt block enc inp bits out st =
     (let (out, iv) = cfb1_loop block enc inp bits 0 out (ivec st) in (out, st\<lparr>ivec := iv\<rparr>))"

fun cfb8_loop :: "(bytes \<Rightarrow> bytes) \<Rightarrow> bool \<Rightarrow> bytes \<Rightarrow> bytes \<Rightarrow> bytes \<times> bytes" where
  "cfb8_loop block enc [] iv = ([], iv)"
| "cfb8_loop block enc (b # inp) iv =
     (let (d, iv) = cfbr_encrypt_block block enc 8 [b] iv; (out, iv) = cfb8_loop block enc inp iv in (d @ out, iv))"

definition CRYPTO_cfb128_8_encrypt :: "(bytes \<Rightarrow> bytes) \<Rightarrow> bool \<Rightarrow> bytes \<Rightarrow> stream_state \<Rightarrow> bytes \<times> stream_state" where
  "CRYPTO_cfb128_8_encrypt block enc inp st =
     (let (out, iv) = cfb8_loop block enc inp (ivec st) in (out, st\<lparr>ivec := iv\<rparr>))"

section \<open>A byte at a time\<close>

text \<open>
  The contract of a mode is a step for a byte, run over the input; the calls of a program are run over the pieces.
\<close>

lemma run_append:
  "run step (xs @ ys) st =
     (let (a, st) = run step xs st; (b, st) = run step ys st in (a @ b, st))"
  by (induction xs arbitrary: st) (simp_all split: prod.splits)

locale byte_mode =
  fixes call :: "bytes \<Rightarrow> 's \<Rightarrow> bytes \<times> 's"
    and step :: "u8 \<Rightarrow> 's \<Rightarrow> u8 \<times> 's"
    and ok :: "'s \<Rightarrow> bool"
  assumes call_is_run: "ok st \<Longrightarrow> call inp st = run step inp st"
    and ok_step: "ok st \<Longrightarrow> step b st = (a, t) \<Longrightarrow> ok t"
begin

lemma ok_run: "ok st \<Longrightarrow> run step inp st = (out, t) \<Longrightarrow> ok t"
  by (induction inp arbitrary: st out t) (auto split: prod.splits dest: ok_step)

lemma pieces:
  "ok st \<Longrightarrow> (let (outs, t) = run call ps st in (concat outs, t)) = call (concat ps) st"
proof (induction ps arbitrary: st)
  case (Cons p ps)
  obtain out t where run: "run step p st = (out, t)" by (cases "run step p st")
  have t: "ok t" using Cons.prems run by (rule ok_run)
  show ?case
    using Cons.IH [OF t] Cons.prems t run
    by (auto simp: call_is_run run_append split: prod.splits)
qed (simp add: call_is_run)

end

lemma run_back:
  assumes "\<And>st b a t. ok st \<Longrightarrow> enc_step b st = (a, t) \<Longrightarrow> dec_step a st = (b, t) \<and> ok t"
  shows "ok st \<Longrightarrow> run enc_step inp st = (out, t) \<Longrightarrow> run dec_step out st = (inp, t)"
proof (induction inp arbitrary: st out)
  case (Cons b inp)
  obtain a u where a: "enc_step b st = (a, u)" by (cases "enc_step b st")
  obtain out' v where out': "run enc_step inp u = (out', v)" by (cases "run enc_step inp u")
  have u: "dec_step a st = (b, u)" "ok u" using assms [OF Cons.prems(1) a] by simp_all
  show ?case
    using Cons.prems(2) a out' Cons.IH [OF u(2)] u(1) by auto
qed simp

locale inverse_modes = enc: byte_mode enc_call enc_step ok + dec: byte_mode dec_call dec_step ok
  for enc_call dec_call :: "bytes \<Rightarrow> 's \<Rightarrow> bytes \<times> 's" and enc_step dec_step ok +
  assumes step_back: "ok st \<Longrightarrow> enc_step b st = (a, t) \<Longrightarrow> dec_step a st = (b, t)"
begin

lemma pieces_back:
  assumes "ok st" "run enc_call ps st = (outs, t)" "concat qs = concat outs"
  shows "\<exists>rs. run dec_call qs st = (rs, t) \<and> concat rs = concat ps"
proof -
  obtain rs u where rs: "run dec_call qs st = (rs, u)" by (cases "run dec_call qs st")
  have "(concat rs, u) = dec_call (concat outs) st" using dec.pieces [OF assms(1), of qs] rs assms(3) by simp
  moreover have "(concat outs, t) = enc_call (concat ps) st" using enc.pieces [OF assms(1), of ps] assms(2) by simp
  ultimately show ?thesis
    using run_back [of ok enc_step dec_step st "concat ps" "concat outs" t] step_back enc.ok_step assms(1) rs
    by (simp add: enc.call_is_run dec.call_is_run)
qed

end

section \<open>The modes a byte at a time\<close>

definition block_cipher :: "(bytes \<Rightarrow> bytes) \<Rightarrow> bool" where
  "block_cipher block \<longleftrightarrow> (\<forall>b. length b = 16 \<longrightarrow> length (block b) = 16)"

definition stream_ok :: "(bytes \<Rightarrow> bytes) \<Rightarrow> stream_state \<Rightarrow> bool" where
  "stream_ok block st \<longleftrightarrow> block_cipher block \<and> length (ivec st) = 16 \<and> length (ecount_buf st) = 16 \<and> st_num st < 16"

lemma length_xor_bytes [simp]: "length (xor_bytes a b) = min (length a) (length b)"
  by (simp add: xor_bytes_def)

lemma xor_bytes_Nil [simp]: "xor_bytes [] b = []" "xor_bytes a [] = []"
  by (simp_all add: xor_bytes_def)

lemma xor_bytes_Cons [simp]: "xor_bytes (x # xs) (y # ys) = (x XOR y) # xor_bytes xs ys"
  by (simp add: xor_bytes_def)

lemma num_same: "st_num st = n \<Longrightarrow> st\<lparr>st_num := n\<rparr> = st"
  by auto

lemma nth_xor_bytes: "i < length a \<Longrightarrow> i < length b \<Longrightarrow> xor_bytes a b ! i = a ! i XOR b ! i"
  by (simp add: xor_bytes_def)

lemma last_bytes_0: "length inp \<le> length ks \<Longrightarrow> last_bytes ks 0 inp = xor_bytes inp ks"
  by (rule nth_equalityI) (auto simp: last_bytes_def xor_bytes_def)

lemma length_counter_inc [simp]: "length (counter_inc n c counter) = length counter"
  by (induction n arbitrary: c counter) (simp_all add: Let_def)

subsection \<open>Key streams\<close>

text \<open>A step of a mode that keeps the block in use in \<open>key st\<close> and makes the next one by \<open>refill\<close>.\<close>

definition ks_step :: "(stream_state \<Rightarrow> bytes) \<Rightarrow> (stream_state \<Rightarrow> stream_state) \<Rightarrow> u8 \<Rightarrow> stream_state \<Rightarrow> u8 \<times> stream_state" where
  "ks_step key refill b st =
     (let st = (if st_num st = 0 then refill st else st) in
      (b XOR key st ! st_num st, st\<lparr>st_num := (st_num st + 1) mod 16\<rparr>))"

lemma pending_bytes_run:
  assumes key: "\<And>st m. key (st\<lparr>st_num := m\<rparr>) = key st"
  shows "st_num st < 16 \<Longrightarrow> pending_bytes (key st) (st_num st) inp = (out, n, rest) \<Longrightarrow>
    run (ks_step key refill) inp st =
      (let (o2, t) = run (ks_step key refill) rest (st\<lparr>st_num := n\<rparr>) in (out @ o2, t)) \<and>
    n < 16 \<and> (n = 0 \<or> rest = [])"
proof (induction inp arbitrary: st out n rest)
  case (Cons b inp)
  show ?case
  proof (cases "st_num st = 0")
    case False
    let ?t = "st\<lparr>st_num := (st_num st + 1) mod 16\<rparr>"
    obtain o1 m r where p: "pending_bytes (key ?t) (st_num ?t) inp = (o1, m, r)"
      by (cases "pending_bytes (key ?t) (st_num ?t) inp")
    have "st_num ?t < 16" by simp
    from Cons.IH [OF this p] show ?thesis
      using Cons.prems False p by (auto simp: key ks_step_def split: prod.splits)
  qed (use Cons.prems in \<open>simp add: num_same split: prod.splits\<close>)
qed (simp add: num_same)

lemma key_run:
  assumes key: "\<And>st m. key (st\<lparr>st_num := m\<rparr>) = key st"
  shows "n + length inp \<le> 16 \<Longrightarrow> n \<noteq> 0 \<Longrightarrow> length (key st) = 16 \<Longrightarrow>
    run (ks_step key refill) inp (st\<lparr>st_num := n\<rparr>) =
      (xor_bytes inp (drop n (key st)), st\<lparr>st_num := (if inp = [] then n else (n + length inp) mod 16)\<rparr>)"
proof (induction inp arbitrary: n)
  case (Cons b inp)
  show ?case
  proof (cases "inp = []")
    case False
    then have "n < 15" using Cons.prems by (cases inp) simp_all
    then show ?thesis
      using Cons.IH [of "n + 1"] Cons.prems by (simp add: ks_step_def key Cons_nth_drop_Suc [symmetric] False)
  qed (use Cons.prems in \<open>simp add: ks_step_def key Cons_nth_drop_Suc [symmetric]\<close>)
qed simp

lemma block_run:
  assumes key: "\<And>st m. key (st\<lparr>st_num := m\<rparr>) = key st"
    and inp: "inp \<noteq> []" "length inp \<le> 16" and st: "st_num st = 0" "st_num (refill st) = 0" "length (key (refill st)) = 16"
  shows "run (ks_step key refill) inp st = (xor_bytes inp (key (refill st)), (refill st)\<lparr>st_num := length inp mod 16\<rparr>)"
proof (cases inp)
  case (Cons b bs)
  obtain k ks where k: "key (refill st) = k # ks" using st(3) by (cases "key (refill st)") simp_all
  have "run (ks_step key refill) bs ((refill st)\<lparr>st_num := 1\<rparr>) =
      (xor_bytes bs ks, (refill st)\<lparr>st_num := (if bs = [] then 1 else (1 + length bs) mod 16)\<rparr>)"
    using key_run [of key 1 bs "refill st" refill] key inp(2) st(3) Cons k by simp
  then show ?thesis using st k Cons by (simp add: ks_step_def)
qed (use inp in simp)

text \<open>Where the loops over whole blocks leave off: what is left is done by one more refill.\<close>

lemma rest_run:
  assumes "\<And>st m. key (st\<lparr>st_num := m\<rparr>) = key st"
    and "rest \<noteq> []" "length rest < 16" "st_num st = 0" "st_num (refill st) = 0" "length (key (refill st)) = 16"
  shows "run (ks_step key refill) rest st =
    (last_bytes (key (refill st)) 0 rest, (refill st)\<lparr>st_num := length rest\<rparr>)"
  using assms block_run [of key rest st refill] by (simp add: last_bytes_0)

lemma run_whole_block:
  assumes "\<And>st m. key (st\<lparr>st_num := m\<rparr>) = key st"
    and "16 \<le> length inp" "st_num st = 0" "st_num (refill st) = 0" "length (key (refill st)) = 16"
  shows "run (ks_step key refill) inp st =
    (let (o2, t) = run (ks_step key refill) (drop 16 inp) (refill st) in (xor_bytes (take 16 inp) (key (refill st)) @ o2, t))"
proof -
  have "run (ks_step key refill) (take 16 inp) st = (xor_bytes (take 16 inp) (key (refill st)), (refill st)\<lparr>st_num := 0\<rparr>)"
    using assms block_run [of key "take 16 inp" st refill] by (cases inp) simp_all
  then show ?thesis
    using run_append [of "ks_step key refill" "take 16 inp" "drop 16 inp" st] assms(4) by (simp add: num_same)
qed

subsection \<open>Counter mode\<close>

definition ctr_refill :: "(bytes \<Rightarrow> bytes) \<Rightarrow> stream_state \<Rightarrow> stream_state" where
  "ctr_refill block st = st\<lparr>ivec := ctr128_inc (ivec st), ecount_buf := block (ivec st)\<rparr>"

definition ctr_step :: "(bytes \<Rightarrow> bytes) \<Rightarrow> u8 \<Rightarrow> stream_state \<Rightarrow> u8 \<times> stream_state" where
  "ctr_step block = ks_step ecount_buf (ctr_refill block)"

lemma ctr_refill_ok: "stream_ok block st \<Longrightarrow> stream_ok block (ctr_refill block st)"
  by (simp add: stream_ok_def ctr_refill_def ctr128_inc_def block_cipher_def)

lemma ctr_step_ok: "stream_ok block st \<Longrightarrow> ctr_step block b st = (a, t) \<Longrightarrow> stream_ok block t"
  using ctr_refill_ok [of block st]
  by (auto simp: ctr_step_def ks_step_def stream_ok_def Let_def split: if_splits)

lemma ctr_step_facts:
  assumes "stream_ok block st"
  shows "st_num (ctr_refill block st) = st_num st" "length (ecount_buf (ctr_refill block st)) = 16"
    "ecount_buf (ctr_refill block st) = block (ivec st)"
  using assms by (simp_all add: ctr_refill_def stream_ok_def block_cipher_def)

lemma ctr128_blocks_run:
  assumes "ctr128_blocks block inp st = (out, rest, st')" "stream_ok block st" "st_num st = 0"
  shows "length rest < 16 \<and> stream_ok block st' \<and> st_num st' = 0 \<and>
    run (ctr_step block) inp st = (let (o2, t) = run (ctr_step block) rest st' in (out @ o2, t))"
  using assms
proof (induction block inp st arbitrary: out rest st' rule: ctr128_blocks.induct)
  case (1 block inp st)
  show ?case
  proof (cases "16 \<le> length inp")
    case True
    let ?u = "ctr_refill block st"
    have u: "\<lparr>ivec = ctr128_inc (ivec st), ecount_buf = block (ivec st), st_num = 0\<rparr> = ?u"
      using 1(4) by (cases st) (simp add: ctr_refill_def)
    obtain o2 where o2: "ctr128_blocks block (drop 16 inp) ?u = (o2, rest, st')" "out = xor_bytes (take 16 inp) (block (ivec st)) @ o2"
      using 1(2) True by (subst (asm) ctr128_blocks.simps) (auto simp: Let_def u split: prod.splits)
    note f = ctr_step_facts [OF 1(3)]
    have "length rest < 16 \<and> stream_ok block st' \<and> st_num st' = 0 \<and>
        run (ctr_step block) (drop 16 inp) ?u = (let (o2', t) = run (ctr_step block) rest st' in (o2 @ o2', t))"
      by (rule 1(1) [OF True refl, unfolded u]) (use o2 ctr_refill_ok [OF 1(3)] 1(4) f in simp_all)
    then show ?thesis
      using run_whole_block [of ecount_buf inp st "ctr_refill block"] True 1(4) f o2(2)
      by (simp add: ctr_step_def [symmetric] split: prod.splits)
  qed (use 1 in \<open>auto simp: ctr128_blocks.simps [of block inp st] split: prod.splits\<close>)
qed

lemma ctr128_is_run:
  assumes "stream_ok block st"
  shows "CRYPTO_ctr128_encrypt block inp st = run (ctr_step block) inp st"
proof -
  obtain o1 n r where p: "pending_bytes (ecount_buf st) (st_num st) inp = (o1, n, r)"
    by (cases "pending_bytes (ecount_buf st) (st_num st) inp")
  let ?s = "st\<lparr>st_num := n\<rparr>"
  have *: "run (ctr_step block) inp st = (let (o2, t) = run (ctr_step block) r ?s in (o1 @ o2, t))"
    "n < 16" "n = 0 \<or> r = []"
    using pending_bytes_run [of ecount_buf, OF _ _ p, of "ctr_refill block"] assms
    by (simp_all add: ctr_step_def stream_ok_def)
  have s: "stream_ok block ?s" using assms *(2) by (simp add: stream_ok_def)
  show ?thesis
  proof (cases "n = 0")
    case True
    obtain o2 rest t where b: "ctr128_blocks block r ?s = (o2, rest, t)" by (cases "ctr128_blocks block r ?s")
    from ctr128_blocks_run [OF b s] True
    have t: "length rest < 16" "stream_ok block t" "st_num t = 0"
      and run: "run (ctr_step block) r ?s = (let (o3, u) = run (ctr_step block) rest t in (o2 @ o3, u))"
      by simp_all
    show ?thesis
    proof (cases "rest = []")
      case False
      have "run (ctr_step block) rest t = (last_bytes (block (ivec t)) 0 rest, (ctr_refill block t)\<lparr>st_num := length rest\<rparr>)"
        unfolding ctr_step_def
        using rest_run [of ecount_buf rest t "ctr_refill block"] False t ctr_step_facts [OF t(2)] by simp
      then show ?thesis using *(1) run p b t False
        by (cases t) (simp add: CRYPTO_ctr128_encrypt_def Let_def ctr_refill_def)
    qed (use *(1) run p b in \<open>simp add: CRYPTO_ctr128_encrypt_def\<close>)
  qed (use * p in \<open>simp add: CRYPTO_ctr128_encrypt_def ctr128_blocks.simps\<close>)
qed

interpretation ctr: inverse_modes "CRYPTO_ctr128_encrypt block" "CRYPTO_ctr128_encrypt block" "ctr_step block" "ctr_step block" "stream_ok block" for block
  by unfold_locales
    (auto simp: ctr128_is_run intro: ctr_step_ok, auto simp: ctr_step_def ks_step_def Let_def xor.assoc split: if_splits)

subsection \<open>Output feedback\<close>

definition ofb_refill :: "(bytes \<Rightarrow> bytes) \<Rightarrow> stream_state \<Rightarrow> stream_state" where
  "ofb_refill block st = st\<lparr>ivec := block (ivec st)\<rparr>"

definition ofb_step :: "(bytes \<Rightarrow> bytes) \<Rightarrow> u8 \<Rightarrow> stream_state \<Rightarrow> u8 \<times> stream_state" where
  "ofb_step block = ks_step ivec (ofb_refill block)"

lemma ofb_refill_ok: "stream_ok block st \<Longrightarrow> stream_ok block (ofb_refill block st)"
  by (simp add: stream_ok_def ofb_refill_def block_cipher_def)

lemma ofb_step_ok: "stream_ok block st \<Longrightarrow> ofb_step block b st = (a, t) \<Longrightarrow> stream_ok block t"
  using ofb_refill_ok [of block st]
  by (auto simp: ofb_step_def ks_step_def stream_ok_def Let_def split: if_splits)

lemma ofb_step_facts:
  assumes "stream_ok block st"
  shows "st_num (ofb_refill block st) = st_num st" "length (ivec (ofb_refill block st)) = 16"
    "ivec (ofb_refill block st) = block (ivec st)"
  using assms by (simp_all add: ofb_refill_def stream_ok_def block_cipher_def)

lemma ofb128_blocks_run:
  assumes "ofb128_blocks block inp (ivec st) = (out, rest, iv)" "stream_ok block st" "st_num st = 0"
  shows "length rest < 16 \<and> stream_ok block (st\<lparr>ivec := iv\<rparr>) \<and>
    run (ofb_step block) inp st = (let (o2, t) = run (ofb_step block) rest (st\<lparr>ivec := iv\<rparr>) in (out @ o2, t))"
  using assms
proof (induction block inp "ivec st" arbitrary: st out rest rule: ofb128_blocks.induct)
  case (1 block inp)
  show ?case
  proof (cases "16 \<le> length inp")
    case True
    let ?u = "ofb_refill block st"
    note f = ofb_step_facts [OF 1(3)]
    obtain o2 where o2: "ofb128_blocks block (drop 16 inp) (ivec ?u) = (o2, rest, iv)" "out = xor_bytes (take 16 inp) (block (ivec st)) @ o2"
      using 1(2) True by (subst (asm) ofb128_blocks.simps) (auto simp: Let_def f split: prod.splits)
    have "length rest < 16 \<and> stream_ok block (?u\<lparr>ivec := iv\<rparr>) \<and>
        run (ofb_step block) (drop 16 inp) ?u = (let (o2', t) = run (ofb_step block) rest (?u\<lparr>ivec := iv\<rparr>) in (o2 @ o2', t))"
      by (rule 1(1) [OF True f(3)]) (use o2 ofb_refill_ok [OF 1(3)] 1(4) f in simp_all)
    then show ?thesis
      using run_whole_block [of ivec inp st "ofb_refill block"] True 1(4) f o2(2)
      by (simp add: ofb_step_def [symmetric] ofb_refill_def split: prod.splits)
  qed (use 1 in \<open>auto simp: ofb128_blocks.simps [of block inp "ivec st"] split: prod.splits\<close>)
qed

lemma ofb128_is_run:
  assumes "stream_ok block st"
  shows "CRYPTO_ofb128_encrypt block inp st = run (ofb_step block) inp st"
proof -
  obtain o1 n r where p: "pending_bytes (ivec st) (st_num st) inp = (o1, n, r)"
    by (cases "pending_bytes (ivec st) (st_num st) inp")
  let ?s = "st\<lparr>st_num := n\<rparr>"
  have *: "run (ofb_step block) inp st = (let (o2, t) = run (ofb_step block) r ?s in (o1 @ o2, t))"
    "n < 16" "n = 0 \<or> r = []"
    using pending_bytes_run [of ivec, OF _ _ p, of "ofb_refill block"] assms
    by (simp_all add: ofb_step_def stream_ok_def)
  have s: "stream_ok block ?s" using assms *(2) by (simp add: stream_ok_def)
  show ?thesis
  proof (cases "n = 0")
    case True
    obtain o2 rest iv where b: "ofb128_blocks block r (ivec ?s) = (o2, rest, iv)" by (cases "ofb128_blocks block r (ivec ?s)")
    let ?t = "?s\<lparr>ivec := iv\<rparr>"
    from ofb128_blocks_run [OF b s] True
    have t: "length rest < 16" "stream_ok block ?t" "st_num ?t = 0"
      and run: "run (ofb_step block) r ?s = (let (o3, u) = run (ofb_step block) rest ?t in (o2 @ o3, u))"
      by simp_all
    show ?thesis
    proof (cases "rest = []")
      case False
      have "run (ofb_step block) rest ?t = (last_bytes (block iv) 0 rest, (ofb_refill block ?t)\<lparr>st_num := length rest\<rparr>)"
        unfolding ofb_step_def
        using rest_run [of ivec rest ?t "ofb_refill block"] False t ofb_step_facts [OF t(2)] by simp
      then show ?thesis using *(1) run p b t False
        by (cases st) (simp add: CRYPTO_ofb128_encrypt_def Let_def ofb_refill_def)
    qed (use *(1) run p b in \<open>simp add: CRYPTO_ofb128_encrypt_def\<close>)
  qed (use * p in \<open>simp add: CRYPTO_ofb128_encrypt_def ofb128_blocks.simps\<close>)
qed

interpretation ofb: inverse_modes "CRYPTO_ofb128_encrypt block" "CRYPTO_ofb128_encrypt block" "ofb_step block" "ofb_step block" "stream_ok block" for block
  by unfold_locales
    (auto simp: ofb128_is_run intro: ofb_step_ok, auto simp: ofb_step_def ks_step_def Let_def xor.assoc split: if_splits)

subsection \<open>Cipher feedback\<close>

definition cfb_step :: "(bytes \<Rightarrow> bytes) \<Rightarrow> bool \<Rightarrow> u8 \<Rightarrow> stream_state \<Rightarrow> u8 \<times> stream_state" where
  "cfb_step block enc b st =
     (let iv = (if st_num st = 0 then block (ivec st) else ivec st);
          (a, c) = cfb_out enc (iv ! st_num st) b in
      (a, st\<lparr>ivec := iv[st_num st := c], st_num := (st_num st + 1) mod 16\<rparr>))"

lemma cfb_step_ok:
  assumes ok: "stream_ok block st" and step: "cfb_step block enc b st = (a, t)"
  shows "stream_ok block t"
proof -
  let ?iv = "if st_num st = 0 then block (ivec st) else ivec st"
  obtain x c where xc: "cfb_out enc (?iv ! st_num st) b = (x, c)" by fastforce
  have t: "t = st\<lparr>ivec := ?iv[st_num st := c], st_num := (st_num st + 1) mod 16\<rparr>"
    using step unfolding cfb_step_def Let_def xc by simp
  have "length ?iv = 16" using ok by (simp add: stream_ok_def block_cipher_def)
  with ok t show ?thesis by (simp add: stream_ok_def)
qed

lemma cfb_step_back:
  assumes "stream_ok block st" "cfb_step block True b st = (a, t)"
  shows "cfb_step block False a st = (b, t)"
  using assms by (auto simp: cfb_step_def cfb_out_def Let_def xor.assoc [symmetric])

lemma cfb_pending_run:
  "stream_ok block st \<Longrightarrow> cfb_pending enc (ivec st) (st_num st) inp = (out, iv, n, rest) \<Longrightarrow>
    run (cfb_step block enc) inp st =
      (let (o2, t) = run (cfb_step block enc) rest (st\<lparr>ivec := iv, st_num := n\<rparr>) in (out @ o2, t)) \<and>
    stream_ok block (st\<lparr>ivec := iv, st_num := n\<rparr>) \<and> (n = 0 \<or> rest = [])"
proof (induction inp arbitrary: st out iv n rest)
  case (Cons b inp)
  show ?case
  proof (cases "st_num st = 0")
    case False
    obtain a c where ac: "cfb_out enc (ivec st ! st_num st) b = (a, c)" by (cases "cfb_out enc (ivec st ! st_num st) b")
    let ?t = "st\<lparr>ivec := (ivec st)[st_num st := c], st_num := (st_num st + 1) mod 16\<rparr>"
    have step: "cfb_step block enc b st = (a, ?t)" using ac False by (simp add: cfb_step_def)
    obtain o1 iv' m r where p: "cfb_pending enc (ivec ?t) (st_num ?t) inp = (o1, iv', m, r)"
      by (cases "cfb_pending enc (ivec ?t) (st_num ?t) inp")
    from Cons.IH [OF cfb_step_ok [OF Cons.prems(1) step] p] show ?thesis
      using Cons.prems False p ac step by (auto split: prod.splits)
  next
    case True
    then have "st\<lparr>ivec := ivec st, st_num := 0\<rparr> = st" by auto
    moreover have "out = []" "iv = ivec st" "n = 0" "rest = b # inp" using True Cons.prems by simp_all
    ultimately show ?thesis using Cons.prems(1) by (simp split: prod.splits)
  qed
qed auto

text \<open>The last loop does what the whole blocks do, for a part of a block.\<close>

lemma cfb_last_closed:
  "n + length inp \<le> length iv \<Longrightarrow> cfb_last enc iv n inp =
    (xor_bytes (drop n iv) inp, write_at n (if enc then xor_bytes (drop n iv) inp else inp) iv, n + length inp)"
proof (induction inp arbitrary: iv n)
  case (Cons b inp)
  have iv: "drop n iv = iv ! n # drop (Suc n) iv" using Cons.prems by (simp add: Cons_nth_drop_Suc)
  have d: "drop (Suc n) (iv[n := c]) = drop (Suc n) iv" for c by simp
  have w: "write_at (Suc n) bs (iv[n := c]) = write_at n (c # bs) iv" for c bs
    using Cons.prems by (simp add: write_at_def take_Suc_conv_app_nth take_update_cancel)
  show ?case using Cons.IH [of "Suc n"] Cons.prems by (cases enc) (simp_all add: cfb_out_def iv d w Let_def)
qed (simp_all add: write_at_def)

lemma cfb_last_run:
  "n + length inp \<le> 16 \<Longrightarrow> n \<noteq> 0 \<Longrightarrow> cfb_last enc iv n inp = (out, iv', m) \<Longrightarrow>
    run (cfb_step block enc) inp (st\<lparr>ivec := iv, st_num := n\<rparr>) =
      (out, st\<lparr>ivec := iv', st_num := (if inp = [] then n else m mod 16)\<rparr>)"
proof (induction inp arbitrary: iv n out)
  case (Cons b inp)
  obtain a c where ac: "cfb_out enc (iv ! n) b = (a, c)" by (cases "cfb_out enc (iv ! n) b")
  show ?case
  proof (cases "inp = []")
    case False
    then have n: "n < 15" using Cons.prems by (cases inp) simp_all
    obtain o2 where o2: "cfb_last enc (iv[n := c]) (n + 1) inp = (o2, iv', m)" "out = a # o2"
      using Cons.prems ac by (auto split: prod.splits)
    show ?thesis
      using Cons.IH [OF _ _ o2(1)] Cons.prems n o2(2) ac False by (simp add: cfb_step_def)
  qed (use Cons.prems ac in \<open>simp add: cfb_step_def\<close>)
qed simp

lemma cfb_block_run:
  assumes "inp \<noteq> []" "length inp \<le> 16" "cfb_last enc (block (ivec st)) 0 inp = (out, iv, m)" "st_num st = 0"
  shows "run (cfb_step block enc) inp st = (out, st\<lparr>ivec := iv, st_num := m mod 16\<rparr>)"
proof (cases inp)
  case (Cons b bs)
  let ?iv = "block (ivec st)"
  obtain a c where ac: "cfb_out enc (?iv ! 0) b = (a, c)" by (cases "cfb_out enc (?iv ! 0) b")
  obtain o2 where o2: "cfb_last enc (?iv[0 := c]) 1 bs = (o2, iv, m)" "out = a # o2"
    using assms(3) ac Cons by (auto split: prod.splits)
  have "run (cfb_step block enc) bs (st\<lparr>ivec := ?iv[0 := c], st_num := 1\<rparr>) =
      (o2, st\<lparr>ivec := iv, st_num := (if bs = [] then 1 else m mod 16)\<rparr>)"
    by (rule cfb_last_run) (use assms(2) o2 Cons in simp_all)
  then show ?thesis
    using assms(4) ac o2 Cons by (auto simp: cfb_step_def)
qed (use assms(1) in simp)

lemma cfb_whole_block_run:
  assumes "16 \<le> length inp" "st_num st = 0" "length (block (ivec st)) = 16"
  shows "run (cfb_step block enc) inp st =
    (let t = xor_bytes (block (ivec st)) (take 16 inp);
         (o2, u) = run (cfb_step block enc) (drop 16 inp) (st\<lparr>ivec := (if enc then t else take 16 inp)\<rparr>) in (t @ o2, u))"
proof -
  let ?t = "xor_bytes (block (ivec st)) (take 16 inp)"
  have "cfb_last enc (block (ivec st)) 0 (take 16 inp) = (?t, if enc then ?t else take 16 inp, 16)"
    using assms by (simp add: cfb_last_closed write_at_def)
  then have "run (cfb_step block enc) (take 16 inp) st = (?t, st\<lparr>ivec := (if enc then ?t else take 16 inp), st_num := 16 mod 16\<rparr>)"
    by (intro cfb_block_run) (use assms in auto)
  then have "run (cfb_step block enc) (take 16 inp) st = (?t, st\<lparr>ivec := (if enc then ?t else take 16 inp)\<rparr>)"
    using assms(2) by (cases st) simp
  then show ?thesis
    using run_append [of "cfb_step block enc" "take 16 inp" "drop 16 inp" st] by (simp add: Let_def)
qed

lemma cfb128_blocks_run:
  assumes "cfb128_blocks block enc inp (ivec st) = (out, rest, iv)" "stream_ok block st" "st_num st = 0"
  shows "length rest < 16 \<and> stream_ok block (st\<lparr>ivec := iv\<rparr>) \<and>
    run (cfb_step block enc) inp st = (let (o2, t) = run (cfb_step block enc) rest (st\<lparr>ivec := iv\<rparr>) in (out @ o2, t))"
  using assms
proof (induction block enc inp "ivec st" arbitrary: st out rest rule: cfb128_blocks.induct)
  case (1 block enc inp)
  show ?case
  proof (cases "16 \<le> length inp")
    case True
    let ?x = "xor_bytes (block (ivec st)) (take 16 inp)"
    let ?u = "st\<lparr>ivec := (if enc then ?x else take 16 inp)\<rparr>"
    have bl: "length (block (ivec st)) = 16" using 1(3) by (simp add: stream_ok_def block_cipher_def)
    obtain o2 where o2: "cfb128_blocks block enc (drop 16 inp) (ivec ?u) = (o2, rest, iv)" "out = ?x @ o2"
      using 1(2) True by (subst (asm) cfb128_blocks.simps) (auto simp: Let_def split: prod.splits)
    have "length rest < 16 \<and> stream_ok block (?u\<lparr>ivec := iv\<rparr>) \<and>
        run (cfb_step block enc) (drop 16 inp) ?u = (let (o2', t) = run (cfb_step block enc) rest (?u\<lparr>ivec := iv\<rparr>) in (o2 @ o2', t))"
      by (rule 1(1) [OF True refl]) (use o2 1(3,4) bl True in \<open>simp_all add: stream_ok_def\<close>)
    then show ?thesis
      using cfb_whole_block_run [of inp st block enc] True 1(4) bl o2(2)
      by (simp add: Let_def split: prod.splits)
  qed (use 1 in \<open>auto simp: cfb128_blocks.simps [of block enc inp "ivec st"] split: prod.splits\<close>)
qed

lemma cfb128_is_run:
  assumes "stream_ok block st"
  shows "CRYPTO_cfb128_encrypt block enc inp st = run (cfb_step block enc) inp st"
proof -
  obtain o1 iv n r where p: "cfb_pending enc (ivec st) (st_num st) inp = (o1, iv, n, r)"
    by (cases "cfb_pending enc (ivec st) (st_num st) inp")
  let ?s = "st\<lparr>ivec := iv, st_num := n\<rparr>"
  have *: "run (cfb_step block enc) inp st = (let (o2, t) = run (cfb_step block enc) r ?s in (o1 @ o2, t))"
    "stream_ok block ?s" "n = 0 \<or> r = []"
    using cfb_pending_run [OF assms p] by simp_all
  show ?thesis
  proof (cases "n = 0")
    case True
    obtain o2 rest iv' where b: "cfb128_blocks block enc r (ivec ?s) = (o2, rest, iv')" by (cases "cfb128_blocks block enc r (ivec ?s)")
    let ?t = "?s\<lparr>ivec := iv'\<rparr>"
    from cfb128_blocks_run [OF b *(2)] True
    have t: "length rest < 16" "stream_ok block ?t"
      and run: "run (cfb_step block enc) r ?s = (let (o3, u) = run (cfb_step block enc) rest ?t in (o2 @ o3, u))"
      by simp_all
    show ?thesis
    proof (cases "rest = []")
      case False
      obtain o3 iv3 m where l: "cfb_last enc (block (ivec ?t)) 0 rest = (o3, iv3, m)" by (cases "cfb_last enc (block (ivec ?t)) 0 rest")
      have "m = length rest"
        using l t cfb_last_closed [of 0 rest "block (ivec ?t)" enc] by (simp add: stream_ok_def block_cipher_def)
      moreover have "run (cfb_step block enc) rest ?t = (o3, ?t\<lparr>ivec := iv3, st_num := m mod 16\<rparr>)"
        by (intro cfb_block_run) (use t True False l in simp_all)
      ultimately show ?thesis using *(1) run p b l t False True
        by (simp add: CRYPTO_cfb128_encrypt_def)
    qed (use *(1) run p b in \<open>simp add: CRYPTO_cfb128_encrypt_def\<close>)
  qed (use * p in \<open>simp add: CRYPTO_cfb128_encrypt_def cfb128_blocks.simps\<close>)
qed

interpretation cfb: inverse_modes "CRYPTO_cfb128_encrypt block True" "CRYPTO_cfb128_encrypt block False" "cfb_step block True" "cfb_step block False" "stream_ok block" for block
  by unfold_locales (auto simp: cfb128_is_run intro: cfb_step_ok cfb_step_back)

text \<open>Feedback of a byte.\<close>

definition cfb8_step :: "(bytes \<Rightarrow> bytes) \<Rightarrow> bool \<Rightarrow> u8 \<Rightarrow> stream_state \<Rightarrow> u8 \<times> stream_state" where
  "cfb8_step block enc b st =
     (let (a, c) = cfb_out enc (block (ivec st) ! 0) b in (a, st\<lparr>ivec := drop 1 (ivec st) @ [c]\<rparr>))"

lemma cfb8_block:
  "length iv = 16 \<Longrightarrow> cfbr_encrypt_block block enc 8 [b] iv =
    (let (a, c) = cfb_out enc (block iv ! 0) b in ([a], drop 1 iv @ [c]))"
  by (simp add: cfbr_encrypt_block_def split: prod.splits)

lemma cfb8_is_run:
  "stream_ok block st \<Longrightarrow> CRYPTO_cfb128_8_encrypt block enc inp st = run (cfb8_step block enc) inp st"
proof (induction inp arbitrary: st)
  case (Cons b inp)
  obtain a c where ac: "cfb_out enc (block (ivec st) ! 0) b = (a, c)" by (cases "cfb_out enc (block (ivec st) ! 0) b")
  let ?u = "st\<lparr>ivec := drop 1 (ivec st) @ [c]\<rparr>"
  have "stream_ok block ?u" using Cons.prems by (simp add: stream_ok_def)
  note ih = Cons.IH [OF this]
  have step: "cfb8_step block enc b st = (a, ?u)" using ac by (simp add: cfb8_step_def)
  obtain o2 iv where r: "cfb8_loop block enc inp (ivec ?u) = (o2, iv)" by (cases "cfb8_loop block enc inp (ivec ?u)")
  have "run (cfb8_step block enc) inp ?u = (o2, ?u\<lparr>ivec := iv\<rparr>)"
    using ih r by (simp add: CRYPTO_cfb128_8_encrypt_def)
  then show ?case
    using Cons.prems ac r by (simp add: CRYPTO_cfb128_8_encrypt_def cfb8_block stream_ok_def step)
qed (simp add: CRYPTO_cfb128_8_encrypt_def)

interpretation cfb8: inverse_modes "CRYPTO_cfb128_8_encrypt block True" "CRYPTO_cfb128_8_encrypt block False" "cfb8_step block True" "cfb8_step block False" "stream_ok block" for block
  by unfold_locales
    (auto simp: cfb8_is_run cfb8_step_def cfb_out_def stream_ok_def Let_def xor.assoc [symmetric])

end
