(* ===== verification/StreamModes.thy ===== *)
theory StreamModes
  imports Modes
begin

text \<open>
  The stream modes as the standards have them: feedback of a bit, the value of the counter, the counter mode built
  on a function that counts in 32 bits, and the properties of \<open>Modes\<close>.
\<close>

section \<open>Feedback of a bit\<close>

text \<open>Feedback of a bit. The bits of a buffer are numbered from the top of its first byte.\<close>

definition bit_at :: "bytes \<Rightarrow> nat \<Rightarrow> bool" where
  "bit_at p n = bit (p ! (n div 8)) (7 - n mod 8)"

definition cfb1_shift :: "bytes \<Rightarrow> bool \<Rightarrow> bytes" where
  "cfb1_shift iv c = map (\<lambda>n. push_bit 1 (iv ! n) OR (if n = 15 then of_bool c else drop_bit 7 (iv ! (n + 1)))) [0..<16]"

definition cfb1_step :: "(bytes \<Rightarrow> bytes) \<Rightarrow> bool \<Rightarrow> bool \<Rightarrow> bytes \<Rightarrow> bool \<times> bytes" where
  "cfb1_step block enc b iv =
     (let a = (b \<noteq> bit (block iv ! 0) 7) in (a, cfb1_shift iv (if enc then a else b)))"

lemma drop_bit_7: "drop_bit 7 (c :: u8) = of_bool (bit c 7)"
proof (rule bit_eqI)
  fix n
  show "bit (drop_bit 7 c) n \<longleftrightarrow> bit (of_bool (bit c 7) :: u8) n"
    using bit_imp_le_length [of c "n + 7"] by (auto simp: bit_simps add.commute)
qed

lemma bit_0x80: "bit (0x80 :: u8) j \<longleftrightarrow> j = 7"
proof -
  have "(0x80 :: u8) = push_bit 7 1" by simp
  then show ?thesis by (simp only: bit_push_bit_iff bit_1_iff) auto
qed

lemma cfb1_block:
  assumes "length iv = 16" "c = (if b then 0x80 else 0)"
  shows "\<exists>d. cfbr_encrypt_block block enc 1 [c] iv = ([d], snd (cfb1_step block enc b iv)) \<and> bit d 7 = fst (cfb1_step block enc b iv)"
proof -
  have c: "bit c 7 = b" using assms(2) by (simp add: bit_0x80)
  obtain a x where ax: "cfb_out enc (block iv ! 0) c = (a, x)" by (cases "cfb_out enc (block iv ! 0) c")
  then have a: "bit a 7 = fst (cfb1_step block enc b iv)"
    and x: "bit x 7 = (if enc then fst (cfb1_step block enc b iv) else b)"
    using c by (auto simp: cfb_out_def cfb1_step_def Let_def bit_xor_iff split: if_splits)
  have "map (\<lambda>n. push_bit 1 ((iv @ [x]) ! n) OR drop_bit 7 ((iv @ [x]) ! (n + 1))) [0..<16] = cfb1_shift iv (bit x 7)"
    using assms(1) by (auto simp: cfb1_shift_def nth_append drop_bit_7)
  then show ?thesis
    using a x ax by (simp add: cfbr_encrypt_block_def cfb1_step_def Let_def)
qed

lemma cfb1_bit:
  fixes w d :: u8
  assumes "m < 8" "j < 8"
  shows "bit ((w AND NOT (push_bit (7 - m) 1)) OR drop_bit m (d AND 0x80)) (7 - j) =
    (if j = m then bit d 7 else bit w (7 - j))"
proof -
  define h :: u8 where "h = 0x80"
  have h: "bit h i \<longleftrightarrow> i = 7" for i by (simp only: h_def bit_0x80)
  have "m + (7 - j) = 7 \<longleftrightarrow> j = m" using assms by auto
  then have 1: "bit (drop_bit m (d AND h)) (7 - j) \<longleftrightarrow> j = m \<and> bit d 7"
    by (auto simp: bit_drop_bit_eq bit_and_iff h)
  have 2: "bit (NOT (push_bit (7 - m) 1) :: u8) (7 - j) \<longleftrightarrow> j \<noteq> m"
    using assms by (auto simp: bit_not_iff bit_exp_iff)
  show ?thesis unfolding h_def [symmetric] by (simp only: bit_or_iff bit_and_iff 1 2) auto
qed

lemma test_bit_and: "((w :: u8) AND push_bit m 1 \<noteq> 0) = bit w m"
  by (simp only: bit_iff_and_push_bit_not_eq_0)

lemma cfb1_loop_run:
  "length iv = 16 \<Longrightarrow> n + k \<le> 8 * length out \<Longrightarrow> cfb1_loop block enc inp k n out iv = (out', iv') \<Longrightarrow>
    run (cfb1_step block enc) (map (bit_at inp) [n..<n + k]) iv = (map (bit_at out') [n..<n + k], iv') \<and>
    length out' = length out \<and> (\<forall>i. i < n \<or> n + k \<le> i \<and> i < 8 * length out \<longrightarrow> bit_at out' i = bit_at out i)"
proof (induction k arbitrary: n out iv)
  case (Suc k)
  let ?b = "bit_at inp n"
  let ?c = "if inp ! (n div 8) AND push_bit (7 - n mod 8) 1 \<noteq> 0 then 0x80 else (0 :: u8)"
  obtain a v where av: "cfb1_step block enc ?b iv = (a, v)" by (cases "cfb1_step block enc ?b iv")
  obtain d where d: "cfbr_encrypt_block block enc 1 [?c] iv = ([d], v)" "bit d 7 = a"
    using cfb1_block [OF Suc.prems(1), of ?c ?b block enc] av by (auto simp only: test_bit_and bit_at_def fst_conv snd_conv)
  let ?o = "out[n div 8 := (out ! (n div 8) AND NOT (push_bit (7 - n mod 8) 1)) OR drop_bit (n mod 8) (d AND 0x80)]"
  have n: "n div 8 < length out" using Suc.prems(2) by simp
  have v: "length v = 16" using av by (auto simp: cfb1_step_def cfb1_shift_def Let_def)
  have o: "bit_at ?o i = (if i = n then a else bit_at out i)" if "i < 8 * length out" for i
  proof (cases "i div 8 = n div 8")
    case True
    then have "(i mod 8 = n mod 8) = (i = n)" by (metis div_mult_mod_eq)
    then show ?thesis
      using True n d(2) cfb1_bit [of "n mod 8" "i mod 8" "out ! (n div 8)" d] by (simp add: bit_at_def)
  qed (auto simp: bit_at_def)
  have l: "cfb1_loop block enc inp k (n + 1) ?o v = (out', iv')" using Suc.prems(3) d(1) by simp
  have len: "n + 1 + k \<le> 8 * length ?o" using Suc.prems(2) by simp
  have ih:
    "run (cfb1_step block enc) (map (bit_at inp) [n + 1..<n + 1 + k]) v = (map (bit_at out') [n + 1..<n + 1 + k], iv')"
    "length out' = length out"
    "\<And>i. i < n + 1 \<or> n + 1 + k \<le> i \<and> i < 8 * length out \<Longrightarrow> bit_at out' i = bit_at ?o i"
    using Suc.IH [OF v len l] unfolding length_list_update by blast+
  have "[n..<n + Suc k] = n # [n + 1..<n + 1 + k]" by (simp add: upt_conv_Cons)
  moreover have "bit_at out' n = a" using ih(3) [of n] o [of n] Suc.prems(2) by simp
  ultimately show ?case
    using ih o Suc.prems(2) av by (auto simp del: upt_Suc)
qed simp

lemma cfb1_step_back:
  "cfb1_step block True b iv = (a, t) \<Longrightarrow> cfb1_step block False a iv = (b, t)"
  by (auto simp: cfb1_step_def Let_def)

lemma cfb1_back:
  assumes st: "length (ivec st) = 16"
    and len: "bits \<le> 8 * length out" "bits \<le> 8 * length buf"
    and enc: "CRYPTO_cfb128_1_encrypt block True inp bits out st = (c, t)"
    and dec: "CRYPTO_cfb128_1_encrypt block False c bits buf st = (p, u)"
  shows "t = u" "\<forall>i < bits. bit_at p i = bit_at inp i" "\<forall>i. bits \<le> i \<and> i < 8 * length buf \<longrightarrow> bit_at p i = bit_at buf i"
proof -
  obtain iv where e: "cfb1_loop block True inp bits 0 out (ivec st) = (c, iv)" "t = st\<lparr>ivec := iv\<rparr>"
    using enc by (auto simp: CRYPTO_cfb128_1_encrypt_def split: prod.splits)
  obtain iv' where d: "cfb1_loop block False c bits 0 buf (ivec st) = (p, iv')" "u = st\<lparr>ivec := iv'\<rparr>"
    using dec by (auto simp: CRYPTO_cfb128_1_encrypt_def split: prod.splits)
  note e' = cfb1_loop_run [OF st _ e(1)] and d' = cfb1_loop_run [OF st _ d(1)]
  have "run (cfb1_step block False) (map (bit_at c) [0..<bits]) (ivec st) = (map (bit_at inp) [0..<bits], iv)"
    by (rule run_back [of "\<lambda>_. True" "cfb1_step block True"]) (use e' len cfb1_step_back in auto)
  then show "t = u" "\<forall>i < bits. bit_at p i = bit_at inp i" "\<forall>i. bits \<le> i \<and> i < 8 * length buf \<longrightarrow> bit_at p i = bit_at buf i"
    using d' len e(2) d(2) by (auto simp: map_eq_conv)
qed

section \<open>Counters\<close>

subsection \<open>The counter\<close>

lemma low_byte: "unat (ucast (e :: u32) :: u8) = unat e mod 256"
  by (simp only: ucast_u8_of_unat unat_u8_of_nat)

lemma counter_inc_nat:
  assumes "n \<le> length counter" "unat c < 2 ^ 24"
  shows "be_nat (take n (counter_inc n c counter)) = (be_nat (take n counter) + unat c) mod 256 ^ n \<and>
    drop n (counter_inc n c counter) = drop n counter"
  using assms
proof (induction n arbitrary: c counter)
  case (Suc n)
  define e :: u32 where "e = c + ucast (counter ! n)"
  define r where "r = counter_inc n (drop_bit 8 e) (counter[n := ucast e])"
  have "unat c + unat (counter ! n) < 2 ^ 24 + 256" by (rule add_strict_mono [OF Suc.prems(2) unat_u8_less])
  then have "unat c + unat (counter ! n) < 2 ^ 32" by simp
  then have c: "unat e = unat c + unat (counter ! n)"
    using unat_word_ariths(1) [of c "ucast (counter ! n)"] by (simp add: e_def)
  have d: "unat (drop_bit 8 e) = unat e div 256" by (simp add: unat_shift_right)
  have "unat (drop_bit 8 e) < 2 ^ 24" unfolding d c using \<open>unat c + unat (counter ! n) < 2 ^ 32\<close> by simp
  with Suc.IH [of "counter[n := ucast e]" "drop_bit 8 e"] Suc.prems(1)
  have ih: "be_nat (take n r) = (be_nat (take n counter) + unat e div 256) mod 256 ^ n"
    "drop n r = drop n (counter[n := ucast e])"
    by (simp_all add: d r_def)
  have l: "n < length r" using Suc.prems(1) by (simp add: r_def)
  have hd: "r ! n = ucast e" "drop (Suc n) r = drop (Suc n) counter"
    using arg_cong [OF ih(2), of hd] arg_cong [OF ih(2), of "drop 1"] l Suc.prems(1)
    by (simp_all add: hd_drop_conv_nth)
  have "be_nat (take (Suc n) r) = 256 * ((be_nat (take n counter) + unat e div 256) mod 256 ^ n) + unat e mod 256"
    using l ih(1) hd(1) by (simp add: take_Suc_conv_app_nth low_byte)
  also have "\<dots> = (256 * be_nat (take n counter) + unat e) mod 256 ^ Suc n"
    by (simp add: mod_mult2_eq)
  also have "256 * be_nat (take n counter) + unat e = be_nat (take (Suc n) counter) + unat c"
    using Suc.prems(1) c by (simp add: take_Suc_conv_app_nth)
  finally show ?case using hd(2) by (simp add: Let_def e_def [symmetric] r_def [symmetric])
qed simp

lemma ctr128_inc_be:
  assumes "length iv = 16"
  shows "ctr128_inc iv = be_bytes 16 (be_nat iv + 1)"
proof (rule be_nat_inj)
  show "length (ctr128_inc iv) = length (be_bytes 16 (be_nat iv + 1))"
    using assms by (simp add: ctr128_inc_def)
  have "take 16 (counter_inc 16 1 iv) = counter_inc 16 1 iv" using assms by simp
  then show "be_nat (ctr128_inc iv) = be_nat (be_bytes 16 (be_nat iv + 1))"
    using counter_inc_nat [of 16 iv 1] assms by (simp add: ctr128_inc_def be_nat_be_bytes)
qed

lemma be_bytes_mod: "be_bytes k (n mod 256 ^ k) = be_bytes k n"
  by (rule be_nat_inj) (simp_all add: be_nat_be_bytes)

lemma ctr128_inc_pow:
  assumes "length iv = 16"
  shows "(ctr128_inc ^^ i) iv = be_bytes 16 (be_nat iv + i)"
proof (induction i)
  case (Suc i)
  have "be_bytes 16 (be_nat (be_bytes 16 (be_nat iv + i)) + 1) = be_bytes 16 ((be_nat iv + i) mod 256 ^ 16 + 1)"
    by (simp only: be_nat_be_bytes)
  also have "\<dots> = be_bytes 16 (be_nat iv + Suc i)"
    using be_bytes_mod [of 16 "(be_nat iv + i) mod 256 ^ 16 + 1"] be_bytes_mod [of 16 "be_nat iv + Suc i"]
    by (simp only: mod_add_left_eq add_Suc_right Suc_eq_plus1 add.assoc)
  finally show ?case using Suc ctr128_inc_be [of "be_bytes 16 (be_nat iv + i)"] by simp
qed (use assms in \<open>simp add: be_bytes_be_nat\<close>)

text \<open>The four low bytes count and the carry goes to the others.\<close>

lemma be_bytes_split: "be_bytes (j + k) n = be_bytes j (n div 256 ^ k) @ be_bytes k n"
proof (induction k arbitrary: n)
  case (Suc k)
  then show ?case by (simp add: div_mult2_eq)
qed simp

lemma digit_div: "r < M \<Longrightarrow> (h * M + r) div M = (h :: nat)" "0 < M \<Longrightarrow> (h * M + M) div M = h + 1"
  by (cases "M = 0"; simp)+

lemma ctr32_put_pow:
  assumes iv: "length iv = 16" and k: "be_nat (drop 12 iv) + k \<le> 2 ^ 32"
    and v: "unat v = (be_nat (drop 12 iv) + k) mod 2 ^ 32" and k0: "0 < k"
  shows "ctr32_put iv v = (ctr128_inc ^^ k) iv"
proof -
  define hi where "hi = be_nat (take 12 iv)"
  define lo where "lo = be_nat (drop 12 iv)"
  have n: "be_nat iv = hi * 2 ^ 32 + lo"
    using be_nat_append [of "take 12 iv" "drop 12 iv"] iv by (simp add: hi_def lo_def)
  have p: "PUTU32 12 iv v = take 12 iv @ be_bytes 4 (unat v)"
    using iv by (simp add: PUTU32_def write_at_def)
  have s: "be_bytes 16 m = be_bytes 12 (m div 2 ^ 32) @ be_bytes 4 m" for m
    using be_bytes_split [of 12 4 m] by simp
  have t: "take 12 iv = be_bytes 12 hi" using iv by (simp add: hi_def be_bytes_be_nat)
  have low: "be_bytes 4 (unat v) = be_bytes 4 (be_nat iv + k)"
  proof -
    have "be_bytes 4 (unat v) = be_bytes 4 (lo + k)"
      using be_bytes_mod [of 4 "lo + k"] v by (simp add: lo_def)
    also have "\<dots> = be_bytes 4 (be_nat iv + k)"
      using be_bytes_mod [of 4 "lo + k"] be_bytes_mod [of 4 "be_nat iv + k"] n by (simp add: add.assoc)
    finally show ?thesis .
  qed
  show ?thesis
  proof (cases "lo + k = 2 ^ 32")
    case False
    then have lt: "lo + k < 2 ^ 32" using k by (simp add: lo_def)
    then have "v \<noteq> 0" using v k0 by (auto simp: lo_def)
    moreover have "(be_nat iv + k) div 2 ^ 32 = hi"
      unfolding n add.assoc by (rule digit_div(1) [OF lt])
    ultimately show ?thesis
      using s [of "be_nat iv + k"] low p t by (simp add: ctr32_put_def ctr128_inc_pow [OF iv])
  next
    case True
    then have "v = 0" using v by (simp add: lo_def word_unat_eq_iff)
    let ?w = "take 12 iv @ be_bytes 4 (unat v)"
    have "be_nat (take 12 (ctr96_inc ?w)) = (hi + 1) mod 256 ^ 12" "drop 12 (ctr96_inc ?w) = be_bytes 4 (unat v)"
      using counter_inc_nat [of 12 ?w 1] iv by (simp_all add: ctr96_inc_def hi_def)
    then have "take 12 (ctr96_inc ?w) = be_bytes 12 (hi + 1)"
      using iv by (intro be_nat_inj) (simp_all add: be_nat_be_bytes ctr96_inc_def)
    moreover have "(be_nat iv + k) div 2 ^ 32 = hi + 1"
      unfolding n add.assoc True by (rule digit_div(2)) simp
    ultimately have "ctr96_inc ?w = be_bytes 16 (be_nat iv + k)"
      using append_take_drop_id [of 12 "ctr96_inc ?w"] s [of "be_nat iv + k"] low \<open>drop 12 (ctr96_inc ?w) = _\<close> by simp
    then show ?thesis
      using \<open>v = 0\<close> p by (simp add: ctr32_put_def ctr128_inc_pow [OF iv])
  qed
qed

subsection \<open>The counter mode of 32 bits\<close>

text \<open>What the code relies on of a \<open>ctr128_f\<close>: counter mode as long as the low 32 bits do not overflow.\<close>

definition ctr128_f :: "(bytes \<Rightarrow> bytes) \<Rightarrow> (bytes \<Rightarrow> nat \<Rightarrow> bytes \<Rightarrow> bytes) \<Rightarrow> bool" where
  "ctr128_f block func \<longleftrightarrow>
     (\<forall>inp k iv. length inp = 16 * k \<and> length iv = 16 \<and> be_nat (drop 12 iv) + k \<le> 2 ^ 32 \<longrightarrow>
       func inp k iv =
         xor_bytes inp (concat (map (\<lambda>i. block (take 12 iv @ be_bytes 4 (be_nat (drop 12 iv) + i))) [0..<k])))"

definition ctr_stream :: "(bytes \<Rightarrow> bytes) \<Rightarrow> bytes \<Rightarrow> nat \<Rightarrow> bytes" where
  "ctr_stream block iv k = concat (map (\<lambda>i. block (be_bytes 16 (be_nat iv + i))) [0..<k])"

lemma low_count:
  assumes "length iv = 16" "be_nat (drop 12 iv) + i < 2 ^ 32"
  shows "take 12 iv @ be_bytes 4 (be_nat (drop 12 iv) + i) = be_bytes 16 (be_nat iv + i)"
proof (cases "i = 0")
  case True
  then show ?thesis using assms(1) by (simp add: be_bytes_be_nat)
next
  case False
  let ?v = "word_of_nat (be_nat (drop 12 iv) + i) :: u32"
  have v: "unat ?v = be_nat (drop 12 iv) + i" using assms(2) by (simp add: unat_of_nat del: of_nat_add)
  then have "unat ?v \<noteq> 0" using False by (simp del: of_nat_add)
  then have "?v \<noteq> 0" by (auto simp del: of_nat_add)
  then have "ctr32_put iv ?v = take 12 iv @ be_bytes 4 (be_nat (drop 12 iv) + i)"
    using v assms(1) by (simp add: ctr32_put_def PUTU32_def write_at_def)
  moreover have "ctr32_put iv ?v = (ctr128_inc ^^ i) iv"
    by (rule ctr32_put_pow) (use assms v False in \<open>simp_all del: of_nat_add\<close>)
  ultimately show ?thesis using ctr128_inc_pow [OF assms(1)] by simp
qed

lemma func_stream:
  assumes "ctr128_f block func" "length inp = 16 * k" "length iv = 16" "be_nat (drop 12 iv) + k \<le> 2 ^ 32"
  shows "func inp k iv = xor_bytes inp (ctr_stream block iv k)"
proof -
  have "func inp k iv = xor_bytes inp (concat (map (\<lambda>i. block (take 12 iv @ be_bytes 4 (be_nat (drop 12 iv) + i))) [0..<k]))"
    using assms unfolding ctr128_f_def by blast
  also have "map (\<lambda>i. block (take 12 iv @ be_bytes 4 (be_nat (drop 12 iv) + i))) [0..<k] =
      map (\<lambda>i. block (be_bytes 16 (be_nat iv + i))) [0..<k]"
    using assms(3,4) by (auto simp: low_count)
  finally show ?thesis by (simp only: ctr_stream_def)
qed

lemma length_ctr_stream: "block_cipher block \<Longrightarrow> length (ctr_stream block iv k) = 16 * k"
  by (induction k) (simp_all add: ctr_stream_def block_cipher_def)

lemma ctr_stream_Suc:
  assumes "length iv = 16"
  shows "ctr_stream block iv (Suc k) = block iv @ ctr_stream block (ctr128_inc iv) k"
proof -
  have l: "length (ctr128_inc iv) = 16" using assms by (simp add: ctr128_inc_def)
  have "(ctr128_inc ^^ i) (ctr128_inc iv) = (ctr128_inc ^^ Suc i) iv" for i by (simp add: funpow_swap1)
  then have "be_bytes 16 (be_nat (ctr128_inc iv) + i) = be_bytes 16 (be_nat iv + Suc i)" for i
    using ctr128_inc_pow [OF assms, of "Suc i"] ctr128_inc_pow [OF l, of i] by simp
  then show ?thesis
    using assms by (simp add: ctr_stream_def upt_conv_Cons map_Suc_upt [symmetric] comp_def be_bytes_be_nat del: upt_Suc)
qed

lemma xor_bytes_append:
  "length a = length c \<Longrightarrow> xor_bytes (a @ b) (c @ d) = xor_bytes a c @ xor_bytes b d"
  by (simp add: xor_bytes_def)

text \<open>Whole blocks of the mode, and the state after them.\<close>

lemma ctr_run_blocks:
  "stream_ok block st \<Longrightarrow> st_num st = 0 \<Longrightarrow> length inp = 16 * k \<Longrightarrow>
    \<exists>t. run (ctr_step block) inp st = (xor_bytes inp (ctr_stream block (ivec st) k), t) \<and>
      stream_ok block t \<and> st_num t = 0 \<and> ivec t = (ctr128_inc ^^ k) (ivec st)"
proof (induction k arbitrary: st inp)
  case (Suc k)
  let ?u = "ctr_refill block st"
  note f = ctr_step_facts [OF Suc.prems(1)] and u = ctr_refill_ok [OF Suc.prems(1)]
  have iv: "ivec ?u = ctr128_inc (ivec st)" by (simp add: ctr_refill_def)
  obtain t where t: "run (ctr_step block) (drop 16 inp) ?u = (xor_bytes (drop 16 inp) (ctr_stream block (ivec ?u) k), t)"
    "stream_ok block t" "st_num t = 0" "ivec t = (ctr128_inc ^^ k) (ivec ?u)"
    using Suc.IH [OF u, of "drop 16 inp"] f(1) Suc.prems(2,3) by auto
  have l: "length (ivec st) = 16" "length (block (ivec st)) = 16"
    using Suc.prems(1) f by (simp_all add: stream_ok_def)
  have "xor_bytes inp (ctr_stream block (ivec st) (Suc k)) =
      xor_bytes (take 16 inp) (block (ivec st)) @ xor_bytes (drop 16 inp) (ctr_stream block (ivec ?u) k)"
    using xor_bytes_append [of "take 16 inp" "block (ivec st)" "drop 16 inp" "ctr_stream block (ivec ?u) k"] l Suc.prems(3)
    by (simp add: ctr_stream_Suc iv)
  then show ?case
    using run_whole_block [of ecount_buf inp st "ctr_refill block"] f Suc.prems t
    by (auto simp: ctr_step_def [symmetric] iv funpow_swap1)
qed (simp add: ctr_stream_def)

text \<open>The states agree but for a block that has been used up.\<close>

definition same_stream :: "stream_state \<Rightarrow> stream_state \<Rightarrow> bool" where
  "same_stream s t \<longleftrightarrow> ivec s = ivec t \<and> st_num s = st_num t \<and> (st_num s \<noteq> 0 \<longrightarrow> ecount_buf s = ecount_buf t)"

lemma ctr_step_same:
  "same_stream s t \<Longrightarrow> ctr_step block b s = (a, s') \<Longrightarrow> \<exists>t'. ctr_step block b t = (a, t') \<and> same_stream s' t'"
  by (auto simp: same_stream_def ctr_step_def ks_step_def ctr_refill_def Let_def)

lemma ctr_run_same:
  "same_stream s t \<Longrightarrow> run (ctr_step block) inp s = (out, s') \<Longrightarrow> \<exists>t'. run (ctr_step block) inp t = (out, t') \<and> same_stream s' t'"
proof (induction inp arbitrary: s t out)
  case (Cons b inp)
  obtain a u where a: "ctr_step block b s = (a, u)" by (cases "ctr_step block b s")
  obtain v where v: "ctr_step block b t = (a, v)" "same_stream u v" using ctr_step_same [OF Cons.prems(1) a] by blast
  obtain o2 where o2: "run (ctr_step block) inp u = (o2, s')" "out = a # o2"
    using Cons.prems(2) a by (auto split: prod.splits)
  show ?case using Cons.IH [OF v(2) o2(1)] v(1) o2(2) by auto
qed simp

lemma GETU32_low: "length iv = 16 \<Longrightarrow> unat (GETU32 (drop 12 iv)) = be_nat (drop 12 iv)"
  using be_nat_less [of "drop 12 iv"] by (simp add: GETU32_def unat_of_nat)

lemma ctr32_blocks_ok:
  assumes "16 \<le> len" "ctr32_blocks c len = (k, v)"
  shows "0 < k" "16 * k \<le> len" "unat c + k \<le> 2 ^ 32" "unat v = (unat c + k) mod 2 ^ 32"
proof -
  define b where "b = min (len div 16) (2 ^ 28)"
  have b: "0 < b" "16 * b \<le> len" "b \<le> 2 ^ 28" using assms(1) by (auto simp: b_def min_def)
  let ?w = "c + word_of_nat b :: u32"
  have kv: "(k, v) = (if unat ?w < b then (b - unat ?w, 0) else (b, ?w))"
    using assms(2) unfolding ctr32_blocks_def Let_def b_def min_def by (cases "2 ^ 28 < len div 16") auto
  have c: "unat c < 2 ^ 32" using unsigned_less [of c] by simp
  have w: "unat ?w = (unat c + b) mod 2 ^ 32" using b by (simp add: unat_word_ariths(1) unat_of_nat mod_simps)
  have "0 < k \<and> 16 * k \<le> len \<and> unat c + k \<le> 2 ^ 32 \<and> unat v = (unat c + k) mod 2 ^ 32"
  proof (cases "unat c + b < 2 ^ 32")
    case True
    then have "unat ?w = unat c + b" using w by simp
    then show ?thesis using kv b True by simp
  next
    case False
    then have "unat ?w = unat c + b - 2 ^ 32" using w c b by (simp add: le_mod_geq)
    moreover from this have "unat ?w < b" using False c b by simp
    ultimately have "k = b - (unat c + b - 2 ^ 32)" "v = 0" using kv by simp_all
    then show ?thesis using b c False by simp
  qed
  then show "0 < k" "16 * k \<le> len" "unat c + k \<le> 2 ^ 32" "unat v = (unat c + k) mod 2 ^ 32" by simp_all
qed

lemma ctr32_loop_run:
  assumes "ctr32_loop func c inp (ivec st) = (out, rest, iv, v)" "ctr128_f block func" "stream_ok block st" "st_num st = 0"
    "c = GETU32 (drop 12 (ivec st))"
  shows "\<exists>t. length rest < 16 \<and> stream_ok block t \<and> st_num t = 0 \<and> ivec t = iv \<and> v = GETU32 (drop 12 iv) \<and>
    run (ctr_step block) inp st = (let (o2, u) = run (ctr_step block) rest t in (out @ o2, u))"
  using assms
proof (induction func c inp "ivec st" arbitrary: st out rule: ctr32_loop.induct)
  case (1 func c inp)
  show ?case
  proof (cases "16 \<le> length inp")
    case True
    obtain k w where kw: "ctr32_blocks c (length inp) = (k, w)" by fastforce
    note b = ctr32_blocks_ok [OF True kw]
    have iv: "length (ivec st) = 16" using 1(4) by (simp add: stream_ok_def)
    have c: "unat c = be_nat (drop 12 (ivec st))" using 1(6) GETU32_low [OF iv] by simp
    have put: "ctr32_put (ivec st) w = (ctr128_inc ^^ k) (ivec st)"
      by (rule ctr32_put_pow) (use b c iv in simp_all)
    obtain t where t: "run (ctr_step block) (take (16 * k) inp) st = (xor_bytes (take (16 * k) inp) (ctr_stream block (ivec st) k), t)"
      "stream_ok block t" "st_num t = 0" "ivec t = ctr32_put (ivec st) w"
      using ctr_run_blocks [OF 1(4,5), of "take (16 * k) inp" k] b(2) put by auto
    have low: "w = GETU32 (drop 12 (ivec t))"
    proof -
      have "ivec t = be_bytes 16 (be_nat (ivec st) + k)" using t(4) put ctr128_inc_pow [OF iv] by simp
      then have "drop 12 (ivec t) = be_bytes 4 (be_nat (ivec st) + k)" using be_bytes_split [of 12 4] by simp
      moreover have "be_nat (ivec st) = be_nat (take 12 (ivec st)) * 2 ^ 32 + be_nat (drop 12 (ivec st))"
        using be_nat_append [of "take 12 (ivec st)" "drop 12 (ivec st)"] iv by simp
      ultimately have "be_nat (drop 12 (ivec t)) = (unat c + k) mod 2 ^ 32"
        by (simp add: be_nat_be_bytes c add.assoc)
      then have "unat (GETU32 (drop 12 (ivec t))) = unat w"
        using GETU32_low [of "ivec t"] t(2) b(4) by (simp add: stream_ok_def)
      then show ?thesis by (simp add: word_unat_eq_iff)
    qed
    obtain o2 where o2: "ctr32_loop func w (drop (16 * k) inp) (ivec t) = (o2, rest, iv, v)"
      "out = func (take (16 * k) inp) k (ivec st) @ o2"
      using 1(2) True kw t(4) by (subst (asm) ctr32_loop.simps) (auto simp: mult.commute split: prod.splits)
    have f: "func (take (16 * k) inp) k (ivec st) = xor_bytes (take (16 * k) inp) (ctr_stream block (ivec st) k)"
      by (rule func_stream) (use 1(3) b c iv in simp_all)
    obtain u where u: "length rest < 16" "stream_ok block u" "st_num u = 0" "ivec u = iv" "v = GETU32 (drop 12 iv)"
      "run (ctr_step block) (drop (16 * k) inp) t = (let (o3, u') = run (ctr_step block) rest u in (o2 @ o3, u'))"
      using 1(1) [OF True kw [symmetric] refl t(4) [symmetric], of o2] t(2,3) o2(1) 1(3) low by (metis mult.commute)
    have "run (ctr_step block) inp st =
        (let (a, s1) = run (ctr_step block) (take (16 * k) inp) st; (b, s2) = run (ctr_step block) (drop (16 * k) inp) s1 in (a @ b, s2))"
      using run_append [of "ctr_step block" "take (16 * k) inp" "drop (16 * k) inp" st] by simp
    also have "\<dots> = (let (o3, u') = run (ctr_step block) rest u in (out @ o3, u'))"
      by (simp add: t(1) u(6) o2(2) f split: prod.split)
    finally show ?thesis using u by blast
  next
    case False
    then have "out = []" "rest = inp" "iv = ivec st" "v = c"
      using 1(2) by (simp_all add: ctr32_loop.simps [of func c inp])
    then show ?thesis
      using 1(4,5,6) False by (intro exI [of _ st]) (simp split: prod.split)
  qed
qed

lemma ctr32_is_run:
  assumes f: "ctr128_f block func" and ok: "stream_ok block st"
    and call: "CRYPTO_ctr128_encrypt_ctr32 func inp st = (out, s)" and ref: "run (ctr_step block) inp st = (out', s')"
  shows "out = out' \<and> same_stream s s'"
proof -
  obtain o1 n r where p: "pending_bytes (ecount_buf st) (st_num st) inp = (o1, n, r)"
    by (cases "pending_bytes (ecount_buf st) (st_num st) inp")
  let ?s = "st\<lparr>st_num := n\<rparr>"
  have *: "run (ctr_step block) inp st = (let (o2, t) = run (ctr_step block) r ?s in (o1 @ o2, t))"
    "n < 16" "n = 0 \<or> r = []"
    using pending_bytes_run [of ecount_buf, OF _ _ p, of "ctr_refill block"] ok
    by (simp_all add: ctr_step_def stream_ok_def)
  have s: "stream_ok block ?s" using ok *(2) by (simp add: stream_ok_def)
  show ?thesis
  proof (cases "n = 0")
    case True
    obtain o2 rest iv v where b: "ctr32_loop func (GETU32 (drop 12 (ivec st))) r (ivec st) = (o2, rest, iv, v)" by (metis prod_cases4)
    obtain t where t: "length rest < 16" "stream_ok block t" "st_num t = 0" "ivec t = iv" "v = GETU32 (drop 12 iv)"
      and run: "run (ctr_step block) r ?s = (let (o3, u) = run (ctr_step block) rest t in (o2 @ o3, u))"
    proof -
      have "ctr32_loop func (GETU32 (drop 12 (ivec st))) r (ivec ?s) = (o2, rest, iv, v)" using b by simp
      moreover have "st_num ?s = 0" "GETU32 (drop 12 (ivec st)) = GETU32 (drop 12 (ivec ?s))" using True by simp_all
      ultimately show thesis using ctr32_loop_run [OF _ f s] that by blast
    qed
    show ?thesis
    proof (cases "rest = []")
      case True
      then show ?thesis
        using *(1) run p b t call ref \<open>n = 0\<close> by (auto simp: CRYPTO_ctr128_encrypt_ctr32_def same_stream_def)
    next
      case False
      have iv: "length iv = 16" using t(2,4) by (auto simp: stream_ok_def)
      have lt: "be_nat (drop 12 iv) < 2 ^ 32" using be_nat_less [of "drop 12 iv"] iv by simp
      have "ctr_stream block iv 1 = block iv" using iv by (simp add: ctr_stream_def be_bytes_be_nat)
      then have ks: "func (replicate 16 0) 1 iv = block iv"
        using func_stream [OF f, of "replicate 16 0" 1 iv] lt iv t(2)
        by (simp add: stream_ok_def block_cipher_def xor_bytes_def list_eq_iff_nth_eq)
      have "unat (v + 1) = (be_nat (drop 12 iv) + 1) mod 2 ^ 32"
        using GETU32_low [OF iv] t(5) by (simp add: unat_word_ariths(1))
      then have put: "ctr32_put iv (v + 1) = ctr128_inc iv"
        using ctr32_put_pow [OF iv, of 1 "v + 1"] lt by simp
      have "run (ctr_step block) rest t = (last_bytes (block (ivec t)) 0 rest, (ctr_refill block t)\<lparr>st_num := length rest\<rparr>)"
        unfolding ctr_step_def
        using rest_run [of ecount_buf rest t "ctr_refill block"] False t ctr_step_facts [OF t(2)] by simp
      then show ?thesis
        using *(1) run p b t(3,4) False call ref put ks \<open>n = 0\<close>
        by (auto simp: CRYPTO_ctr128_encrypt_ctr32_def Let_def ctr_refill_def same_stream_def)
    qed
  qed (use * p call ref in \<open>auto simp: CRYPTO_ctr128_encrypt_ctr32_def ctr32_loop.simps same_stream_def\<close>)
qed

section \<open>Properties\<close>

lemma ctr32_ok:
  assumes "ctr128_f block func" "stream_ok block st" "CRYPTO_ctr128_encrypt_ctr32 func inp st = (out, s)"
    "run (ctr_step block) inp st = (out', s')"
  shows "stream_ok block s"
proof -
  have s': "stream_ok block s'" by (rule ctr.enc.ok_run [OF assms(2,4)])
  have same: "same_stream s s'" using ctr32_is_run [OF assms] by simp
  have "st_num s = 0 \<Longrightarrow> ecount_buf s = ecount_buf st"
    using assms(3) by (auto simp: CRYPTO_ctr128_encrypt_ctr32_def Let_def split: prod.splits if_splits)
  then show ?thesis
    using s' same assms(2) by (cases "st_num s = 0") (simp_all add: stream_ok_def same_stream_def)
qed

lemma ctr32_pieces:
  assumes f: "ctr128_f block func"
  shows "stream_ok block s \<Longrightarrow> same_stream s t \<Longrightarrow>
    concat (fst (run (CRYPTO_ctr128_encrypt_ctr32 func) ps s)) = fst (run (ctr_step block) (concat ps) t)"
proof (induction ps arbitrary: s t)
  case (Cons p ps)
  obtain out s1 where s1: "CRYPTO_ctr128_encrypt_ctr32 func p s = (out, s1)" by fastforce
  obtain out' s2 where s2: "run (ctr_step block) p s = (out', s2)" by fastforce
  obtain t1 where t1: "run (ctr_step block) p t = (out', t1)" "same_stream s2 t1"
    using ctr_run_same [OF Cons.prems(2) s2] by blast
  have o: "out = out'" "same_stream s1 s2" using ctr32_is_run [OF f Cons.prems(1) s1 s2] by simp_all
  have "same_stream s1 t1" using o(2) t1(2) by (auto simp: same_stream_def)
  from Cons.IH [OF ctr32_ok [OF f Cons.prems(1) s1 s2] this] show ?case
    using s1 t1(1) o(1) by (simp add: run_append split_beta)
qed simp

lemma blocks_up: "((n :: nat) + 15) div 16 = (if n mod 16 = 0 then n div 16 else Suc (n div 16))"
  by presburger

lemma ctr_run_stream:
  assumes "stream_ok block st" "st_num st = 0"
  shows "fst (run (ctr_step block) inp st) = xor_bytes inp (ctr_stream block (ivec st) ((length inp + 15) div 16))"
proof -
  let ?k = "length inp div 16"
  let ?a = "take (16 * ?k) inp" and ?b = "drop (16 * ?k) inp"
  obtain t where t: "run (ctr_step block) ?a st = (xor_bytes ?a (ctr_stream block (ivec st) ?k), t)"
    "stream_ok block t" "st_num t = 0" "ivec t = (ctr128_inc ^^ ?k) (ivec st)"
    using ctr_run_blocks [OF assms, of ?a ?k] by auto
  have ab: "run (ctr_step block) inp st = (let (b, u) = run (ctr_step block) ?b t in (xor_bytes ?a (ctr_stream block (ivec st) ?k) @ b, u))"
    using run_append [of "ctr_step block" ?a ?b st] t(1) by simp
  have len: "length ?b = length inp mod 16" by (simp add: minus_mult_div_eq_mod)
  have la: "length ?a = length (ctr_stream block (ivec st) ?k)"
    using assms(1) by (simp add: length_ctr_stream stream_ok_def)
  show ?thesis
  proof (cases "?b = []")
    case True
    then have "length inp mod 16 = 0" using len by simp
    then have "(length inp + 15) div 16 = ?k" by (simp only: blocks_up) simp
    then show ?thesis using ab True by simp
  next
    case False
    then have "length inp mod 16 \<noteq> 0" using len by auto
    then have k: "(length inp + 15) div 16 = Suc ?k" by (simp only: blocks_up) simp
    have iv: "length (ivec st) = 16" using assms(1) by (simp add: stream_ok_def)
    have "run (ctr_step block) ?b t = (last_bytes (block (ivec t)) 0 ?b, (ctr_refill block t)\<lparr>st_num := length ?b\<rparr>)"
      unfolding ctr_step_def
      using rest_run [of ecount_buf ?b t "ctr_refill block"] False t(3) len ctr_step_facts [OF t(2)] by simp
    moreover have "length (block (ivec t)) = 16" using t(2) by (simp add: stream_ok_def block_cipher_def)
    then have "last_bytes (block (ivec t)) 0 ?b = xor_bytes ?b (block (ivec t))"
      by (intro last_bytes_0) (simp add: len less_imp_le)
    moreover have "ctr_stream block (ivec st) (Suc ?k) = ctr_stream block (ivec st) ?k @ block (ivec t)"
      using t(4) ctr128_inc_pow [OF iv] by (simp add: ctr_stream_def)
    ultimately show ?thesis
      using ab xor_bytes_append [OF la, of ?b "block (ivec t)"] k by (simp only: append_take_drop_id) simp
  qed
qed

text \<open>Decryption of what was encrypted, the ciphertext cut at other places.\<close>

definition reverses :: "(bytes \<Rightarrow> 's \<Rightarrow> bytes \<times> 's) \<Rightarrow> (bytes \<Rightarrow> 's \<Rightarrow> bytes \<times> 's) \<Rightarrow> 's \<Rightarrow> bool" where
  "reverses enc dec st \<longleftrightarrow>
     (\<forall>ps outs t qs. run enc ps st = (outs, t) \<and> concat qs = concat outs \<longrightarrow>
       (\<exists>rs. run dec qs st = (rs, t) \<and> concat rs = concat ps))"

text \<open>C37: the stream modes are inverse however the text is cut: what any sequence of calls in counter, output
  feedback or cipher feedback mode (of a block or of a byte) encrypts, the calls on the same state decrypt, with
  the ciphertext cut into any other pieces, and leave the same state. Feedback of a bit gives the bits back and
  keeps the other bits of the buffer. The cipher may be any function from blocks to blocks.\<close>

theorem stream_modes_roundtrip:
  assumes "stream_ok block st"
  shows "reverses (CRYPTO_ctr128_encrypt block) (CRYPTO_ctr128_encrypt block) st \<and>
    reverses (CRYPTO_ofb128_encrypt block) (CRYPTO_ofb128_encrypt block) st \<and>
    reverses (CRYPTO_cfb128_encrypt block True) (CRYPTO_cfb128_encrypt block False) st \<and>
    reverses (CRYPTO_cfb128_8_encrypt block True) (CRYPTO_cfb128_8_encrypt block False) st \<and>
    (\<forall>inp out buf bits c t p u. bits \<le> 8 * length out \<and> bits \<le> 8 * length buf \<and>
       CRYPTO_cfb128_1_encrypt block True inp bits out st = (c, t) \<and>
       CRYPTO_cfb128_1_encrypt block False c bits buf st = (p, u) \<longrightarrow>
       t = u \<and> (\<forall>i < 8 * length buf. bit_at p i = (if i < bits then bit_at inp i else bit_at buf i)))"
proof -
  have "length (ivec st) = 16" using assms by (simp add: stream_ok_def)
  from cfb1_back [OF this] show ?thesis
    using ctr.pieces_back [OF assms] ofb.pieces_back [OF assms] cfb.pieces_back [OF assms] cfb8.pieces_back [OF assms]
    unfolding reverses_def by (intro conjI) (blast | (metis linorder_not_less))+
qed

theorem stream_modes_roundtrip_witness:
  "let st = \<lparr>ivec = replicate 16 7, ecount_buf = replicate 16 9, st_num = 5\<rparr>; block = map (\<lambda>b. 3 * b + 1) in
    stream_ok block st \<and> reverses (CRYPTO_cfb128_encrypt block True) (CRYPTO_cfb128_encrypt block False) st"
proof -
  have "stream_ok (map (\<lambda>b. 3 * b + 1)) \<lparr>ivec = replicate 16 7, ecount_buf = replicate 16 9, st_num = 5\<rparr>"
    by (simp add: stream_ok_def block_cipher_def)
  with stream_modes_roundtrip [OF this] show ?thesis by (simp add: Let_def)
qed

text \<open>C38: counter mode is that of SP 800-38A: from a fresh state, and in pieces of any sizes, the output is the
  input against the cipher of the initial value plus zero, one, two and so on modulo two to the 128. The variant
  built on a function that counts in 32 bits only gives the same: it stops where these overflow and carries.\<close>

theorem counter_modes_are_sp800_38a:
  assumes "stream_ok block st" "st_num st = 0" "ctr128_f block func"
  shows "concat (fst (run (CRYPTO_ctr128_encrypt block) ps st)) =
      xor_bytes (concat ps) (concat (map (\<lambda>i. block (be_bytes 16 (be_nat (ivec st) + i))) [0..<(length (concat ps) + 15) div 16])) \<and>
    concat (fst (run (CRYPTO_ctr128_encrypt_ctr32 func) ps st)) =
      xor_bytes (concat ps) (concat (map (\<lambda>i. block (be_bytes 16 (be_nat (ivec st) + i))) [0..<(length (concat ps) + 15) div 16]))"
proof -
  have "concat (fst (run (CRYPTO_ctr128_encrypt block) ps st)) = fst (run (ctr_step block) (concat ps) st)"
    using ctr.enc.pieces [OF assms(1), of ps] ctr128_is_run [OF assms(1)] by (simp add: split_beta) (metis fst_conv)
  then show ?thesis
    using ctr_run_stream [OF assms(1,2), of "concat ps"] ctr32_pieces [OF assms(3,1), of st ps]
    by (simp add: ctr_stream_def same_stream_def)
qed

text \<open>A counter two blocks before the overflow of its low 32 bits.\<close>

definition sample_ctr :: "bytes \<Rightarrow> nat \<Rightarrow> bytes \<Rightarrow> bytes" where
  "sample_ctr inp k iv =
     xor_bytes inp (concat (map (\<lambda>i. map (\<lambda>b. 3 * b + 1) (take 12 iv @ be_bytes 4 (be_nat (drop 12 iv) + i))) [0..<k]))"

theorem counter_modes_are_sp800_38a_witness:
  "let iv = replicate 11 0 @ [5, 0xff, 0xff, 0xff, 0xfe] in
    concat (fst (run (CRYPTO_ctr128_encrypt_ctr32 sample_ctr) [replicate 20 0, replicate 30 0]
      \<lparr>ivec = iv, ecount_buf = replicate 16 0, st_num = 0\<rparr>)) =
    xor_bytes (replicate 50 0) (concat (map (\<lambda>i. map (\<lambda>b. 3 * b + 1) (be_bytes 16 (be_nat iv + i))) [0..<4]))"
proof -
  let ?st = "\<lparr>ivec = replicate 11 0 @ [5, 0xff, 0xff, 0xff, 0xfe], ecount_buf = replicate 16 0, st_num = 0\<rparr>"
  have "stream_ok (map (\<lambda>b. 3 * b + 1)) ?st" by (simp add: stream_ok_def block_cipher_def)
  moreover have "ctr128_f (map (\<lambda>b. 3 * b + 1)) sample_ctr" by (simp add: ctr128_f_def sample_ctr_def)
  moreover have "concat [replicate 20 0, replicate 30 (0 :: u8)] = replicate 50 0" by (simp add: replicate_add [symmetric])
  ultimately show ?thesis
    using counter_modes_are_sp800_38a [of "map (\<lambda>b. 3 * b + 1)" ?st sample_ctr "[replicate 20 0, replicate 30 0]"]
    unfolding Let_def by simp
qed

end
