(* ===== verification/Cbc.thy ===== *)
theory Cbc
  imports Modes "HOL-Library.Monad_Syntax"
begin

text \<open>
  Cipher block chaining (\<^verbatim>\<open>fipsmodule/modes/cbc.c\<close>). Input and output are places in one memory, a string indexed
  by address, as the code is written for buffers that overlap and holds a pointer to the last block
  of the ciphertext where it lies. \<open>ivec\<close> is an array of its own. A result of nothing is undefined
  behaviour: an access outside of the memory, or an assertion that does not hold.
\<close>

section \<open>Operations\<close>

definition rd :: "bytes \<Rightarrow> nat \<Rightarrow> nat \<Rightarrow> bytes option" where
  "rd m p k = (if p + k \<le> length m then Some (take k (drop p m)) else None)"

definition wr :: "bytes \<Rightarrow> nat \<Rightarrow> bytes \<Rightarrow> bytes option" where
  "wr m p bs = (if p + length bs \<le> length m then Some (write_at p bs m) else None)"

text \<open>The pointer \<open>iv\<close>: to \<open>ivec\<close> or into the memory.\<close>

datatype iv_ptr = Ivec | At nat

fun rd_iv :: "bytes \<Rightarrow> bytes \<Rightarrow> iv_ptr \<Rightarrow> nat \<Rightarrow> nat \<Rightarrow> bytes option" where
  "rd_iv m vec Ivec n k = rd vec n k"
| "rd_iv m vec (At p) n k = rd m (p + n) k"

text \<open>\<open>store_word_le(out + n, load_word_le(a + n) ^ load_word_le(iv + n))\<close>, of eight bytes.\<close>

definition xor_word :: "bytes \<Rightarrow> nat \<Rightarrow> iv_ptr \<Rightarrow> nat \<Rightarrow> nat \<Rightarrow> bytes \<Rightarrow> bytes option" where
  "xor_word vec a iv out n m = do {
     x \<leftarrow> rd m (a + n) 8;
     v \<leftarrow> rd_iv m vec iv n 8;
     wr m (out + n) (xor_bytes x v) }"

text \<open>A loop over the elements of a list.\<close>

fun for_each :: "('a \<Rightarrow> 's \<Rightarrow> 's option) \<Rightarrow> 'a list \<Rightarrow> 's \<Rightarrow> 's option" where
  "for_each f [] s = Some s"
| "for_each f (x # xs) s = do { s \<leftarrow> f x s; for_each f xs s }"

subsection \<open>Encryption\<close>

text \<open>The whole blocks: the length, the pointers and the memory after them.\<close>

function cbc_encrypt_blocks ::
  "(bytes \<Rightarrow> bytes) \<Rightarrow> bytes \<Rightarrow> nat \<Rightarrow> nat \<Rightarrow> nat \<Rightarrow> iv_ptr \<Rightarrow> bytes \<Rightarrow> (nat \<times> nat \<times> nat \<times> iv_ptr \<times> bytes) option" where
  "cbc_encrypt_blocks block vec len inp out iv m =
     (if 16 \<le> len then do {
        m \<leftarrow> for_each (xor_word vec inp iv out) [0, 8] m;
        b \<leftarrow> rd m out 16;
        m \<leftarrow> wr m out (block b);
        cbc_encrypt_blocks block vec (len - 16) (inp + 16) (out + 16) (At out) m }
      else Some (len, inp, out, iv, m))"
  by pat_completeness auto
termination
  by (relation "measure (\<lambda>(block, vec, len, inp, out, iv, m). len)") auto

declare cbc_encrypt_blocks.simps [simp del]

definition cbc_encrypt_byte :: "bytes \<Rightarrow> nat \<Rightarrow> nat \<Rightarrow> nat \<Rightarrow> iv_ptr \<Rightarrow> nat \<Rightarrow> bytes \<Rightarrow> bytes option" where
  "cbc_encrypt_byte vec len inp out iv n m = do {
     v \<leftarrow> rd_iv m vec iv n 1;
     if n < len then do { x \<leftarrow> rd m (inp + n) 1; wr m (out + n) (xor_bytes x v) } else wr m (out + n) v }"

function cbc_encrypt_tail :: "(bytes \<Rightarrow> bytes) \<Rightarrow> bytes \<Rightarrow> nat \<Rightarrow> nat \<Rightarrow> nat \<Rightarrow> iv_ptr \<Rightarrow> bytes \<Rightarrow> (iv_ptr \<times> bytes) option" where
  "cbc_encrypt_tail block vec len inp out iv m =
     (if len \<noteq> 0 then do {
        m \<leftarrow> for_each (cbc_encrypt_byte vec len inp out iv) [0..<16] m;
        b \<leftarrow> rd m out 16;
        m \<leftarrow> wr m out (block b);
        if len \<le> 16 then Some (At out, m)
        else cbc_encrypt_tail block vec (len - 16) (inp + 16) (out + 16) (At out) m }
      else Some (iv, m))"
  by pat_completeness auto
termination
  by (relation "measure (\<lambda>(block, vec, len, inp, out, iv, m). len)") auto

declare cbc_encrypt_tail.simps [simp del]

definition CRYPTO_cbc128_encrypt :: "(bytes \<Rightarrow> bytes) \<Rightarrow> bytes \<Rightarrow> nat \<Rightarrow> nat \<Rightarrow> nat \<Rightarrow> bytes \<Rightarrow> (bytes \<times> bytes) option" where
  "CRYPTO_cbc128_encrypt block m inp out len vec = do {
     (len, inp, out, iv, m) \<leftarrow> cbc_encrypt_blocks block vec len inp out Ivec m;
     (iv, m) \<leftarrow> cbc_encrypt_tail block vec len inp out iv m;
     vec \<leftarrow> rd_iv m vec iv 0 16;
     Some (m, vec) }"

subsection \<open>Decryption\<close>

text \<open>The blocks where the output is disjoint from the input or far enough behind.\<close>

function cbc_decrypt_far ::
  "(bytes \<Rightarrow> bytes) \<Rightarrow> bytes \<Rightarrow> nat \<Rightarrow> nat \<Rightarrow> nat \<Rightarrow> iv_ptr \<Rightarrow> bytes \<Rightarrow> (nat \<times> nat \<times> nat \<times> iv_ptr \<times> bytes) option" where
  "cbc_decrypt_far block vec len inp out iv m =
     (if 16 \<le> len then do {
        b \<leftarrow> rd m inp 16;
        m \<leftarrow> wr m out (block b);
        m \<leftarrow> for_each (xor_word vec out iv out) [0, 8] m;
        cbc_decrypt_far block vec (len - 16) (inp + 16) (out + 16) (At inp) m }
      else Some (len, inp, out, iv, m))"
  by pat_completeness auto
termination
  by (relation "measure (\<lambda>(block, vec, len, inp, out, iv, m). len)") auto

declare cbc_decrypt_far.simps [simp del]

text \<open>The blocks where they overlap: \<open>tmp\<close> holds the block, \<open>ivec\<close> the ciphertext before it.\<close>

definition cbc_decrypt_word :: "bytes \<Rightarrow> nat \<Rightarrow> nat \<Rightarrow> nat \<Rightarrow> bytes \<times> bytes \<Rightarrow> (bytes \<times> bytes) option" where
  "cbc_decrypt_word tmp inp out n = (\<lambda>(m, vec). do {
     c \<leftarrow> rd m (inp + n) 8;
     v \<leftarrow> rd vec n 8;
     t \<leftarrow> rd tmp n 8;
     m \<leftarrow> wr m (out + n) (xor_bytes t v);
     vec \<leftarrow> wr vec n c;
     Some (m, vec) })"

function cbc_decrypt_near ::
  "(bytes \<Rightarrow> bytes) \<Rightarrow> nat \<Rightarrow> nat \<Rightarrow> nat \<Rightarrow> bytes \<times> bytes \<Rightarrow> (nat \<times> nat \<times> nat \<times> bytes \<times> bytes) option" where
  "cbc_decrypt_near block len inp out s =
     (if 16 \<le> len then do {
        b \<leftarrow> rd (fst s) inp 16;
        s \<leftarrow> for_each (cbc_decrypt_word (block b) inp out) [0, 8] s;
        cbc_decrypt_near block (len - 16) (inp + 16) (out + 16) s }
      else Some (len, inp, out, s))"
  by pat_completeness auto
termination
  by (relation "measure (\<lambda>(block, len, inp, out, s). len)") auto

declare cbc_decrypt_near.simps [simp del]

definition cbc_decrypt_byte :: "bytes \<Rightarrow> nat \<Rightarrow> nat \<Rightarrow> nat \<Rightarrow> bytes \<times> bytes \<Rightarrow> (bytes \<times> bytes) option" where
  "cbc_decrypt_byte tmp inp out n = (\<lambda>(m, vec). do {
     c \<leftarrow> rd m (inp + n) 1;
     v \<leftarrow> rd vec n 1;
     t \<leftarrow> rd tmp n 1;
     m \<leftarrow> wr m (out + n) (xor_bytes t v);
     vec \<leftarrow> wr vec n c;
     Some (m, vec) })"

definition cbc_keep_byte :: "nat \<Rightarrow> nat \<Rightarrow> bytes \<times> bytes \<Rightarrow> (bytes \<times> bytes) option" where
  "cbc_keep_byte inp n = (\<lambda>(m, vec). do { c \<leftarrow> rd m (inp + n) 1; vec \<leftarrow> wr vec n c; Some (m, vec) })"

function cbc_decrypt_tail :: "(bytes \<Rightarrow> bytes) \<Rightarrow> nat \<Rightarrow> nat \<Rightarrow> nat \<Rightarrow> bytes \<times> bytes \<Rightarrow> (bytes \<times> bytes) option" where
  "cbc_decrypt_tail block len inp out s =
     (if len \<noteq> 0 then do {
        b \<leftarrow> rd (fst s) inp 16;
        s \<leftarrow> for_each (cbc_decrypt_byte (block b) inp out) [0..<min 16 len] s;
        if len \<le> 16 then for_each (cbc_keep_byte inp) [min 16 len..<16] s
        else cbc_decrypt_tail block (len - 16) (inp + 16) (out + 16) s }
      else Some s)"
  by pat_completeness auto
termination
  by (relation "measure (\<lambda>(block, len, inp, out, s). len)") auto

declare cbc_decrypt_tail.simps [simp del]

definition cbc_decrypt_blocks ::
  "(bytes \<Rightarrow> bytes) \<Rightarrow> nat \<Rightarrow> nat \<Rightarrow> nat \<Rightarrow> bytes \<times> bytes \<Rightarrow> (nat \<times> nat \<times> nat \<times> bytes \<times> bytes) option" where
  "cbc_decrypt_blocks block len inp out = (\<lambda>(m, vec).
     if (32 \<le> inp \<and> out \<le> inp - 32) \<or> inp < out then do {
       (len, inp, out, iv, m) \<leftarrow> cbc_decrypt_far block vec len inp out Ivec m;
       vec \<leftarrow> rd_iv m vec iv 0 16;
       Some (len, inp, out, m, vec) }
     else cbc_decrypt_near block len inp out (m, vec))"

definition CRYPTO_cbc128_decrypt :: "(bytes \<Rightarrow> bytes) \<Rightarrow> bytes \<Rightarrow> nat \<Rightarrow> nat \<Rightarrow> nat \<Rightarrow> bytes \<Rightarrow> (bytes \<times> bytes) option" where
  "CRYPTO_cbc128_decrypt block m inp out len vec =
     (if \<not> (out \<le> inp \<or> inp + len \<le> out) then None
      else do {
        (len, inp, out, s) \<leftarrow> cbc_decrypt_blocks block len inp out (m, vec);
        cbc_decrypt_tail block len inp out s })"

section \<open>The standard\<close>

text \<open>SP 800-38A on whole blocks, and the padding of the last one.\<close>

function cbc_cipher :: "(bytes \<Rightarrow> bytes) \<Rightarrow> bytes \<Rightarrow> bytes \<Rightarrow> bytes" where
  "cbc_cipher block iv p =
     (if p = [] then [] else let c = block (xor_bytes (take 16 p) iv) in c @ cbc_cipher block c (drop 16 p))"
  by pat_completeness auto
termination
  by (relation "measure (\<lambda>(block, iv, p). length p)") auto

function cbc_plain :: "(bytes \<Rightarrow> bytes) \<Rightarrow> bytes \<Rightarrow> bytes \<Rightarrow> bytes" where
  "cbc_plain block iv c =
     (if c = [] then [] else xor_bytes (block (take 16 c)) iv @ cbc_plain block (take 16 c) (drop 16 c))"
  by pat_completeness auto
termination
  by (relation "measure (\<lambda>(block, iv, c). length c)") auto

declare cbc_cipher.simps [simp del] cbc_plain.simps [simp del]

definition up16 :: "nat \<Rightarrow> nat" where
  "up16 n = 16 * ((n + 15) div 16)"

definition zero_pad :: "bytes \<Rightarrow> bytes" where
  "zero_pad p = p @ replicate (up16 (length p) - length p) 0"

definition last_block :: "bytes \<Rightarrow> bytes \<Rightarrow> bytes" where
  "last_block iv c = (if c = [] then iv else drop (length c - 16) c)"

section \<open>Places in memory\<close>

lemma nth_write_at:
  "p + length bs \<le> length m \<Longrightarrow> i < length m \<Longrightarrow>
    write_at p bs m ! i = (if p \<le> i \<and> i < p + length bs then bs ! (i - p) else m ! i)"
  by (auto simp: write_at_def nth_append min_def)

lemma sub_write_other:
  assumes "q + k \<le> p \<or> p + length bs \<le> q" "p + length bs \<le> length m"
  shows "take k (drop q (write_at p bs m)) = take k (drop q m)"
  using assms by (intro nth_equalityI) (auto simp: nth_write_at)

lemma sub_write_same:
  assumes "p + length bs \<le> length m" "length bs = k"
  shows "take k (drop p (write_at p bs m)) = bs"
  using assms by (intro nth_equalityI) (auto simp: nth_write_at)

lemma write_at_append_at:
  assumes "p + length a + length b \<le> length m"
  shows "write_at (p + length a) b (write_at p a m) = write_at p (a @ b) m"
  using assms by (intro nth_equalityI) (auto simp: nth_write_at nth_append)

lemma write_at_twice:
  assumes "p + length a \<le> length m" "length a = length b"
  shows "write_at p b (write_at p a m) = write_at p b m"
  using assms by (intro nth_equalityI) (auto simp: nth_write_at)

lemma write_at_Nil [simp]: "write_at p [] m = m"
  by (simp add: write_at_def)

lemma sub_split: "take (j + k) (drop p m) = take j (drop p m) @ take k (drop (p + j) m)"
  by (simp add: take_add add.commute)

lemma xor_bytes_split: "take j (xor_bytes a b) = xor_bytes (take j a) (take j b)" "drop j (xor_bytes a b) = xor_bytes (drop j a) (drop j b)"
  by (simp_all add: xor_bytes_def take_map drop_map take_zip drop_zip)

text \<open>What the pointer \<open>iv\<close> points to, out of the way of a write of sixteen bytes.\<close>

fun iv_is :: "bytes \<Rightarrow> bytes \<Rightarrow> iv_ptr \<Rightarrow> nat \<Rightarrow> bytes \<Rightarrow> bool" where
  "iv_is m vec Ivec out v \<longleftrightarrow> v = vec \<and> length vec = 16"
| "iv_is m vec (At p) out v \<longleftrightarrow> v = take 16 (drop p m) \<and> p + 16 \<le> length m \<and> (p + 16 \<le> out \<or> out + 16 \<le> p)"

lemma iv_is_length: "iv_is m vec iv out v \<Longrightarrow> length v = 16"
  by (cases iv) auto

lemma rd_iv_is: "iv_is m vec iv out v \<Longrightarrow> n + k \<le> 16 \<Longrightarrow> rd_iv m vec iv n k = Some (take k (drop n v))"
  by (cases iv) (auto simp: rd_def take_drop min_def add.commute)

lemma iv_is_write:
  assumes "iv_is m vec iv out v" "out \<le> p" "p + length bs \<le> out + 16" "p + length bs \<le> length m"
  shows "iv_is (write_at p bs m) vec iv out v"
  using assms by (cases iv) (auto simp: sub_write_other)

lemma xor_words:
  assumes "a + 16 \<le> length m" "out + 16 \<le> length m" "iv_is m vec iv out v" "out \<le> a \<or> a + 16 \<le> out"
  shows "for_each (xor_word vec a iv out) [0, 8] m = Some (write_at out (xor_bytes (take 16 (drop a m)) v) m)"
proof -
  note v = iv_is_length [OF assms(3)]
  let ?x = "xor_bytes (take 16 (drop a m)) v"
  let ?x1 = "xor_bytes (take 8 (drop a m)) (take 8 v)" and ?x2 = "xor_bytes (take 8 (drop (a + 8) m)) (drop 8 v)"
  have l: "length ?x1 = 8" "length ?x2 = 8" using assms v by simp_all
  have x: "?x = ?x1 @ ?x2"
    using append_take_drop_id [of 8 ?x] assms(1) by (simp add: xor_bytes_split drop_take add.commute)
  let ?m = "write_at out ?x1 m"
  have m: "length ?m = length m" using l assms(2) by simp
  have s1: "xor_word vec a iv out 0 m = Some ?m"
    using assms(1,2) l rd_iv_is [OF assms(3), of 0 8] by (simp add: xor_word_def rd_def wr_def)
  have other: "take 8 (drop (a + 8) ?m) = take 8 (drop (a + 8) m)"
    using assms l by (intro sub_write_other) auto
  have "iv_is ?m vec iv out v" by (rule iv_is_write [OF assms(3)]) (use l assms(2) in simp_all)
  then have s2: "xor_word vec a iv out 8 ?m = Some (write_at (out + 8) ?x2 ?m)"
    using assms(1,2) l m other v rd_iv_is [of ?m vec iv out v 8 8] by (simp add: xor_word_def rd_def wr_def)
  have "write_at (out + 8) ?x2 ?m = write_at out ?x m"
    using write_at_append_at [of out ?x1 ?x2 m] l assms(2) x by simp
  then show ?thesis using s1 s2 by simp
qed

section \<open>Encryption\<close>

text \<open>The block a step of either loop leaves.\<close>

lemma finish_block:
  assumes "out + 16 \<le> length m" "length x = 16" "block_cipher block"
  shows "rd (write_at out x m) out 16 = Some x" "wr (write_at out x m) out (block x) = Some (write_at out (block x) m)"
  using assms by (simp_all add: rd_def wr_def sub_write_same block_cipher_def write_at_twice)

lemma cbc_cipher_block:
  "length p \<ge> 16 \<Longrightarrow> cbc_cipher block iv p = block (xor_bytes (take 16 p) iv) @ cbc_cipher block (block (xor_bytes (take 16 p) iv)) (drop 16 p)"
  by (subst cbc_cipher.simps) (auto simp: Let_def)

lemma cbc_cipher_Nil [simp]: "cbc_cipher block iv [] = []"
  by (subst cbc_cipher.simps) simp

lemma length_cbc_cipher:
  "block_cipher block \<Longrightarrow> length iv = 16 \<Longrightarrow> length p = 16 * k \<Longrightarrow> length (cbc_cipher block iv p) = 16 * k"
proof (induction k arbitrary: iv p)
  case (Suc k)
  have "length (block (xor_bytes (take 16 p) iv)) = 16" using Suc.prems by (simp add: block_cipher_def)
  with Suc show ?case by (simp add: cbc_cipher_block)
qed simp

lemma cbc_encrypt_blocks_ok:
  assumes "block_cipher block" "iv_is m vec iv out v" "len = 16 * k + r" "r < 16"
    "inp + 16 * k \<le> length m" "out + 16 * k \<le> length m" "out \<le> inp \<or> inp + 16 * k \<le> out"
  shows "cbc_encrypt_blocks block vec len inp out iv m =
    (let c = cbc_cipher block v (take (16 * k) (drop inp m)) in
     Some (r, inp + 16 * k, out + 16 * k, (if k = 0 then iv else At (out + 16 * k - 16)), write_at out c m))"
  using assms
proof (induction k arbitrary: len inp out iv v m)
  case 0
  then show ?case by (simp add: cbc_encrypt_blocks.simps)
next
  case (Suc k)
  let ?x = "xor_bytes (take 16 (drop inp m)) v"
  let ?c = "block ?x" and ?m = "write_at out (block ?x) m"
  have x: "length ?x = 16" using Suc.prems(5) iv_is_length [OF Suc.prems(2)] by simp
  then have c: "length ?c = 16" using Suc.prems(1) by (simp add: block_cipher_def)
  have m: "length ?m = length m" using c Suc.prems(6) by simp
  have w: "for_each (xor_word vec inp iv out) [0, 8] m = Some (write_at out ?x m)"
    by (rule xor_words) (use Suc.prems in auto)
  have out: "out + 16 \<le> length m" using Suc.prems(6) by simp
  note f = finish_block [OF out x Suc.prems(1)]
  have step: "cbc_encrypt_blocks block vec len inp out iv m = cbc_encrypt_blocks block vec (len - 16) (inp + 16) (out + 16) (At out) ?m"
    using Suc.prems(3) w f by (subst cbc_encrypt_blocks.simps) simp
  have iv: "iv_is ?m vec (At out) (out + 16) ?c" using c out by (simp add: sub_write_same)
  have rest: "take (16 * k) (drop (inp + 16) ?m) = take (16 * k) (drop (inp + 16) m)"
    using Suc.prems(7) c out by (intro sub_write_other) auto
  let ?d = "cbc_cipher block ?c (take (16 * k) (drop (inp + 16) m))"
  have ih: "cbc_encrypt_blocks block vec (len - 16) (inp + 16) (out + 16) (At out) ?m =
      Some (r, inp + 16 + 16 * k, out + 16 + 16 * k, (if k = 0 then At out else At (out + 16 + 16 * k - 16)), write_at (out + 16) ?d ?m)"
    using Suc.IH [OF Suc.prems(1) iv, of "len - 16" "inp + 16"] Suc.prems(3-7) m rest by (auto simp: Let_def)
  have d: "length ?d = 16 * k" by (rule length_cbc_cipher) (use Suc.prems c in auto)
  have cd: "cbc_cipher block v (take (16 * Suc k) (drop inp m)) = ?c @ ?d"
    using Suc.prems(5) by (subst cbc_cipher_block) (simp_all add: drop_take add.commute)
  have "write_at (out + 16) ?d ?m = write_at out (?c @ ?d) m"
    using write_at_append_at [of out ?c ?d m] c d Suc.prems(6) by simp
  then show ?case using step ih cd by (auto simp: Let_def)
qed

lemma for_each_append: "for_each f (xs @ ys) s = do { s \<leftarrow> for_each f xs s; for_each f ys s }"
  by (induction xs arbitrary: s) (auto split: Option.bind_split)

lemma cbc_encrypt_bytes:
  assumes "iv_is m vec iv out v" "len \<le> 16" "inp + len \<le> length m" "out + 16 \<le> length m" "out \<le> inp \<or> inp + len \<le> out" "j \<le> 16"
  shows "for_each (cbc_encrypt_byte vec len inp out iv) [0..<j] m =
    Some (write_at out (take j (xor_bytes (take len (drop inp m) @ replicate (16 - len) 0) v)) m)"
  using assms(6)
proof (induction j)
  case (Suc j)
  note v = iv_is_length [OF assms(1)]
  let ?x = "xor_bytes (take len (drop inp m) @ replicate (16 - len) 0) v"
  let ?m = "write_at out (take j ?x) m"
  have x: "length ?x = 16" using assms(2,3) v by simp
  have l: "length (take j ?x) = j" using x Suc.prems by simp
  have m: "length ?m = length m" using l assms(4) Suc.prems by simp
  have iv: "iv_is ?m vec iv out v" by (rule iv_is_write [OF assms(1)]) (use l assms(4) Suc.prems in simp_all)
  then have rv: "rd_iv ?m vec iv j 1 = Some [v ! j]"
    using rd_iv_is [OF iv, of j 1] Suc.prems v by (simp add: take_Suc_conv_app_nth)
  have xj: "?x ! j = (if j < len then m ! (inp + j) XOR v ! j else v ! j)"
    using assms(2,3) v Suc.prems by (simp add: nth_xor_bytes nth_append)
  have byte: "cbc_encrypt_byte vec len inp out iv j ?m = Some (write_at (out + j) [?x ! j] ?m)"
  proof (cases "j < len")
    case True
    have "take 1 (drop (inp + j) ?m) = take 1 (drop (inp + j) m)"
      using assms(4,5) l True Suc.prems by (intro sub_write_other) auto
    then have "rd ?m (inp + j) 1 = Some [m ! (inp + j)]"
      using True assms(3) m by (simp add: rd_def take_Suc_conv_app_nth)
    then show ?thesis
      using True rv xj m assms(4) Suc.prems by (simp add: cbc_encrypt_byte_def wr_def)
  qed (use rv xj m assms(4) Suc.prems in \<open>simp add: cbc_encrypt_byte_def wr_def\<close>)
  have "write_at (out + j) [?x ! j] ?m = write_at out (take (Suc j) ?x) m"
    using write_at_append_at [of out "take j ?x" "[?x ! j]" m] l assms(4) x Suc.prems
    by (simp add: take_Suc_conv_app_nth)
  then show ?case using Suc byte by (simp add: for_each_append)
qed simp

lemma last_block_append: "length b = 16 \<Longrightarrow> last_block iv (a @ b) = b"
  by (auto simp: last_block_def)

lemma cbc_cipher_snoc:
  "block_cipher block \<Longrightarrow> length iv = 16 \<Longrightarrow> length p = 16 * k \<Longrightarrow> length q = 16 \<Longrightarrow>
    cbc_cipher block iv (p @ q) = cbc_cipher block iv p @ block (xor_bytes q (last_block iv (cbc_cipher block iv p)))"
proof (induction k arbitrary: iv p)
  case 0
  then show ?case by (simp add: cbc_cipher_block last_block_def)
next
  case (Suc k)
  let ?c = "block (xor_bytes (take 16 p) iv)"
  have c: "length ?c = 16" using Suc.prems by (simp add: block_cipher_def)
  let ?d = "cbc_cipher block ?c (drop 16 p)"
  have d: "length ?d = 16 * k" using Suc.prems c by (intro length_cbc_cipher) simp_all
  have "last_block iv (?c @ ?d) = last_block ?c ?d"
    using c d by (cases k) (auto simp: last_block_def)
  then show ?case
    using Suc.IH [OF Suc.prems(1) c, of "drop 16 p"] Suc.prems by (simp add: cbc_cipher_block)
qed

lemma up16_split: "up16 (16 * k + r) = 16 * k + (if r = 0 then 0 else 16)" if "r < 16"
proof -
  have "(16 * k + r + 15) div 16 = k + (r + 15) div 16" by (simp add: div_add1_eq [of "16 * k"])
  moreover have "(r + 15) div 16 = (if r = 0 then 0 else 1)" using that by auto
  ultimately show ?thesis by (simp add: up16_def)
qed

lemma cbc_encrypt_ok:
  assumes "block_cipher block" "length vec = 16" "out \<le> inp \<or> inp + len \<le> out" "inp + len \<le> length m" "out + up16 len \<le> length m"
  shows "CRYPTO_cbc128_encrypt block m inp out len vec =
    (let c = cbc_cipher block vec (zero_pad (take len (drop inp m))) in Some (write_at out c m, last_block vec c))"
proof -
  define k r where "k = len div 16" and "r = len mod 16"
  have len: "len = 16 * k + r" "r < 16" by (simp_all add: k_def r_def)
  note up = up16_split [OF len(2), of k]
  have room: "inp + 16 * k \<le> length m" "out + 16 * k \<le> length m" "out \<le> inp \<or> inp + 16 * k \<le> out"
    using assms len up by (auto split: if_splits)
  let ?p = "take (16 * k) (drop inp m)"
  let ?c = "cbc_cipher block vec ?p"
  let ?m = "write_at out ?c m"
  let ?iv = "if k = 0 then Ivec else At (out + 16 * k - 16)"
  have p: "length ?p = 16 * k" using room by simp
  have c: "length ?c = 16 * k" by (rule length_cbc_cipher [OF assms(1,2) p])
  have m: "length ?m = length m" using c room by simp
  have blocks: "cbc_encrypt_blocks block vec len inp out Ivec m = Some (r, inp + 16 * k, out + 16 * k, ?iv, ?m)"
    using cbc_encrypt_blocks_ok [OF assms(1) _ len room, of vec Ivec vec] assms(2) by (simp add: Let_def)
  have iv: "iv_is ?m vec ?iv (out + 16 * k) (last_block vec ?c)"
  proof (cases k)
    case (Suc j)
    have "drop (16 * j) ?c = take 16 (drop (16 * j) (take (16 * k) (drop out ?m)))"
      using c room Suc by (simp add: sub_write_same)
    also have "\<dots> = take 16 (drop (out + 16 * j) ?m)" using Suc by (simp add: drop_take add.commute)
    finally have "drop (16 * j) ?c = take 16 (drop (out + 16 * j) ?m)" .
    moreover have "last_block vec ?c = drop (16 * j) ?c"
      using c Suc by (auto simp: last_block_def)
    ultimately show ?thesis using room m Suc by simp
  qed (use assms(2) in \<open>simp add: last_block_def\<close>)
  show ?thesis
  proof (cases "r = 0")
    case True
    have "rd_iv ?m vec ?iv 0 16 = Some (last_block vec ?c)"
      using rd_iv_is [OF iv, of 0 16] iv_is_length [OF iv] by simp
    then show ?thesis
      using blocks True len up p
      by (simp add: CRYPTO_cbc128_encrypt_def cbc_encrypt_tail.simps zero_pad_def Let_def)
  next
    case False
    let ?q = "take r (drop (inp + 16 * k) m) @ replicate (16 - r) 0"
    let ?x = "xor_bytes ?q (last_block vec ?c)"
    have room2: "inp + 16 * k + r \<le> length m" "out + 16 * k + 16 \<le> length m" "out + 16 * k \<le> inp + 16 * k \<or> inp + 16 * k + r \<le> out + 16 * k"
      using assms(3-5) len up False by auto
    have q: "length ?q = 16" using room2 len by simp
    have x: "length ?x = 16" using q iv_is_length [OF iv] by simp
    have same: "take r (drop (inp + 16 * k) ?m) = take r (drop (inp + 16 * k) m)"
      using assms(3) c len room by (intro sub_write_other) auto
    have bytes: "for_each (cbc_encrypt_byte vec r (inp + 16 * k) (out + 16 * k) ?iv) [0..<16] ?m = Some (write_at (out + 16 * k) ?x ?m)"
      using cbc_encrypt_bytes [OF iv, of r "inp + 16 * k" 16] room2 m len(2) same x by simp
    note f = finish_block [of "out + 16 * k" ?m ?x block, unfolded m, OF room2(2) x assms(1)]
    let ?d = "block ?x"
    have d: "length ?d = 16" using x assms(1) by (simp add: block_cipher_def)
    have final: "write_at (out + 16 * k) ?d ?m = write_at out (?c @ ?d) m"
      using write_at_append_at [of out ?c ?d m] c d room2 by simp
    have tail: "cbc_encrypt_tail block vec r (inp + 16 * k) (out + 16 * k) ?iv ?m = Some (At (out + 16 * k), write_at out (?c @ ?d) m)"
      using False bytes f len(2) final by (subst cbc_encrypt_tail.simps) simp
    have "take 16 (drop (out + 16 * k) (write_at (out + 16 * k) ?d ?m)) = ?d"
      using d m room2 by (intro sub_write_same) simp_all
    then have "rd_iv (write_at out (?c @ ?d) m) vec (At (out + 16 * k)) 0 16 = Some ?d"
      using final c d room2 by (simp add: rd_def)
    moreover have "zero_pad (take len (drop inp m)) = ?p @ ?q"
      using len up False room2 assms(4) by (simp add: zero_pad_def sub_split)
    ultimately show ?thesis
      using blocks tail cbc_cipher_snoc [OF assms(1,2) p q] last_block_append [OF d]
      by (simp add: CRYPTO_cbc128_encrypt_def Let_def)
  qed
qed

section \<open>Decryption\<close>

lemma cbc_plain_Nil [simp]: "cbc_plain block iv [] = []"
  by (subst cbc_plain.simps) simp

lemma cbc_plain_block:
  "length c \<ge> 16 \<Longrightarrow> cbc_plain block iv c = xor_bytes (block (take 16 c)) iv @ cbc_plain block (take 16 c) (drop 16 c)"
  by (subst cbc_plain.simps) auto

lemma length_cbc_plain:
  "block_cipher block \<Longrightarrow> length iv = 16 \<Longrightarrow> length c = 16 * k \<Longrightarrow> length (cbc_plain block iv c) = 16 * k"
proof (induction k arbitrary: iv c)
  case (Suc k)
  then show ?case by (simp add: cbc_plain_block block_cipher_def)
qed simp

lemma last_block_drop:
  assumes "length c = 16 * Suc k"
  shows "last_block iv c = last_block (take 16 c) (drop 16 c)"
  using assms by (cases k) (auto simp: last_block_def add.commute)

lemma cbc_plain_snoc:
  "block_cipher block \<Longrightarrow> length iv = 16 \<Longrightarrow> length p = 16 * k \<Longrightarrow> length q = 16 \<Longrightarrow>
    cbc_plain block iv (p @ q) = cbc_plain block iv p @ xor_bytes (block q) (last_block iv p)"
proof (induction k arbitrary: iv p)
  case 0
  then show ?case by (simp add: cbc_plain_block last_block_def)
next
  case (Suc k)
  then show ?case
    using Suc.IH [of "take 16 p" "drop 16 p"] last_block_drop [of p k iv] by (simp add: cbc_plain_block)
qed

text \<open>Where a decryption may write, and what the two loops leave.\<close>

lemma cbc_decrypt_far_ok:
  assumes "block_cipher block" "iv_is m vec iv out v" "len = 16 * k + r" "r < 16"
    "inp + 16 * k \<le> length m" "out + 16 * k \<le> length m" "out + 32 \<le> inp \<or> inp + 16 * k \<le> out"
    "\<forall>p. iv = At p \<longrightarrow> p + 16 = inp"
  shows "\<exists>iv'. cbc_decrypt_far block vec len inp out iv m =
      Some (r, inp + 16 * k, out + 16 * k, iv', write_at out (cbc_plain block v (take (16 * k) (drop inp m))) m) \<and>
    rd_iv (write_at out (cbc_plain block v (take (16 * k) (drop inp m))) m) vec iv' 0 16 = Some (last_block v (take (16 * k) (drop inp m)))"
  using assms
proof (induction k arbitrary: len inp out iv v m)
  case 0
  then show ?case
    using rd_iv_is [OF 0(2), of 0 16] iv_is_length [OF 0(2)] by (simp add: cbc_decrypt_far.simps last_block_def)
next
  case (Suc k)
  let ?i = "take 16 (drop inp m)"
  let ?b = "block ?i"
  let ?w = "write_at out ?b m" and ?x = "xor_bytes ?b v"
  let ?m = "write_at out ?x m"
  note v = iv_is_length [OF Suc.prems(2)]
  have i: "length ?i = 16" using Suc.prems(5) by simp
  then have b: "length ?b = 16" using Suc.prems(1) by (simp add: block_cipher_def)
  then have x: "length ?x = 16" using v by simp
  have out: "out + 16 \<le> length m" using Suc.prems(6) by simp
  have iv0: "iv_is ?w vec iv out v" by (rule iv_is_write [OF Suc.prems(2)]) (use b out in simp_all)
  have "for_each (xor_word vec out iv out) [0, 8] ?w = Some (write_at out (xor_bytes (take 16 (drop out ?w)) v) ?w)"
    by (rule xor_words) (use iv0 out b in simp_all)
  then have w: "for_each (xor_word vec out iv out) [0, 8] ?w = Some ?m"
    using b out x by (simp add: sub_write_same write_at_twice)
  have step: "cbc_decrypt_far block vec len inp out iv m = cbc_decrypt_far block vec (len - 16) (inp + 16) (out + 16) (At inp) ?m"
    using Suc.prems(3,5) w b out by (subst cbc_decrypt_far.simps) (simp add: rd_def wr_def del: for_each.simps)
  have m: "length ?m = length m" using x out by simp
  have keep: "take n (drop q ?m) = take n (drop q m)" if "inp \<le> q" "q + n \<le> inp + 16 * Suc k" for q n
    using that Suc.prems(7) x out by (intro sub_write_other) auto
  have iv: "iv_is ?m vec (At inp) (out + 16) ?i"
    using Suc.prems(5,7) m keep [of inp 16] by auto
  let ?rest = "take (16 * k) (drop (inp + 16) m)"
  have all: "take (16 * Suc k) (drop inp m) = ?i @ ?rest" using sub_split [of 16 "16 * k" inp m] by simp
  have rest: "take (16 * k) (drop (inp + 16) ?m) = ?rest" by (rule keep) simp_all
  let ?d = "cbc_plain block ?i ?rest"
  have d: "length ?d = 16 * k" by (rule length_cbc_plain) (use Suc.prems i in auto)
  have fin: "write_at (out + 16) ?d ?m = write_at out (?x @ ?d) m"
    using write_at_append_at [of out ?x ?d m] x d Suc.prems(6) by simp
  obtain iv' where ih: "cbc_decrypt_far block vec (len - 16) (inp + 16) (out + 16) (At inp) ?m =
      Some (r, inp + 16 + 16 * k, out + 16 + 16 * k, iv', write_at (out + 16) ?d ?m)"
    "rd_iv (write_at (out + 16) ?d ?m) vec iv' 0 16 = Some (last_block ?i ?rest)"
  proof -
    have "len - 16 = 16 * k + r" "inp + 16 + 16 * k \<le> length ?m" "out + 16 + 16 * k \<le> length ?m"
      "out + 16 + 32 \<le> inp + 16 \<or> inp + 16 + 16 * k \<le> out + 16" "\<forall>p. At inp = At p \<longrightarrow> p + 16 = inp + 16"
      using Suc.prems(3,5-7) m by auto
    from Suc.IH [OF Suc.prems(1) iv this(1) Suc.prems(4) this(2-5)] that show thesis
      unfolding rest by blast
  qed
  have "cbc_plain block v (?i @ ?rest) = ?x @ ?d" using i by (subst cbc_plain_block) simp_all
  moreover have "last_block v (?i @ ?rest) = last_block ?i ?rest"
    using last_block_drop [of "?i @ ?rest" k v] i Suc.prems(5) by simp
  ultimately show ?case using step ih fin all by (intro exI [of _ iv']) simp
qed

lemma cbc_near_words:
  assumes "length tmp = 16" "length vec = 16" "inp + 16 \<le> length m" "out + 16 \<le> length m" "out \<le> inp \<or> inp + 16 \<le> out"
  shows "for_each (cbc_decrypt_word tmp inp out) [0, 8] (m, vec) = Some (write_at out (xor_bytes tmp vec) m, take 16 (drop inp m))"
proof -
  let ?x1 = "xor_bytes (take 8 tmp) (take 8 vec)" and ?x2 = "xor_bytes (drop 8 tmp) (drop 8 vec)"
  let ?c1 = "take 8 (drop inp m)" and ?c2 = "take 8 (drop (inp + 8) m)"
  let ?m = "write_at out ?x1 m" and ?v = "write_at 0 ?c1 vec"
  have l: "length ?x1 = 8" "length ?x2 = 8" "length ?c1 = 8" "length ?c2 = 8" using assms by simp_all
  have m: "length ?m = length m" using l assms(4) by simp
  have v: "?v = ?c1 @ drop 8 vec" using l by (simp add: write_at_def)
  have s1: "cbc_decrypt_word tmp inp out 0 (m, vec) = Some (?m, ?v)"
    using assms l by (simp add: cbc_decrypt_word_def rd_def wr_def)
  have "take 8 (drop (inp + 8) ?m) = ?c2" using assms(4,5) l by (intro sub_write_other) auto
  moreover have "take 8 (drop 8 ?v) = drop 8 vec" "write_at 8 ?c2 ?v = ?c1 @ ?c2"
    using l assms(2) v by (simp_all add: write_at_def)
  ultimately have s2: "cbc_decrypt_word tmp inp out 8 (?m, ?v) = Some (write_at (out + 8) ?x2 ?m, ?c1 @ ?c2)"
    using assms l m v by (simp add: cbc_decrypt_word_def rd_def wr_def)
  have "xor_bytes tmp vec = ?x1 @ ?x2"
    using append_take_drop_id [of 8 "xor_bytes tmp vec"] by (simp add: xor_bytes_split)
  then have "write_at (out + 8) ?x2 ?m = write_at out (xor_bytes tmp vec) m"
    using write_at_append_at [of out ?x1 ?x2 m] l assms(4) by simp
  then show ?thesis using s1 s2 sub_split [of 8 8 inp m] by simp
qed

lemma cbc_decrypt_near_ok:
  assumes "block_cipher block" "length v = 16" "len = 16 * k + r" "r < 16"
    "inp + 16 * k \<le> length m" "out + 16 * k \<le> length m" "out \<le> inp \<or> inp + 16 * k \<le> out"
  shows "cbc_decrypt_near block len inp out (m, v) =
    (let c = take (16 * k) (drop inp m) in
     Some (r, inp + 16 * k, out + 16 * k, write_at out (cbc_plain block v c) m, last_block v c))"
  using assms
proof (induction k arbitrary: len inp out v m)
  case 0
  then show ?case by (simp add: cbc_decrypt_near.simps last_block_def)
next
  case (Suc k)
  let ?i = "take 16 (drop inp m)"
  let ?b = "block ?i"
  let ?x = "xor_bytes ?b v"
  let ?m = "write_at out ?x m"
  have i: "length ?i = 16" using Suc.prems(5) by simp
  then have b: "length ?b = 16" using Suc.prems(1) by (simp add: block_cipher_def)
  then have x: "length ?x = 16" using Suc.prems(2) by simp
  have room: "inp + 16 \<le> length m" "out + 16 \<le> length m" "out \<le> inp \<or> inp + 16 \<le> out" using Suc.prems(5-7) by auto
  have m: "length ?m = length m" using x room by simp
  have step: "cbc_decrypt_near block len inp out (m, v) = cbc_decrypt_near block (len - 16) (inp + 16) (out + 16) (?m, ?i)"
    using Suc.prems(3) cbc_near_words [OF b Suc.prems(2) room] room
    by (subst cbc_decrypt_near.simps) (simp add: rd_def del: for_each.simps)
  let ?rest = "take (16 * k) (drop (inp + 16) m)"
  have all: "take (16 * Suc k) (drop inp m) = ?i @ ?rest" using sub_split [of 16 "16 * k" inp m] by simp
  have rest: "take (16 * k) (drop (inp + 16) ?m) = ?rest" using Suc.prems(7) x room by (intro sub_write_other) auto
  let ?d = "cbc_plain block ?i ?rest"
  have d: "length ?d = 16 * k" by (rule length_cbc_plain) (use Suc.prems i in auto)
  have fin: "write_at (out + 16) ?d ?m = write_at out (?x @ ?d) m"
    using write_at_append_at [of out ?x ?d m] x d Suc.prems(6) by simp
  have ih: "cbc_decrypt_near block (len - 16) (inp + 16) (out + 16) (?m, ?i) =
      Some (r, inp + 16 + 16 * k, out + 16 + 16 * k, write_at (out + 16) ?d ?m, last_block ?i ?rest)"
    using Suc.IH [OF Suc.prems(1) i, of "len - 16" "inp + 16" ?m "out + 16"] Suc.prems(3-7) m rest by (auto simp: Let_def)
  have "cbc_plain block v (?i @ ?rest) = ?x @ ?d" using i by (subst cbc_plain_block) simp_all
  moreover have "last_block v (?i @ ?rest) = last_block ?i ?rest"
    using last_block_drop [of "?i @ ?rest" k v] i Suc.prems(5) by simp
  ultimately show ?case using step ih fin all by (simp add: Let_def)
qed

text \<open>The last bytes: those decrypted, and those of the ciphertext that are only kept.\<close>

lemma cbc_decrypt_bytes:
  assumes "length tmp = 16" "length vec = 16" "len \<le> 16" "inp + len \<le> length m" "out + len \<le> length m" "out \<le> inp \<or> inp + len \<le> out" "j \<le> len"
  shows "for_each (cbc_decrypt_byte tmp inp out) [0..<j] (m, vec) =
    Some (write_at out (take j (xor_bytes tmp vec)) m, write_at 0 (take j (drop inp m)) vec)"
  using assms(7)
proof (induction j)
  case (Suc j)
  let ?x = "xor_bytes tmp vec"
  let ?m = "write_at out (take j ?x) m" and ?v = "write_at 0 (take j (drop inp m)) vec"
  have l: "length (take j ?x) = j" "length (take j (drop inp m)) = j" using assms Suc.prems by simp_all
  have m: "length ?m = length m" "length ?v = 16" using l assms Suc.prems by simp_all
  have "take 1 (drop (inp + j) ?m) = take 1 (drop (inp + j) m)"
    using assms(5,6) l Suc.prems by (intro sub_write_other) auto
  then have c: "rd ?m (inp + j) 1 = Some [m ! (inp + j)]"
    using m assms(4) Suc.prems by (simp add: rd_def take_Suc_conv_app_nth)
  have "take 1 (drop j ?v) = take 1 (drop j vec)"
    using assms(2,3) l Suc.prems by (intro sub_write_other) auto
  then have v: "rd ?v j 1 = Some [vec ! j]" "rd tmp j 1 = Some [tmp ! j]"
    using m assms(1,2,3) Suc.prems by (simp_all add: rd_def take_Suc_conv_app_nth)
  have xj: "?x ! j = tmp ! j XOR vec ! j" using assms Suc.prems by (simp add: nth_xor_bytes)
  have byte: "cbc_decrypt_byte tmp inp out j (?m, ?v) = Some (write_at (out + j) [?x ! j] ?m, write_at j [m ! (inp + j)] ?v)"
    using c v m assms(3,5) Suc.prems xj by (simp add: cbc_decrypt_byte_def wr_def)
  have "write_at (out + j) [?x ! j] ?m = write_at out (take (Suc j) ?x) m"
    using write_at_append_at [of out "take j ?x" "[?x ! j]" m] l assms Suc.prems by (simp add: take_Suc_conv_app_nth)
  moreover have "write_at j [m ! (inp + j)] ?v = write_at 0 (take (Suc j) (drop inp m)) vec"
    using write_at_append_at [of 0 "take j (drop inp m)" "[m ! (inp + j)]" vec] l assms Suc.prems
    by (simp add: take_Suc_conv_app_nth)
  ultimately show ?case using Suc byte by (simp add: for_each_append)
qed simp

lemma cbc_keep_bytes:
  assumes "length vec = 16" "inp + 16 \<le> length m" "i \<le> j" "j \<le> 16"
  shows "for_each (cbc_keep_byte inp) [i..<j] (m, vec) = Some (m, write_at i (take (j - i) (drop (inp + i) m)) vec)"
  using assms(3,4)
proof (induction j rule: dec_induct)
  case (step j)
  let ?v = "write_at i (take (j - i) (drop (inp + i) m)) vec"
  have l: "length (take (j - i) (drop (inp + i) m)) = j - i" using assms step by simp
  have v: "length ?v = 16" using l assms step by simp
  have c: "rd m (inp + j) 1 = Some [m ! (inp + j)]"
    using assms step by (simp add: rd_def take_Suc_conv_app_nth)
  have "cbc_keep_byte inp j (m, ?v) = Some (m, write_at j [m ! (inp + j)] ?v)"
    using c v step by (simp add: cbc_keep_byte_def wr_def)
  moreover have "write_at j [m ! (inp + j)] ?v = write_at i (take (Suc j - i) (drop (inp + i) m)) vec"
    using write_at_append_at [of i "take (j - i) (drop (inp + i) m)" "[m ! (inp + j)]" vec] l assms step
    by (simp add: Suc_diff_le take_Suc_conv_app_nth)
  ultimately show ?case using step by (simp add: for_each_append)
qed simp

lemma cbc_decrypt_tail_ok:
  assumes "block_cipher block" "length vec = 16" "r < 16" "r \<noteq> 0" "inp + 16 \<le> length m" "out + r \<le> length m" "out \<le> inp \<or> inp + 16 \<le> out"
  shows "cbc_decrypt_tail block r inp out (m, vec) =
    Some (write_at out (take r (xor_bytes (block (take 16 (drop inp m))) vec)) m, take 16 (drop inp m))"
proof -
  let ?b = "block (take 16 (drop inp m))"
  let ?x = "take r (xor_bytes ?b vec)"
  let ?m = "write_at out ?x m" and ?v = "write_at 0 (take r (drop inp m)) vec"
  have b: "length ?b = 16" using assms(1,5) by (simp add: block_cipher_def)
  have bytes: "for_each (cbc_decrypt_byte ?b inp out) [0..<r] (m, vec) = Some (?m, ?v)"
    by (rule cbc_decrypt_bytes [of _ _ r]) (use assms b in auto)
  have x: "length ?x = r" using b assms by simp
  have m: "length ?m = length m" using x assms by simp
  have v: "length ?v = 16" using assms by simp
  have keep: "for_each (cbc_keep_byte inp) [r..<16] (?m, ?v) = Some (?m, write_at r (take (16 - r) (drop (inp + r) ?m)) ?v)"
    by (rule cbc_keep_bytes [OF v]) (use assms m in simp_all)
  have other: "take (16 - r) (drop (inp + r) ?m) = take (16 - r) (drop (inp + r) m)"
    using assms x by (intro sub_write_other) auto
  have "write_at r (take (16 - r) (drop (inp + r) m)) ?v = write_at 0 (take r (drop inp m) @ take (16 - r) (drop (inp + r) m)) vec"
    using write_at_append_at [of 0 "take r (drop inp m)" "take (16 - r) (drop (inp + r) m)" vec] assms by simp
  also have "\<dots> = take 16 (drop inp m)"
    using sub_split [of r "16 - r" inp m] assms by (simp add: write_at_def)
  finally show ?thesis
    using bytes keep other assms by (subst cbc_decrypt_tail.simps) (simp add: rd_def min_def del: for_each.simps)
qed

lemma cbc_decrypt_ok:
  assumes "block_cipher block" "length vec = 16" "out \<le> inp \<or> inp + up16 len \<le> out" "inp + up16 len \<le> length m" "out + len \<le> length m"
  shows "CRYPTO_cbc128_decrypt block m inp out len vec =
    (let c = take (up16 len) (drop inp m) in Some (write_at out (take len (cbc_plain block vec c)) m, last_block vec c))"
proof -
  define k r where "k = len div 16" and "r = len mod 16"
  have len: "len = 16 * k + r" "r < 16" by (simp_all add: k_def r_def)
  note up = up16_split [OF len(2), of k]
  have room: "inp + 16 * k \<le> length m" "out + 16 * k \<le> length m" "out \<le> inp \<or> inp + 16 * k \<le> out"
    using assms len up by (auto split: if_splits)
  let ?c = "take (16 * k) (drop inp m)"
  let ?m = "write_at out (cbc_plain block vec ?c) m" and ?v = "last_block vec ?c"
  have c: "length ?c = 16 * k" using room by simp
  have p: "length (cbc_plain block vec ?c) = 16 * k" by (rule length_cbc_plain [OF assms(1,2) c])
  have m: "length ?m = length m" using p room by simp
  have v: "length ?v = 16" using c assms(2) by (cases k) (auto simp: last_block_def)
  have ass: "out \<le> inp \<or> inp + len \<le> out" using assms(3) len up by (auto split: if_splits)
  have blocks: "cbc_decrypt_blocks block len inp out (m, vec) = Some (r, inp + 16 * k, out + 16 * k, ?m, ?v)"
  proof (cases "(32 \<le> inp \<and> out \<le> inp - 32) \<or> inp < out")
    case True
    then have "out + 32 \<le> inp \<or> inp + 16 * k \<le> out" using room by auto
    from cbc_decrypt_far_ok [OF assms(1) _ len room(1,2) this, of vec Ivec vec] True show ?thesis
      using assms(2) by (auto simp: cbc_decrypt_blocks_def)
  next
    case False
    show ?thesis
      unfolding cbc_decrypt_blocks_def prod.case if_not_P [OF False] using cbc_decrypt_near_ok [OF assms(1,2) len room] by (simp add: Let_def)
  qed
  show ?thesis
  proof (cases "r = 0")
    case True
    then show ?thesis
      using blocks ass len up p by (simp add: CRYPTO_cbc128_decrypt_def cbc_decrypt_tail.simps Let_def)
  next
    case False
    let ?i = "take 16 (drop (inp + 16 * k) m)"
    have room2: "inp + 16 * k + 16 \<le> length m" "out + 16 * k + r \<le> length m" "out + 16 * k \<le> inp + 16 * k \<or> inp + 16 * k + 16 \<le> out + 16 * k"
      using assms(3-5) len up False by auto
    have i: "length ?i = 16" using room2 by simp
    have same: "take 16 (drop (inp + 16 * k) ?m) = ?i"
      using assms(3) p len up False room by (intro sub_write_other) auto
    let ?x = "take r (xor_bytes (block ?i) ?v)"
    have x: "length ?x = r" using assms(1) i v len by (simp add: block_cipher_def)
    have tail: "cbc_decrypt_tail block r (inp + 16 * k) (out + 16 * k) (?m, ?v) = Some (write_at (out + 16 * k) ?x ?m, ?i)"
      using cbc_decrypt_tail_ok [OF assms(1) v len(2) False, of "inp + 16 * k" ?m "out + 16 * k"] room2 m same by simp
    have fin: "write_at (out + 16 * k) ?x ?m = write_at out (cbc_plain block vec ?c @ ?x) m"
      using write_at_append_at [of out "cbc_plain block vec ?c" ?x m] p x room2 by simp
    have all: "take (up16 len) (drop inp m) = ?c @ ?i" using len up False sub_split [of "16 * k" 16 inp m] by simp
    have snoc: "cbc_plain block vec (?c @ ?i) = cbc_plain block vec ?c @ xor_bytes (block ?i) ?v"
      by (rule cbc_plain_snoc [OF assms(1,2) c i])
    show ?thesis
      using blocks ass tail fin all snoc last_block_append [OF i] p len
      by (simp add: CRYPTO_cbc128_decrypt_def Let_def)
  qed
qed

section \<open>Properties\<close>

lemma cbc_plain_cipher:
  assumes "block_cipher block" "\<And>b. length b = 16 \<Longrightarrow> dblock (block b) = b"
  shows "length iv = 16 \<Longrightarrow> length p = 16 * k \<Longrightarrow> cbc_plain dblock iv (cbc_cipher block iv p) = p"
proof (induction k arbitrary: iv p)
  case (Suc k)
  let ?x = "xor_bytes (take 16 p) iv"
  have x: "length ?x = 16" using Suc.prems by simp
  then have c: "length (block ?x) = 16" using assms(1) by (simp add: block_cipher_def)
  have "xor_bytes ?x iv = take 16 p"
    using Suc.prems by (intro nth_equalityI) (simp_all add: nth_xor_bytes xor.assoc)
  then show ?case
    using Suc.IH [OF c, of "drop 16 p"] Suc.prems c assms(2) [OF x] by (simp add: cbc_cipher_block cbc_plain_block)
qed simp

lemma length_zero_pad: "length (zero_pad p) = up16 (length p)"
  by (simp add: zero_pad_def up16_def)

text \<open>C39: CBC on buffers in one memory. Where the output does not begin inside the input that is still
  to be read (at or before it, so in place too, or behind its end), encryption is that of SP 800-38A on
  the input padded with zeros, and \<open>ivec\<close> is left as the last block of the ciphertext for the next call.
  Decryption gives the input back wherever it is written under the same condition, so in place, a few bytes before or
  apart, by either of its two loops. It writes nothing but the plaintext, though it reads whole blocks,
  and no call accesses anything outside of the memory.\<close>

theorem cbc_in_shared_memory:
  assumes "block_cipher block" "block_cipher dblock" "\<And>b. length b = 16 \<Longrightarrow> dblock (block b) = b" "length vec = 16"
    and "inp + len \<le> length m" "out + up16 len \<le> length m" "out \<le> inp \<or> inp + len \<le> out"
    and "dst + len \<le> length m" "dst \<le> out \<or> out + up16 len \<le> dst"
  defines "p \<equiv> take len (drop inp m)"
  defines "c \<equiv> cbc_cipher block vec (zero_pad p)"
  shows "CRYPTO_cbc128_encrypt block m inp out len vec = Some (write_at out c m, last_block vec c) \<and>
    CRYPTO_cbc128_decrypt dblock (write_at out c m) out dst len vec = Some (write_at dst p (write_at out c m), last_block vec c)"
proof -
  have p: "length p = len" using assms(5) by (simp add: p_def)
  have up: "up16 len = 16 * ((len + 15) div 16)" by (simp add: up16_def)
  then have pad: "length (zero_pad p) = 16 * ((len + 15) div 16)" using p by (simp add: length_zero_pad)
  have c: "length c = up16 len" using length_cbc_cipher [OF assms(1,4) pad] up by (simp add: c_def)
  have enc: "CRYPTO_cbc128_encrypt block m inp out len vec = Some (write_at out c m, last_block vec c)"
    using cbc_encrypt_ok [OF assms(1,4,7,5,6)] by (simp add: c_def p_def Let_def)
  have m: "length (write_at out c m) = length m" using c assms(6) by simp
  have "take (up16 len) (drop out (write_at out c m)) = c" using c assms(6) by (simp add: sub_write_same)
  moreover have "take len (cbc_plain dblock vec c) = p"
    using cbc_plain_cipher [OF assms(1,3,4) pad] p by (simp add: c_def zero_pad_def)
  ultimately have "CRYPTO_cbc128_decrypt dblock (write_at out c m) out dst len vec =
      Some (write_at dst p (write_at out c m), last_block vec c)"
    using cbc_decrypt_ok [OF assms(2,4,9), of "write_at out c m"] assms(6,8) m by (simp add: Let_def)
  with enc show ?thesis by simp
qed

text \<open>Forty bytes encrypted in place, and decrypted to eight bytes before.\<close>

theorem cbc_in_shared_memory_witness:
  "let m = map word_of_nat [0..<60]; c = cbc_cipher rev (replicate 16 7) (zero_pad (take 40 (drop 10 m))) in
    CRYPTO_cbc128_encrypt rev m 10 10 40 (replicate 16 7) = Some (write_at 10 c m, last_block (replicate 16 7) c) \<and>
    CRYPTO_cbc128_decrypt rev (write_at 10 c m) 10 2 40 (replicate 16 7) =
      Some (write_at 2 (take 40 (drop 10 m)) (write_at 10 c m), last_block (replicate 16 7) c)"
  using cbc_in_shared_memory [of rev rev "replicate 16 7" 10 40 "map word_of_nat [0..<60]" 10 2]
  by (simp add: block_cipher_def up16_def Let_def)

end
