(* ===== verification/KeyWrap.thy ===== *)
theory KeyWrap
  imports Modes
begin

text \<open>
  AES key wrap (\<^verbatim>\<open>fipsmodule/aes/key_wrap.c\<close>), plain and padded. \<open>AES_encrypt\<close> and \<open>AES_decrypt\<close>, which the
  build replaces by assembly, are the arguments \<open>block\<close> and \<open>dblock\<close>, with the key. A result of nothing is the
  return value of a failure; else it is what is written, whose length is the value returned or \<open>*out_len\<close>.
\<close>

section \<open>Key wrap\<close>

definition kDefaultIV :: bytes where
  "kDefaultIV = [0xa6, 0xa6, 0xa6, 0xa6, 0xa6, 0xa6, 0xa6, 0xa6]"

definition kBound :: nat where
  "kBound = 6"

abbreviation INT_MAX :: nat where
  "INT_MAX \<equiv> 2147483647"

text \<open>The bytes of \<open>t\<close> into the last four of the eight bytes of \<open>A\<close>.\<close>

definition xor_counter :: "u32 \<Rightarrow> bytes \<Rightarrow> bytes" where
  "xor_counter t A =
     A[7 := A ! 7 XOR ucast (t AND 0xff), 6 := A ! 6 XOR ucast (drop_bit 8 t AND 0xff),
       5 := A ! 5 XOR ucast (drop_bit 16 t AND 0xff), 4 := A ! 4 XOR ucast (drop_bit 24 t AND 0xff)]"

text \<open>
  The body of the loops. Of the sixteen bytes of \<open>A\<close> only the first eight last from one turn to the next. The registers
  are in \<open>out\<close>, from its ninth byte when wrapping.
\<close>

definition wrap_step :: "(bytes \<Rightarrow> bytes) \<Rightarrow> nat \<Rightarrow> nat \<times> nat \<Rightarrow> bytes \<times> bytes \<Rightarrow> bytes \<times> bytes" where
  "wrap_step block n = (\<lambda>(j, i) (A, out).
     let B = block (A @ take 8 (drop (8 * i) out));
         B = xor_counter (word_of_nat (n * j + i)) B in
     (take 8 B, write_at (8 * i) (drop 8 B) out))"

definition unwrap_step :: "(bytes \<Rightarrow> bytes) \<Rightarrow> nat \<Rightarrow> nat \<times> nat \<Rightarrow> bytes \<times> bytes \<Rightarrow> bytes \<times> bytes" where
  "unwrap_step dblock n = (\<lambda>(j, i) (A, out).
     let A = xor_counter (word_of_nat (n * j + i)) A;
         B = dblock (A @ take 8 (drop (8 * (i - 1)) out)) in
     (take 8 B, write_at (8 * (i - 1)) (drop 8 B) out))"

definition wrap_turns :: "nat \<Rightarrow> (nat \<times> nat) list" where
  "wrap_turns n = concat (map (\<lambda>j. map (\<lambda>i. (j, i)) [1..<n + 1]) [0..<kBound])"

text \<open>Counted down; the test \<open>j < kBound\<close> ends the loop when the unsigned \<open>j\<close> wraps below zero.\<close>

definition unwrap_turns :: "nat \<Rightarrow> (nat \<times> nat) list" where
  "unwrap_turns n = concat (map (\<lambda>j. map (\<lambda>i. (j, i)) (rev [1..<n + 1])) (rev [0..<kBound]))"

text \<open>A null \<open>iv\<close> is the default; the first eight bytes of the output are written last.\<close>

definition AES_wrap_key :: "(bytes \<Rightarrow> bytes) \<Rightarrow> bytes option \<Rightarrow> bytes \<Rightarrow> bytes option" where
  "AES_wrap_key block iv inp =
     (let in_len = length inp in
      if in_len > INT_MAX - 8 \<or> in_len < 16 \<or> in_len mod 8 \<noteq> 0 then None
      else
        let iv = (case iv of None \<Rightarrow> kDefaultIV | Some iv \<Rightarrow> iv);
            n = in_len div 8;
            (A, out) = fold (wrap_step block n) (wrap_turns n) (take 8 iv, replicate 8 0 @ inp) in
        Some (write_at 0 A out))"

definition aes_unwrap_key_inner :: "(bytes \<Rightarrow> bytes) \<Rightarrow> bytes \<Rightarrow> (bytes \<times> bytes) option" where
  "aes_unwrap_key_inner dblock inp =
     (let in_len = length inp in
      if in_len > INT_MAX \<or> in_len < 24 \<or> in_len mod 8 \<noteq> 0 then None
      else let n = in_len div 8 - 1 in Some (fold (unwrap_step dblock n) (unwrap_turns n) (take 8 inp, drop 8 inp)))"

definition AES_unwrap_key :: "(bytes \<Rightarrow> bytes) \<Rightarrow> bytes option \<Rightarrow> bytes \<Rightarrow> bytes option" where
  "AES_unwrap_key dblock iv inp =
     (case aes_unwrap_key_inner dblock inp of
        None \<Rightarrow> None
      | Some (calculated_iv, out) \<Rightarrow>
          let iv = (case iv of None \<Rightarrow> kDefaultIV | Some iv \<Rightarrow> iv) in
          if CRYPTO_memcmp calculated_iv iv 8 \<noteq> 0 then None else Some out)"

section \<open>Key wrap with padding\<close>

definition kPaddingConstant :: bytes where
  "kPaddingConstant = [0xa6, 0x59, 0x59, 0xa6]"

text \<open>\<open>mem\<close> is \<open>malloc\<close>, with what the memory holds; sizes are taken modulo the range of \<open>size_t\<close>.\<close>

definition AES_wrap_key_padded :: "(nat \<Rightarrow> bytes option) \<Rightarrow> (bytes \<Rightarrow> bytes) \<Rightarrow> nat \<Rightarrow> bytes \<Rightarrow> bytes option" where
  "AES_wrap_key_padded mem block max_out inp =
     (let in_len = length inp;
          padded_len = (in_len + 7) mod SIZE_MOD div 8 * 8 in
      if in_len = 0 \<or> in_len > 0xffffffff \<or> (in_len + 7) mod SIZE_MOD < in_len \<or>
         (padded_len + 8) mod SIZE_MOD < padded_len \<or> max_out < (padded_len + 8) mod SIZE_MOD then None
      else
        let iv = kPaddingConstant @ be_bytes 4 in_len in
        if in_len \<le> 8 then Some (block (iv @ write_at 0 inp (replicate 8 0)))
        else
          (case mem padded_len of
             None \<Rightarrow> None
           | Some padded_in \<Rightarrow> AES_wrap_key block (Some iv) (write_at 0 inp (write_at (padded_len - 8) (replicate 8 0) padded_in))))"

definition constant_time_eq_int :: "int \<Rightarrow> int \<Rightarrow> u64" where
  "constant_time_eq_int a b = constant_time_eq_w (word_of_int a) (word_of_int b)"

text \<open>The checks on the eight bytes \<open>iv\<close> and on the padding: a mask, and the length claimed.\<close>

definition padding_ok :: "nat \<Rightarrow> bytes \<Rightarrow> bytes \<Rightarrow> u64 \<times> u64" where
  "padding_ok in_len iv out =
     (let ok = constant_time_eq_int (uint (CRYPTO_memcmp iv kPaddingConstant 4)) 0;
          claimed_len = word_of_nat (be_nat (take 4 (drop 4 iv)));
          ok = ok AND NOT (constant_time_is_zero_w claimed_len);
          ok = ok AND constant_time_eq_w (drop_bit 3 (claimed_len - 1)) (drop_bit 3 (word_of_nat (in_len - 9)));
          ok = fold (\<lambda>i ok. ok AND constant_time_is_zero_w (ucast (constant_time_ge_8 (word_of_nat i) claimed_len AND out ! i)))
                 [in_len - 15..<in_len - 8] ok in
      (ok, claimed_len))"

definition AES_unwrap_key_padded :: "(bytes \<Rightarrow> bytes) \<Rightarrow> nat \<Rightarrow> bytes \<Rightarrow> bytes option" where
  "AES_unwrap_key_padded dblock max_out inp =
     (let in_len = length inp in
      if in_len < 16 \<or> max_out < in_len - 8 then None
      else
        case (if in_len = 16 then let b = dblock inp in Some (take 8 b, drop 8 b) else aes_unwrap_key_inner dblock inp) of
          None \<Rightarrow> None
        | Some (iv, out) \<Rightarrow>
            let (ok, claimed_len) = padding_ok in_len iv out;
                out_len = constant_time_select_w ok claimed_len 0 in
            if ok AND 1 \<noteq> 0 then Some (take (unat out_len) out) else None)"

section \<open>The two directions\<close>

lemma length_xor_counter [simp]: "length (xor_counter t A) = length A"
  by (simp add: xor_counter_def)

lemma xor_counter_twice: "8 \<le> length A \<Longrightarrow> xor_counter t (xor_counter t A) = A"
  by (intro nth_equalityI) (auto simp: xor_counter_def nth_list_update xor.assoc)

lemma take_xor_counter: "8 \<le> length A \<Longrightarrow> take 8 (xor_counter t A) = xor_counter t (take 8 A)"
  by (simp add: xor_counter_def take_update_swap)

lemma drop_xor_counter: "drop 8 (xor_counter t A) = drop 8 A"
  by (simp add: xor_counter_def)

lemma unwrap_turns_rev: "unwrap_turns n = rev (wrap_turns n)"
  by (simp add: unwrap_turns_def wrap_turns_def rev_concat rev_map comp_def)

definition inverse_ciphers :: "(bytes \<Rightarrow> bytes) \<Rightarrow> (bytes \<Rightarrow> bytes) \<Rightarrow> bool" where
  "inverse_ciphers block dblock \<longleftrightarrow> block_cipher block \<and> block_cipher dblock \<and>
     (\<forall>b. length b = 16 \<longrightarrow> dblock (block b) = b \<and> block (dblock b) = b)"

lemma write_at_shift: "length z = k \<Longrightarrow> write_at (k + p) bs (z @ u) = z @ write_at p bs u"
  by (simp add: write_at_def)

lemma write_back: "p + 8 \<le> length u \<Longrightarrow> length b = 8 \<Longrightarrow> take 8 (drop p (write_at p b u)) = b"
  by (simp add: write_at_def)

lemma write_over: "p + 8 \<le> length u \<Longrightarrow> length b = 8 \<Longrightarrow> write_at p (take 8 (drop p u)) (write_at p b u) = u"
  using append_take_drop_id [of 8 "drop p u"] by (simp add: write_at_def add.commute)

text \<open>One turn undoes the other; the registers of the wrapping stand behind eight bytes \<open>z\<close>.\<close>

lemma unwrap_wrap_step:
  assumes inv: "inverse_ciphers block dblock" and A: "length A = 8" and i: "1 \<le> i" "8 * i \<le> length u" and z: "length z = 8"
  shows "\<exists>B v. wrap_step block n (j, i) (A, z @ u) = (B, z @ v) \<and> unwrap_step dblock n (j, i) (B, v) = (A, u) \<and>
    length B = 8 \<and> length v = length u"
proof -
  let ?p = "8 * (i - 1)" and ?t = "word_of_nat (n * j + i) :: u32"
  have p: "8 * i = 8 + ?p" "?p + 8 \<le> length u" using i by simp_all
  let ?x = "A @ take 8 (drop ?p u)"
  have x: "length ?x = 16" using A p by simp
  then have b: "length (block ?x) = 16" "dblock (block ?x) = ?x" using inv by (simp_all add: inverse_ciphers_def block_cipher_def)
  define B where "B = take 8 (xor_counter ?t (block ?x))"
  define v where "v = write_at ?p (drop 8 (block ?x)) u"
  have B: "length B = 8" using b by (simp add: B_def)
  have sub: "take 8 (drop (8 * i) (z @ u)) = take 8 (drop ?p u)" unfolding p(1) using z by simp
  have w: "wrap_step block n (j, i) (A, z @ u) = (B, z @ v)"
  proof -
    have "write_at (8 * i) (drop 8 (block ?x)) (z @ u) = z @ v"
      unfolding p(1) v_def by (rule write_at_shift [OF z])
    then show ?thesis unfolding wrap_step_def Let_def prod.case sub by (simp only: drop_xor_counter B_def)
  qed
  have "xor_counter ?t B = take 8 (block ?x)" using b by (simp add: B_def take_xor_counter xor_counter_twice)
  moreover have "take 8 (drop ?p v) = drop 8 (block ?x)" using p(2) b by (simp add: v_def write_back)
  ultimately have "dblock (xor_counter ?t B @ take 8 (drop ?p v)) = ?x" using b(2) by simp
  then have "unwrap_step dblock n (j, i) (B, v) = (A, u)"
    using A p(2) b write_over [of ?p u "drop 8 (block ?x)"] by (simp add: unwrap_step_def Let_def v_def)
  then show ?thesis using w B p(2) b by (auto simp: v_def)
qed

lemma wrap_unwrap_step:
  assumes inv: "inverse_ciphers block dblock" and B: "length B = 8" and i: "1 \<le> i" "8 * i \<le> length v" and z: "length z = 8"
  shows "\<exists>A u. unwrap_step dblock n (j, i) (B, v) = (A, u) \<and> wrap_step block n (j, i) (A, z @ u) = (B, z @ v) \<and>
    length A = 8 \<and> length u = length v"
proof -
  let ?p = "8 * (i - 1)" and ?t = "word_of_nat (n * j + i) :: u32"
  have p: "8 * i = 8 + ?p" "?p + 8 \<le> length v" using i by simp_all
  let ?x = "xor_counter ?t B @ take 8 (drop ?p v)"
  have x: "length ?x = 16" using B p by simp
  then have b: "length (dblock ?x) = 16" "block (dblock ?x) = ?x" using inv by (simp_all add: inverse_ciphers_def block_cipher_def)
  define A where "A = take 8 (dblock ?x)"
  define u where "u = write_at ?p (drop 8 (dblock ?x)) v"
  have A: "length A = 8" using b by (simp add: A_def)
  have w: "unwrap_step dblock n (j, i) (B, v) = (A, u)" by (simp add: unwrap_step_def Let_def A_def u_def)
  have "take 8 (drop ?p u) = drop 8 (dblock ?x)" using p(2) b by (simp add: u_def write_back)
  moreover have "take 8 (drop (8 * i) (z @ u)) = take 8 (drop ?p u)" unfolding p(1) using z by simp
  ultimately have "block (A @ take 8 (drop (8 * i) (z @ u))) = ?x" using b by (simp add: A_def)
  moreover have "take 8 (xor_counter ?t ?x) = B" "drop 8 (xor_counter ?t ?x) = take 8 (drop ?p v)"
    using B by (simp_all add: take_xor_counter drop_xor_counter xor_counter_twice)
  moreover have "write_at (8 * i) (take 8 (drop ?p v)) (z @ u) = z @ v"
    unfolding p(1) using write_at_shift [OF z, of ?p _ u] write_over [OF p(2)] b by (simp add: u_def)
  ultimately have "wrap_step block n (j, i) (A, z @ u) = (B, z @ v)" by (simp add: wrap_step_def Let_def)
  then show ?thesis using w A p(2) b by (auto simp: u_def)
qed

lemma unwrap_wrap_turns:
  assumes inv: "inverse_ciphers block dblock" and z: "length z = 8"
  shows "length A = 8 \<Longrightarrow> \<forall>(j, i) \<in> set L. 1 \<le> i \<and> 8 * i \<le> length u \<Longrightarrow>
    \<exists>B v. fold (wrap_step block n) L (A, z @ u) = (B, z @ v) \<and> fold (unwrap_step dblock n) (rev L) (B, v) = (A, u) \<and>
      length B = 8 \<and> length v = length u"
proof (induction L arbitrary: A u)
  case (Cons x L)
  obtain j i where x: "x = (j, i)" by fastforce
  obtain A1 u1 where s: "wrap_step block n (j, i) (A, z @ u) = (A1, z @ u1)" "unwrap_step dblock n (j, i) (A1, u1) = (A, u)"
    "length A1 = 8" "length u1 = length u"
    using unwrap_wrap_step [OF inv Cons.prems(1) _ _ z, of i u n j] Cons.prems(2) x by auto
  obtain B v where "fold (wrap_step block n) L (A1, z @ u1) = (B, z @ v)" "fold (unwrap_step dblock n) (rev L) (B, v) = (A1, u1)"
    "length B = 8" "length v = length u1"
    using Cons.IH [OF s(3), of u1] Cons.prems(2) s(4) by auto
  then show ?case using s x by auto
qed simp

lemma wrap_unwrap_turns:
  assumes inv: "inverse_ciphers block dblock" and z: "length z = 8"
  shows "length B = 8 \<Longrightarrow> \<forall>(j, i) \<in> set L. 1 \<le> i \<and> 8 * i \<le> length v \<Longrightarrow>
    \<exists>A u. fold (unwrap_step dblock n) (rev L) (B, v) = (A, u) \<and> fold (wrap_step block n) L (A, z @ u) = (B, z @ v) \<and>
      length A = 8 \<and> length u = length v"
proof (induction L arbitrary: B v rule: rev_induct)
  case (snoc x L)
  obtain j i where x: "x = (j, i)" by fastforce
  obtain B1 v1 where s: "unwrap_step dblock n (j, i) (B, v) = (B1, v1)" "wrap_step block n (j, i) (B1, z @ v1) = (B, z @ v)"
    "length B1 = 8" "length v1 = length v"
    using wrap_unwrap_step [OF inv snoc.prems(1) _ _ z, of i v n j] snoc.prems(2) x by auto
  obtain A u where "fold (unwrap_step dblock n) (rev L) (B1, v1) = (A, u)" "fold (wrap_step block n) L (A, z @ u) = (B1, z @ v1)"
    "length A = 8" "length u = length v1"
    using snoc.IH [OF s(3), of v1] snoc.prems(2) s(4) by auto
  then show ?case using s x by auto
qed simp

lemma wrap_turns_range: "n = length u div 8 \<Longrightarrow> \<forall>(j, i) \<in> set (wrap_turns n). 1 \<le> i \<and> 8 * i \<le> length u"
  by (auto simp: wrap_turns_def)

text \<open>The core of both pairs of functions, with the value that authenticates given and returned.\<close>

lemma unwrap_inner_iff:
  assumes inv: "inverse_ciphers block dblock" and iv: "length iv = 8"
  shows "aes_unwrap_key_inner dblock c = Some (iv, p) \<longleftrightarrow> AES_wrap_key block (Some iv) p = Some c"
proof
  assume c: "AES_wrap_key block (Some iv) p = Some c"
  then have len: "\<not> (length p > INT_MAX - 8 \<or> length p < 16 \<or> length p mod 8 \<noteq> 0)"
    by (auto simp: AES_wrap_key_def Let_def split: if_splits)
  let ?n = "length p div 8"
  obtain B v where f: "fold (wrap_step block ?n) (wrap_turns ?n) (iv, replicate 8 0 @ p) = (B, replicate 8 0 @ v)"
    "fold (unwrap_step dblock ?n) (rev (wrap_turns ?n)) (B, v) = (iv, p)" "length B = 8" "length v = length p"
    using unwrap_wrap_turns [OF inv _ iv, of "replicate 8 0" "wrap_turns ?n" p ?n] wrap_turns_range [OF refl, of p] by auto
  have "c = B @ v"
    using c len f iv by (simp add: AES_wrap_key_def Let_def write_at_def)
  then show "aes_unwrap_key_inner dblock c = Some (iv, p)"
    using f len by (auto simp: aes_unwrap_key_inner_def unwrap_turns_rev Let_def)
next
  assume p: "aes_unwrap_key_inner dblock c = Some (iv, p)"
  then have len: "\<not> (length c > INT_MAX \<or> length c < 24 \<or> length c mod 8 \<noteq> 0)"
    by (auto simp: aes_unwrap_key_inner_def Let_def split: if_splits)
  let ?B = "take 8 c" and ?v = "drop 8 c"
  let ?n = "length ?v div 8"
  have n: "length c div 8 - 1 = ?n" using len by auto
  have B: "length ?B = 8" using len by simp
  obtain A u where f: "fold (unwrap_step dblock ?n) (rev (wrap_turns ?n)) (?B, ?v) = (A, u)"
    "fold (wrap_step block ?n) (wrap_turns ?n) (A, replicate 8 0 @ u) = (?B, replicate 8 0 @ ?v)" "length A = 8" "length u = length ?v"
    using wrap_unwrap_turns [OF inv _ B, of "replicate 8 0" "wrap_turns ?n" ?v ?n] wrap_turns_range [OF refl, of ?v] by auto
  have "A = iv" "u = p"
    using p len f n by (simp_all add: aes_unwrap_key_inner_def unwrap_turns_rev Let_def)
  then show "AES_wrap_key block (Some iv) p = Some c"
    using f len iv by (auto simp: AES_wrap_key_def Let_def write_at_def)
qed

lemma unwrap_inner_length:
  assumes inv: "inverse_ciphers block dblock" and p: "aes_unwrap_key_inner dblock c = Some (iv, p)"
  shows "length iv = 8" "length p = length c - 8"
proof -
  have len: "\<not> (length c > INT_MAX \<or> length c < 24 \<or> length c mod 8 \<noteq> 0)"
    using p by (auto simp: aes_unwrap_key_inner_def Let_def split: if_splits)
  let ?B = "take 8 c" and ?v = "drop 8 c"
  let ?n = "length ?v div 8"
  have "length c div 8 - 1 = ?n" using len by auto
  moreover have "length ?B = 8" using len by simp
  ultimately show "length iv = 8" "length p = length c - 8"
    using wrap_unwrap_turns [OF inv, of "replicate 8 0" ?B "wrap_turns ?n" ?v ?n] wrap_turns_range [OF refl, of ?v] p len
    by (auto simp: aes_unwrap_key_inner_def unwrap_turns_rev Let_def)
qed

lemma unwrap_key_iff:
  assumes inv: "inverse_ciphers block dblock" and iv: "\<forall>v. iv = Some v \<longrightarrow> length v = 8"
  shows "AES_unwrap_key dblock iv c = Some p \<longleftrightarrow> AES_wrap_key block iv p = Some c"
proof -
  define v where "v = (case iv of None \<Rightarrow> kDefaultIV | Some v \<Rightarrow> v)"
  have v: "length v = 8" using iv by (auto simp: v_def kDefaultIV_def split: option.splits)
  have w: "AES_wrap_key block iv p = AES_wrap_key block (Some v) p" by (simp add: AES_wrap_key_def v_def Let_def)
  have "AES_unwrap_key dblock iv c = Some p \<longleftrightarrow> aes_unwrap_key_inner dblock c = Some (v, p)"
  proof (cases "aes_unwrap_key_inner dblock c")
    case (Some r)
    obtain a q where r: "r = (a, q)" by fastforce
    have "length a = 8" by (rule unwrap_inner_length [OF inv]) (use Some r in simp)
    then have "CRYPTO_memcmp a v 8 = 0 \<longleftrightarrow> a = v" using v by (simp add: CRYPTO_memcmp_eq_0)
    then show ?thesis using Some r by (auto simp: AES_unwrap_key_def v_def [symmetric] Let_def)
  qed (simp add: AES_unwrap_key_def)
  then show ?thesis using unwrap_inner_iff [OF inv v] w by simp
qed

section \<open>Padding\<close>

lemma fold_and_mask:
  "fold (\<lambda>i ok. ok AND (if P i then - 1 else 0)) xs (if b then - 1 else (0 :: u64)) = (if b \<and> (\<forall>i \<in> set xs. P i) then - 1 else 0)"
proof (induction xs arbitrary: b)
  case (Cons x xs)
  have "(if b then - 1 else 0) AND (if P x then - 1 else 0) = (if b \<and> P x then - 1 else (0 :: u64))" by simp
  then show ?case using Cons.IH [of "b \<and> P x"] by simp
qed simp

text \<open>What the masks compute: the constant, and a length that leaves less than eight bytes of padding, all zero.\<close>

lemma padding_ok_eq:
  assumes iv: "length iv = 8" and c: "16 \<le> in_len" "in_len < SIZE_MOD" and out: "length out = in_len - 8"
  defines "k \<equiv> be_nat (drop 4 iv)"
  shows "padding_ok in_len iv out =
    (if take 4 iv = kPaddingConstant \<and> k \<noteq> 0 \<and> (k - 1) div 8 = (in_len - 9) div 8 \<and>
       (\<forall>i. in_len - 15 \<le> i \<and> i < in_len - 8 \<and> k \<le> i \<longrightarrow> out ! i = 0) then - 1 else 0, word_of_nat k)"
proof -
  let ?l = "word_of_nat k :: u64"
  have "k < 256 ^ 4" using be_nat_less [of "drop 4 iv"] iv by (simp add: k_def)
  then have k: "unat ?l = k" by (simp add: unat_of_nat)
  have m: "constant_time_eq_int (uint (CRYPTO_memcmp iv kPaddingConstant 4)) 0 = (if take 4 iv = kPaddingConstant then - 1 else 0)"
  proof -
    have "CRYPTO_memcmp iv kPaddingConstant 4 = 0 \<longleftrightarrow> take 4 iv = kPaddingConstant"
      using CRYPTO_memcmp_eq_0 [of 4 iv kPaddingConstant] iv by (simp add: kPaddingConstant_def)
    moreover have "word_of_int (uint (x :: u8)) = (0 :: u64) \<longleftrightarrow> x = 0" for x
      by (simp add: ucast_eq [symmetric] word_unat_eq_iff)
    ultimately show ?thesis by (simp add: constant_time_eq_int_def constant_time_eq_w_eq)
  qed
  have z: "NOT (constant_time_is_zero_w ?l) = (if k \<noteq> 0 then - 1 else 0)"
    using k by (auto simp: constant_time_is_zero_w_eq)
  have e: "k \<noteq> 0 \<Longrightarrow> constant_time_eq_w (drop_bit 3 (?l - 1)) (drop_bit 3 (word_of_nat (in_len - 9))) =
      (if (k - 1) div 8 = (in_len - 9) div 8 then - 1 else 0)"
  proof -
    assume "k \<noteq> 0"
    then have "?l \<noteq> 0" using k by auto
    then have "unat (?l - 1) = k - 1" using k by (simp add: unat_minus_one)
    moreover have "unat (word_of_nat (in_len - 9) :: u64) = in_len - 9" by (rule unat_of_nat_u64) (use c in simp)
    ultimately have "drop_bit 3 (?l - 1) = drop_bit 3 (word_of_nat (in_len - 9) :: u64) \<longleftrightarrow> (k - 1) div 8 = (in_len - 9) div 8"
      by (simp add: word_unat_eq_iff unat_shift_right)
    then show ?thesis by (simp add: constant_time_eq_w_eq)
  qed
  have b: "constant_time_is_zero_w (ucast (constant_time_ge_8 (word_of_nat i) ?l AND out ! i)) = (if k \<le> i \<longrightarrow> out ! i = 0 then - 1 else 0)"
    if "i \<in> set [in_len - 15..<in_len - 8]" for i
  proof -
    have i: "unat (word_of_nat i :: u64) = i" using that c by (intro unat_of_nat_u64) auto
    have u: "(ucast (x :: u8) = (0 :: u64)) = (x = 0)" for x
      by (simp add: word_unat_eq_iff)
    show ?thesis using i k by (simp add: constant_time_8_eqs constant_time_is_zero_w_eq word_le_nat_alt u)
  qed
  define ok where "ok \<longleftrightarrow> take 4 iv = kPaddingConstant \<and> k \<noteq> 0 \<and> (k - 1) div 8 = (in_len - 9) div 8"
  have start: "constant_time_eq_int (uint (CRYPTO_memcmp iv kPaddingConstant 4)) 0 AND NOT (constant_time_is_zero_w ?l) AND
      constant_time_eq_w (drop_bit 3 (?l - 1)) (drop_bit 3 (word_of_nat (in_len - 9))) = (if ok then - 1 else 0)"
    using m z e by (cases "k = 0") (auto simp: ok_def)
  have "fold (\<lambda>i ok. ok AND constant_time_is_zero_w (ucast (constant_time_ge_8 (word_of_nat i) ?l AND out ! i))) [in_len - 15..<in_len - 8] s =
      fold (\<lambda>i ok. ok AND (if k \<le> i \<longrightarrow> out ! i = 0 then - 1 else 0)) [in_len - 15..<in_len - 8] s" for s
    by (rule fold_cong) (use b in simp_all)
  then have "padding_ok in_len iv out =
      (fold (\<lambda>i ok. ok AND (if k \<le> i \<longrightarrow> out ! i = 0 then - 1 else 0)) [in_len - 15..<in_len - 8] (if ok then - 1 else 0), ?l)"
    using iv start by (simp add: padding_ok_def Let_def k_def and.assoc)
  also have "\<dots> = (if ok \<and> (\<forall>i. in_len - 15 \<le> i \<and> i < in_len - 8 \<and> k \<le> i \<longrightarrow> out ! i = 0) then - 1 else 0, ?l)"
    unfolding fold_and_mask by auto
  finally show ?thesis by (simp only: ok_def conj_assoc)
qed

definition pad8 :: "bytes \<Rightarrow> bytes" where
  "pad8 p = p @ replicate ((length p + 7) div 8 * 8 - length p) 0"

definition padded_iv :: "bytes \<Rightarrow> bytes" where
  "padded_iv p = kPaddingConstant @ be_bytes 4 (length p)"

lemma length_padded_iv [simp]: "length (padded_iv p) = 8"
  by (simp add: padded_iv_def kPaddingConstant_def)

lemma up8: "(n + 7) div 8 * 8 = 8 * ((n + 7) div 8)" "n \<le> 8 * ((n + 7) div 8)" "8 * ((n + 7) div 8) < n + 8"
  for n :: nat
  by simp_all

lemma div8: "8 * (n div 8) \<le> n" "n < 8 * (n div 8) + 8" for n :: nat
  by simp_all

lemma length_pad8: "length (pad8 p) = 8 * ((length p + 7) div 8)"
  using up8(2) [of "length p"] by (simp add: pad8_def up8(1))

text \<open>The checks hold exactly of the padding of a key.\<close>

lemma padding_iff:
  assumes iv: "length iv = 8" and out: "length out = 8 * m" "0 < m"
  defines "k \<equiv> be_nat (drop 4 iv)"
  shows "take 4 iv = kPaddingConstant \<and> k \<noteq> 0 \<and> (k - 1) div 8 = (8 * m - 1) div 8 \<and>
      (\<forall>i. 8 * m - 7 \<le> i \<and> i < 8 * m \<and> k \<le> i \<longrightarrow> out ! i = 0) \<and> p = take k out \<longleftrightarrow>
    p \<noteq> [] \<and> length p \<le> 0xffffffff \<and> iv = padded_iv p \<and> out = pad8 p" (is "?L \<longleftrightarrow> ?R")
proof
  assume L: ?L
  have "k \<noteq> 0" "(k - 1) div 8 = (8 * m - 1) div 8" using L by simp_all
  moreover have "(8 * m - 1) div 8 = m - 1" using out(2) by (cases m) auto
  ultimately have "k \<noteq> 0" "(k - 1) div 8 = m - 1" by simp_all
  then have km: "8 * m - 7 \<le> k" "k \<le> 8 * m"
    using div8 [of "k - 1"] out(2) by simp_all
  have p: "length p = k" using L km out by simp
  have k: "k < 256 ^ 4" using be_nat_less [of "drop 4 iv"] iv by (simp add: k_def)
  have "be_bytes 4 k = drop 4 iv" unfolding k_def by (rule be_bytes_be_nat) (simp add: iv)
  then have "iv = padded_iv p" using append_take_drop_id [of 4 iv] L p by (simp add: padded_iv_def)
  moreover have "(k + 7) div 8 = m" by (rule div_nat_eqI) (use km out(2) \<open>k \<noteq> 0\<close> in simp_all)
  then have "out = pad8 p"
    using L out km p by (intro nth_equalityI) (auto simp: pad8_def nth_append)
  ultimately show ?R using p k \<open>k \<noteq> 0\<close> by auto
next
  assume R: ?R
  have k: "k = length p" using R be_nat_be_bytes [of 4 "length p"] by (simp add: k_def padded_iv_def kPaddingConstant_def)
  have len: "8 * m = 8 * ((length p + 7) div 8)" using R out(1) length_pad8 [of p] by simp
  have "length p + 7 = (k - 1) + 8" using k R by (cases p) auto
  moreover have "m = (length p + 7) div 8" using len by simp
  ultimately have "m = (k - 1) div 8 + 1" by simp
  moreover have "(8 * m - 1) div 8 = m - 1" using out(2) by (cases m) auto
  ultimately have "(k - 1) div 8 = (8 * m - 1) div 8" by simp
  moreover have "out ! i = 0" if "i < 8 * m" "k \<le> i" for i
  proof -
    have "out = p @ replicate (8 * m - length p) 0" using R len by (simp add: pad8_def up8(1))
    moreover have "i - length p < 8 * m - length p" using that k by (intro diff_less_mono) simp_all
    ultimately show ?thesis using that k by (simp add: nth_append)
  qed
  moreover have "p = take k out" "k \<noteq> 0" using R k by (simp_all add: pad8_def)
  moreover have "take 4 iv = kPaddingConstant" using R by (simp add: padded_iv_def kPaddingConstant_def)
  ultimately show ?L by blast
qed

lemma pad_buffer:
  assumes "N < length p + 8" "length p \<le> N" "length raw = N" "8 \<le> N"
  shows "write_at 0 p (write_at (N - 8) (replicate 8 0) raw) = p @ replicate (N - length p) (0 :: u8)"
proof -
  have "write_at (N - 8) (replicate 8 0) raw = take (N - 8) raw @ replicate 8 0"
    using assms by (simp add: write_at_def)
  moreover have "drop (length p) (take (N - 8) raw @ replicate 8 (0 :: u8)) = replicate (N - length p) 0"
    using assms by (simp add: drop_replicate)
  ultimately show ?thesis by (simp add: write_at_def)
qed

lemma wrap_padded_eq:
  assumes mem: "\<forall>n. \<exists>raw. mem n = Some raw \<and> length raw = n" and p: "length p < SIZE_MOD - 16"
  shows "AES_wrap_key_padded mem block max_out p =
    (if p = [] \<or> length p > 0xffffffff \<or> max_out < length (pad8 p) + 8 then None
     else if length p \<le> 8 then Some (block (padded_iv p @ pad8 p)) else AES_wrap_key block (Some (padded_iv p)) (pad8 p))"
proof (cases "p = [] \<or> length p > 0xffffffff \<or> max_out < length (pad8 p) + 8")
  case True
  then show ?thesis using p up8 [of "length p"] by (auto simp: AES_wrap_key_padded_def Let_def length_pad8)
next
  case False
  let ?n = "8 * ((length p + 7) div 8)"
  note u = up8 [of "length p"]
  have n: "(length p + 7) mod SIZE_MOD div 8 * 8 = ?n" "(?n + 8) mod SIZE_MOD = ?n + 8" "(length p + 7) mod SIZE_MOD = length p + 7"
    using p u by simp_all
  obtain raw where raw: "mem ?n = Some raw" "length raw = ?n" using mem by blast
  have small: "length p \<le> 8 \<Longrightarrow> ?n = 8" using False by (cases p) auto
  have w8: "length p \<le> 8 \<Longrightarrow> write_at 0 p (replicate 8 0) = pad8 p"
    using small by (simp add: pad8_def write_at_def up8(1))
  have wn: "write_at 0 p (write_at (?n - 8) (replicate 8 0) raw) = pad8 p"
  proof -
    have "0 < (length p + 7) div 8" using False by (cases p) auto
    then have "8 \<le> ?n" by simp
    from pad_buffer [OF u(3,2) raw(2) this] show ?thesis by (simp only: pad8_def u(1))
  qed
  have "\<not> ?n + 8 < ?n" "\<not> length p + 7 < length p" by simp_all
  then show ?thesis
    unfolding AES_wrap_key_padded_def Let_def n(3) u(1) n(2)
    using False raw(1) w8 wn by (simp add: padded_iv_def length_pad8)
qed

lemma inner_mod: "aes_unwrap_key_inner dblock c = Some (iv, out) \<Longrightarrow> \<exists>m. length c = 8 * m + 8 \<and> 1 < m \<and> length c \<le> INT_MAX"
  by (intro exI [of _ "length c div 8 - 1"]) (auto simp: aes_unwrap_key_inner_def Let_def split: if_splits)

text \<open>What unwrapping yields before the checks, and the function with the checks spelt out.\<close>

definition unwrap_core :: "(bytes \<Rightarrow> bytes) \<Rightarrow> bytes \<Rightarrow> (bytes \<times> bytes) option" where
  "unwrap_core dblock c =
     (if length c = 16 then Some (take 8 (dblock c), drop 8 (dblock c)) else aes_unwrap_key_inner dblock c)"

lemma unwrap_core_shape:
  assumes "inverse_ciphers block dblock" "unwrap_core dblock c = Some (iv, out)"
  shows "length iv = 8 \<and> (\<exists>m. 0 < m \<and> length out = 8 * m \<and> length c = 8 * m + 8 \<and> length c < SIZE_MOD)"
proof (cases "length c = 16")
  case True
  then show ?thesis using assms by (auto simp: unwrap_core_def inverse_ciphers_def block_cipher_def)
next
  case False
  then have inner: "aes_unwrap_key_inner dblock c = Some (iv, out)" using assms(2) by (simp add: unwrap_core_def)
  obtain m where "length c = 8 * m + 8" "1 < m" "length c \<le> INT_MAX" using inner_mod [OF inner] by blast
  then show ?thesis using unwrap_inner_length [OF assms(1) inner] by (intro conjI exI [of _ m]) simp_all
qed

lemma unwrap_padded_eq:
  assumes inv: "inverse_ciphers block dblock" and max: "length c \<le> max_out + 8"
  shows "AES_unwrap_key_padded dblock max_out c = Some p \<longleftrightarrow>
    16 \<le> length c \<and> p \<noteq> [] \<and> length p \<le> 0xffffffff \<and> unwrap_core dblock c = Some (padded_iv p, pad8 p)"
proof (cases "16 \<le> length c")
  case True
  show ?thesis
  proof (cases "unwrap_core dblock c")
    case None
    then show ?thesis using True max by (auto simp: AES_unwrap_key_padded_def unwrap_core_def Let_def split: if_splits)
  next
    case (Some r)
    obtain iv out where r: "r = (iv, out)" by fastforce
    obtain m where m: "length iv = 8" "0 < m" "length out = 8 * m" "length c = 8 * m + 8" "length c < SIZE_MOD"
      using unwrap_core_shape [OF inv, of c iv out] Some r by auto
    define k where "k = be_nat (drop 4 iv)"
    have kl: "unat (word_of_nat k :: u64) = k"
      using be_nat_less [of "drop 4 iv"] m(1) by (simp add: k_def unat_of_nat)
    define ok where "ok \<longleftrightarrow> take 4 iv = kPaddingConstant \<and> k \<noteq> 0 \<and> (k - 1) div 8 = (8 * m - 1) div 8 \<and>
      (\<forall>i. 8 * m - 7 \<le> i \<and> i < 8 * m \<and> k \<le> i \<longrightarrow> out ! i = 0)"
    have pad: "padding_ok (length c) iv out = (if ok then - 1 else 0, word_of_nat k)"
      using padding_ok_eq [OF m(1) True m(5), of out] m(3,4) by (simp add: ok_def k_def)
    have "AES_unwrap_key_padded dblock max_out c = (if ok then Some (take k out) else None)"
    proof -
      have "(if length c = 16 then let b = dblock c in Some (take 8 b, drop 8 b) else aes_unwrap_key_inner dblock c) = Some (iv, out)"
        using Some r by (simp add: unwrap_core_def Let_def split: if_splits)
      moreover have "\<not> max_out < length c - 8" using max by simp
      ultimately show ?thesis
        using True pad kl by (simp add: AES_unwrap_key_padded_def Let_def constant_time_select_w_eq)
    qed
    then have "AES_unwrap_key_padded dblock max_out c = Some p \<longleftrightarrow> ok \<and> p = take k out" by auto
    also have "\<dots> \<longleftrightarrow> p \<noteq> [] \<and> length p \<le> 0xffffffff \<and> iv = padded_iv p \<and> out = pad8 p"
      using padding_iff [OF m(1,3,2), of p] by (simp add: ok_def k_def conj_assoc)
    finally show ?thesis using Some r True by auto
  qed
qed (simp add: AES_unwrap_key_padded_def)

lemma unwrap_padded_iff:
  assumes inv: "inverse_ciphers block dblock" and mem: "\<forall>n. \<exists>raw. mem n = Some raw \<and> length raw = n"
    and p: "length p < SIZE_MOD - 16" and max: "length c \<le> max_out + 8" "length c \<le> max_c"
  shows "AES_unwrap_key_padded dblock max_out c = Some p \<longleftrightarrow> AES_wrap_key_padded mem block max_c p = Some c"
proof -
  have size: "length (padded_iv p @ pad8 p) = 16" if "p \<noteq> []" "length p \<le> 8"
    using that by (cases p) (auto simp: length_pad8)
  have core: "unwrap_core dblock c = Some (padded_iv p, pad8 p) \<longleftrightarrow>
      (if length p \<le> 8 then Some (block (padded_iv p @ pad8 p)) else AES_wrap_key block (Some (padded_iv p)) (pad8 p)) = Some c \<and>
      length c = length (pad8 p) + 8" if "p \<noteq> []"
  proof (cases "length p \<le> 8")
    case True
    show ?thesis
    proof
      assume u: "unwrap_core dblock c = Some (padded_iv p, pad8 p)"
      obtain m where m: "length (pad8 p) = 8 * m" "length c = 8 * m + 8" using unwrap_core_shape [OF inv u] by blast
      then have c: "length c = 16" using size [OF that True] by simp
      then have "dblock c = padded_iv p @ pad8 p"
        using u append_take_drop_id [of 8 "dblock c"] by (simp add: unwrap_core_def)
      then show "(if length p \<le> 8 then Some (block (padded_iv p @ pad8 p)) else AES_wrap_key block (Some (padded_iv p)) (pad8 p)) = Some c \<and>
          length c = length (pad8 p) + 8"
        using inv c True m by (metis inverse_ciphers_def)
    next
      assume w: "(if length p \<le> 8 then Some (block (padded_iv p @ pad8 p)) else AES_wrap_key block (Some (padded_iv p)) (pad8 p)) = Some c \<and>
          length c = length (pad8 p) + 8"
      then have "c = block (padded_iv p @ pad8 p)" "length c = 16" using True size [OF that True] by simp_all
      moreover from this have "dblock c = padded_iv p @ pad8 p" using inv size [OF that True] by (simp add: inverse_ciphers_def)
      ultimately show "unwrap_core dblock c = Some (padded_iv p, pad8 p)" by (simp add: unwrap_core_def)
    qed
  next
    case False
    have big: "8 < length (pad8 p)" using False up8(2) [of "length p"] by (simp add: length_pad8)
    have "unwrap_core dblock c = Some (padded_iv p, pad8 p) \<longleftrightarrow> aes_unwrap_key_inner dblock c = Some (padded_iv p, pad8 p)"
    proof (cases "length c = 16")
      case True
      then have "length (drop 8 (dblock c)) = 8" "aes_unwrap_key_inner dblock c = None"
        using inv by (simp_all add: inverse_ciphers_def block_cipher_def aes_unwrap_key_inner_def)
      moreover from this have "drop 8 (dblock c) \<noteq> pad8 p" using big by (metis nat_neq_iff)
      ultimately show ?thesis using True by (simp add: unwrap_core_def)
    qed (simp add: unwrap_core_def)
    then show ?thesis
      using unwrap_inner_iff [OF inv length_padded_iv, of c p "pad8 p"] unwrap_inner_length(2) [OF inv, of c "padded_iv p" "pad8 p"]
        inner_mod [of dblock c "padded_iv p" "pad8 p"] False by auto
  qed
  have "length c = length (pad8 p) + 8 \<Longrightarrow> p \<noteq> [] \<Longrightarrow> 16 \<le> length c"
    by (cases p) (auto simp: length_pad8)
  moreover have "length c = length (pad8 p) + 8"
    if "(if length p \<le> 8 then Some (block (padded_iv p @ pad8 p)) else AES_wrap_key block (Some (padded_iv p)) (pad8 p)) = Some c" "p \<noteq> []"
  proof (cases "length p \<le> 8")
    case True
    then show ?thesis using that size inv by (auto simp: inverse_ciphers_def block_cipher_def)
  next
    case False
    then have inner: "aes_unwrap_key_inner dblock c = Some (padded_iv p, pad8 p)"
      using that unwrap_inner_iff [OF inv length_padded_iv] by simp
    then show ?thesis using unwrap_inner_length(2) [OF inv inner] inner_mod [OF inner] by auto
  qed
  ultimately show ?thesis
    unfolding unwrap_padded_eq [OF inv max(1)] wrap_padded_eq [OF mem p]
    using core max(2) by auto
qed

section \<open>Properties\<close>

text \<open>C40: key wrap is exact in both directions. For a cipher and its inverse, the plain functions unwrap \<open>c\<close> to \<open>p\<close> under
  an initial value exactly when wrapping \<open>p\<close> under it gives \<open>c\<close>, and so do the padded functions where the output
  buffers are long enough and memory can be allocated: whatever is wrapped comes back, and nothing that is not the
  wrapping of a key, with the lengths, the initial value and the zero padding of one, is accepted. The checks of the
  padding are made on masks in constant time.\<close>

theorem AES_key_wrap_is_exact:
  assumes "inverse_ciphers block dblock"
    and "\<forall>v. iv = Some v \<longrightarrow> length v = 8"
    and "\<forall>n. \<exists>raw. mem n = Some raw \<and> length raw = n"
    and "length p < SIZE_MOD - 16" "length c \<le> max_out + 8" "length c \<le> max_c"
  shows "(AES_unwrap_key dblock iv c = Some p \<longleftrightarrow> AES_wrap_key block iv p = Some c) \<and>
    (AES_unwrap_key_padded dblock max_out c = Some p \<longleftrightarrow> AES_wrap_key_padded mem block max_c p = Some c)"
  using unwrap_key_iff [OF assms(1,2)] unwrap_padded_iff [OF assms(1,3-6)] by simp

theorem AES_key_wrap_is_exact_witness:
  "let c = rev (kPaddingConstant @ [0, 0, 0, 3, 7, 8, 9, 0, 0, 0, 0, 0]) in
    AES_wrap_key_padded (\<lambda>n. Some (replicate n 1)) rev 16 [7, 8, 9] = Some c \<and>
    AES_unwrap_key_padded rev 8 c = Some [7, 8, 9]"
proof -
  let ?c = "rev (kPaddingConstant @ [0, 0, 0, 3, 7, 8, 9, 0, 0, 0, 0, 0])"
  have w: "AES_wrap_key_padded (\<lambda>n. Some (replicate n 1)) rev 16 [7, 8, 9] = Some ?c"
  proof -
    have "padded_iv [7, 8, 9] = kPaddingConstant @ [0, 0, 0, 3]" "pad8 [7, 8, 9] = [7, 8, 9, 0, 0, 0, 0, 0]"
      by code_simp+
    then show ?thesis
      using wrap_padded_eq [of "\<lambda>n. Some (replicate n 1)" "[7, 8, 9]" rev 16] by simp
  qed
  have "inverse_ciphers rev rev" by (simp add: inverse_ciphers_def block_cipher_def)
  from AES_key_wrap_is_exact [OF this, of None "\<lambda>n. Some (replicate n 1)" "[7, 8, 9]" ?c 8 16] w show ?thesis
    by (simp add: kPaddingConstant_def)
qed

end
