(* ===== verification/Spec2Isabelle.thy ===== *)
theory Spec2Isabelle
  imports Ber Unicode Base64 Stack Lhash Buf Md45 Sha512 BioPair PbBounds Hmac StreamModes Cbc KeyWrap
begin

text \<open>
  Relpi is an iOS application (Swift) whose repository carries the C and C++ libraries it is
  built on as pods. The C code with logic of its own is in two of them: the crypto library below gRPC,
  \<^verbatim>\<open>src/Relpi/Pods/BoringSSL-GRPC/src/crypto\<close> (file names below are relative to it), and the protocol
  buffer runtime of the Firebase clients, \<^verbatim>\<open>src/Relpi/Pods/nanopb\<close>. This
  development models their foundations: the memory and string functions everything uses, the reader and
  the writer of DER that all structured data goes through, the text encodings, the containers,
  the buffers and in-memory I/O, the message digests with HMAC and HKDF on top of them,
  the modes of the block ciphers and AES key wrap, and the streams and field codecs of the protocol buffers.

  \<^bold>\<open>How the parts interact.\<close>
  \<^item> \<open>Prelude\<close> holds the machine integers, the shape \<open>('s, 'a) op\<close> of a C function that mutates
    a structure and returns zero on failure, big-endian byte strings and block writes.
  \<^item> \<open>Mem\<close> (\<^verbatim>\<open>internal.h\<close>, \<^verbatim>\<open>mem.c\<close>): the constant-time masks and the string functions.
  \<^item> \<open>Cbs\<close>, \<open>CbsAsn1\<close> (\<^verbatim>\<open>bytestring/cbs.c\<close>): the reader. A \<open>CBS\<close>, a pointer and a length in C,
    is the list of the bytes still to be read; every \<open>CBS_get_*\<close> is an \<open>op\<close> on it.
  \<^item> \<open>Cbb\<close>, \<open>CbbContract\<close>, \<open>CbbAsn1\<close> (\<^verbatim>\<open>bytestring/cbb.c\<close>): the writer. The C builder is a
    chain of \<open>CBB\<close>s, each pointing to its open child, on one shared buffer; the model keeps the buffer
    and the list of the open children in one record, and a C pointer to a \<open>CBB\<close> is its depth in the chain.
    The contract is a stack of open frames, and the commands refine it. \<open>Sink\<close> is the interface that
    the typed writers use of the builder: its laws are proved for the builder in \<open>CbbAsn1\<close>.
  \<^item> \<open>SetOf\<close>, \<open>Ber\<close>, \<open>Unicode\<close>, \<open>Base64\<close>: SET OF sorting, the BER to DER converter, the text
    encodings (\<^verbatim>\<open>bytestring/unicode.c\<close>), and base64 (\<^verbatim>\<open>base64/base64.c\<close>): clients of reader and writer.
  \<^item> \<open>Compare\<close>, \<open>Stack\<close> (\<^verbatim>\<open>stack/stack.c\<close>), \<open>Lhash\<close> (\<^verbatim>\<open>lhash/lhash.c\<close>): the containers, over the caller's
    comparison and hash functions. \<open>Refine\<close> is the interface of an implementation that simulates
    an abstract machine.
  \<^item> \<open>Buf\<close> (\<^verbatim>\<open>mem.c\<close>, \<^verbatim>\<open>buf/buf.c\<close>): allocation with its size header, and \<open>BUF_MEM\<close>.
  \<^item> \<open>Bio\<close>, \<open>BioRing\<close>, \<open>BioPair\<close> (\<^verbatim>\<open>bio/bio.c\<close>, \<^verbatim>\<open>bio/pair.c\<close>): the BIO pair. BIOs live in a heap of
    records with addresses, so that the two ends can point at each other, be freed in any order and be chained.
  \<^item> \<open>Blocks\<close>, \<open>Md32\<close>, \<open>Md45\<close>, \<open>Sha\<close>, \<open>Sha512\<close> (\<^verbatim>\<open>fipsmodule/{digest,md4,md5,sha}\<close>): the block
    collector shared by the digests, and MD4, MD5, SHA-1, SHA-224, SHA-256, SHA-384, SHA-512.
    \<open>Blocks\<close> is the interface of a routine that is fed in pieces of any size and works in
    blocks; base64 and the digests are instances.
  \<^item> \<open>Evp\<close> (\<^verbatim>\<open>fipsmodule/digest/{digest,digests}.c\<close>), \<open>Hmac\<close> (\<^verbatim>\<open>fipsmodule/hmac/hmac.c\<close>,
    \<^verbatim>\<open>hkdf/hkdf.c\<close>): the table of the digests, the contexts that hold one, and the keyed functions that use
    three contexts each. The interface \<open>message_digest\<close> is what they need of a digest; every entry of the table gives it.
  \<^item> \<open>Modes\<close>, \<open>StreamModes\<close>, \<open>Cbc\<close> (\<^verbatim>\<open>fipsmodule/modes/{ctr,ofb,cfb,cbc}.c\<close>), \<open>KeyWrap\<close>
    (\<^verbatim>\<open>fipsmodule/aes/key_wrap.c\<close>): the modes over a cipher that is an argument, in C too. The interfaces \<open>byte_mode\<close> and
    \<open>inverse_modes\<close> are a mode that carries a part of a block from call to call, and a pair of them that are inverse. CBC
    is on places in one memory, since its loops are chosen by how input and output overlap.
  \<^item> \<open>Pb\<close>, \<open>PbWire\<close>, \<open>PbField\<close>, \<open>PbRound\<close>, \<open>PbCodec\<close>, \<open>PbProps\<close>, \<open>PbBounds\<close>
    (\<^verbatim>\<open>nanopb/pb_encode.c\<close>, \<^verbatim>\<open>nanopb/pb_decode.c\<close>): input and output streams over a callback, varints and tags, the encoder and the
    decoder of each type of field, repeated fields. A stream is a record with the state of its callback; the
    destination of a field is the bytes of its memory.

  \<^bold>\<open>What the lemmas show.\<close>
  \<^item> Reader: every getter accepts exactly the inputs DER allows, returns the value written there and
    advances past it, and leaves the input alone on failure where the C code does.
  \<^item> Writer: a run of commands that succeeds leaves exactly the specified bytes; it succeeds whenever
    there is room; a fixed buffer is never overrun, and what is written is read back by the reader.
  \<^item> Converter: its output is DER throughout and stands for the input; DER is left alone; and a shape
    of input on which the search for BER goes wrong.
  \<^item> Text: decoders accept exactly the canonical encodings; encode and decode are inverse for
    every split of the input into pieces; output buffers of the documented sizes are enough.
  \<^item> Containers: the stack is the list, the hash table is the map, for every sequence of operations and
    every pattern of allocation failures; the load of the table stays between its bounds.
  \<^item> Buffers: every access is inside its block; sizes in the last eight bytes of the range are not safe.
  \<^item> BIO pair: two bounded queues, for every sequence of calls; the comments on the fields of the structure
    hold in every reachable heap, no call on a live BIO is undefined, every loop ends.
  \<^item> Digests: for any split of the message the result is what the standard (RFC 1320, RFC 1321,
    FIPS 180-4) defines for the whole message.
  \<^item> HMAC and HKDF: for every digest, the functions of RFC 2104 and RFC 5869, failing exactly when memory
    runs out or the output is too long; a context is rewound for the next message without allocating.
  \<^item> Modes and key wrap: decryption gives back what was encrypted, the stream modes for any cut into calls, CBC
    for overlapping buffers too; counter mode and CBC are those of SP 800-38A; a key is unwrapped exactly from its wrapping.
  \<^item> Protocol buffers: what the encoders of a sequence of fields write is read back by the decoders, unknown
    fields skipped; a sizing stream counts exactly what a buffer receives; decoders stay inside the field and
    the buffer on any input; and the inputs on which the 32-bit varint decoder returns a wrong value.

  \<^bold>\<open>Parameters.\<close> Code that is not in the repository is an argument: \<open>malloc\<close> (in most theories reduced to
  \<open>mem n\<close>, whether a request of \<open>n\<close> bytes succeeds), the caller's callbacks, hash and comparison
  functions, the \<open>dup\<close> of a key context, the block
  cipher of the modes (which for AES the build takes from assembly; the properties ask that it maps blocks to blocks,
  and for CBC and key wrap that decryption is its inverse), the function that does counter mode on 32 bits, the callbacks of the protocol buffer streams. \<open>qsort\<close>, of the C library, is an insertion sort; what is proved of it holds for
  any sort where the order is total on the data.

  \<^bold>\<open>Bounds and fuel.\<close> The converter and the search for BER recurse on the depth of nesting, which the
  C code bounds at 2048; the fuel of the model is one more than the length of the input and the lemmas show
  it is never used up. Sizes are below two to the 62 where the theorems on \<open>BUF_MEM\<close> say so;
  the load bound of the hash table covers two to the 59 insertions. Bit counters of the
  digests wrap modulo two to the 64 (to the 128 in SHA-512), as in the code and the standards.

  \<^bold>\<open>Not modelled.\<close> The Swift and Objective-C application and the C++ pods (this is a development
  of the C core); the assembly versions of the digests, chosen at build time; the rest of the
  crypto library (the ciphers, the authenticated modes, big numbers, public keys, X.509, TLS), which stands on these foundations; the message level of the
  protocol buffers (field iterators, sub-messages, extensions) and the generated field tables; functions that only release or wipe memory; the error queue: a C function
  that pushes an error and returns zero is one that returns zero.
\<close>

end
